(* ===== verification/Prelude.thy ===== *)
theory Prelude
  imports Main "HOL-Library.Word"
begin

text \<open>
  Shared vocabulary of the development: machine integers as the kernel uses them
  (\<open>usize\<close> values of a 64-bit target, read as naturals with the checked, saturating and
  wrapping operations of Rust's core library written out), the ordered map
  \<open>alloc::collections::BTreeMap\<close>, and half-open page intervals.
  The collection \<open>btree_simps\<close> holds the rewriting facts on ordered maps, the collection
  \<open>usize_defs\<close> the definitions of the arithmetic operations.
\<close>

named_theorems btree_simps
named_theorems usize_defs

section \<open>Unsigned machine integers\<close>

type_synonym usize = nat
type_synonym u8 = "8 word"
type_synonym u32 = "32 word"
type_synonym u64 = "64 word"

definition USIZE_MAX :: usize where
  "USIZE_MAX = 18446744073709551615"

definition checked_add :: "usize \<Rightarrow> usize \<Rightarrow> usize option" where
  "checked_add a b = (if a + b \<le> USIZE_MAX then Some (a + b) else None)"

definition checked_mul :: "usize \<Rightarrow> usize \<Rightarrow> usize option" where
  "checked_mul a b = (if a * b \<le> USIZE_MAX then Some (a * b) else None)"

definition checked_sub :: "usize \<Rightarrow> usize \<Rightarrow> usize option" where
  "checked_sub a b = (if b \<le> a then Some (a - b) else None)"

definition saturating_add :: "usize \<Rightarrow> usize \<Rightarrow> usize" where
  "saturating_add a b = min (a + b) USIZE_MAX"

definition saturating_mul :: "usize \<Rightarrow> usize \<Rightarrow> usize" where
  "saturating_mul a b = min (a * b) USIZE_MAX"

definition saturating_sub :: "usize \<Rightarrow> usize \<Rightarrow> usize" where
  "saturating_sub a b = a - b"

definition wrapping_add :: "usize \<Rightarrow> usize \<Rightarrow> usize" where
  "wrapping_add a b = (a + b) mod (USIZE_MAX + 1)"

definition wrapping_sub :: "usize \<Rightarrow> usize \<Rightarrow> usize" where
  "wrapping_sub a b = (a + (USIZE_MAX + 1) - b) mod (USIZE_MAX + 1)"

definition wrapping_mul :: "usize \<Rightarrow> usize \<Rightarrow> usize" where
  "wrapping_mul a b = (a * b) mod (USIZE_MAX + 1)"

lemma wrapping_add_small: "a + b \<le> USIZE_MAX \<Longrightarrow> wrapping_add a b = a + b"
  by (simp add: wrapping_add_def)

lemma wrapping_sub_small: "b \<le> a \<Longrightarrow> a \<le> USIZE_MAX \<Longrightarrow> wrapping_sub a b = a - b"
proof -
  assume "b \<le> a" and "a \<le> USIZE_MAX"
  then have "a + (USIZE_MAX + 1) - b = (a - b) + (USIZE_MAX + 1)" and "a - b < USIZE_MAX + 1"
    by linarith+
  then show ?thesis unfolding wrapping_sub_def by (metis mod_add_self2 mod_less)
qed

lemma wrapping_mul_small: "a * b \<le> USIZE_MAX \<Longrightarrow> wrapping_mul a b = a * b"
  by (simp add: wrapping_mul_def)

declare checked_add_def [usize_defs] checked_mul_def [usize_defs] checked_sub_def [usize_defs]
  saturating_add_def [usize_defs] saturating_mul_def [usize_defs] saturating_sub_def [usize_defs]

lemma checked_add_Some_iff [simp]:
  "checked_add a b = Some c \<longleftrightarrow> c = a + b \<and> a + b \<le> USIZE_MAX"
  by (auto simp: checked_add_def)

lemma checked_add_None_iff [simp]:
  "checked_add a b = None \<longleftrightarrow> USIZE_MAX < a + b"
  by (auto simp: checked_add_def)

lemma checked_sub_Some_iff [simp]:
  "checked_sub a b = Some c \<longleftrightarrow> b \<le> a \<and> c = a - b"
  by (auto simp: checked_sub_def)

lemma checked_sub_None_iff [simp]:
  "checked_sub a b = None \<longleftrightarrow> a < b"
  by (auto simp: checked_sub_def)

section \<open>Ordered maps\<close>

text \<open>
  A \<open>BTreeMap\<close> is the list of its entries in key order. Iteration (\<open>iter\<close>, \<open>values\<close>)
  walks the list; \<open>range(..=k).next_back()\<close> is \<open>bt_last_le\<close>, \<open>range(..k).next_back()\<close> is
  \<open>bt_last_lt\<close> and \<open>range(k..).next()\<close> is \<open>bt_first_ge\<close>.
\<close>

type_synonym ('k, 'v) btree = "('k \<times> 'v) list"

definition bt_wf :: "('k::linorder, 'v) btree \<Rightarrow> bool" where
  "bt_wf m = sorted_wrt (<) (map fst m)"

definition bt_get :: "('k::linorder, 'v) btree \<Rightarrow> 'k \<Rightarrow> 'v option" where
  "bt_get m k = map_of m k"

fun bt_insert :: "'k::linorder \<Rightarrow> 'v \<Rightarrow> ('k, 'v) btree \<Rightarrow> ('k, 'v) btree" where
  "bt_insert k v [] = [(k, v)]"
| "bt_insert k v ((a, w) # m) =
     (if k < a then (k, v) # (a, w) # m
      else if k = a then (k, v) # m
      else (a, w) # bt_insert k v m)"

definition bt_remove :: "'k::linorder \<Rightarrow> ('k, 'v) btree \<Rightarrow> ('k, 'v) btree" where
  "bt_remove k m = filter (\<lambda>e. fst e \<noteq> k) m"

definition bt_last_le :: "'k::linorder \<Rightarrow> ('k, 'v) btree \<Rightarrow> ('k \<times> 'v) option" where
  "bt_last_le k m = (case filter (\<lambda>e. fst e \<le> k) m of [] \<Rightarrow> None | e # es \<Rightarrow> Some (last (e # es)))"

definition bt_last_lt :: "'k::linorder \<Rightarrow> ('k, 'v) btree \<Rightarrow> ('k \<times> 'v) option" where
  "bt_last_lt k m = (case filter (\<lambda>e. fst e < k) m of [] \<Rightarrow> None | e # es \<Rightarrow> Some (last (e # es)))"

definition bt_first_ge :: "'k::linorder \<Rightarrow> ('k, 'v) btree \<Rightarrow> ('k \<times> 'v) option" where
  "bt_first_ge k m = List.find (\<lambda>e. k \<le> fst e) m"

subsection \<open>Entries and well-formedness\<close>

lemma bt_wf_Nil [simp]: "bt_wf []"
  by (simp add: bt_wf_def)

lemma bt_wf_Cons [simp]:
  "bt_wf (e # m) \<longleftrightarrow> (\<forall>x \<in> set m. fst e < fst x) \<and> bt_wf m"
  by (auto simp: bt_wf_def)

lemma bt_wf_append:
  "bt_wf (m @ n) \<longleftrightarrow> bt_wf m \<and> bt_wf n \<and> (\<forall>x \<in> set m. \<forall>y \<in> set n. fst x < fst y)"
  by (auto simp: bt_wf_def sorted_wrt_append)

lemma bt_wf_filter: "bt_wf m \<Longrightarrow> bt_wf (filter P m)"
  by (induction m) auto

lemma bt_key_unique:
  "bt_wf m \<Longrightarrow> (k, v) \<in> set m \<Longrightarrow> (k, w) \<in> set m \<Longrightarrow> v = w"
  by (induction m) auto

lemma bt_entry_eq: "bt_wf m \<Longrightarrow> (k, v) \<in> set m \<Longrightarrow> e \<in> set m \<Longrightarrow> fst e = k \<Longrightarrow> e = (k, v)"
  by (cases e) (auto dest: bt_key_unique)

lemma bt_wf_distinct: "bt_wf m \<Longrightarrow> distinct (map fst m)"
  by (induction m) force+

lemma bt_get_iff: "bt_wf m \<Longrightarrow> bt_get m k = Some v \<longleftrightarrow> (k, v) \<in> set m"
  by (simp add: bt_get_def bt_wf_distinct)

lemma bt_get_None_iff: "bt_get m k = None \<longleftrightarrow> (\<forall>v. (k, v) \<notin> set m)"
  by (force simp: bt_get_def map_of_eq_None_iff)

lemma bt_get_None_keys: "bt_get m k = None \<longleftrightarrow> k \<notin> fst ` set m"
  by (simp add: bt_get_def map_of_eq_None_iff)

lemma set_bt_insert:
  "bt_wf m \<Longrightarrow> set (bt_insert k v m) = insert (k, v) {e \<in> set m. fst e \<noteq> k}"
  by (induction m) (fastforce split: if_splits)+

lemma bt_wf_insert [simp]: "bt_wf m \<Longrightarrow> bt_wf (bt_insert k v m)"
  by (induction m) (fastforce simp: set_bt_insert)+

lemma set_bt_remove [simp]: "set (bt_remove k m) = {e \<in> set m. fst e \<noteq> k}"
  by (auto simp: bt_remove_def)

lemma bt_wf_remove [simp]: "bt_wf m \<Longrightarrow> bt_wf (bt_remove k m)"
  by (simp add: bt_remove_def bt_wf_filter)

lemma set_bt_remove_entry: "bt_wf m \<Longrightarrow> (k, v) \<in> set m \<Longrightarrow> set (bt_remove k m) = set m - {(k, v)}"
  by (auto dest: bt_entry_eq)

lemma length_bt_remove_less:
  "e \<in> set m \<Longrightarrow> fst e = k \<Longrightarrow> length (bt_remove k m) < length m"
  unfolding bt_remove_def by (rule length_filter_less) auto

lemma bt_get_insert:
  "bt_get (bt_insert k v m) = (bt_get m)(k \<mapsto> v)" if "bt_wf m"
  using that
proof (induction m)
  case (Cons e m)
  obtain a w where "e = (a, w)" by (cases e)
  with Cons show ?case by (auto simp: bt_get_def fun_eq_iff)
qed (auto simp: bt_get_def fun_eq_iff)

lemma bt_get_remove: "bt_get (bt_remove k m) = (bt_get m)(k := None)"
  by (induction m) (auto simp: bt_get_def bt_remove_def fun_eq_iff)

lemma bt_ext:
  "bt_wf m \<Longrightarrow> bt_wf n \<Longrightarrow> set m = set n \<Longrightarrow> m = n"
proof (induction m arbitrary: n)
  case (Cons e m)
  then obtain f n' where n: "n = f # n'" by (cases n) auto
  have "e = f"
  proof (rule ccontr)
    assume ne: "e \<noteq> f"
    with Cons.prems n have "e \<in> set n'" "f \<in> set m" by auto
    with Cons.prems n show False by fastforce
  qed
  moreover have "set m = set n'"
    using Cons.prems n \<open>e = f\<close> by (auto simp: less_le)
  ultimately show ?case using Cons n by simp
qed simp

lemma bt_get_filter:
  "bt_get (filter (\<lambda>(k, _). P k) m) k = (if P k then bt_get m k else None)"
  by (induction m) (auto simp: bt_get_def)

subsection \<open>Sums and counts over the entries\<close>

definition bt_sum :: "('k \<times> 'v \<Rightarrow> nat) \<Rightarrow> ('k::linorder, 'v) btree \<Rightarrow> nat" where
  "bt_sum g m = sum_list (map g m)"

lemma length_filter_bt_sum: "length (filter P m) = bt_sum (\<lambda>e. of_bool (P e)) m"
  by (induction m) (simp_all add: bt_sum_def)

lemma bt_sum_insert:
  "bt_wf m \<Longrightarrow> bt_get m k = None \<Longrightarrow> bt_sum g (bt_insert k v m) = bt_sum g m + g (k, v)"
  by (induction m) (auto simp: bt_sum_def bt_get_def split: if_splits)

lemma bt_remove_absent: "bt_get m k = None \<Longrightarrow> bt_remove k m = m"
  by (auto simp: bt_remove_def bt_get_None_keys filter_id_conv)

lemma bt_sum_remove:
  "bt_wf m \<Longrightarrow> bt_get m k = Some v \<Longrightarrow> bt_sum g (bt_remove k m) + g (k, v) = bt_sum g m"
proof (induction m)
  case (Cons e m)
  show ?case
  proof (cases "fst e = k")
    case True
    with Cons.prems have "bt_remove k m = m" "snd e = v"
      by (auto simp: bt_remove_def filter_id_conv bt_get_def)
    with True show ?thesis by (cases e) (simp add: bt_sum_def bt_remove_def)
  next
    case False
    with Cons show ?thesis by (cases e) (simp add: bt_sum_def bt_remove_def bt_get_def)
  qed
qed (simp add: bt_get_def)

lemma bt_insert_remove: "bt_wf m \<Longrightarrow> bt_insert k v (bt_remove k m) = bt_insert k v m"
  by (intro bt_ext) (auto simp: set_bt_insert)

lemma bt_remove_insert_absent: "bt_wf m \<Longrightarrow> bt_get m k = None \<Longrightarrow> bt_remove k (bt_insert k v m) = m"
  by (intro bt_ext) (auto simp: set_bt_insert bt_get_None_keys)

lemma bt_sum_filter_split:
  "bt_sum g (filter P m) + bt_sum g (filter (\<lambda>e. \<not> P e) m) = bt_sum g m"
  by (induction m) (simp_all add: bt_sum_def)

subsection \<open>Neighbour queries\<close>

lemma bt_last_lt_eq_le: "bt_last_lt (Suc k) m = bt_last_le k m"
  by (simp add: bt_last_lt_def bt_last_le_def less_Suc_eq_le)

lemma bt_last_lt_0: "bt_last_lt 0 (m :: (nat, 'v) btree) = None"
  by (simp add: bt_last_lt_def)

lemma bt_last_le_Some_iff:
  assumes "bt_wf m"
  shows "bt_last_le k m = Some e \<longleftrightarrow>
    e \<in> set m \<and> fst e \<le> k \<and> (\<forall>f \<in> set m. fst f \<le> k \<longrightarrow> fst f \<le> fst e)"
    (is "_ \<longleftrightarrow> ?R")
proof -
  let ?fs = "filter (\<lambda>e. fst e \<le> k) m"
  have wf: "bt_wf ?fs" using assms by (rule bt_wf_filter)
  have eq: "bt_last_le k m = (if ?fs = [] then None else Some (last ?fs))"
    by (auto simp: bt_last_le_def split: list.split)
  have max: "f = last ?fs \<or> fst f < fst (last ?fs)" if "f \<in> set ?fs" for f
  proof -
    from that have ne: "?fs \<noteq> []" by (cases ?fs) auto
    then have "?fs = butlast ?fs @ [last ?fs]" by simp
    with wf have "\<forall>x \<in> set (butlast ?fs). fst x < fst (last ?fs)"
      by (metis bt_wf_append list.set_intros(1))
    moreover have "set ?fs = set (butlast ?fs) \<union> {last ?fs}"
      using ne by (metis append_butlast_last_id list.simps(15) set_append set_empty2 Un_insert_right sup_bot.right_neutral)
    ultimately show ?thesis using that by blast
  qed
  show ?thesis
  proof
    assume "bt_last_le k m = Some e"
    with eq have ne: "?fs \<noteq> []" and e: "e = last ?fs" by (auto split: if_splits)
    from last_in_set [OF ne] e max show ?R by fastforce
  next
    assume R: ?R
    then have e: "e \<in> set ?fs" by simp
    then have ne: "?fs \<noteq> []" by (cases ?fs) auto
    have "last ?fs \<in> set ?fs" using ne by (rule last_in_set)
    then have "fst (last ?fs) \<le> fst e" using R by auto
    with max [OF e] have "e = last ?fs" by auto
    with eq ne show "bt_last_le k m = Some e" by simp
  qed
qed

lemma bt_last_le_None_iff: "bt_last_le k m = None \<longleftrightarrow> (\<forall>f \<in> set m. k < fst f)"
proof -
  have "bt_last_le k m = None \<longleftrightarrow> filter (\<lambda>e. fst e \<le> k) m = []"
    by (auto simp: bt_last_le_def split: list.split)
  then show ?thesis by (auto simp: filter_empty_conv not_le)
qed

lemma bt_first_ge_Some_iff:
  assumes "bt_wf m"
  shows "bt_first_ge k m = Some e \<longleftrightarrow>
    e \<in> set m \<and> k \<le> fst e \<and> (\<forall>f \<in> set m. k \<le> fst f \<longrightarrow> fst e \<le> fst f)"
  using assms
proof (induction m)
  case (Cons x m)
  then show ?case by (auto simp: bt_first_ge_def) (force+)?
qed (simp add: bt_first_ge_def)

lemma bt_first_ge_in_set: "bt_first_ge k m = Some e \<Longrightarrow> e \<in> set m"
  by (auto simp: bt_first_ge_def find_Some_iff)

lemma length_bt_remove_first_ge: "bt_first_ge k m = Some (a, b) \<Longrightarrow> length (bt_remove a m) < length m"
  using length_bt_remove_less [OF bt_first_ge_in_set, of k m "(a, b)" a] by simp

lemma bt_first_ge_None_iff: "bt_first_ge k m = None \<longleftrightarrow> (\<forall>f \<in> set m. fst f < k)"
  by (auto simp: bt_first_ge_def find_None_iff)

lemmas bt_query_iffs = bt_last_le_Some_iff bt_last_le_None_iff
  bt_first_ge_Some_iff bt_first_ge_None_iff

end
