(* ===== verification/TidAlloc.thy ===== *)
theory TidAlloc
  imports Prelude
begin

text \<open>
  The recyclable integer allocator of \<open>os/src/task/pid.rs\<close>, which hands out thread ids and
  the per-address-space resource slots. The state is a growing counter, a stack of freed
  ids, a bitmap that says which stack entries are still valid, and a one-shot hint. The
  stack's top is the head of the list, so \<open>Vec::pop\<close> takes the head and \<open>Vec::push\<close> conses.

  The interface \<open>id_allocator\<close> states what a client may rely on: an id that is handed out
  was not live, becomes live, and nothing else changes. The kernel's allocator is an
  instance of it, once for \<open>alloc\<close> and once for \<open>alloc_fresh\<close>.
\<close>

section \<open>The interface\<close>

locale id_allocator =
  fixes invar :: "'s \<Rightarrow> bool"
    and live :: "'s \<Rightarrow> nat set"
    and room :: "'s \<Rightarrow> nat"
    and acquire :: "'s \<Rightarrow> nat \<times> 's"
    and release :: "'s \<Rightarrow> nat \<Rightarrow> 's option"
  assumes acquire_invar: "invar s \<Longrightarrow> 0 < room s \<Longrightarrow> acquire s = (i, s') \<Longrightarrow> invar s'"
    and acquire_fresh: "invar s \<Longrightarrow> 0 < room s \<Longrightarrow> acquire s = (i, s') \<Longrightarrow> i \<notin> live s"
    and acquire_live: "invar s \<Longrightarrow> 0 < room s \<Longrightarrow> acquire s = (i, s') \<Longrightarrow> live s' = insert i (live s)"
    and acquire_room: "invar s \<Longrightarrow> 0 < room s \<Longrightarrow> acquire s = (i, s') \<Longrightarrow> room s \<le> room s' + 1"
    and release_defined: "invar s \<Longrightarrow> i \<in> live s \<Longrightarrow> \<exists>s'. release s i = Some s'"
    and release_invar: "invar s \<Longrightarrow> i \<in> live s \<Longrightarrow> release s i = Some s' \<Longrightarrow> invar s'"
    and release_live: "invar s \<Longrightarrow> i \<in> live s \<Longrightarrow> release s i = Some s' \<Longrightarrow> live s' = live s - {i}"
    and release_room: "invar s \<Longrightarrow> i \<in> live s \<Longrightarrow> release s i = Some s' \<Longrightarrow> room s' = room s"
begin

fun acquire_n :: "nat \<Rightarrow> 's \<Rightarrow> nat list \<times> 's" where
  "acquire_n 0 s = ([], s)"
| "acquire_n (Suc n) s =
     (let (i, s1) = acquire s; (is, s2) = acquire_n n s1 in (i # is, s2))"

lemma acquire_n_facts:
  "invar s \<Longrightarrow> n \<le> room s \<Longrightarrow> acquire_n n s = (is, s') \<Longrightarrow>
     invar s' \<and> distinct is \<and> set is \<inter> live s = {} \<and> live s' = live s \<union> set is \<and> length is = n"
proof (induction n arbitrary: s "is" s')
  case (Suc n)
  obtain i s1 where i: "acquire s = (i, s1)" by (cases "acquire s")
  obtain js s2 where js: "acquire_n n s1 = (js, s2)" by (cases "acquire_n n s1")
  from Suc.prems i js have eq: "is = i # js" "s' = s2" by auto
  have room: "0 < room s" using Suc.prems(2) by simp
  note step = acquire_invar [OF Suc.prems(1) room i] acquire_fresh [OF Suc.prems(1) room i]
    acquire_live [OF Suc.prems(1) room i] acquire_room [OF Suc.prems(1) room i]
  from step(4) Suc.prems(2) have "n \<le> room s1" by simp
  from Suc.IH [OF step(1) this js] have "invar s2" "distinct js" "set js \<inter> live s1 = {}"
    "live s2 = live s1 \<union> set js" "length js = n" by blast+
  with eq step show ?case by auto
qed simp

lemma acquire_release_roundtrip:
  assumes "invar s" and "0 < room s" and "acquire s = (i, s1)"
  shows "\<exists>s2. release s1 i = Some s2 \<and> invar s2 \<and> live s2 = live s"
proof -
  note step = acquire_invar [OF assms] acquire_fresh [OF assms] acquire_live [OF assms]
  then have mem: "i \<in> live s1" by simp
  with step(1) obtain s2 where s2: "release s1 i = Some s2" using release_defined by blast
  from release_invar [OF step(1) mem s2] release_live [OF step(1) mem s2] s2 step(2,3)
  show ?thesis by auto
qed

end

section \<open>The allocator\<close>

definition DEFAULT_PID_MAX :: usize where "DEFAULT_PID_MAX = 32768"
definition RESERVED_PID_REUSE_FLOOR :: usize where "RESERVED_PID_REUSE_FLOOR = 300"
definition FRESH_REUSE_WATERMARK :: usize where "FRESH_REUSE_WATERMARK = DEFAULT_PID_MAX - 1024"

record RecycleAllocator =
  ra_current :: usize
  ra_recycled :: "usize list"
  ra_flags :: "bool list"
  ra_hint :: "usize option"


text \<open>\<open>Vec::resize\<close>. Its argument \<open>id + 1\<close> wraps at the largest \<open>usize\<close>.\<close>

definition vec_resize :: "usize \<Rightarrow> 'a \<Rightarrow> 'a list \<Rightarrow> 'a list" where
  "vec_resize n v xs = take n xs @ replicate (n - length xs) v"

definition ensure_flag_capacity :: "RecycleAllocator \<Rightarrow> usize \<Rightarrow> RecycleAllocator" where
  "ensure_flag_capacity s i =
     (if length (ra_flags s) \<le> i
      then s\<lparr>ra_flags := vec_resize (wrapping_add i 1) False (ra_flags s)\<rparr>
      else s)"

definition is_recycled :: "RecycleAllocator \<Rightarrow> usize \<Rightarrow> bool" where
  "is_recycled s i = (if i < length (ra_flags s) then ra_flags s ! i else False)"

definition mark_recycled :: "RecycleAllocator \<Rightarrow> usize \<Rightarrow> bool \<Rightarrow> RecycleAllocator" where
  "mark_recycled s i v =
     (let s' = ensure_flag_capacity s i in s'\<lparr>ra_flags := (ra_flags s')[i := v]\<rparr>)"

function alloc_recycled :: "RecycleAllocator \<Rightarrow> usize option \<times> RecycleAllocator" where
  "alloc_recycled s =
     (case ra_recycled s of
        [] \<Rightarrow> (None, s)
      | i # rest \<Rightarrow>
          let s' = s\<lparr>ra_recycled := rest\<rparr> in
          if is_recycled s' i then (Some i, mark_recycled s' i False)
          else alloc_recycled s')"
  by pat_completeness auto
termination
  by (relation "measure (\<lambda>s. length (ra_recycled s))") auto

text \<open>
  The first loop of \<open>alloc_recycled_for_fresh\<close>, with the ids skipped so far (first skipped
  first); the second loop pushes them back in the reverse order.
\<close>

function alloc_recycled_for_fresh_loop ::
  "usize list \<Rightarrow> RecycleAllocator \<Rightarrow> usize option \<times> usize list \<times> RecycleAllocator" where
  "alloc_recycled_for_fresh_loop skipped s =
     (case ra_recycled s of
        [] \<Rightarrow> (None, skipped, s)
      | i # rest \<Rightarrow>
          let s' = s\<lparr>ra_recycled := rest\<rparr> in
          if \<not> is_recycled s' i then alloc_recycled_for_fresh_loop skipped s'
          else if RESERVED_PID_REUSE_FLOOR \<le> i then (Some i, skipped, mark_recycled s' i False)
          else alloc_recycled_for_fresh_loop (skipped @ [i]) s')"
  by pat_completeness auto
termination
  by (relation "measure (\<lambda>(skipped, s). length (ra_recycled s))") auto

definition alloc_recycled_for_fresh :: "RecycleAllocator \<Rightarrow> usize option \<times> RecycleAllocator" where
  "alloc_recycled_for_fresh s =
     (let (allocated, skipped, s') = alloc_recycled_for_fresh_loop [] s
      in (allocated, fold (\<lambda>i st. st\<lparr>ra_recycled := i # ra_recycled st\<rparr>) (rev skipped) s'))"

definition linear_alloc :: "RecycleAllocator \<Rightarrow> usize \<times> RecycleAllocator" where
  "linear_alloc s =
     (let s1 = s\<lparr>ra_current := wrapping_add (ra_current s) 1\<rparr>; i = wrapping_sub (ra_current s1) 1
      in (i, ensure_flag_capacity s1 i))"

definition ra_alloc :: "RecycleAllocator \<Rightarrow> usize \<times> RecycleAllocator" where
  "ra_alloc s =
     (case alloc_recycled s of
        (Some i, s') \<Rightarrow> (i, s')
      | (None, s') \<Rightarrow> linear_alloc s')"

definition alloc_fresh :: "RecycleAllocator \<Rightarrow> usize \<times> RecycleAllocator" where
  "alloc_fresh s =
     (let hint = ra_hint s; s0 = s\<lparr>ra_hint := None\<rparr>;
          otherwise =
            (if FRESH_REUSE_WATERMARK \<le> ra_current s0
             then (case alloc_recycled_for_fresh s0 of
                     (Some i, s') \<Rightarrow> (i, s')
                   | (None, s') \<Rightarrow> linear_alloc s')
             else linear_alloc s0)
      in case hint of
           Some i \<Rightarrow> if i < ra_current s0 \<and> is_recycled s0 i
                     then (i, mark_recycled s0 i False) else otherwise
         | None \<Rightarrow> otherwise)"

definition last_allocated :: "RecycleAllocator \<Rightarrow> usize" where
  "last_allocated s = saturating_sub (ra_current s) 1"


text \<open>A failed \<open>assert!\<close> is \<open>None\<close>.\<close>

definition ra_dealloc :: "RecycleAllocator \<Rightarrow> usize \<Rightarrow> RecycleAllocator option" where
  "ra_dealloc s i =
     (if i < ra_current s \<and> \<not> is_recycled s i
      then (let s' = mark_recycled s i True in Some (s'\<lparr>ra_recycled := i # ra_recycled s'\<rparr>))
      else None)"

definition release_fresh_id :: "RecycleAllocator \<Rightarrow> usize \<Rightarrow> RecycleAllocator option" where
  "release_fresh_id s i =
     (if i < ra_current s
      then Some (if \<not> is_recycled s i
                 then (let s' = mark_recycled s i True in s'\<lparr>ra_recycled := i # ra_recycled s'\<rparr>)
                 else s)
      else None)"

definition get_allocated :: "RecycleAllocator \<Rightarrow> usize" where
  "get_allocated s =
     saturating_sub (saturating_sub (ra_current s) 1) (length (filter id (ra_flags s)))"

section \<open>Thread id handles\<close>




definition ns_last_pid :: "RecycleAllocator \<Rightarrow> usize" where
  "ns_last_pid g = last_allocated g"


section \<open>Invariant and live ids\<close>

text \<open>
  Every id whose flag is set is on the stack, lies below the counter and is not 0. The
  stack may hold stale entries: an id taken through the hint stays on it with its flag
  cleared. The live ids are those below the counter whose flag is clear.
\<close>

definition ra_inv :: "RecycleAllocator \<Rightarrow> bool" where
  "ra_inv s \<longleftrightarrow> 1 \<le> ra_current s \<and> ra_current s \<le> USIZE_MAX \<and>
     (\<forall>i. is_recycled s i \<longrightarrow> i \<in> set (ra_recycled s) \<and> 1 \<le> i \<and> i < ra_current s)"

definition ra_live :: "RecycleAllocator \<Rightarrow> nat set" where
  "ra_live s = {i. 1 \<le> i \<and> i < ra_current s \<and> \<not> is_recycled s i}"

definition ra_room :: "RecycleAllocator \<Rightarrow> nat" where
  "ra_room s = USIZE_MAX - ra_current s"

lemma is_recycled_ensure [simp]:
  "j < USIZE_MAX \<Longrightarrow> is_recycled (ensure_flag_capacity s j) i = is_recycled s i"
  by (auto simp: is_recycled_def ensure_flag_capacity_def vec_resize_def wrapping_add_small nth_append)

lemma ensure_flag_capacity_fields [simp]:
  "ra_current (ensure_flag_capacity s i) = ra_current s"
  "ra_recycled (ensure_flag_capacity s i) = ra_recycled s"
  "ra_hint (ensure_flag_capacity s i) = ra_hint s"
  by (simp_all add: ensure_flag_capacity_def)

lemma ensure_flag_capacity_length:
  "i < USIZE_MAX \<Longrightarrow> i < length (ra_flags (ensure_flag_capacity s i))"
  by (simp add: ensure_flag_capacity_def vec_resize_def wrapping_add_small)

lemma ensure_flag_capacity_recycled: "is_recycled s i \<Longrightarrow> ensure_flag_capacity s i = s"
  by (simp add: ensure_flag_capacity_def is_recycled_def split: if_splits)

lemma mark_recycled_fields [simp]:
  "ra_current (mark_recycled s i v) = ra_current s"
  "ra_recycled (mark_recycled s i v) = ra_recycled s"
  "ra_hint (mark_recycled s i v) = ra_hint s"
  by (simp_all add: mark_recycled_def Let_def)

lemma is_recycled_mark [simp]:
  assumes "i < USIZE_MAX"
  shows "is_recycled (mark_recycled s i v) j = (if j = i then v else is_recycled s j)"
proof -
  have "is_recycled (mark_recycled s i v) j =
    (if j = i then v else is_recycled (ensure_flag_capacity s i) j)"
    using ensure_flag_capacity_length [OF assms, of s]
    by (auto simp: is_recycled_def mark_recycled_def Let_def nth_list_update)
  then show ?thesis using assms by simp
qed

lemma is_recycled_unmark [simp]:
  "is_recycled s i \<Longrightarrow> is_recycled (mark_recycled s i False) j = (j \<noteq> i \<and> is_recycled s j)"
  by (auto simp: mark_recycled_def ensure_flag_capacity_recycled)
    (auto simp: is_recycled_def nth_list_update split: if_splits)

lemma is_recycled_cong [simp]:
  "is_recycled (s\<lparr>ra_current := c\<rparr>) i = is_recycled s i"
  "is_recycled (s\<lparr>ra_recycled := r\<rparr>) i = is_recycled s i"
  "is_recycled (s\<lparr>ra_hint := h\<rparr>) i = is_recycled s i"
  by (simp_all add: is_recycled_def)


declare alloc_recycled.simps [simp del] alloc_recycled_for_fresh_loop.simps [simp del]

lemma alloc_recycled_None:
  "alloc_recycled s = (None, s') \<Longrightarrow>
     ra_current s' = ra_current s \<and> (\<forall>i. is_recycled s' i = is_recycled s i) \<and>
     (\<forall>i \<in> set (ra_recycled s). \<not> is_recycled s i)"
proof (induction s rule: alloc_recycled.induct)
  case (1 s)
  show ?case
  proof (cases "ra_recycled s")
    case Nil
    with "1.prems" show ?thesis by (simp add: alloc_recycled.simps [of s])
  next
    case (Cons i rest)
    with "1.prems" have n: "\<not> is_recycled s i"
      and r: "alloc_recycled (s\<lparr>ra_recycled := rest\<rparr>) = (None, s')"
      by (auto simp: alloc_recycled.simps [of s] Let_def split: if_splits)
    from "1.IH" [OF Cons refl] n r show ?thesis by (simp add: Cons)
  qed
qed

lemma alloc_recycled_Some:
  "alloc_recycled s = (Some i, s') \<Longrightarrow>
     is_recycled s i \<and> ra_current s' = ra_current s \<and>
     (\<forall>j. is_recycled s' j = (j \<noteq> i \<and> is_recycled s j)) \<and>
     (\<forall>j \<in> set (ra_recycled s). j = i \<or> j \<in> set (ra_recycled s') \<or> \<not> is_recycled s j)"
proof (induction s rule: alloc_recycled.induct)
  case (1 s)
  show ?case
  proof (cases "ra_recycled s")
    case Nil
    with "1.prems" show ?thesis by (simp add: alloc_recycled.simps [of s])
  next
    case (Cons k rest)
    show ?thesis
    proof (cases "is_recycled s k")
      case True
      with "1.prems" Cons show ?thesis
        by (auto simp: alloc_recycled.simps [of s] Let_def split: if_splits)
    next
      case False
      with "1.prems" Cons have r: "alloc_recycled (s\<lparr>ra_recycled := rest\<rparr>) = (Some i, s')"
        by (simp add: alloc_recycled.simps [of s] Let_def)
      from "1.IH" [OF Cons refl] False r Cons show ?thesis by auto
    qed
  qed
qed

lemma fold_push: "fold (\<lambda>i st. st\<lparr>ra_recycled := i # ra_recycled st\<rparr>) (rev xs) s =
  s\<lparr>ra_recycled := xs @ ra_recycled s\<rparr>"
  by (induction xs arbitrary: s) (simp_all add: fold_append)

lemma fresh_loop_facts:
  "alloc_recycled_for_fresh_loop sk s = (r, sk', s') \<Longrightarrow>
     ra_current s' = ra_current s \<and> ra_hint s' = ra_hint s \<and>
     (case r of
        None \<Rightarrow> \<forall>j. is_recycled s' j = is_recycled s j
      | Some i \<Rightarrow> is_recycled s i \<and> RESERVED_PID_REUSE_FLOOR \<le> i \<and>
                  (\<forall>j. is_recycled s' j = (j \<noteq> i \<and> is_recycled s j))) \<and>
     (\<forall>j. j \<in> set sk \<or> j \<in> set (ra_recycled s) \<longrightarrow> is_recycled s' j \<longrightarrow>
          j \<in> set sk' \<or> j \<in> set (ra_recycled s'))"
proof (induction sk s rule: alloc_recycled_for_fresh_loop.induct)
  case (1 sk s)
  show ?case
  proof (cases "ra_recycled s")
    case Nil
    with "1.prems" show ?thesis by (auto simp: alloc_recycled_for_fresh_loop.simps [of sk s])
  next
    case (Cons k rest)
    let ?s = "s\<lparr>ra_recycled := rest\<rparr>"
    consider (stale) "\<not> is_recycled s k"
      | (take) "is_recycled s k" "RESERVED_PID_REUSE_FLOOR \<le> k"
      | (skip) "is_recycled s k" "\<not> RESERVED_PID_REUSE_FLOOR \<le> k" by blast
    then show ?thesis
    proof cases
      case stale
      with "1.prems" Cons have "alloc_recycled_for_fresh_loop sk ?s = (r, sk', s')"
        by (simp add: alloc_recycled_for_fresh_loop.simps [of sk s] Let_def)
      with "1.IH"(1) [OF Cons refl] stale Cons show ?thesis
        by (cases r) auto
    next
      case take
      with "1.prems" Cons show ?thesis
        by (auto simp: alloc_recycled_for_fresh_loop.simps [of sk s] Let_def split: if_splits)
    next
      case skip
      with "1.prems" Cons have "alloc_recycled_for_fresh_loop (sk @ [k]) ?s = (r, sk', s')"
        by (simp add: alloc_recycled_for_fresh_loop.simps [of sk s] Let_def)
      with "1.IH"(2) [OF Cons refl] skip Cons show ?thesis
        by (cases r) auto
    qed
  qed
qed

text \<open>
  One step of the allocator as the interface sees it: an id that was not live becomes live,
  and the counter grows by at most one.
\<close>

definition takes :: "RecycleAllocator \<Rightarrow> nat \<Rightarrow> RecycleAllocator \<Rightarrow> bool" where
  "takes s i s' \<longleftrightarrow> ra_inv s' \<and> 1 \<le> i \<and> i \<notin> ra_live s \<and> ra_live s' = insert i (ra_live s) \<and>
     ra_current s' \<le> ra_current s + 1"

lemma takes_recycled:
  assumes "ra_inv s" and "is_recycled s i" and "ra_current s' = ra_current s"
    and "\<And>j. is_recycled s' j = (j \<noteq> i \<and> is_recycled s j)"
    and "\<And>j. j \<noteq> i \<Longrightarrow> is_recycled s j \<Longrightarrow> j \<in> set (ra_recycled s')"
  shows "takes s i s'"
  using assms by (auto simp: takes_def ra_inv_def ra_live_def)

lemma takes_linear:
  assumes inv: "ra_inv s0" and room: "0 < ra_room s0" and cur: "ra_current s = ra_current s0"
    and rec: "\<And>j. is_recycled s j = is_recycled s0 j"
    and stk: "\<And>j. is_recycled s0 j \<Longrightarrow> j \<in> set (ra_recycled s)"
    and lin: "linear_alloc s = (i, s')"
  shows "takes s0 i s'"
proof -
  from room have lt: "ra_current s0 < USIZE_MAX" by (simp add: ra_room_def)
  with lin cur have i: "i = ra_current s0"
    and s': "s' = ensure_flag_capacity (s\<lparr>ra_current := Suc (ra_current s0)\<rparr>) i"
    by (auto simp: linear_alloc_def Let_def wrapping_add_small wrapping_sub_small)
  have "is_recycled s' j = is_recycled s0 j" for j using lt rec by (simp add: s' i)
  moreover have "ra_current s' = Suc (ra_current s0)" "ra_recycled s' = ra_recycled s"
    by (simp_all add: s')
  ultimately show ?thesis using inv lt stk i
    by (auto simp: takes_def ra_inv_def ra_live_def less_Suc_eq)
qed

lemma ra_alloc_takes:
  assumes "ra_inv s" and "0 < ra_room s" and "ra_alloc s = (i, s')"
  shows "takes s i s'"
proof (cases "alloc_recycled s")
  case (Pair r s1)
  show ?thesis
  proof (cases r)
    case None
    with Pair have n: "alloc_recycled s = (None, s1)" by simp
    from alloc_recycled_None [OF n] assms(1) have "\<not> is_recycled s j" for j
      by (auto simp: ra_inv_def)
    with alloc_recycled_None [OF n] assms n show ?thesis
      by (intro takes_linear [of s s1]) (auto simp: ra_alloc_def)
  next
    case (Some k)
    with Pair assms have "alloc_recycled s = (Some i, s')" by (simp add: ra_alloc_def)
    from alloc_recycled_Some [OF this] assms(1) show ?thesis
      by (intro takes_recycled) (auto simp: ra_inv_def)
  qed
qed

lemma alloc_recycled_for_fresh_facts:
  assumes "alloc_recycled_for_fresh s = (r, s')"
  shows "ra_current s' = ra_current s" and "ra_hint s' = ra_hint s"
    and "r = None \<Longrightarrow> is_recycled s' j = is_recycled s j"
    and "r = Some i \<Longrightarrow> is_recycled s i \<and> RESERVED_PID_REUSE_FLOOR \<le> i"
    and "r = Some i \<Longrightarrow> is_recycled s' j = (j \<noteq> i \<and> is_recycled s j)"
    and "j \<in> set (ra_recycled s) \<Longrightarrow> is_recycled s' j \<Longrightarrow> j \<in> set (ra_recycled s')"
proof -
  obtain r' sk s1 where l: "alloc_recycled_for_fresh_loop [] s = (r', sk, s1)"
    by (cases "alloc_recycled_for_fresh_loop [] s")
  with assms have e: "r = r'" "s' = s1\<lparr>ra_recycled := sk @ ra_recycled s1\<rparr>"
    by (auto simp: alloc_recycled_for_fresh_def fold_push)
  note f = fresh_loop_facts [OF l]
  from f e show "ra_current s' = ra_current s" "ra_hint s' = ra_hint s"
    "r = None \<Longrightarrow> is_recycled s' j = is_recycled s j"
    "r = Some i \<Longrightarrow> is_recycled s i \<and> RESERVED_PID_REUSE_FLOOR \<le> i"
    "r = Some i \<Longrightarrow> is_recycled s' j = (j \<noteq> i \<and> is_recycled s j)"
    "j \<in> set (ra_recycled s) \<Longrightarrow> is_recycled s' j \<Longrightarrow> j \<in> set (ra_recycled s')"
    by (auto split: option.splits)
qed

lemma takes_hint: "takes (s\<lparr>ra_hint := h\<rparr>) i s' = takes s i s'"
  by (simp add: takes_def ra_live_def)

lemma ra_inv_hint [simp]: "ra_inv (s\<lparr>ra_hint := h\<rparr>) = ra_inv s"
  by (simp add: ra_inv_def)

lemma alloc_fresh_takes:
  assumes inv: "ra_inv s" and room: "0 < ra_room s" and res: "alloc_fresh s = (i, s')"
  shows "takes s i s'"
proof -
  let ?s = "s\<lparr>ra_hint := None\<rparr>"
  have inv0: "ra_inv ?s" and room0: "0 < ra_room ?s" using inv room by (simp_all add: ra_room_def)
  have rec: "is_recycled ?s j \<Longrightarrow> j \<in> set (ra_recycled ?s)" for j
    using inv0 by (simp add: ra_inv_def)
  from res consider
      (hint) "is_recycled s i" "s' = mark_recycled ?s i False"
    | (reuse) "alloc_recycled_for_fresh ?s = (Some i, s')"
    | (fail) s1 where "alloc_recycled_for_fresh ?s = (None, s1)" "linear_alloc s1 = (i, s')"
    | (linear) "linear_alloc ?s = (i, s')"
    by (auto simp: alloc_fresh_def Let_def split: option.splits if_splits prod.splits)
  then have "takes ?s i s'"
  proof cases
    case hint
    with inv0 rec show ?thesis by (intro takes_recycled) auto
  next
    case reuse
    note f = alloc_recycled_for_fresh_facts [OF reuse]
    show ?thesis
      by (rule takes_recycled [OF inv0]) (use f rec in auto)
  next
    case fail
    note f = alloc_recycled_for_fresh_facts [OF fail(1)]
    show ?thesis
      by (rule takes_linear [OF inv0 room0 _ _ _ fail(2)]) (use f rec in auto)
  next
    case linear
    with inv0 room0 rec show ?thesis by (intro takes_linear [of ?s ?s]) auto
  qed
  then show ?thesis by (simp add: takes_hint)
qed

lemma ra_dealloc_facts:
  assumes "ra_inv s" and "i \<in> ra_live s"
  shows "\<exists>s'. ra_dealloc s i = Some s' \<and> release_fresh_id s i = Some s' \<and> ra_inv s' \<and>
    ra_live s' = ra_live s - {i} \<and> ra_current s' = ra_current s"
  using assms
  by (auto simp: ra_dealloc_def release_fresh_id_def Let_def ra_inv_def ra_live_def)

interpretation slot_ids: id_allocator ra_inv ra_live ra_room ra_alloc ra_dealloc
  using ra_alloc_takes ra_dealloc_facts
  by unfold_locales (fastforce simp: takes_def ra_room_def)+

interpretation thread_ids: id_allocator ra_inv ra_live ra_room alloc_fresh release_fresh_id
  using alloc_fresh_takes ra_dealloc_facts
  by unfold_locales (fastforce simp: takes_def ra_room_def)+


section \<open>Thread id handles over time\<close>

















end
