(* ===== verification/Timer.thy ===== *)
theory Timer
  imports Prelude
begin

text \<open>
  \<open>os/src/timer.rs\<close>: conversion between hardware ticks and nanoseconds by a precomputed
  fixed-point reciprocal, and the POSIX time values \<open>TimeSpec\<close> and \<open>TimeVal\<close>. A \<open>u64\<close> or
  \<open>usize\<close> is a natural number; the operations that can wrap are written with the wrapping
  operations of the prelude. The \<open>u128\<close> intermediates of \<open>choose_scale\<close> and \<open>scale_value\<close> stay
  below \<open>2 ^ 128\<close> for \<open>u64\<close> arguments, so they are plain natural arithmetic. The hardware
  counter and its frequency come from the HAL and are arguments.
\<close>

section \<open>Fixed-point scaling\<close>

definition NSEC_PER_SEC :: usize where "NSEC_PER_SEC = 1000000000"
definition USEC_PER_SEC :: usize where "USEC_PER_SEC = 1000000"
definition MSEC_PER_SEC :: usize where "MSEC_PER_SEC = 1000"
definition NSEC_PER_MSEC :: usize where "NSEC_PER_MSEC = 1000000"
definition NSEC_PER_USEC :: usize where "NSEC_PER_USEC = 1000"
definition USEC_PER_MSEC :: usize where "USEC_PER_MSEC = 1000"

lemmas time_units = NSEC_PER_SEC_def USEC_PER_SEC_def MSEC_PER_SEC_def NSEC_PER_MSEC_def
  NSEC_PER_USEC_def USEC_PER_MSEC_def

record U64Scale =
  sc_mul :: nat
  sc_shift :: nat

text \<open>
  The loop of \<open>choose_scale\<close> from a given shift downwards; \<open>None\<close> is the \<open>unreachable!\<close> after
  it, and a failed assertion in \<open>choose_scale\<close> itself.
\<close>

definition scaled_mul :: "nat \<Rightarrow> nat \<Rightarrow> nat \<Rightarrow> nat" where
  "scaled_mul numer denom shift = (numer * 2 ^ shift + denom - 1) div denom"

fun choose_scale_loop :: "nat \<Rightarrow> nat \<Rightarrow> nat \<Rightarrow> U64Scale option" where
  "choose_scale_loop numer denom 0 =
     (let scaled = scaled_mul numer denom 0 in
      if scaled \<le> USIZE_MAX then Some \<lparr>sc_mul = scaled, sc_shift = 0\<rparr> else None)"
| "choose_scale_loop numer denom (Suc shift) =
     (let scaled = scaled_mul numer denom (Suc shift) in
      if scaled \<le> USIZE_MAX then Some \<lparr>sc_mul = scaled, sc_shift = Suc shift\<rparr>
      else choose_scale_loop numer denom shift)"

definition choose_scale :: "nat \<Rightarrow> nat \<Rightarrow> U64Scale option" where
  "choose_scale numer denom =
     (if numer \<noteq> 0 \<and> denom \<noteq> 0 then choose_scale_loop numer denom 64 else None)"

definition scale_value :: "nat \<Rightarrow> U64Scale \<Rightarrow> nat" where
  "scale_value v sc =
     (if sc_mul sc = 0 then 0
      else let scaled = (v * sc_mul sc) div 2 ^ sc_shift sc
           in if USIZE_MAX < scaled then USIZE_MAX else scaled)"

record TimeScales =
  to_ns_scale :: U64Scale
  to_us_scale :: U64Scale
  to_ms_scale :: U64Scale
  ns_to_ticks_scale :: U64Scale

definition time_scales :: "nat \<Rightarrow> TimeScales option" where
  "time_scales freq =
     (case (choose_scale NSEC_PER_SEC freq, choose_scale USEC_PER_SEC freq,
            choose_scale MSEC_PER_SEC freq, choose_scale freq NSEC_PER_SEC) of
        (Some a, Some b, Some c, Some d) \<Rightarrow>
          Some \<lparr>to_ns_scale = a, to_us_scale = b, to_ms_scale = c, ns_to_ticks_scale = d\<rparr>
      | _ \<Rightarrow> None)"

definition ticks_to_ns :: "TimeScales \<Rightarrow> nat \<Rightarrow> nat" where
  "ticks_to_ns scales ticks = scale_value ticks (to_ns_scale scales)"

definition ticks_to_us :: "TimeScales \<Rightarrow> nat \<Rightarrow> nat" where
  "ticks_to_us scales ticks = scale_value ticks (to_us_scale scales)"

definition ticks_to_ms :: "TimeScales \<Rightarrow> nat \<Rightarrow> nat" where
  "ticks_to_ms scales ticks = scale_value ticks (to_ms_scale scales)"

definition ns_to_ticks_ceil :: "TimeScales \<Rightarrow> nat \<Rightarrow> nat" where
  "ns_to_ticks_ceil scales ns =
     saturating_add (scale_value ns (ns_to_ticks_scale scales)) (if ns \<noteq> 0 then 1 else 0)"

section \<open>POSIX time values\<close>

datatype TimeSpec = TimeSpec (tv_sec: usize) (tv_nsec: usize)

definition ts_cmp_le :: "TimeSpec \<Rightarrow> TimeSpec \<Rightarrow> bool" where
  "ts_cmp_le a b \<longleftrightarrow> tv_sec a < tv_sec b \<or> tv_sec a = tv_sec b \<and> tv_nsec a \<le> tv_nsec b"

instantiation TimeSpec :: linorder
begin

definition less_eq_TimeSpec :: "TimeSpec \<Rightarrow> TimeSpec \<Rightarrow> bool" where
  "less_eq_TimeSpec a b = ts_cmp_le a b"

definition less_TimeSpec :: "TimeSpec \<Rightarrow> TimeSpec \<Rightarrow> bool" where
  "less_TimeSpec a b = (ts_cmp_le a b \<and> a \<noteq> b)"

instance
proof
  fix x y z :: TimeSpec
  show "x < y \<longleftrightarrow> x \<le> y \<and> \<not> y \<le> x"
    by (cases x; cases y) (auto simp: less_eq_TimeSpec_def less_TimeSpec_def ts_cmp_le_def)
  show "x \<le> x" and "x \<le> y \<or> y \<le> x"
    by (auto simp: less_eq_TimeSpec_def ts_cmp_le_def)
  show "x \<le> y \<Longrightarrow> y \<le> z \<Longrightarrow> x \<le> z"
    by (auto simp: less_eq_TimeSpec_def ts_cmp_le_def)
  show "x \<le> y \<Longrightarrow> y \<le> x \<Longrightarrow> x = y"
    by (cases x; cases y) (auto simp: less_eq_TimeSpec_def ts_cmp_le_def)
qed

end

definition ts_new :: TimeSpec where "ts_new = TimeSpec 0 0"

definition ts_add :: "TimeSpec \<Rightarrow> TimeSpec \<Rightarrow> TimeSpec" where
  "ts_add a b =
     (let sec = wrapping_add (tv_sec a) (tv_sec b);
          nsec = wrapping_add (tv_nsec a) (tv_nsec b)
      in TimeSpec (wrapping_add sec (nsec div NSEC_PER_SEC)) (nsec mod NSEC_PER_SEC))"

definition ts_sub :: "TimeSpec \<Rightarrow> TimeSpec \<Rightarrow> TimeSpec" where
  "ts_sub a b =
     (if a \<le> b then ts_new
      else let sec = wrapping_sub (tv_sec a) (tv_sec b)
           in if tv_nsec b \<le> tv_nsec a
              then TimeSpec sec (wrapping_sub (tv_nsec a) (tv_nsec b))
              else TimeSpec (wrapping_sub sec 1)
                     (wrapping_sub (wrapping_add (tv_nsec a) NSEC_PER_SEC) (tv_nsec b)))"

definition ts_from_s :: "usize \<Rightarrow> TimeSpec" where "ts_from_s s = TimeSpec s 0"

definition ts_from_ms :: "usize \<Rightarrow> TimeSpec" where
  "ts_from_ms ms = TimeSpec (ms div MSEC_PER_SEC) (wrapping_mul (ms mod MSEC_PER_SEC) NSEC_PER_MSEC)"

definition ts_from_us :: "usize \<Rightarrow> TimeSpec" where
  "ts_from_us us = TimeSpec (us div USEC_PER_SEC) (wrapping_mul (us mod USEC_PER_SEC) NSEC_PER_USEC)"

definition ts_from_ns :: "usize \<Rightarrow> TimeSpec" where
  "ts_from_ns ns = TimeSpec (ns div NSEC_PER_SEC) (ns mod NSEC_PER_SEC)"

definition ts_from_tick :: "TimeScales \<Rightarrow> usize \<Rightarrow> TimeSpec" where
  "ts_from_tick scales tick = ts_from_ns (ticks_to_ns scales tick)"


definition ts_to_ns_saturating :: "TimeSpec \<Rightarrow> nat" where
  "ts_to_ns_saturating t = saturating_add (saturating_mul (tv_sec t) NSEC_PER_SEC) (tv_nsec t)"

definition ts_to_ticks_ceil :: "TimeScales \<Rightarrow> TimeSpec \<Rightarrow> usize" where
  "ts_to_ticks_ceil scales t = ns_to_ticks_ceil scales (ts_to_ns_saturating t)"

definition ts_is_zero :: "TimeSpec \<Rightarrow> bool" where
  "ts_is_zero t \<longleftrightarrow> tv_sec t = 0 \<and> tv_nsec t = 0"

datatype TimeVal = TimeVal (tvv_sec: usize) (tv_usec: usize)

definition tv_cmp_le :: "TimeVal \<Rightarrow> TimeVal \<Rightarrow> bool" where
  "tv_cmp_le a b \<longleftrightarrow> tvv_sec a < tvv_sec b \<or> tvv_sec a = tvv_sec b \<and> tv_usec a \<le> tv_usec b"

definition tv_add :: "TimeVal \<Rightarrow> TimeVal \<Rightarrow> TimeVal" where
  "tv_add a b =
     (let sec = wrapping_add (tvv_sec a) (tvv_sec b);
          usec = wrapping_add (tv_usec a) (tv_usec b)
      in TimeVal (wrapping_add sec (usec div USEC_PER_SEC)) (usec mod USEC_PER_SEC))"

definition tv_sub :: "TimeVal \<Rightarrow> TimeVal \<Rightarrow> TimeVal" where
  "tv_sub a b =
     (if tv_cmp_le a b then TimeVal 0 0
      else let sec = wrapping_sub (tvv_sec a) (tvv_sec b)
           in if tv_usec b \<le> tv_usec a
              then TimeVal sec (wrapping_sub (tv_usec a) (tv_usec b))
              else TimeVal (wrapping_sub sec 1)
                     (wrapping_sub (wrapping_add (tv_usec a) USEC_PER_SEC) (tv_usec b)))"

definition tv_from_us :: "usize \<Rightarrow> TimeVal" where
  "tv_from_us us = TimeVal (us div USEC_PER_SEC) (us mod USEC_PER_SEC)"

definition tv_from_ms :: "usize \<Rightarrow> TimeVal" where
  "tv_from_ms ms = TimeVal (ms div MSEC_PER_SEC) (wrapping_mul (ms mod MSEC_PER_SEC) USEC_PER_MSEC)"

definition tv_to_us :: "TimeVal \<Rightarrow> usize" where
  "tv_to_us t = wrapping_add (wrapping_mul (tvv_sec t) USEC_PER_SEC) (tv_usec t)"

definition tv_to_tick :: "usize \<Rightarrow> TimeVal \<Rightarrow> usize" where
  "tv_to_tick freq t =
     wrapping_add (wrapping_mul (tvv_sec t) freq) (wrapping_mul (tv_usec t) freq div USEC_PER_SEC)"

section \<open>The real-time clock\<close>


definition current_timeval :: "TimeScales \<Rightarrow> nat \<Rightarrow> nat \<Rightarrow> TimeVal" where
  "current_timeval scales now offset =
     tv_from_us (saturating_add (ticks_to_us scales now) (offset div NSEC_PER_USEC))"


section \<open>Accuracy of the fixed-point conversion\<close>

lemma mult_less_rightD: "a * c < b * c \<Longrightarrow> a < (b::nat)"
  by simp

lemma scaled_mul_bounds:
  assumes "0 < denom"
  shows "numer * 2 ^ shift \<le> scaled_mul numer denom shift * denom"
    and "scaled_mul numer denom shift * denom < numer * 2 ^ shift + denom"
proof -
  let ?n = "numer * 2 ^ shift + denom - 1"
  have e: "?n = ?n div denom * denom + ?n mod denom" by simp
  have m: "?n mod denom < denom" using assms by simp
  show "numer * 2 ^ shift \<le> scaled_mul numer denom shift * denom"
    unfolding scaled_mul_def using e m assms by linarith
  show "scaled_mul numer denom shift * denom < numer * 2 ^ shift + denom"
    unfolding scaled_mul_def using e assms by linarith
qed

text \<open>The loop returns the multiplier at the largest shift where it fits.\<close>

lemma choose_scale_loop_facts:
  assumes "0 < denom" and "numer \<le> USIZE_MAX"
  shows "\<exists>s \<le> k. choose_scale_loop numer denom k =
           Some \<lparr>sc_mul = scaled_mul numer denom s, sc_shift = s\<rparr> \<and>
         scaled_mul numer denom s \<le> USIZE_MAX \<and>
         (s = k \<or> USIZE_MAX < scaled_mul numer denom (Suc s))"
proof (induction k)
  case 0
  have "scaled_mul numer denom 0 * denom < numer * 1 + denom"
    using scaled_mul_bounds(2) [OF assms(1), of numer 0] by simp
  also have "\<dots> \<le> numer * denom + denom" using assms(1) by (simp add: Suc_leI)
  finally have "scaled_mul numer denom 0 * denom < (numer + 1) * denom" by simp
  then have "scaled_mul numer denom 0 < numer + 1" by (rule mult_less_rightD)
  with assms(2) show ?case by (simp add: Let_def)
next
  case (Suc k)
  then show ?case
    by (cases "scaled_mul numer denom (Suc k) \<le> USIZE_MAX") (auto simp: Let_def le_Suc_eq)
qed

lemma choose_scale_facts:
  assumes "0 < numer" and "numer \<le> USIZE_MAX" and "0 < denom"
  obtains s where "s \<le> 64"
    and "choose_scale numer denom = Some \<lparr>sc_mul = scaled_mul numer denom s, sc_shift = s\<rparr>"
    and "s = 64 \<or> USIZE_MAX < scaled_mul numer denom (Suc s)"
    and "scaled_mul numer denom s \<le> USIZE_MAX"
  using choose_scale_loop_facts [OF assms(3,2), of 64] assms that by (auto simp: choose_scale_def)

lemma scaled_lower:
  assumes "0 < denom"
  shows "v * numer div denom \<le> (v * scaled_mul numer denom s) div 2 ^ s"
proof -
  have "(v * numer div denom) * denom * 2 ^ s \<le> v * numer * 2 ^ s" by simp
  also have "\<dots> \<le> v * (scaled_mul numer denom s * denom)"
    using scaled_mul_bounds(1) [OF assms] by (simp add: mult.assoc)
  finally have "((v * numer div denom) * 2 ^ s) * denom \<le> (v * scaled_mul numer denom s) * denom"
    by (simp add: ac_simps)
  then have "(v * numer div denom) * 2 ^ s \<le> v * scaled_mul numer denom s"
    using assms by simp
  then show ?thesis by (simp add: less_eq_div_iff_mult_less_eq)
qed

text \<open>If \<open>v\<close> is below \<open>2 ^ s\<close> scaled by the quotient's weight, the error is below one unit.\<close>

lemma scaled_upper:
  assumes d: "0 < denom" and v: "v \<le> 2 ^ s"
  shows "(v * scaled_mul numer denom s) div 2 ^ s \<le> v * numer div denom + 1"
proof (cases "v = 0")
  case False
  let ?q = "v * numer div denom" and ?m = "scaled_mul numer denom s"
  have "v * (?m * denom) < v * (numer * 2 ^ s + denom)"
    using scaled_mul_bounds(2) [OF d] False by simp
  also have "\<dots> \<le> (v * numer) * 2 ^ s + 2 ^ s * denom"
    using v by (simp add: algebra_simps)
  also have "\<dots> = (v * numer + denom) * 2 ^ s" by (simp add: algebra_simps)
  also have "\<dots> < ((?q + 2) * denom) * 2 ^ s"
    using dividend_less_div_times [OF d, of "v * numer"]
    by (intro mult_strict_right_mono) (simp_all add: algebra_simps)
  finally have "(v * ?m) * denom < ((?q + 2) * 2 ^ s) * denom" by (simp only: ac_simps)
  then have "v * ?m < (?q + 2) * 2 ^ s" by (rule mult_less_rightD)
  then have "(v * ?m) div 2 ^ s < ?q + 2" by (simp add: div_less_iff_less_mult)
  then show ?thesis by simp
qed simp




lemma shift_64:
  assumes "numer < denom" and "denom \<le> USIZE_MAX" and "0 < numer"
    and s: "s = 64 \<or> USIZE_MAX < scaled_mul numer denom (Suc s)" and "s \<le> 64"
  shows "s = 64"
proof (rule ccontr)
  assume "s \<noteq> 64"
  with s \<open>s \<le> 64\<close> have "USIZE_MAX < scaled_mul numer denom (Suc s)" and "Suc s \<le> 64" by auto
  then have "(USIZE_MAX + 1) * denom \<le> scaled_mul numer denom (Suc s) * denom"
    by (intro mult_le_mono1) simp
  also have "\<dots> < numer * 2 ^ Suc s + denom" using assms by (intro scaled_mul_bounds) simp
  also have "\<dots> \<le> numer * 2 ^ 64 + denom"
    using \<open>Suc s \<le> 64\<close> by (intro add_right_mono mult_left_mono power_increasing) simp_all
  also have "\<dots> \<le> (denom - 1) * (USIZE_MAX + 1) + denom"
    using assms by (intro add_right_mono mult_le_mono) (simp_all add: USIZE_MAX_def)
  finally have "(USIZE_MAX + 1) * denom < (denom - 1) * (USIZE_MAX + 1) + denom" .
  moreover have "(USIZE_MAX + 1) * denom = (denom - 1) * (USIZE_MAX + 1) + (USIZE_MAX + 1)"
    using assms by (cases denom) (simp_all add: algebra_simps)
  ultimately show False using assms(2) by linarith
qed

lemma scaled_exact:
  assumes d: "0 < denom" and v: "v < 2 ^ s" and dvd: "denom dvd v * numer"
  shows "(v * scaled_mul numer denom s) div 2 ^ s = v * numer div denom"
proof (rule antisym)
  let ?q = "v * numer div denom" and ?m = "scaled_mul numer denom s"
  have q: "?q * denom = v * numer" using dvd by simp
  have "v * (?m * denom) \<le> v * (numer * 2 ^ s + denom)"
    using scaled_mul_bounds(2) [OF d, of numer s] by (intro mult_le_mono2) simp
  also have "\<dots> = (v * numer) * 2 ^ s + v * denom" by (simp add: algebra_simps)
  also have "\<dots> < (v * numer) * 2 ^ s + 2 ^ s * denom" using v d by simp
  also have "\<dots> = (?q * denom) * 2 ^ s + 2 ^ s * denom" by (simp only: q)
  also have "\<dots> = ((?q + 1) * 2 ^ s) * denom" by (simp add: algebra_simps del: div_mult_self_is_m)
  finally have "(v * ?m) * denom < ((?q + 1) * 2 ^ s) * denom" by (simp only: ac_simps)
  then have "v * ?m < (?q + 1) * 2 ^ s" by (rule mult_less_rightD)
  then have "(v * ?m) div 2 ^ s < ?q + 1" by (intro div_less_iff_less_mult [THEN iffD2]) simp_all
  then show "(v * ?m) div 2 ^ s \<le> ?q" by simp
qed (rule scaled_lower [OF d])

definition ceil_div :: "nat \<Rightarrow> nat \<Rightarrow> nat" where
  "ceil_div a b = (a + b - 1) div b"

lemma ceil_div_alt: "0 < b \<Longrightarrow> ceil_div a b = (if b dvd a then a div b else a div b + 1)"
proof -
  assume b: "0 < b"
  define q r where "q = a div b" and "r = a mod b"
  have a: "a = q * b + r" and r: "r < b" using b by (simp_all add: q_def r_def)
  have "(q * b + r + b - 1) div b = (if r = 0 then q else q + 1)"
  proof (cases "r = 0")
    case True
    with b have "q * b + r + b - 1 = (b - 1) + q * b" by simp
    then have "(q * b + r + b - 1) div b = q + (b - 1) div b" using b by (simp only: div_mult_self1)
    with b True show ?thesis by simp
  next
    case False
    with b have "q * b + r + b - 1 = (r - 1) + (q + 1) * b" by simp
    then have "(q * b + r + b - 1) div b = (q + 1) + (r - 1) div b" using b by (simp only: div_mult_self1)
    with r False show ?thesis by simp
  qed
  then have "ceil_div a b = (if r = 0 then q else q + 1)" unfolding ceil_div_def a [symmetric] .
  then show ?thesis by (simp add: q_def r_def dvd_eq_mod_eq_0)
qed

lemma ceil_div_least: "0 < b \<Longrightarrow> a \<le> ceil_div a b * b"
  by (auto simp: ceil_div_alt dvd_div_mult_self)
    (metis add.commute dividend_less_div_times less_imp_le mult.commute)

lemma time_scales_defined:
  assumes "0 < freq" and "freq \<le> USIZE_MAX"
  obtains a b where "choose_scale NSEC_PER_SEC freq = Some a"
    and "choose_scale freq NSEC_PER_SEC = Some b"
    and "\<exists>scales. time_scales freq = Some scales \<and> to_ns_scale scales = a \<and> ns_to_ticks_scale scales = b"
proof -
  have u: "NSEC_PER_SEC \<le> USIZE_MAX" "USEC_PER_SEC \<le> USIZE_MAX" "MSEC_PER_SEC \<le> USIZE_MAX"
    "0 < NSEC_PER_SEC" "0 < USEC_PER_SEC" "0 < MSEC_PER_SEC"
    by (simp_all add: time_units USIZE_MAX_def)
  have ex: "\<exists>sc. choose_scale n d = Some sc" if "0 < n" "n \<le> USIZE_MAX" "0 < d" for n d
    using choose_scale_facts [OF that] by blast
  from ex [OF u(4,1) assms(1)] ex [OF u(5,2) assms(1)] ex [OF u(6,3) assms(1)] ex [OF assms u(4)]
  show ?thesis using that by (force simp: time_scales_def)
qed

lemma scale_value_lower:
  assumes "0 < numer" and "numer \<le> USIZE_MAX" and "0 < denom" and "choose_scale numer denom = Some sc"
  shows "min USIZE_MAX (v * numer div denom) \<le> scale_value v sc"
proof -
  obtain s where "choose_scale numer denom = Some \<lparr>sc_mul = scaled_mul numer denom s, sc_shift = s\<rparr>"
    using choose_scale_facts [OF assms(1-3)] by blast
  with assms(4) have sc: "sc = \<lparr>sc_mul = scaled_mul numer denom s, sc_shift = s\<rparr>" by simp
  have "scaled_mul numer denom s \<noteq> 0"
    using scaled_mul_bounds(1) [OF assms(3), of numer s] assms(1) by (intro notI) simp
  with scaled_lower [OF assms(3), of v numer s] show ?thesis
    by (auto simp: scale_value_def sc Let_def)
qed

lemma ns_to_ticks_bounds:
  assumes "0 < freq" and f: "freq < NSEC_PER_SEC" and ns: "ns \<le> USIZE_MAX"
    and sc: "choose_scale freq NSEC_PER_SEC = Some sc" and nz: "ns \<noteq> 0"
  shows "ceil_div (ns * freq) NSEC_PER_SEC \<le> scale_value ns sc + 1"
    and "scale_value ns sc \<le> ceil_div (ns * freq) NSEC_PER_SEC"
    and "scale_value ns sc < ns"
proof -
  let ?q = "ns * freq div NSEC_PER_SEC"
  have d: "0 < NSEC_PER_SEC" "NSEC_PER_SEC \<le> USIZE_MAX" by (simp_all add: time_units USIZE_MAX_def)
  have fm: "freq \<le> USIZE_MAX" using f d by linarith
  obtain s where s: "s \<le> 64" "s = 64 \<or> USIZE_MAX < scaled_mul freq NSEC_PER_SEC (Suc s)"
    "scaled_mul freq NSEC_PER_SEC s \<le> USIZE_MAX"
    and c: "choose_scale freq NSEC_PER_SEC = Some \<lparr>sc_mul = scaled_mul freq NSEC_PER_SEC s, sc_shift = s\<rparr>"
    using choose_scale_facts [OF assms(1) fm d(1)] by blast
  have "s = 64" by (rule shift_64 [OF f d(2) assms(1) s(2,1)])
  let ?m = "scaled_mul freq NSEC_PER_SEC 64" and ?r = "(ns * scaled_mul freq NSEC_PER_SEC 64) div 2 ^ 64"
  have v: "ns < 2 ^ 64" using ns by (simp add: USIZE_MAX_def)
  have up: "?r \<le> ?q + 1" using v by (intro scaled_upper d) simp
  have lo: "?q \<le> ?r" by (rule scaled_lower [OF d(1)])
  have ex: "NSEC_PER_SEC dvd ns * freq \<Longrightarrow> ?r = ?q" by (rule scaled_exact [OF d(1) v])
  have q: "?q < ns" using f nz by (intro div_less_iff_less_mult [THEN iffD2] d) simp
  have r: "?r \<le> ceil_div (ns * freq) NSEC_PER_SEC"
    using up ex by (auto simp: ceil_div_alt [OF d(1)])
  have "?m \<le> USIZE_MAX" using s(3) \<open>s = 64\<close> by simp
  have "?r < ns"
  proof -
    have "ns * ?m < ns * 2 ^ 64" using nz \<open>?m \<le> USIZE_MAX\<close> by (simp add: USIZE_MAX_def)
    then show ?thesis by (intro div_less_iff_less_mult [THEN iffD2]) simp_all
  qed
  have "?m \<noteq> 0"
    using scaled_mul_bounds(1) [OF d(1), of freq 64] assms(1) by (intro notI) simp
  with \<open>?r < ns\<close> ns have "scale_value ns sc = ?r"
    using sc c \<open>s = 64\<close> by (auto simp: scale_value_def Let_def)
  with lo up r \<open>?r < ns\<close> show "ceil_div (ns * freq) NSEC_PER_SEC \<le> scale_value ns sc + 1"
    "scale_value ns sc \<le> ceil_div (ns * freq) NSEC_PER_SEC" "scale_value ns sc < ns"
    by (auto simp: ceil_div_alt [OF d(1)])
qed

text \<open>
  C15. For every timer frequency below 1 GHz and every \<open>u64\<close> number of nanoseconds, the
  deadline in ticks is the exact rounded-up value or one tick later, never earlier; and when
  the counter has reached the deadline, the clock read back in nanoseconds is not before the
  requested time. A timer therefore never fires early, in either unit.
\<close>

theorem deadline_never_early:
  assumes "0 < freq" and "freq < NSEC_PER_SEC" and "ns \<le> USIZE_MAX"
  shows "\<exists>scales. time_scales freq = Some scales \<and>
    ceil_div (ns * freq) NSEC_PER_SEC \<le> ns_to_ticks_ceil scales ns \<and>
    ns_to_ticks_ceil scales ns \<le> ceil_div (ns * freq) NSEC_PER_SEC + 1 \<and>
    (\<forall>t. ns_to_ticks_ceil scales ns \<le> t \<longrightarrow> ns \<le> ticks_to_ns scales t)"
proof -
  have d: "0 < NSEC_PER_SEC" "NSEC_PER_SEC \<le> USIZE_MAX" by (simp_all add: time_units USIZE_MAX_def)
  have fm: "freq \<le> USIZE_MAX" using assms(2) d by linarith
  obtain a b scales where ab: "choose_scale NSEC_PER_SEC freq = Some a"
    "choose_scale freq NSEC_PER_SEC = Some b"
    and s: "time_scales freq = Some scales" "to_ns_scale scales = a" "ns_to_ticks_scale scales = b"
    using time_scales_defined [OF assms(1) fm] by metis
  let ?c = "ceil_div (ns * freq) NSEC_PER_SEC"
  have b: "?c \<le> ns_to_ticks_ceil scales ns \<and> ns_to_ticks_ceil scales ns \<le> ?c + 1"
  proof (cases "ns = 0")
    case True
    then have "?c = 0" by (simp add: ceil_div_def time_units)
    then show ?thesis using True
      by (simp add: ns_to_ticks_ceil_def saturating_add_def scale_value_def Let_def)
  next
    case False
    note k = ns_to_ticks_bounds [OF assms ab(2) False]
    then show ?thesis using False assms(3)
      by (simp add: ns_to_ticks_ceil_def saturating_add_def s)
  qed
  have "ns \<le> ticks_to_ns scales t" if t: "ns_to_ticks_ceil scales ns \<le> t" for t
  proof -
    have "ns * freq \<le> ?c * NSEC_PER_SEC" by (rule ceil_div_least [OF d(1)])
    also have "\<dots> \<le> t * NSEC_PER_SEC" using b t by (intro mult_le_mono1) linarith
    finally have "ns \<le> t * NSEC_PER_SEC div freq"
      using assms(1) by (simp add: less_eq_div_iff_mult_less_eq)
    with scale_value_lower [OF d assms(1) ab(1), of t] assms(3) show ?thesis
      by (simp add: ticks_to_ns_def s)
  qed
  with b s show ?thesis by blast
qed

theorem deadline_never_early_witness:
  "\<exists>scales. time_scales 10000000 = Some scales \<and>
    ceil_div (150 * 10000000) NSEC_PER_SEC \<le> ns_to_ticks_ceil scales 150 \<and>
    ns_to_ticks_ceil scales 150 \<le> ceil_div (150 * 10000000) NSEC_PER_SEC + 1 \<and>
    (\<forall>t. ns_to_ticks_ceil scales 150 \<le> t \<longrightarrow> 150 \<le> ticks_to_ns scales t)"
  by (rule deadline_never_early) (simp_all add: time_units USIZE_MAX_def)

section \<open>Time values as numbers of nanoseconds\<close>

definition ts_nanos :: "TimeSpec \<Rightarrow> nat" where
  "ts_nanos t = tv_sec t * NSEC_PER_SEC + tv_nsec t"

definition ts_norm :: "TimeSpec \<Rightarrow> bool" where
  "ts_norm t \<longleftrightarrow> tv_nsec t < NSEC_PER_SEC \<and> tv_sec t \<le> USIZE_MAX"

lemma ts_nanos_le_iff: "ts_norm a \<Longrightarrow> ts_norm b \<Longrightarrow> a \<le> b \<longleftrightarrow> ts_nanos a \<le> ts_nanos b"
  by (auto simp: ts_norm_def ts_nanos_def less_eq_TimeSpec_def ts_cmp_le_def time_units)

lemma ts_nanos_add:
  assumes "ts_norm a" and "ts_norm b" and s: "tv_sec a + tv_sec b < USIZE_MAX"
  shows "ts_nanos (ts_add a b) = ts_nanos a + ts_nanos b \<and> ts_norm (ts_add a b)"
proof -
  let ?k = "tv_nsec a + tv_nsec b" and ?s = "tv_sec a + tv_sec b"
  have n: "tv_nsec a < 1000000000" "tv_nsec b < 1000000000"
    using assms by (simp_all add: ts_norm_def time_units)
  have "wrapping_add (tv_nsec a) (tv_nsec b) = ?k" using n
    by (intro wrapping_add_small) (simp add: USIZE_MAX_def)
  moreover have "wrapping_add (tv_sec a) (tv_sec b) = ?s"
    using s by (intro wrapping_add_small) simp
  moreover have k: "?k div NSEC_PER_SEC \<le> 1" using n by (simp add: time_units)
  moreover have "wrapping_add ?s (?k div NSEC_PER_SEC) = ?s + ?k div NSEC_PER_SEC"
    using s k by (intro wrapping_add_small) linarith
  ultimately have e: "ts_add a b = TimeSpec (?s + ?k div NSEC_PER_SEC) (?k mod NSEC_PER_SEC)"
    by (simp add: ts_add_def Let_def)
  have "?s + ?k div NSEC_PER_SEC \<le> USIZE_MAX" using s k by linarith
  moreover have "(?s + ?k div NSEC_PER_SEC) * NSEC_PER_SEC + ?k mod NSEC_PER_SEC =
    ?s * NSEC_PER_SEC + ?k" by (simp add: add_mult_distrib)
  ultimately show ?thesis by (simp add: e ts_nanos_def ts_norm_def add_mult_distrib NSEC_PER_SEC_def)
qed

lemma ts_nanos_sub:
  assumes "ts_norm a" and "ts_norm b"
  shows "ts_nanos (ts_sub a b) = ts_nanos a - ts_nanos b \<and> ts_norm (ts_sub a b)"
proof (cases "a \<le> b")
  case True
  then show ?thesis using ts_nanos_le_iff [OF assms]
    by (simp add: ts_sub_def ts_new_def ts_nanos_def ts_norm_def time_units)
next
  case False
  have n: "tv_nsec a < 1000000000" "tv_nsec b < 1000000000" "tv_sec a \<le> USIZE_MAX"
    using assms by (simp_all add: ts_norm_def time_units)
  from False have lt: "tv_sec b < tv_sec a \<or> tv_sec a = tv_sec b \<and> tv_nsec b < tv_nsec a"
    by (auto simp: less_eq_TimeSpec_def ts_cmp_le_def)
  have sec: "wrapping_sub (tv_sec a) (tv_sec b) = tv_sec a - tv_sec b"
    using lt n by (intro wrapping_sub_small) auto
  show ?thesis
  proof (cases "tv_nsec b \<le> tv_nsec a")
    case True
    then have "wrapping_sub (tv_nsec a) (tv_nsec b) = tv_nsec a - tv_nsec b"
      using n by (intro wrapping_sub_small) (auto simp: USIZE_MAX_def)
    with False True sec have "ts_sub a b = TimeSpec (tv_sec a - tv_sec b) (tv_nsec a - tv_nsec b)"
      by (simp add: ts_sub_def Let_def)
    with True lt n show ?thesis by (auto simp: ts_nanos_def ts_norm_def time_units diff_mult_distrib)
  next
    case nb: False
    with lt have s: "tv_sec b < tv_sec a" by auto
    have "wrapping_sub (tv_sec a - tv_sec b) 1 = tv_sec a - tv_sec b - 1"
      using s n by (intro wrapping_sub_small) auto
    moreover have "wrapping_add (tv_nsec a) NSEC_PER_SEC = tv_nsec a + NSEC_PER_SEC"
      using n by (intro wrapping_add_small) (simp add: USIZE_MAX_def time_units)
    moreover have "wrapping_sub (tv_nsec a + NSEC_PER_SEC) (tv_nsec b) = tv_nsec a + NSEC_PER_SEC - tv_nsec b"
      using n by (intro wrapping_sub_small) (simp_all add: USIZE_MAX_def time_units)
    ultimately have "ts_sub a b =
      TimeSpec (tv_sec a - tv_sec b - 1) (tv_nsec a + NSEC_PER_SEC - tv_nsec b)"
      using False nb sec by (simp add: ts_sub_def Let_def)
    with s n nb show ?thesis by (auto simp: ts_nanos_def ts_norm_def time_units diff_mult_distrib)
  qed
qed


text \<open>
  C24. On normalised time values, addition without overflow of the seconds and subtraction
  are addition and truncated subtraction of the nanosecond counts, the results are
  normalised again, and the order is the order of the counts.
\<close>

theorem timespec_arith:
  assumes "ts_norm a" and "ts_norm b" and "tv_sec a + tv_sec b < USIZE_MAX"
  shows "ts_norm (ts_add a b) \<and> ts_nanos (ts_add a b) = ts_nanos a + ts_nanos b \<and>
    ts_norm (ts_sub a b) \<and> ts_nanos (ts_sub a b) = ts_nanos a - ts_nanos b \<and>
    (a \<le> b \<longleftrightarrow> ts_nanos a \<le> ts_nanos b)"
  using ts_nanos_add [OF assms] ts_nanos_sub [OF assms(1,2)] ts_nanos_le_iff [OF assms(1,2)] by blast

theorem timespec_arith_witness:
  "let a = TimeSpec 5 100; b = TimeSpec 3 999999999 in
    ts_norm (ts_add a b) \<and> ts_nanos (ts_add a b) = ts_nanos a + ts_nanos b \<and>
    ts_norm (ts_sub a b) \<and> ts_nanos (ts_sub a b) = ts_nanos a - ts_nanos b \<and>
    (a \<le> b \<longleftrightarrow> ts_nanos a \<le> ts_nanos b)"
  unfolding Let_def by (rule timespec_arith) (simp_all add: ts_norm_def time_units USIZE_MAX_def)



end
