(* ===== verification/MmTypes.thy ===== *)
theory MmTypes
  imports Prelude
begin

text \<open>
  The vocabulary of the memory manager: addresses and page numbers
  (\<open>os/src/mm/address.rs\<close>, \<open>os/src/hal/arch/riscv/config.rs\<close>), mapping permissions and flags
  (\<open>os/src/mm/vma.rs\<close>), \<open>MemoryError\<close> (\<open>os/src/mm/address_space.rs\<close>) and the error numbers
  the VMA layer returns. A virtual or physical page number is a natural number; a shift that
  drops bits is written as a wrapping multiplication. A result type \<open>Result<T, E>\<close> is the sum
  \<open>'e + 't\<close> with \<open>Inl\<close> the error.
\<close>

unbundle bit_operations_syntax

section \<open>Addresses and page numbers\<close>

type_synonym vpn = nat
type_synonym ppn = nat
type_synonym addr = nat

definition PAGE_SIZE :: usize where "PAGE_SIZE = 4096"
definition PAGE_SIZE_BITS :: usize where "PAGE_SIZE_BITS = 12"
definition MMAP_BASE :: addr where "MMAP_BASE = 0x20000000"
definition MMAP_END :: addr where "MMAP_END = 0xb8000000"
definition USER_STACK_SIZE :: usize where "USER_STACK_SIZE = PAGE_SIZE * 256"

definition va_floor :: "addr \<Rightarrow> vpn" where
  "va_floor a = a div PAGE_SIZE"

definition va_ceil :: "addr \<Rightarrow> vpn" where
  "va_ceil a = (if a = 0 then 0 else (a - 1) div PAGE_SIZE + 1)"

definition page_offset :: "addr \<Rightarrow> usize" where
  "page_offset a = unat (word_of_nat a AND word_of_nat (PAGE_SIZE - 1) :: u64)"

definition va_aligned :: "addr \<Rightarrow> bool" where
  "va_aligned a \<longleftrightarrow> page_offset a = 0"

text \<open>\<open>From<VirtPageNum> for VirtAddr\<close>: the shift drops the bits above 64.\<close>

definition vpn_addr :: "vpn \<Rightarrow> addr" where
  "vpn_addr v = unat (push_bit PAGE_SIZE_BITS (word_of_nat v :: u64))"

text \<open>\<open>From<VirtAddr> for VirtPageNum\<close>; \<open>None\<close> is the failed assertion.\<close>

definition addr_vpn :: "addr \<Rightarrow> vpn option" where
  "addr_vpn a = (if page_offset a = 0 then Some (va_floor a) else None)"

text \<open>\<open>VirtPageNum::indexes\<close>: the index of each level, the last level taken from the low bits.\<close>

fun vpn_indexes :: "nat \<Rightarrow> u64 \<Rightarrow> nat list" where
  "vpn_indexes 0 v = []"
| "vpn_indexes (Suc n) v = vpn_indexes n (drop_bit 9 v) @ [unat (v AND 511)]"

text \<open>\<open>SimpleRange::new\<close> asserts an ordered pair; \<open>None\<close> is the panic.\<close>

type_synonym vpn_range = "vpn \<times> vpn"

definition vpn_range_new :: "vpn \<Rightarrow> vpn \<Rightarrow> vpn_range option" where
  "vpn_range_new s e = (if s \<le> e then Some (s, e) else None)"

section \<open>Permissions, flags and errors\<close>

type_synonym MapPermission = u8

definition PERM_R :: MapPermission where "PERM_R = 2"
definition PERM_W :: MapPermission where "PERM_W = 4"
definition PERM_X :: MapPermission where "PERM_X = 8"
definition PERM_U :: MapPermission where "PERM_U = 16"
definition PERM_G :: MapPermission where "PERM_G = 32"

type_synonym MapFlags = u64

definition MAP_SHARED :: MapFlags where "MAP_SHARED = 0x01"
definition MAP_PRIVATE :: MapFlags where "MAP_PRIVATE = 0x02"
definition MAP_ANONYMOUS :: MapFlags where "MAP_ANONYMOUS = 0x20"
definition MAP_GROWSDOWN :: MapFlags where "MAP_GROWSDOWN = 0x100"

text \<open>The \<open>bitflags\<close> operations \<open>contains\<close> and \<open>difference\<close> (also written \<open>-\<close>).\<close>

definition flags_contains :: "'a::len word \<Rightarrow> 'a word \<Rightarrow> bool" where
  "flags_contains a b \<longleftrightarrow> a AND b = b"

definition flags_difference :: "'a::len word \<Rightarrow> 'a word \<Rightarrow> 'a word" where
  "flags_difference a b = a AND NOT b"

datatype MemoryError = BadAddress | AreaNotFound | AlreadyMapped | NotMapped | NoPermission
  | NotInMemory | NotCompressed | NotSwappedOut | AlreadyAllocated | SharedPage | ZramIsFull
  | SwapIsFull | BeyondEOF | OutOfMemory | BackingStoreFailure

datatype FaultAccess = Load | Store | Execute

type_synonym errno = int

definition EPERM :: errno where "EPERM = -1"
definition ENOMEM :: errno where "ENOMEM = -12"
definition EACCES :: errno where "EACCES = -13"
definition EINVAL :: errno where "EINVAL = -22"
definition EIO :: errno where "EIO = -5"
definition EBADF :: errno where "EBADF = -9"
definition EAGAIN :: errno where "EAGAIN = -11"
definition EFAULT :: errno where "EFAULT = -14"
definition EBUSY :: errno where "EBUSY = -16"
definition EEXIST :: errno where "EEXIST = -17"
definition EFBIG :: errno where "EFBIG = -27"
definition EOPNOTSUPP :: errno where "EOPNOTSUPP = -95"
definition ENOBUFS :: errno where "ENOBUFS = -105"

lemmas errno_defs = EPERM_def ENOMEM_def EACCES_def EINVAL_def

section \<open>Facts on addresses\<close>

text \<open>The number of pages of the 64-bit address space.\<close>

definition MAX_VPN :: vpn where "MAX_VPN = 4503599627370496"

lemma unat_u64_small: "a \<le> USIZE_MAX \<Longrightarrow> unat (word_of_nat a :: u64) = a"
  by (simp add: unat_of_nat take_bit_nat_eq_self_iff USIZE_MAX_def)

lemma page_offset_mod: "a \<le> USIZE_MAX \<Longrightarrow> page_offset a = a mod PAGE_SIZE"
proof -
  assume a: "a \<le> USIZE_MAX"
  have "(word_of_nat a AND word_of_nat (PAGE_SIZE - 1) :: u64) = take_bit 12 (word_of_nat a)"
    by (simp add: PAGE_SIZE_def take_bit_eq_mask mask_eq_exp_minus_1)
  then have "page_offset a = take_bit 12 (unat (word_of_nat a :: u64))"
    by (simp add: page_offset_def unsigned_take_bit_eq)
  then show ?thesis using a by (simp add: unat_u64_small take_bit_eq_mod PAGE_SIZE_def)
qed

lemma vpn_addr_small: "v < MAX_VPN \<Longrightarrow> vpn_addr v = v * PAGE_SIZE"
proof -
  assume v: "v < MAX_VPN"
  have "push_bit PAGE_SIZE_BITS (word_of_nat v :: u64) = word_of_nat (v * PAGE_SIZE)"
    by (simp add: push_bit_eq_mult PAGE_SIZE_BITS_def PAGE_SIZE_def)
  moreover have "v * PAGE_SIZE \<le> USIZE_MAX" using v by (simp add: MAX_VPN_def PAGE_SIZE_def USIZE_MAX_def)
  ultimately show ?thesis by (simp only: vpn_addr_def unat_u64_small)
qed

lemma va_floor_le_ceil: "va_floor a \<le> va_ceil a"
  by (auto simp: va_floor_def va_ceil_def PAGE_SIZE_def)

lemma va_floor_max: "a \<le> USIZE_MAX \<Longrightarrow> va_floor a < MAX_VPN"
  by (simp add: va_floor_def PAGE_SIZE_def MAX_VPN_def USIZE_MAX_def)

lemma va_ceil_max: "a \<le> USIZE_MAX \<Longrightarrow> va_ceil a \<le> MAX_VPN"
  by (auto simp: va_ceil_def PAGE_SIZE_def MAX_VPN_def USIZE_MAX_def)

lemma va_ceil_least: "va_ceil a \<le> n \<longleftrightarrow> a \<le> n * PAGE_SIZE"
  by (auto simp: va_ceil_def PAGE_SIZE_def)

end
