(* ===== verification/FrameStore.thy ===== *)
theory FrameStore
  imports MmTypes
begin

text \<open>
  \<open>os/src/mm/frame_store.rs\<close>: the table that records, for the pages of one VMA, which are
  resident, compressed or swapped out, with the queue of reclaim candidates and the two
  reclaim counters of the \<open>oom_handler\<close> build. A frame tracker, a zram tracker and a swap
  tracker are the numbers they wrap. What the table asks of the rest of the kernel is the
  record \<open>mm_env\<close>: reference counts, heap growth, the frame allocator's answer and the zram
  and swap devices.

  The invariant \<open>store_wf\<close> says that entries lie inside the range and that the counters are
  the numbers of compressed and swapped entries. The functional lemmas say what each
  operation does to the state of every page.
\<close>

record mm_env =
  env_refs :: "ppn \<Rightarrow> nat"
  env_reserve :: "nat \<Rightarrow> bool"
  env_zram_write :: "ppn \<Rightarrow> nat option"
  env_zram_read :: "nat \<Rightarrow> ppn \<Rightarrow> bool"
  env_swap_write :: "ppn \<Rightarrow> MemoryError + nat"
  env_swap_read :: "nat \<Rightarrow> ppn \<Rightarrow> MemoryError + unit"
  env_cpu_id :: nat
  env_fresh_map_no_flush :: bool
  env_max_map_count :: usize
  env_page_cache :: "nat \<Rightarrow> bool"
  env_cached_page :: "nat \<Rightarrow> usize \<Rightarrow> bool"

section \<open>Frames\<close>

datatype Frame = InMemory ppn | Compressed nat | SwappedOut nat | Unallocated

datatype FrameState = FsInMemory | FsUnallocated | FsCompressed | FsSwappedOut

definition frame_swap_out :: "mm_env \<Rightarrow> Frame \<Rightarrow> (MemoryError + ppn) \<times> Frame" where
  "frame_swap_out env f =
     (case f of
        InMemory p \<Rightarrow>
          if env_refs env p = 1
          then (case env_swap_write env p of
                  Inl e \<Rightarrow> (Inl e, f)
                | Inr t \<Rightarrow> (Inr p, SwappedOut t))
          else (Inl SharedPage, f)
      | _ \<Rightarrow> (Inl NotInMemory, f))"

text \<open>The frame the allocator returns is an argument; \<open>None\<close> when memory is exhausted.\<close>

definition frame_swap_in :: "mm_env \<Rightarrow> ppn option \<Rightarrow> Frame \<Rightarrow> (MemoryError + ppn) \<times> Frame" where
  "frame_swap_in env new f =
     (case f of
        SwappedOut t \<Rightarrow>
          (case new of
             None \<Rightarrow> (Inl OutOfMemory, f)
           | Some p \<Rightarrow>
               (case env_swap_read env t p of
                  Inl e \<Rightarrow> (Inl e, f)
                | Inr _ \<Rightarrow> (Inr p, InMemory p)))
      | _ \<Rightarrow> (Inl NotSwappedOut, f))"

definition frame_zip :: "mm_env \<Rightarrow> Frame \<Rightarrow> (MemoryError + ppn) \<times> Frame" where
  "frame_zip env f =
     (case f of
        InMemory p \<Rightarrow>
          if env_refs env p = 1
          then (case env_zram_write env p of
                  Some t \<Rightarrow> (Inr p, Compressed t)
                | None \<Rightarrow> (Inl ZramIsFull, f))
          else (Inl SharedPage, f)
      | _ \<Rightarrow> (Inl NotInMemory, f))"

definition frame_unzip :: "mm_env \<Rightarrow> ppn option \<Rightarrow> Frame \<Rightarrow> (MemoryError + ppn) \<times> Frame" where
  "frame_unzip env new f =
     (case f of
        Compressed t \<Rightarrow>
          (case new of
             None \<Rightarrow> (Inl OutOfMemory, f)
           | Some p \<Rightarrow>
               if env_zram_read env t p then (Inr p, InMemory p)
               else (Inl BackingStoreFailure, f))
      | _ \<Rightarrow> (Inl NotCompressed, f))"

section \<open>The page store\<close>

record VmPageStore =
  st_range :: vpn_range
  st_frames :: "(vpn, Frame) btree"
  st_active :: "vpn list"
  st_compressed :: usize
  st_swapped :: usize

definition st_start :: "VmPageStore \<Rightarrow> vpn" where "st_start s = fst (st_range s)"
definition st_end :: "VmPageStore \<Rightarrow> vpn" where "st_end s = snd (st_range s)"

definition store_try_clone :: "VmPageStore \<Rightarrow> VmPageStore" where
  "store_try_clone s = s\<lparr>st_active := []\<rparr>"

definition store_try_new :: "vpn_range \<Rightarrow> VmPageStore" where
  "store_try_new r = \<lparr>st_range = r, st_frames = [], st_active = [], st_compressed = 0, st_swapped = 0\<rparr>"

definition contains_vpn :: "VmPageStore \<Rightarrow> vpn \<Rightarrow> bool" where
  "contains_vpn s key \<longleftrightarrow> st_start s \<le> key \<and> key < st_end s"

definition frame_state :: "VmPageStore \<Rightarrow> vpn \<Rightarrow> MemoryError + FrameState" where
  "frame_state s key =
     (if \<not> contains_vpn s key then Inl BadAddress
      else Inr (case bt_get (st_frames s) key of
                  Some (InMemory _) \<Rightarrow> FsInMemory
                | Some (Compressed _) \<Rightarrow> FsCompressed
                | Some (SwappedOut _) \<Rightarrow> FsSwappedOut
                | Some Unallocated \<Rightarrow> FsUnallocated
                | None \<Rightarrow> FsUnallocated))"

fun is_in_memory :: "Frame \<Rightarrow> bool" where
  "is_in_memory (InMemory _) = True"
| "is_in_memory _ = False"

definition get_in_memory :: "VmPageStore \<Rightarrow> vpn \<Rightarrow> ppn option" where
  "get_in_memory s key =
     (if \<not> contains_vpn s key then None
      else case bt_get (st_frames s) key of Some (InMemory p) \<Rightarrow> Some p | _ \<Rightarrow> None)"

definition in_memory_len :: "VmPageStore \<Rightarrow> usize" where
  "in_memory_len s = length (filter (is_in_memory \<circ> snd) (st_frames s))"

definition range_frames :: "VmPageStore \<Rightarrow> vpn \<Rightarrow> vpn \<Rightarrow> (vpn \<times> Frame) list" where
  "range_frames s a b = filter (\<lambda>(k, f). a \<le> k \<and> k < b) (st_frames s)"

definition in_memory_len_in_range :: "VmPageStore \<Rightarrow> vpn \<Rightarrow> vpn \<Rightarrow> usize" where
  "in_memory_len_in_range s start0 end0 =
     (let a = (if start0 > st_start s then start0 else st_start s);
          b = (if end0 < st_end s then end0 else st_end s)
      in if b \<le> a then 0 else length (filter (is_in_memory \<circ> snd) (range_frames s a b)))"

text \<open>The page numbers \<open>for_each_in_memory_vpn\<close> calls its function on, in order.\<close>

definition in_memory_vpns :: "VmPageStore \<Rightarrow> vpn list" where
  "in_memory_vpns s = map fst (filter (is_in_memory \<circ> snd) (st_frames s))"

definition in_memory_vpns_in_range :: "VmPageStore \<Rightarrow> vpn \<Rightarrow> vpn \<Rightarrow> vpn list" where
  "in_memory_vpns_in_range s start0 end0 =
     (let a = (if start0 > st_start s then start0 else st_start s);
          b = (if end0 < st_end s then end0 else st_end s)
      in if b \<le> a then [] else map fst (filter (is_in_memory \<circ> snd) (range_frames s a b)))"

definition is_unallocated :: "VmPageStore \<Rightarrow> vpn \<Rightarrow> bool" where
  "is_unallocated s key \<longleftrightarrow> frame_state s key = Inr FsUnallocated"

definition record_active :: "mm_env \<Rightarrow> VmPageStore \<Rightarrow> vpn \<Rightarrow> MemoryError + VmPageStore" where
  "record_active env s v =
     (if \<not> contains_vpn s v then Inl BadAddress
      else if \<not> env_reserve env (length (st_active s)) then Inl OutOfMemory
      else Inr (s\<lparr>st_active := st_active s @ [v]\<rparr>))"

text \<open>
  The operations that can fail after a change return the new table in both cases:
  \<open>alloc_in_memory\<close> removes an \<open>Unallocated\<close> entry before it asks for queue space.
\<close>

definition alloc_in_memory ::
  "mm_env \<Rightarrow> VmPageStore \<Rightarrow> vpn \<Rightarrow> ppn \<Rightarrow> (MemoryError + unit) \<times> VmPageStore" where
  "alloc_in_memory env s key p =
     (if \<not> contains_vpn s key then (Inl BadAddress, s)
      else
        let s1 = (if bt_get (st_frames s) key = Some Unallocated
                  then s\<lparr>st_frames := bt_remove key (st_frames s)\<rparr> else s)
        in if bt_get (st_frames s1) key \<noteq> None then (Inl AlreadyAllocated, s1)
           else case record_active env s1 key of
                  Inl e \<Rightarrow> (Inl e, s1)
                | Inr s2 \<Rightarrow> (Inr (), s2\<lparr>st_frames := bt_insert key (InMemory p) (st_frames s2)\<rparr>))"

definition insert_existing_frame :: "VmPageStore \<Rightarrow> vpn \<Rightarrow> Frame \<Rightarrow> VmPageStore" where
  "insert_existing_frame s key f =
     (if \<not> contains_vpn s key then s
      else case f of
        Unallocated \<Rightarrow> s
      | Compressed _ \<Rightarrow> s\<lparr>st_compressed := st_compressed s + 1, st_frames := bt_insert key f (st_frames s)\<rparr>
      | SwappedOut _ \<Rightarrow> s\<lparr>st_swapped := st_swapped s + 1, st_frames := bt_insert key f (st_frames s)\<rparr>
      | InMemory _ \<Rightarrow> s\<lparr>st_frames := bt_insert key f (st_frames s)\<rparr>)"

definition remove_in_memory :: "VmPageStore \<Rightarrow> vpn \<Rightarrow> ppn option \<times> VmPageStore" where
  "remove_in_memory s key =
     (if \<not> contains_vpn s key then (None, s)
      else
        let s1 = s\<lparr>st_active := filter (\<lambda>e. e \<noteq> key) (st_active s)\<rparr>;
            s2 = s1\<lparr>st_frames := bt_remove key (st_frames s1)\<rparr>
        in case bt_get (st_frames s1) key of
             Some (InMemory p) \<Rightarrow> (Some p, s2)
           | Some f \<Rightarrow> (None, insert_existing_frame s2 key f)
           | None \<Rightarrow> (None, s2))"

text \<open>\<open>BTreeMap::range\<close> panics on a reversed range; the outer \<open>None\<close> is that panic.\<close>

definition first_in_memory_vpn_in_range :: "VmPageStore \<Rightarrow> vpn \<Rightarrow> vpn \<Rightarrow> vpn option option" where
  "first_in_memory_vpn_in_range s a b =
     (if b < a then None
      else Some (map_option fst (find (is_in_memory \<circ> snd) (range_frames s a b))))"

definition frame_if_present :: "VmPageStore \<Rightarrow> vpn \<Rightarrow> MemoryError + Frame" where
  "frame_if_present s key =
     (if \<not> contains_vpn s key then Inl BadAddress
      else case bt_get (st_frames s) key of None \<Rightarrow> Inl NotMapped | Some f \<Rightarrow> Inr f)"

definition put_frame :: "VmPageStore \<Rightarrow> vpn \<Rightarrow> Frame \<Rightarrow> VmPageStore" where
  "put_frame s key f = s\<lparr>st_frames := bt_insert key f (st_frames s)\<rparr>"

fun is_compressed :: "Frame \<Rightarrow> bool" where
  "is_compressed (Compressed _) = True"
| "is_compressed _ = False"

fun is_swapped :: "Frame \<Rightarrow> bool" where
  "is_swapped (SwappedOut _) = True"
| "is_swapped _ = False"

definition count_compressed :: "(vpn, Frame) btree \<Rightarrow> nat" where
  "count_compressed fs = length (filter (is_compressed \<circ> snd) fs)"

definition count_swapped :: "(vpn, Frame) btree \<Rightarrow> nat" where
  "count_swapped fs = length (filter (is_swapped \<circ> snd) fs)"

text \<open>The loop of \<open>recount_oom_counters\<close> over the entries.\<close>

fun recount_loop :: "Frame list \<Rightarrow> usize \<times> usize \<Rightarrow> usize \<times> usize" where
  "recount_loop [] acc = acc"
| "recount_loop (f # fs) (c, w) =
     recount_loop fs (case f of
       Compressed _ \<Rightarrow> (c + 1, w) | SwappedOut _ \<Rightarrow> (c, w + 1) | _ \<Rightarrow> (c, w))"

definition recount_oom_counters :: "VmPageStore \<Rightarrow> VmPageStore" where
  "recount_oom_counters s =
     (let (c, w) = recount_loop (map snd (st_frames s)) (0, 0)
      in s\<lparr>st_compressed := c, st_swapped := w\<rparr>)"

definition prune_out_of_range :: "VmPageStore \<Rightarrow> VmPageStore" where
  "prune_out_of_range s =
     recount_oom_counters
       (s\<lparr>st_frames := filter (\<lambda>(v, _). st_start s \<le> v \<and> v < st_end s) (st_frames s),
          st_active := filter (\<lambda>v. st_start s \<le> v \<and> v < st_end s) (st_active s)\<rparr>)"

definition set_start :: "VmPageStore \<Rightarrow> vpn \<Rightarrow> VmPageStore option" where
  "set_start s v =
     (if st_end s < v then None else Some (prune_out_of_range (s\<lparr>st_range := (v, st_end s)\<rparr>)))"

definition set_end :: "VmPageStore \<Rightarrow> vpn \<Rightarrow> VmPageStore option" where
  "set_end s v =
     (if v < st_start s then None else Some (prune_out_of_range (s\<lparr>st_range := (st_start s, v)\<rparr>)))"

definition split_active_into_two :: "vpn list \<Rightarrow> vpn \<Rightarrow> vpn list \<times> vpn list" where
  "split_active_into_two active cut_vpn =
     (if active = [] then ([], [])
      else fold (\<lambda>v (a, b). if v < cut_vpn then (a @ [v], b) else (a, b @ [v])) active ([], []))"

text \<open>\<open>into_two\<close> returns the new left half and the right half.\<close>

definition store_into_two :: "VmPageStore \<Rightarrow> vpn \<Rightarrow> (VmPageStore \<times> VmPageStore) option" where
  "store_into_two s cut_vpn =
     (if cut_vpn \<le> st_start s \<or> st_end s \<le> cut_vpn then None
      else
        let second_frames = filter (\<lambda>(v, _). cut_vpn \<le> v) (st_frames s);
            first_frames = filter (\<lambda>(v, _). v < cut_vpn) (st_frames s);
            (first_active, second_active) = split_active_into_two (st_active s) cut_vpn;
            second = \<lparr>st_range = (cut_vpn, st_end s), st_frames = second_frames,
                      st_active = second_active, st_compressed = 0, st_swapped = 0\<rparr>;
            first = s\<lparr>st_frames := first_frames, st_range := (st_start s, cut_vpn), st_active := first_active\<rparr>
        in Some (recount_oom_counters first, recount_oom_counters second))"

definition pop_active :: "VmPageStore \<Rightarrow> vpn option \<times> VmPageStore" where
  "pop_active s =
     (case st_active s of [] \<Rightarrow> (None, s) | v # vs \<Rightarrow> (Some v, s\<lparr>st_active := vs\<rparr>))"

definition requeue_active :: "VmPageStore \<Rightarrow> vpn \<Rightarrow> VmPageStore" where
  "requeue_active s v = s\<lparr>st_active := st_active s @ [v]\<rparr>"

definition inc_compressed :: "VmPageStore \<Rightarrow> VmPageStore" where
  "inc_compressed s = s\<lparr>st_compressed := st_compressed s + 1\<rparr>"

definition inc_swapped :: "VmPageStore \<Rightarrow> VmPageStore" where
  "inc_swapped s = s\<lparr>st_swapped := st_swapped s + 1\<rparr>"

definition dec_compressed :: "VmPageStore \<Rightarrow> VmPageStore" where
  "dec_compressed s = s\<lparr>st_compressed := saturating_sub (st_compressed s) 1\<rparr>"

definition dec_swapped :: "VmPageStore \<Rightarrow> VmPageStore" where
  "dec_swapped s = s\<lparr>st_swapped := saturating_sub (st_swapped s) 1\<rparr>"

section \<open>Invariant\<close>

definition store_wf :: "VmPageStore \<Rightarrow> bool" where
  "store_wf s \<longleftrightarrow> st_start s \<le> st_end s \<and> bt_wf (st_frames s) \<and>
     (\<forall>(k, f) \<in> set (st_frames s). st_start s \<le> k \<and> k < st_end s) \<and>
     (\<forall>v \<in> set (st_active s). st_start s \<le> v \<and> v < st_end s) \<and>
     st_compressed s = count_compressed (st_frames s) \<and>
     st_swapped s = count_swapped (st_frames s)"

text \<open>The state of a page as a client sees it; an \<open>Unallocated\<close> entry and no entry are the same.\<close>

definition page_frame :: "VmPageStore \<Rightarrow> vpn \<Rightarrow> Frame" where
  "page_frame s v = (case bt_get (st_frames s) v of None \<Rightarrow> Unallocated | Some f \<Rightarrow> f)"

lemma recount_loop_counts:
  "recount_loop fs (c, w) = (c + length (filter is_compressed fs), w + length (filter is_swapped fs))"
  by (induction fs arbitrary: c w) (auto split: Frame.splits)

lemma recount_oom_counters_fields [simp]:
  "st_range (recount_oom_counters s) = st_range s"
  "st_frames (recount_oom_counters s) = st_frames s"
  "st_active (recount_oom_counters s) = st_active s"
  "st_compressed (recount_oom_counters s) = count_compressed (st_frames s)"
  "st_swapped (recount_oom_counters s) = count_swapped (st_frames s)"
  by (simp_all add: recount_oom_counters_def recount_loop_counts count_compressed_def
      count_swapped_def filter_map comp_def split: prod.splits)

lemma split_active_filter:
  "split_active_into_two xs cut_vpn = (filter (\<lambda>v. v < cut_vpn) xs, filter (\<lambda>v. \<not> v < cut_vpn) xs)"
proof -
  have "fold (\<lambda>v (a, b). if v < cut_vpn then (a @ [v], b) else (a, b @ [v])) xs (p, q) =
    (p @ filter (\<lambda>v. v < cut_vpn) xs, q @ filter (\<lambda>v. \<not> v < cut_vpn) xs)" for p q
    by (induction xs arbitrary: p q) auto
  then show ?thesis by (simp add: split_active_into_two_def)
qed

lemma count_insert:
  assumes "bt_wf m" and "bt_get m k = None"
  shows "count_compressed (bt_insert k f m) = count_compressed m + of_bool (is_compressed f)"
    and "count_swapped (bt_insert k f m) = count_swapped m + of_bool (is_swapped f)"
  using assms by (simp_all add: count_compressed_def count_swapped_def length_filter_bt_sum bt_sum_insert)

lemma count_remove:
  assumes "bt_wf m" and "bt_get m k = Some f"
  shows "count_compressed (bt_remove k m) + of_bool (is_compressed f) = count_compressed m"
    and "count_swapped (bt_remove k m) + of_bool (is_swapped f) = count_swapped m"
  using bt_sum_remove [OF assms, of "\<lambda>e. of_bool (is_compressed (snd e))"]
    bt_sum_remove [OF assms, of "\<lambda>e. of_bool (is_swapped (snd e))"]
  by (simp_all add: count_compressed_def count_swapped_def length_filter_bt_sum)

lemma store_wf_new: "s \<le> e \<Longrightarrow> store_wf (store_try_new (s, e))"
  by (simp add: store_wf_def store_try_new_def st_start_def st_end_def count_compressed_def
      count_swapped_def)

lemma store_wf_clone: "store_wf s \<Longrightarrow> store_wf (store_try_clone s)"
  by (simp add: store_wf_def store_try_clone_def st_start_def st_end_def)

lemma store_wf_record_active:
  "store_wf s \<Longrightarrow> record_active env s v = Inr s' \<Longrightarrow>
     store_wf s' \<and> st_range s' = st_range s \<and> st_frames s' = st_frames s"
  by (auto simp: record_active_def store_wf_def st_start_def st_end_def contains_vpn_def split: if_splits)

text \<open>Dropping an \<open>Unallocated\<close> entry changes no page and no counter.\<close>

lemma store_wf_drop_unallocated:
  assumes "store_wf s" and "bt_get (st_frames s) key = Some Unallocated"
  shows "store_wf (s\<lparr>st_frames := bt_remove key (st_frames s)\<rparr>)"
  using assms count_remove [of "st_frames s" key Unallocated]
  by (auto simp: store_wf_def st_start_def st_end_def)

lemma page_frame_drop_unallocated:
  "bt_get (st_frames s) key = Some Unallocated \<Longrightarrow>
     page_frame (s\<lparr>st_frames := bt_remove key (st_frames s)\<rparr>) = page_frame s"
  by (auto simp: page_frame_def bt_get_remove fun_eq_iff)

lemma alloc_in_memory_facts:
  assumes wf: "store_wf s" and r: "alloc_in_memory env s key p = (r, s')"
  shows "store_wf s'" and "st_range s' = st_range s"
    and "page_frame s' = (if r = Inr () then (page_frame s)(key := InMemory p) else page_frame s)"
    and "r = Inr () \<Longrightarrow> contains_vpn s key \<and> page_frame s key = Unallocated"
proof -
  define s1 where "s1 = (if bt_get (st_frames s) key = Some Unallocated
    then s\<lparr>st_frames := bt_remove key (st_frames s)\<rparr> else s)"
  have s1: "store_wf s1" "st_range s1 = st_range s" "page_frame s1 = page_frame s"
    using wf store_wf_drop_unallocated page_frame_drop_unallocated by (auto simp: s1_def)
  have free: "bt_get (st_frames s1) key = None \<Longrightarrow> page_frame s key = Unallocated"
    by (auto simp: s1_def page_frame_def bt_get_remove split: if_splits option.splits)
  consider (err) e where "r = Inl e" "s' = s \<or> s' = s1"
    | (ok) s2 where "contains_vpn s key" "bt_get (st_frames s1) key = None"
        "record_active env s1 key = Inr s2" "r = Inr ()"
        "s' = s2\<lparr>st_frames := bt_insert key (InMemory p) (st_frames s2)\<rparr>"
    using r by (auto simp: alloc_in_memory_def Let_def s1_def [symmetric] split: if_splits sum.splits)
  then have "store_wf s' \<and> st_range s' = st_range s \<and>
    page_frame s' = (if r = Inr () then (page_frame s)(key := InMemory p) else page_frame s) \<and>
    (r = Inr () \<longrightarrow> contains_vpn s key \<and> page_frame s key = Unallocated)"
  proof cases
    case err
    then show ?thesis using wf s1 by auto
  next
    case ok
    note s2 = store_wf_record_active [OF s1(1) ok(3)]
    have key: "st_start s2 \<le> key" "key < st_end s2"
      using ok(1) s2 s1(2) by (simp_all add: contains_vpn_def st_start_def st_end_def)
    have wf2: "bt_wf (st_frames s2)" using s2 unfolding store_wf_def by blast
    have none2: "bt_get (st_frames s2) key = None" using s2 ok(2) by simp
    have "store_wf s'"
      using s2 key wf2 count_insert [OF wf2 none2, of "InMemory p"]
      by (auto simp: ok(5) store_wf_def st_start_def st_end_def set_bt_insert)
    moreover have "page_frame s' = (page_frame s)(key := InMemory p)"
      using wf2 s2 s1(3) by (auto simp: ok(5) page_frame_def bt_get_insert fun_eq_iff)
    ultimately show ?thesis using ok s2 s1(2) free by simp
  qed
  then show "store_wf s'" "st_range s' = st_range s"
    "page_frame s' = (if r = Inr () then (page_frame s)(key := InMemory p) else page_frame s)"
    "r = Inr () \<Longrightarrow> contains_vpn s key \<and> page_frame s key = Unallocated" by auto
qed

text \<open>
  Removing a resident page. A compressed or swapped page is left in place, but its counter
  is incremented once more, so the invariant needs the page not to be in one of those states.
\<close>

lemma remove_in_memory_facts:
  assumes wf: "store_wf s" and r: "remove_in_memory s key = (r, s')"
  shows "st_range s' = st_range s"
    and "page_frame s' = (if r = None then page_frame s else (page_frame s)(key := Unallocated))"
    and "r = Some p \<longleftrightarrow> contains_vpn s key \<and> page_frame s key = InMemory p"
    and "\<not> is_compressed (page_frame s key) \<Longrightarrow> \<not> is_swapped (page_frame s key) \<Longrightarrow> store_wf s'"
proof -
  have bw: "bt_wf (st_frames s)" using wf by (simp add: store_wf_def)
  have rem: "bt_get (bt_remove key (st_frames s)) key = None" by (simp add: bt_get_remove)
  let ?g = "bt_get (st_frames s) key"
  have "st_range s' = st_range s \<and>
    page_frame s' = (if r = None then page_frame s else (page_frame s)(key := Unallocated)) \<and>
    (r = Some p \<longleftrightarrow> contains_vpn s key \<and> page_frame s key = InMemory p)"
    using r bw
    by (auto simp: remove_in_memory_def Let_def insert_existing_frame_def page_frame_def
        contains_vpn_def st_start_def st_end_def bt_get_insert bt_get_remove fun_eq_iff
        split: if_splits option.splits Frame.splits)
  then show "st_range s' = st_range s"
    "page_frame s' = (if r = None then page_frame s else (page_frame s)(key := Unallocated))"
    "r = Some p \<longleftrightarrow> contains_vpn s key \<and> page_frame s key = InMemory p" by auto
  assume nc: "\<not> is_compressed (page_frame s key)" "\<not> is_swapped (page_frame s key)"
  have "s' = s \<or> s' = s\<lparr>st_active := filter (\<lambda>e. e \<noteq> key) (st_active s),
      st_frames := bt_remove key (st_frames s)\<rparr>"
    using r nc
    by (auto simp: remove_in_memory_def Let_def insert_existing_frame_def page_frame_def
        contains_vpn_def st_start_def st_end_def split: if_splits option.splits Frame.splits)
  moreover have "count_compressed (bt_remove key (st_frames s)) = count_compressed (st_frames s)"
    "count_swapped (bt_remove key (st_frames s)) = count_swapped (st_frames s)"
    using nc count_remove [OF bw, of key] bt_remove_absent [of "st_frames s" key]
    by (auto simp: page_frame_def split: option.splits)
  ultimately show "store_wf s'" using wf by (auto simp: store_wf_def st_start_def st_end_def)
qed

lemma page_frame_out_of_range: "store_wf s \<Longrightarrow> \<not> contains_vpn s v \<Longrightarrow> page_frame s v = Unallocated"
  by (auto simp: store_wf_def contains_vpn_def page_frame_def bt_get_iff split: option.splits)

lemma prune_out_of_range_facts:
  assumes "bt_wf (st_frames s)" and "st_start s \<le> st_end s"
  shows "store_wf (prune_out_of_range s)" and "st_range (prune_out_of_range s) = st_range s"
    and "page_frame (prune_out_of_range s) v =
      (if contains_vpn s v then page_frame s v else Unallocated)"
  using assms
  by (auto simp: prune_out_of_range_def store_wf_def st_start_def st_end_def bt_wf_filter
      page_frame_def contains_vpn_def bt_get_filter)

lemma set_end_facts:
  assumes "store_wf s" and "set_end s e = Some s'"
  shows "store_wf s'" and "st_range s' = (st_start s, e)" and "st_start s \<le> e"
    and "page_frame s' v = (if v < e then page_frame s v else Unallocated)"
  using assms prune_out_of_range_facts [of "s\<lparr>st_range := (st_start s, e)\<rparr>"]
    page_frame_out_of_range [OF assms(1), of v]
  by (auto simp: set_end_def store_wf_def st_start_def st_end_def contains_vpn_def page_frame_def
      split: if_splits)

lemma set_start_facts:
  assumes "store_wf s" and "set_start s a = Some s'"
  shows "store_wf s'" and "st_range s' = (a, st_end s)" and "a \<le> st_end s"
    and "page_frame s' v = (if a \<le> v then page_frame s v else Unallocated)"
  using assms prune_out_of_range_facts [of "s\<lparr>st_range := (a, st_end s)\<rparr>"]
    page_frame_out_of_range [OF assms(1), of v]
  by (auto simp: set_start_def store_wf_def st_start_def st_end_def contains_vpn_def page_frame_def
      split: if_splits)

lemma store_into_two_facts:
  assumes wf: "store_wf s" and r: "store_into_two s c = Some (a, b)"
  shows "store_wf a" and "store_wf b" and "st_range a = (st_start s, c)" and "st_range b = (c, st_end s)"
    and "st_start s < c" and "c < st_end s"
    and "page_frame a v = (if v < c then page_frame s v else Unallocated)"
    and "page_frame b v = (if c \<le> v then page_frame s v else Unallocated)"
    and "st_compressed a + st_compressed b = st_compressed s"
    and "st_swapped a + st_swapped b = st_swapped s"
proof -
  let ?f1 = "filter (\<lambda>(v, _). v < c) (st_frames s)" and ?f2 = "filter (\<lambda>(v, _). c \<le> v) (st_frames s)"
  from r have ab: "a = recount_oom_counters (s\<lparr>st_frames := ?f1, st_range := (st_start s, c),
      st_active := filter (\<lambda>v. v < c) (st_active s)\<rparr>)"
    "b = recount_oom_counters \<lparr>st_range = (c, st_end s), st_frames = ?f2,
      st_active = filter (\<lambda>v. \<not> v < c) (st_active s), st_compressed = 0, st_swapped = 0\<rparr>"
    and c: "st_start s < c" "c < st_end s"
    by (auto simp: store_into_two_def Let_def split_active_filter split: if_splits)
  show "st_start s < c" "c < st_end s" by (fact c)+
  show "store_wf a" "store_wf b" "st_range a = (st_start s, c)" "st_range b = (c, st_end s)"
    using wf c by (auto simp: ab store_wf_def st_start_def st_end_def bt_wf_filter)
  show "page_frame a v = (if v < c then page_frame s v else Unallocated)"
    "page_frame b v = (if c \<le> v then page_frame s v else Unallocated)"
    by (simp_all add: ab page_frame_def bt_get_filter)
  have sp: "length (filter P ?f1) + length (filter P ?f2) = length (filter P (st_frames s))" for P
  proof -
    have f2: "?f2 = filter (\<lambda>e. \<not> (case e of (v, _) \<Rightarrow> v < c)) (st_frames s)"
      by (rule filter_cong) auto
    show ?thesis unfolding f2 length_filter_bt_sum by (rule bt_sum_filter_split)
  qed
  show "st_compressed a + st_compressed b = st_compressed s" "st_swapped a + st_swapped b = st_swapped s"
    using wf sp [of "is_compressed \<circ> snd"] sp [of "is_swapped \<circ> snd"]
    by (simp_all add: ab store_wf_def count_compressed_def count_swapped_def)
qed

lemma into_two_defined: "st_start s < c \<Longrightarrow> c < st_end s \<Longrightarrow> \<exists>a b. store_into_two s c = Some (a, b)"
  by (simp add: store_into_two_def Let_def split_active_filter)

end
