(* ===== verification/MmuGather.thy ===== *)
theory MmuGather
  imports FrameStore
begin

text \<open>
  \<open>os/src/mm/mmu_gather.rs\<close> and \<open>os/src/mm/tlb.rs\<close>: the record of the translations a holder
  of the address-space lock has changed, the per-address-space TLB state, and the flush
  object that is carried out of the lock. Frames are the physical page numbers their
  trackers own. A CPU mask is a 64-bit word. A panic is \<open>None\<close>.

  Dropping or forgetting a frame and invalidating the local TLB are effects outside the
  record; the model keeps them as a list of events, the latest first.
\<close>

definition MAX_USER_TLB_RANGE_PAGES :: usize where "MAX_USER_TLB_RANGE_PAGES = 64"

datatype FlushRange = FlushNone | FlushPages vpn vpn | FlushFull

datatype gather_event = LocalFlush FlushRange | DropFrame ppn | ForgetFrame ppn

record MmuGather =
  mg_range :: FlushRange
  mg_active_at_begin :: u64
  mg_retired :: "ppn list"
  mg_events :: "gather_event list"

definition gather_new :: MmuGather where
  "gather_new = \<lparr>mg_range = FlushNone, mg_active_at_begin = 0, mg_retired = [], mg_events = []\<rparr>"

definition gather_begin :: "MmuGather \<Rightarrow> u64 \<Rightarrow> MmuGather option" where
  "gather_begin g active_cpu_mask =
     (if mg_range g = FlushNone \<and> mg_retired g = []
      then Some (g\<lparr>mg_active_at_begin := active_cpu_mask\<rparr>) else None)"

text \<open>\<open>VPNRange::new\<close> asserts its order; both ranges built here are ordered.\<close>

definition record_change :: "MmuGather \<Rightarrow> vpn \<Rightarrow> MmuGather" where
  "record_change g v =
     (case checked_add v 1 of
        None \<Rightarrow> g\<lparr>mg_range := FlushFull\<rparr>
      | Some next_vpn \<Rightarrow>
          g\<lparr>mg_range :=
             (case mg_range g of
                FlushNone \<Rightarrow> FlushPages v next_vpn
              | FlushPages s e \<Rightarrow>
                  (let start' = min s v; end' = max e next_vpn
                   in if end' - start' \<le> MAX_USER_TLB_RANGE_PAGES
                      then FlushPages start' end' else FlushFull)
              | FlushFull \<Rightarrow> FlushFull)\<rparr>)"

definition record_full_flush :: "MmuGather \<Rightarrow> MmuGather" where
  "record_full_flush g = g\<lparr>mg_range := FlushFull\<rparr>"

definition leak_retired_frames :: "MmuGather \<Rightarrow> MmuGather" where
  "leak_retired_frames g =
     g\<lparr>mg_retired := [], mg_events := map ForgetFrame (rev (mg_retired g)) @ mg_events g\<rparr>"

definition release_retired_frames :: "MmuGather \<Rightarrow> MmuGather" where
  "release_retired_frames g =
     g\<lparr>mg_retired := [], mg_events := map DropFrame (rev (mg_retired g)) @ mg_events g\<rparr>"

definition cpu_bit :: "nat \<Rightarrow> u64" where
  "cpu_bit c = push_bit c 1"

text \<open>\<open>None\<close> is the \<open>unreachable!\<close> of the branch with no recorded range.\<close>

definition handle_retire_oom :: "mm_env \<Rightarrow> MmuGather \<Rightarrow> MmuGather option" where
  "handle_retire_oom env g =
     (if mg_active_at_begin g = 0 then Some (release_retired_frames g)
      else if mg_active_at_begin g = cpu_bit (env_cpu_id env)
      then (case mg_range g of
              FlushNone \<Rightarrow> None
            | r \<Rightarrow> Some (release_retired_frames (g\<lparr>mg_events := LocalFlush r # mg_events g\<rparr>)))
      else Some (leak_retired_frames g))"

definition retire_frame :: "mm_env \<Rightarrow> MmuGather \<Rightarrow> ppn \<Rightarrow> MmuGather option" where
  "retire_frame env g f =
     (if mg_range g = FlushNone then None
      else if env_reserve env (length (mg_retired g))
      then Some (g\<lparr>mg_retired := mg_retired g @ [f]\<rparr>)
      else case handle_retire_oom env g of
             None \<Rightarrow> None
           | Some g' \<Rightarrow>
               if mg_active_at_begin g' = 0 \<or> mg_active_at_begin g' = cpu_bit (env_cpu_id env)
               then Some (g'\<lparr>mg_events := DropFrame f # mg_events g'\<rparr>)
               else None)"

definition discard_unpublished :: "MmuGather \<Rightarrow> MmuGather option" where
  "discard_unpublished g =
     (if mg_active_at_begin g = 0
      then Some ((release_retired_frames g)\<lparr>mg_range := FlushNone\<rparr>) else None)"

section \<open>TLB state of an address space\<close>

record TlbContext =
  tc_active_cpus :: u64
  tc_generation :: usize
  tc_observed :: "usize list"

definition tlb_context_new :: "nat \<Rightarrow> TlbContext" where
  "tlb_context_new max_cpus =
     \<lparr>tc_active_cpus = 0, tc_generation = 1, tc_observed = replicate max_cpus 0\<rparr>"

definition cpu_is_current :: "nat \<Rightarrow> TlbContext \<Rightarrow> nat \<Rightarrow> bool option" where
  "cpu_is_current ncpu t c =
     (if c < ncpu then Some (tc_generation t \<le> tc_observed t ! c) else None)"

definition observe :: "TlbContext \<Rightarrow> usize \<Rightarrow> nat \<Rightarrow> TlbContext" where
  "observe t generation c = t\<lparr>tc_observed := (tc_observed t)[c := max (tc_observed t ! c) generation]\<rparr>"

text \<open>
  \<open>activate_cpu\<close> runs under the address-space lock, where the generation does not move, so
  its loop makes one pass. The first component says whether the CPU's TLB was invalidated.
\<close>

definition activate_cpu :: "nat \<Rightarrow> TlbContext \<Rightarrow> nat \<Rightarrow> (bool \<times> TlbContext) option" where
  "activate_cpu ncpu t c =
     (if \<not> c < ncpu then None
      else
        let t1 = (if tc_active_cpus t AND cpu_bit c = 0
                  then t\<lparr>tc_active_cpus := tc_active_cpus t OR cpu_bit c\<rparr> else t)
        in if tc_observed t1 ! c < tc_generation t1
           then Some (True, observe t1 (tc_generation t1) c)
           else Some (False, t1))"

definition deactivate_cpu :: "nat \<Rightarrow> TlbContext \<Rightarrow> nat \<Rightarrow> TlbContext option" where
  "deactivate_cpu ncpu t c =
     (if \<not> c < ncpu then None
      else if tc_active_cpus t AND cpu_bit c = 0 then Some t
      else Some (t\<lparr>tc_active_cpus := tc_active_cpus t AND NOT (cpu_bit c)\<rparr>))"

definition advance_generation :: "TlbContext \<Rightarrow> (usize \<times> TlbContext) option" where
  "advance_generation t =
     (case checked_add (tc_generation t) 1 of
        None \<Rightarrow> None
      | Some n \<Rightarrow> Some (n, t\<lparr>tc_generation := n\<rparr>))"

definition mark_targets_observed :: "nat \<Rightarrow> TlbContext \<Rightarrow> usize \<Rightarrow> u64 \<Rightarrow> TlbContext" where
  "mark_targets_observed ncpu t generation targets =
     fold (\<lambda>c t. if targets AND cpu_bit c \<noteq> 0 then observe t generation c else t) [0..<ncpu] t"

section \<open>The flush carried out of the lock\<close>

record TlbFlush =
  fl_generation :: usize
  fl_targets :: u64
  fl_gather :: MmuGather

text \<open>
  \<open>seal\<close>: \<open>full_asid\<close> is the answer of \<open>targets_require_full_asid_flush\<close>, which turns the
  recorded range into a full flush. Result: the flush to execute, if any translation was
  changed, the emptied gather and the context.
\<close>

definition seal ::
  "(u64 \<Rightarrow> bool) \<Rightarrow> MmuGather \<Rightarrow> TlbContext \<Rightarrow> (TlbFlush option \<times> MmuGather \<times> TlbContext) option" where
  "seal full_asid g t =
     (if mg_range g = FlushNone
      then (if mg_retired g = [] then Some (None, g\<lparr>mg_active_at_begin := 0\<rparr>, t) else None)
      else
        let targets = tc_active_cpus t in
        if targets \<noteq> mg_active_at_begin g then None
        else
          let gather = (if full_asid targets then g\<lparr>mg_range := FlushFull\<rparr> else g)
          in case advance_generation t of
               None \<Rightarrow> None
             | Some (generation, t') \<Rightarrow>
                 Some (Some \<lparr>fl_generation = generation, fl_targets = targets, fl_gather = gather\<rparr>,
                       gather_new, t'))"

text \<open>
  \<open>execute\<close>: \<open>sync_ok\<close> says whether the local or remote invalidation of the recorded range on
  all targets completed. The CPUs to invalidate are \<open>fl_targets\<close>, the range is the gather's.
\<close>

definition flush_execute ::
  "nat \<Rightarrow> bool \<Rightarrow> TlbFlush \<Rightarrow> TlbContext \<Rightarrow> (TlbContext \<times> MmuGather) option" where
  "flush_execute ncpu sync_ok f t =
     (if fl_targets f \<noteq> 0
      then if mg_range (fl_gather f) = FlushNone \<or> \<not> sync_ok then None
           else Some (mark_targets_observed ncpu t (fl_generation f) (fl_targets f),
                      release_retired_frames (fl_gather f))
      else Some (t, release_retired_frames (fl_gather f)))"

section \<open>What a recorded range covers\<close>

definition covers_vpn :: "FlushRange \<Rightarrow> vpn \<Rightarrow> bool" where
  "covers_vpn r v = (case r of FlushNone \<Rightarrow> False | FlushPages s e \<Rightarrow> s \<le> v \<and> v < e | FlushFull \<Rightarrow> True)"

lemma covers_vpn_simps [simp]:
  "\<not> covers_vpn FlushNone v" "covers_vpn FlushFull v"
  "covers_vpn (FlushPages s e) v \<longleftrightarrow> s \<le> v \<and> v < e"
  by (simp_all add: covers_vpn_def)

lemma record_change_fields [simp]:
  "mg_active_at_begin (record_change g v) = mg_active_at_begin g"
  "mg_retired (record_change g v) = mg_retired g"
  "mg_events (record_change g v) = mg_events g"
  by (simp_all add: record_change_def split: option.splits)

text \<open>The recorded range only grows, and it covers what was recorded last.\<close>

lemma record_change_covers: "covers_vpn (mg_range (record_change g v)) v"
  by (auto simp: record_change_def Let_def split: option.splits FlushRange.splits)

lemma record_change_mono: "covers_vpn (mg_range g) u \<Longrightarrow> covers_vpn (mg_range (record_change g v)) u"
  by (auto simp: record_change_def Let_def split: option.splits FlushRange.splits)

lemma record_change_not_None: "mg_range (record_change g v) \<noteq> FlushNone"
  using record_change_covers [of g v] by auto

definition range_bounded :: "FlushRange \<Rightarrow> bool" where
  "range_bounded r =
     (case r of FlushPages s e \<Rightarrow> s < e \<and> e - s \<le> MAX_USER_TLB_RANGE_PAGES | _ \<Rightarrow> True)"

lemma record_change_bounded: "range_bounded (mg_range g) \<Longrightarrow> range_bounded (mg_range (record_change g v))"
  by (auto simp: record_change_def range_bounded_def Let_def MAX_USER_TLB_RANGE_PAGES_def
      split: option.splits FlushRange.splits)

lemma release_retired_frames_fields [simp]:
  "mg_range (release_retired_frames g) = mg_range g"
  "mg_active_at_begin (release_retired_frames g) = mg_active_at_begin g"
  "mg_retired (release_retired_frames g) = []"
  by (simp_all add: release_retired_frames_def)

lemma retire_frame_fields:
  assumes "retire_frame env g f = Some g'"
  shows "mg_range g' = mg_range g" and "mg_active_at_begin g' = mg_active_at_begin g"
  using assms
  by (auto simp: retire_frame_def handle_retire_oom_def leak_retired_frames_def
      split: if_splits option.splits FlushRange.splits)

lemma cpu_bit_iff: "bit (cpu_bit c) n \<longleftrightarrow> n = c \<and> c < 64"
  by (auto simp: cpu_bit_def bit_exp_iff possible_bit_word)

lemma and_cpu_bit_zero: "c < 64 \<Longrightarrow> w AND cpu_bit c = 0 \<longleftrightarrow> \<not> bit w c"
  by (auto simp: bit_eq_iff [of "w AND cpu_bit c"] bit_and_iff cpu_bit_iff)

lemma bit_or_cpu_bit: "c < 64 \<Longrightarrow> bit (w OR cpu_bit c) d \<longleftrightarrow> bit w d \<or> d = c"
  by (auto simp: bit_or_iff cpu_bit_iff)

lemma bit_clear_cpu_bit: "c < 64 \<Longrightarrow> bit (w AND NOT (cpu_bit c)) d \<longleftrightarrow> bit w d \<and> d \<noteq> c"
  by (auto simp: bit_and_iff bit_not_iff cpu_bit_iff dest: bit_imp_le_length)

lemma observe_fields [simp]:
  "tc_active_cpus (observe t n c) = tc_active_cpus t"
  "tc_generation (observe t n c) = tc_generation t"
  "length (tc_observed (observe t n c)) = length (tc_observed t)"
  by (simp_all add: observe_def)

lemma observe_nth:
  "d < length (tc_observed t) \<Longrightarrow>
     tc_observed (observe t n c) ! d = (if d = c then max (tc_observed t ! d) n else tc_observed t ! d)"
  by (simp add: observe_def nth_list_update)

lemma mark_targets_observed_fields:
  "tc_active_cpus (mark_targets_observed ncpu t n targets) = tc_active_cpus t \<and>
   tc_generation (mark_targets_observed ncpu t n targets) = tc_generation t \<and>
   length (tc_observed (mark_targets_observed ncpu t n targets)) = length (tc_observed t)"
  by (induction ncpu) (auto simp: mark_targets_observed_def)

lemma mark_targets_observed_nth:
  assumes "d < length (tc_observed t)" and "d < 64"
  shows "tc_observed (mark_targets_observed ncpu t n targets) ! d =
    (if d < ncpu \<and> bit targets d then max (tc_observed t ! d) n else tc_observed t ! d)"
proof (induction ncpu)
  case (Suc k)
  let ?m = "mark_targets_observed k t n targets"
  have step: "mark_targets_observed (Suc k) t n targets =
    (if targets AND cpu_bit k \<noteq> 0 then observe ?m n k else ?m)"
    by (simp add: mark_targets_observed_def)
  have len: "d < length (tc_observed ?m)" using mark_targets_observed_fields assms(1) by simp
  show ?case using Suc.IH and_cpu_bit_zero [of k targets] assms(2) len
    by (cases "d = k") (auto simp: step observe_nth less_Suc_eq)
qed (simp add: mark_targets_observed_def)

end
