(* ===== verification/UserMapper.thy ===== *)
theory UserMapper
  imports MmuGather
begin

text \<open>
  \<open>os/src/mm/page_table.rs\<close> and \<open>os/src/mm/user_mapper.rs\<close>. The trait \<open>PageTable\<close> is a record
  of the operations the VMA layer calls, over the state \<open>'pt\<close> of an implementation; the
  adapter \<open>UserMapper\<close> couples them with the gather, so that every change of a translation is
  recorded. The adapter also carries the state the VMA layer reaches through globals: the
  frames the allocator hands out next, the contents of frames, and the calls into page
  caches (latest first).

  The locale \<open>page_table\<close> states what the layer relies on; the Sv39 page table is an instance.
\<close>

section \<open>The trait\<close>

record 'pt page_table_ops =
  pt_is_mapped :: "'pt \<Rightarrow> vpn \<Rightarrow> bool"
  pt_translate :: "'pt \<Rightarrow> vpn \<Rightarrow> ppn option"
  pt_try_map_no_flush :: "'pt \<Rightarrow> vpn \<Rightarrow> ppn \<Rightarrow> MapPermission \<Rightarrow> (MemoryError + unit) \<times> 'pt"
  pt_unmap_no_flush :: "'pt \<Rightarrow> vpn \<Rightarrow> 'pt option"
  pt_block_and_ret_mut_no_flush :: "'pt \<Rightarrow> vpn \<Rightarrow> ppn option \<times> 'pt"
  pt_set_ppn_no_flush :: "'pt \<Rightarrow> vpn \<Rightarrow> ppn \<Rightarrow> 'pt option"
  pt_set_pte_flags_no_flush :: "'pt \<Rightarrow> vpn \<Rightarrow> MapPermission \<Rightarrow> 'pt option"
  pt_set_dirty_bit_no_flush :: "'pt \<Rightarrow> vpn \<Rightarrow> 'pt option"
  pt_clear_dirty_bit :: "'pt \<Rightarrow> vpn \<Rightarrow> 'pt option"

text \<open>The permission bits R, W, X and U of an entry.\<close>

definition perm_bits :: "MapPermission \<Rightarrow> MapPermission" where
  "perm_bits p = p AND 0x1E"

locale page_table =
  fixes ops :: "'pt page_table_ops"
    and pt_inv :: "'pt \<Rightarrow> bool"
    and user_vpn :: "vpn \<Rightarrow> bool"
    and frame_ok :: "ppn \<Rightarrow> bool"
    and view :: "'pt \<Rightarrow> vpn \<Rightarrow> (ppn \<times> MapPermission) option"
  assumes is_mapped_view: "pt_inv t \<Longrightarrow> user_vpn v \<Longrightarrow> pt_is_mapped ops t v \<longleftrightarrow> view t v \<noteq> None"
    and translate_view: "pt_inv t \<Longrightarrow> user_vpn v \<Longrightarrow> pt_translate ops t v = map_option fst (view t v)"
    and try_map_inv: "pt_inv t \<Longrightarrow> user_vpn v \<Longrightarrow> frame_ok p \<Longrightarrow>
      pt_try_map_no_flush ops t v p perm = (r, t') \<Longrightarrow> pt_inv t'"
    and try_map_ok: "pt_inv t \<Longrightarrow> user_vpn v \<Longrightarrow> frame_ok p \<Longrightarrow>
      pt_try_map_no_flush ops t v p perm = (Inr (), t') \<Longrightarrow>
      view t v = None \<and> view t' = (view t)(v \<mapsto> (p, perm_bits perm))"
    and try_map_err: "pt_inv t \<Longrightarrow> user_vpn v \<Longrightarrow> frame_ok p \<Longrightarrow>
      pt_try_map_no_flush ops t v p perm = (Inl e, t') \<Longrightarrow> view t' = view t"
    and try_map_taken: "pt_inv t \<Longrightarrow> user_vpn v \<Longrightarrow> frame_ok p \<Longrightarrow> view t v \<noteq> None \<Longrightarrow>
      fst (pt_try_map_no_flush ops t v p perm) = Inl AlreadyMapped"
    and unmap_view: "pt_inv t \<Longrightarrow> user_vpn v \<Longrightarrow> view t v \<noteq> None \<Longrightarrow>
      \<exists>t'. pt_unmap_no_flush ops t v = Some t' \<and> pt_inv t' \<and> view t' = (view t)(v := None)"
    and block_view: "pt_inv t \<Longrightarrow> user_vpn v \<Longrightarrow> pt_block_and_ret_mut_no_flush ops t v = (old, t') \<Longrightarrow>
      pt_inv t' \<and> old = map_option fst (view t v) \<and>
      view t' = (view t)(v := map_option (\<lambda>(p, perm). (p, flags_difference perm PERM_W)) (view t v))"
    and set_ppn_view: "pt_inv t \<Longrightarrow> user_vpn v \<Longrightarrow> frame_ok p \<Longrightarrow>
      (case pt_set_ppn_no_flush ops t v p of
         None \<Rightarrow> view t v = None
       | Some t' \<Rightarrow> \<exists>q perm. view t v = Some (q, perm) \<and> pt_inv t' \<and> view t' = (view t)(v \<mapsto> (p, perm)))"
    and set_flags_view: "pt_inv t \<Longrightarrow> user_vpn v \<Longrightarrow>
      (case pt_set_pte_flags_no_flush ops t v perm of
         None \<Rightarrow> view t v = None
       | Some t' \<Rightarrow> \<exists>q perm0. view t v = Some (q, perm0) \<and> pt_inv t' \<and>
           view t' = (view t)(v \<mapsto> (q, perm_bits perm)))"
    and clear_dirty_view: "pt_inv t \<Longrightarrow> user_vpn v \<Longrightarrow>
      (case pt_clear_dirty_bit ops t v of
         None \<Rightarrow> view t v = None
       | Some t' \<Rightarrow> view t v \<noteq> None \<and> pt_inv t' \<and> view t' = view t)"
    and set_dirty_view: "pt_inv t \<Longrightarrow> user_vpn v \<Longrightarrow>
      (case pt_set_dirty_bit_no_flush ops t v of
         None \<Rightarrow> view t v = None
       | Some t' \<Rightarrow> view t v \<noteq> None \<and> pt_inv t' \<and> view t' = view t)"

section \<open>The adapter\<close>

datatype page_cache_call = CacheMapPage nat usize | CacheUnmapPage nat usize

record 'pt UserMapper =
  um_page_table :: 'pt
  um_gather :: MmuGather
  um_free_frames :: "ppn list"
  um_mem :: "ppn \<Rightarrow> nat \<Rightarrow> u8"
  um_cache_calls :: "page_cache_call list"

definition check_user_flags :: "MapPermission \<Rightarrow> MemoryError + unit" where
  "check_user_flags flags = (if flags_contains flags PERM_U then Inr () else Inl NoPermission)"

definition um_is_mapped :: "'pt page_table_ops \<Rightarrow> 'pt UserMapper \<Rightarrow> vpn \<Rightarrow> bool" where
  "um_is_mapped ops m v = pt_is_mapped ops (um_page_table m) v"

definition um_record :: "'pt UserMapper \<Rightarrow> vpn \<Rightarrow> 'pt UserMapper" where
  "um_record m v = m\<lparr>um_gather := record_change (um_gather m) v\<rparr>"

definition map_page ::
  "mm_env \<Rightarrow> 'pt page_table_ops \<Rightarrow> 'pt UserMapper \<Rightarrow> vpn \<Rightarrow> ppn \<Rightarrow> MapPermission \<Rightarrow>
     (MemoryError + unit) \<times> 'pt UserMapper" where
  "map_page env ops m v p flags =
     (let (r, t) = pt_try_map_no_flush ops (um_page_table m) v p flags;
          m' = m\<lparr>um_page_table := t\<rparr>
      in case r of
           Inl e \<Rightarrow> (Inl e, m')
         | Inr _ \<Rightarrow> if env_fresh_map_no_flush env then (Inr (), m') else (Inr (), um_record m' v))"

definition map_user_page ::
  "mm_env \<Rightarrow> 'pt page_table_ops \<Rightarrow> 'pt UserMapper \<Rightarrow> vpn \<Rightarrow> ppn \<Rightarrow> MapPermission \<Rightarrow>
     (MemoryError + unit) \<times> 'pt UserMapper" where
  "map_user_page env ops m v p flags =
     (case check_user_flags flags of
        Inl e \<Rightarrow> (Inl e, m)
      | Inr _ \<Rightarrow> map_page env ops m v p flags)"

definition map_privileged_user_page ::
  "mm_env \<Rightarrow> 'pt page_table_ops \<Rightarrow> 'pt UserMapper \<Rightarrow> vpn \<Rightarrow> ppn \<Rightarrow> MapPermission \<Rightarrow>
     (MemoryError + unit) \<times> 'pt UserMapper" where
  "map_privileged_user_page env ops m v p flags = map_page env ops m v p flags"

definition unmap_user_page ::
  "'pt page_table_ops \<Rightarrow> 'pt UserMapper \<Rightarrow> vpn \<Rightarrow> ((MemoryError + unit) \<times> 'pt UserMapper) option" where
  "unmap_user_page ops m v =
     (if \<not> um_is_mapped ops m v then Some (Inl NotMapped, m)
      else case pt_unmap_no_flush ops (um_page_table m) v of
             None \<Rightarrow> None
           | Some t \<Rightarrow> Some (Inr (), um_record (m\<lparr>um_page_table := t\<rparr>) v))"

definition unmap_user_page_if_mapped ::
  "'pt page_table_ops \<Rightarrow> 'pt UserMapper \<Rightarrow> vpn \<Rightarrow> ((MemoryError + bool) \<times> 'pt UserMapper) option" where
  "unmap_user_page_if_mapped ops m v =
     (if \<not> um_is_mapped ops m v then Some (Inr False, m)
      else case pt_unmap_no_flush ops (um_page_table m) v of
             None \<Rightarrow> None
           | Some t \<Rightarrow> Some (Inr True, um_record (m\<lparr>um_page_table := t\<rparr>) v))"

definition um_translate :: "'pt page_table_ops \<Rightarrow> 'pt UserMapper \<Rightarrow> vpn \<Rightarrow> ppn option" where
  "um_translate ops m v = pt_translate ops (um_page_table m) v"

definition set_user_flags ::
  "'pt page_table_ops \<Rightarrow> 'pt UserMapper \<Rightarrow> vpn \<Rightarrow> MapPermission \<Rightarrow>
     (MemoryError + unit) \<times> 'pt UserMapper" where
  "set_user_flags ops m v flags =
     (case check_user_flags flags of
        Inl e \<Rightarrow> (Inl e, m)
      | Inr _ \<Rightarrow>
          (case pt_set_pte_flags_no_flush ops (um_page_table m) v flags of
             None \<Rightarrow> (Inl NotMapped, m)
           | Some t \<Rightarrow> (Inr (), um_record (m\<lparr>um_page_table := t\<rparr>) v)))"

definition um_set_ppn ::
  "'pt page_table_ops \<Rightarrow> 'pt UserMapper \<Rightarrow> vpn \<Rightarrow> ppn \<Rightarrow> (MemoryError + unit) \<times> 'pt UserMapper" where
  "um_set_ppn ops m v p =
     (case pt_set_ppn_no_flush ops (um_page_table m) v p of
        None \<Rightarrow> (Inl NotMapped, m)
      | Some t \<Rightarrow> (Inr (), um_record (m\<lparr>um_page_table := t\<rparr>) v))"

definition block_write ::
  "'pt page_table_ops \<Rightarrow> 'pt UserMapper \<Rightarrow> vpn \<Rightarrow> ppn option \<times> 'pt UserMapper" where
  "block_write ops m v =
     (let (r, t) = pt_block_and_ret_mut_no_flush ops (um_page_table m) v;
          m' = m\<lparr>um_page_table := t\<rparr>
      in (r, if r \<noteq> None then um_record m' v else m'))"

definition um_set_dirty ::
  "'pt page_table_ops \<Rightarrow> 'pt UserMapper \<Rightarrow> vpn \<Rightarrow> (MemoryError + unit) \<times> 'pt UserMapper" where
  "um_set_dirty ops m v =
     (case pt_set_dirty_bit_no_flush ops (um_page_table m) v of
        None \<Rightarrow> (Inl NotMapped, m)
      | Some t \<Rightarrow> (Inr (), um_record (m\<lparr>um_page_table := t\<rparr>) v))"

definition um_clear_dirty ::
  "'pt page_table_ops \<Rightarrow> 'pt UserMapper \<Rightarrow> vpn \<Rightarrow> (MemoryError + unit) \<times> 'pt UserMapper" where
  "um_clear_dirty ops m v =
     (case pt_clear_dirty_bit ops (um_page_table m) v of
        None \<Rightarrow> (Inl NotMapped, m)
      | Some t \<Rightarrow> (Inr (), um_record (m\<lparr>um_page_table := t\<rparr>) v))"

definition um_retire_frame :: "mm_env \<Rightarrow> 'pt UserMapper \<Rightarrow> ppn \<Rightarrow> 'pt UserMapper option" where
  "um_retire_frame env m f = map_option (\<lambda>g. m\<lparr>um_gather := g\<rparr>) (retire_frame env (um_gather m) f)"

section \<open>Frames\<close>

text \<open>
  The frame allocator's answers: \<open>frame_alloc\<close> clears the page, \<open>frame_alloc_uninit\<close> leaves
  whatever it held. Dropping the last owner returns the frame; the model leaves it out of the
  supply, which only makes allocation fail earlier.
\<close>

definition frame_alloc_uninit :: "'pt UserMapper \<Rightarrow> ppn option \<times> 'pt UserMapper" where
  "frame_alloc_uninit m =
     (case um_free_frames m of
        [] \<Rightarrow> (None, m)
      | p # ps \<Rightarrow> (Some p, m\<lparr>um_free_frames := ps\<rparr>))"

definition frame_alloc :: "'pt UserMapper \<Rightarrow> ppn option \<times> 'pt UserMapper" where
  "frame_alloc m =
     (case frame_alloc_uninit m of
        (None, m') \<Rightarrow> (None, m')
      | (Some p, m') \<Rightarrow> (Some p, m'\<lparr>um_mem := (um_mem m')(p := (\<lambda>_. 0))\<rparr>))"

section \<open>Facts of the adapter\<close>

lemma um_record_fields [simp]:
  "um_page_table (um_record m v) = um_page_table m"
  "um_gather (um_record m v) = record_change (um_gather m) v"
  "um_free_frames (um_record m v) = um_free_frames m"
  "um_mem (um_record m v) = um_mem m"
  "um_cache_calls (um_record m v) = um_cache_calls m"
  by (simp_all add: um_record_def)

text \<open>
  Retiring a frame right after a change was recorded cannot hit the missing-change panic; the
  only other panic is a failed reservation while a remote CPU is active.
\<close>

lemma retire_frame_defined:
  assumes "mg_range g \<noteq> FlushNone" and "\<And>n. env_reserve env n"
  shows "retire_frame env g f = Some (g\<lparr>mg_retired := mg_retired g @ [f]\<rparr>)"
  using assms by (simp add: retire_frame_def)

end
