(* ===== verification/Vma.thy ===== *)
theory Vma
  imports UserMapper "HOL-Library.Monad_Syntax"
begin

text \<open>
  \<open>os/src/mm/vma.rs\<close>: one virtual memory area and its page operations. An inode, an ELF
  recipe and an address space are numbers. An operation that changes the area and the mapper
  returns both next to its \<open>Result\<close>; a panic (or a loop that does not end) is \<open>None\<close>. The
  performance counters of the source are left out.
\<close>

section \<open>The area\<close>

record Vma =
  vma_inner :: VmPageStore
  vma_map_perm :: MapPermission
  vma_map_file :: "nat option"
  vma_elf_lazy :: "nat option"
  vma_map_file_offset :: usize
  vma_may_write :: bool
  vma_write_sealed :: bool
  vma_flags :: MapFlags
  vma_wipe_on_fork :: bool
  vma_dont_fork :: bool
  vma_fork_inherited :: bool
  vma_user_address_space :: "nat option"

record FileVmaRmap =
  rm_inode :: nat
  rm_start :: vpn
  rm_end :: vpn
  rm_file_offset :: usize
  rm_owner :: nat

definition vm_start :: "Vma \<Rightarrow> vpn" where "vm_start a = st_start (vma_inner a)"
definition vm_end :: "Vma \<Rightarrow> vpn" where "vm_end a = st_end (vma_inner a)"

definition vm_contains :: "Vma \<Rightarrow> vpn \<Rightarrow> bool" where
  "vm_contains a v \<longleftrightarrow> vm_start a \<le> v \<and> v < vm_end a"

definition vm_overlaps :: "Vma \<Rightarrow> vpn \<Rightarrow> vpn \<Rightarrow> bool" where
  "vm_overlaps a s e \<longleftrightarrow> s < vm_end a \<and> e > vm_start a"

definition vm_is_user :: "Vma \<Rightarrow> bool" where
  "vm_is_user a = flags_contains (vma_map_perm a) PERM_U"

datatype VmAreaKind = VkAnonymous | VkFileBacked | VkElfLazy

definition vm_kind :: "Vma \<Rightarrow> VmAreaKind" where
  "vm_kind a =
     (if vma_elf_lazy a \<noteq> None then VkElfLazy
      else if vma_map_file a \<noteq> None then VkFileBacked else VkAnonymous)"

datatype VmAreaMapping = VmPrivate | VmShared

definition vm_mapping_type :: "Vma \<Rightarrow> VmAreaMapping" where
  "vm_mapping_type a = (if flags_contains (vma_flags a) MAP_SHARED then VmShared else VmPrivate)"

definition vm_can_merge_lazy_private :: "Vma \<Rightarrow> MapPermission \<Rightarrow> MapFlags \<Rightarrow> bool" where
  "vm_can_merge_lazy_private a prot flags \<longleftrightarrow>
     flags_contains (vma_flags a) (MAP_PRIVATE OR MAP_ANONYMOUS) \<and>
     flags_contains flags (MAP_PRIVATE OR MAP_ANONYMOUS) \<and>
     prot = vma_map_perm a \<and> vma_map_file a = None \<and>
     \<not> vma_wipe_on_fork a \<and> \<not> vma_dont_fork a \<and> \<not> vma_fork_inherited a"

definition vm_access_allows :: "Vma \<Rightarrow> FaultAccess \<Rightarrow> bool" where
  "vm_access_allows a access =
     flags_contains (vma_map_perm a)
       (case access of Load \<Rightarrow> PERM_R | Store \<Rightarrow> PERM_W | Execute \<Rightarrow> PERM_X)"

definition vm_is_stale_lazy :: "Vma \<Rightarrow> vpn \<Rightarrow> bool" where
  "vm_is_stale_lazy a v \<longleftrightarrow> frame_state (vma_inner a) v = Inr FsUnallocated"

definition vm_file_offset :: "Vma \<Rightarrow> vpn \<Rightarrow> MemoryError + usize" where
  "vm_file_offset a v =
     (if \<not> vm_contains a v then Inl BadAddress
      else case checked_add (vma_map_file_offset a) (wrapping_sub (vpn_addr v) (vpn_addr (vm_start a))) of
             None \<Rightarrow> Inl BeyondEOF
           | Some off \<Rightarrow> Inr off)"

definition rmap_from_vma :: "Vma \<Rightarrow> FileVmaRmap option" where
  "rmap_from_vma a =
     (if \<not> flags_contains (vma_flags a) MAP_SHARED then None
      else do {
        inode \<leftarrow> vma_map_file a;
        owner \<leftarrow> vma_user_address_space a;
        Some \<lparr>rm_inode = inode, rm_start = vm_start a, rm_end = vm_end a,
              rm_file_offset = vma_map_file_offset a, rm_owner = owner\<rparr>
      })"

definition vma_try_clone :: "Vma \<Rightarrow> Vma" where
  "vma_try_clone a = a\<lparr>vma_inner := store_try_clone (vma_inner a)\<rparr>"

text \<open>\<open>VPNRange::new\<close> panics when the rounded end is below the rounded start.\<close>

definition vma_try_new ::
  "addr \<Rightarrow> addr \<Rightarrow> MapPermission \<Rightarrow> nat option \<Rightarrow> usize \<Rightarrow> Vma option" where
  "vma_try_new start_va end_va perm file offset =
     do {
       r \<leftarrow> vpn_range_new (va_floor start_va) (va_ceil end_va);
       Some \<lparr>vma_inner = store_try_new r, vma_map_perm = perm, vma_map_file = file,
             vma_elf_lazy = None, vma_map_file_offset = offset, vma_may_write = True,
             vma_write_sealed = False, vma_flags = 0, vma_wipe_on_fork = False,
             vma_dont_fork = False, vma_fork_inherited = False, vma_user_address_space = None\<rparr>
     }"

definition vma_from_another :: "Vma \<Rightarrow> Vma" where
  "vma_from_another a = a\<lparr>vma_inner := store_try_new (st_range (vma_inner a))\<rparr>"

definition mark_fork_inherited :: "Vma \<Rightarrow> Vma" where
  "mark_fork_inherited a = a\<lparr>vma_fork_inherited := True\<rparr>"

definition note_file_pte_unmapped :: "mm_env \<Rightarrow> Vma \<Rightarrow> 'pt UserMapper \<Rightarrow> vpn \<Rightarrow> 'pt UserMapper" where
  "note_file_pte_unmapped env a m v =
     (case vma_map_file a of
        None \<Rightarrow> m
      | Some inode \<Rightarrow>
          (case vm_file_offset a v of
             Inl _ \<Rightarrow> m
           | Inr off \<Rightarrow>
               if env_page_cache env inode
               then m\<lparr>um_cache_calls := CacheUnmapPage inode (off div PAGE_SIZE) # um_cache_calls m\<rparr>
               else m))"

definition note_file_pte_mapped :: "mm_env \<Rightarrow> Vma \<Rightarrow> 'pt UserMapper \<Rightarrow> vpn \<Rightarrow> 'pt UserMapper" where
  "note_file_pte_mapped env a m v =
     (case vma_map_file a of
        None \<Rightarrow> m
      | Some inode \<Rightarrow>
          (case vm_file_offset a v of
             Inl _ \<Rightarrow> m
           | Inr off \<Rightarrow>
               if env_page_cache env inode
               then m\<lparr>um_cache_calls := CacheMapPage inode (off div PAGE_SIZE) # um_cache_calls m\<rparr>
               else m))"

section \<open>Mapping pages\<close>

definition map_page_with_perm ::
  "mm_env \<Rightarrow> 'pt page_table_ops \<Rightarrow> 'pt UserMapper \<Rightarrow> vpn \<Rightarrow> ppn \<Rightarrow> MapPermission \<Rightarrow>
     (MemoryError + unit) \<times> 'pt UserMapper" where
  "map_page_with_perm env ops m v p perm =
     (if flags_contains perm PERM_U then map_user_page env ops m v p perm
      else map_privileged_user_page env ops m v p perm)"

definition clear_stale_pte ::
  "'pt page_table_ops \<Rightarrow> 'pt UserMapper \<Rightarrow> vpn \<Rightarrow> (bool \<times> 'pt UserMapper) option" where
  "clear_stale_pte ops m v =
     map_option (\<lambda>(r, m'). (r = Inr True, m')) (unmap_user_page_if_mapped ops m v)"

definition map_one_unchecked ::
  "mm_env \<Rightarrow> 'pt page_table_ops \<Rightarrow> Vma \<Rightarrow> 'pt UserMapper \<Rightarrow> vpn \<Rightarrow>
     (MemoryError + ppn) \<times> Vma \<times> 'pt UserMapper" where
  "map_one_unchecked env ops a m v =
     (case frame_alloc m of
        (None, m1) \<Rightarrow> (Inl OutOfMemory, a, m1)
      | (Some p, m1) \<Rightarrow>
          (case alloc_in_memory env (vma_inner a) v p of
             (Inl e, s) \<Rightarrow> (Inl e, a\<lparr>vma_inner := s\<rparr>, m1)
           | (Inr _, s) \<Rightarrow>
               (case map_page_with_perm env ops m1 v p (vma_map_perm a) of
                  (Inl e, m2) \<Rightarrow> (Inl e, a\<lparr>vma_inner := snd (remove_in_memory s v)\<rparr>, m2)
                | (Inr _, m2) \<Rightarrow> (Inr p, a\<lparr>vma_inner := s\<rparr>, m2))))"

definition map_one ::
  "mm_env \<Rightarrow> 'pt page_table_ops \<Rightarrow> Vma \<Rightarrow> 'pt UserMapper \<Rightarrow> vpn \<Rightarrow>
     ((MemoryError \<times> vpn) + ppn) \<times> Vma \<times> 'pt UserMapper" where
  "map_one env ops a m v =
     (if \<not> um_is_mapped ops m v
      then (case map_one_unchecked env ops a m v of
              (Inl e, a', m') \<Rightarrow> (Inl (e, v), a', m')
            | (Inr p, a', m') \<Rightarrow> (Inr p, a', m'))
      else (Inl (AlreadyMapped, v), a, m))"

definition alloc_one_zeroed_unmapped ::
  "mm_env \<Rightarrow> Vma \<Rightarrow> 'pt UserMapper \<Rightarrow> vpn \<Rightarrow> (MemoryError + ppn) \<times> Vma \<times> 'pt UserMapper" where
  "alloc_one_zeroed_unmapped env a m v =
     (case frame_alloc m of
        (None, m1) \<Rightarrow> (Inl OutOfMemory, a, m1)
      | (Some p, m1) \<Rightarrow>
          (case alloc_in_memory env (vma_inner a) v p of
             (Inl e, s) \<Rightarrow> (Inl e, a\<lparr>vma_inner := s\<rparr>, m1)
           | (Inr _, s) \<Rightarrow> (Inr p, a\<lparr>vma_inner := s\<rparr>, m1)))"

definition alloc_one_uninit_unmapped ::
  "mm_env \<Rightarrow> Vma \<Rightarrow> 'pt UserMapper \<Rightarrow> vpn \<Rightarrow> (MemoryError + ppn) \<times> Vma \<times> 'pt UserMapper" where
  "alloc_one_uninit_unmapped env a m v =
     (case frame_alloc_uninit m of
        (None, m1) \<Rightarrow> (Inl OutOfMemory, a, m1)
      | (Some p, m1) \<Rightarrow>
          (case alloc_in_memory env (vma_inner a) v p of
             (Inl e, s) \<Rightarrow> (Inl e, a\<lparr>vma_inner := s\<rparr>, m1)
           | (Inr _, s) \<Rightarrow> (Inr p, a\<lparr>vma_inner := s\<rparr>, m1)))"

definition remove_unmapped_frame :: "Vma \<Rightarrow> vpn \<Rightarrow> Vma option" where
  "remove_unmapped_frame a v =
     (case remove_in_memory (vma_inner a) v of
        (None, _) \<Rightarrow> None
      | (Some _, s) \<Rightarrow> Some (a\<lparr>vma_inner := s\<rparr>))"

definition map_existing_in_memory ::
  "mm_env \<Rightarrow> 'pt page_table_ops \<Rightarrow> Vma \<Rightarrow> 'pt UserMapper \<Rightarrow> vpn \<Rightarrow>
     (MemoryError + ppn) \<times> 'pt UserMapper" where
  "map_existing_in_memory env ops a m v =
     (if um_is_mapped ops m v then (Inl AlreadyMapped, m)
      else case get_in_memory (vma_inner a) v of
             None \<Rightarrow> (Inl NotMapped, m)
           | Some p \<Rightarrow>
               (case map_page_with_perm env ops m v p (vma_map_perm a) of
                  (Inl e, m') \<Rightarrow> (Inl e, m')
                | (Inr _, m') \<Rightarrow> (Inr p, m')))"

section \<open>Unmapping pages\<close>

definition unmap_one ::
  "mm_env \<Rightarrow> 'pt page_table_ops \<Rightarrow> Vma \<Rightarrow> 'pt UserMapper \<Rightarrow> vpn \<Rightarrow>
     ((MemoryError + unit) \<times> Vma \<times> 'pt UserMapper) option" where
  "unmap_one env ops a m v =
     (if \<not> um_is_mapped ops m v then Some (Inl NotMapped, a, m)
      else do {
        (r, m1) \<leftarrow> unmap_user_page ops m v;
        (case r of
           Inl e \<Rightarrow> Some (Inl e, a, m1)
         | Inr _ \<Rightarrow>
             (let m2 = note_file_pte_unmapped env a m1 v;
                  (f, s) = remove_in_memory (vma_inner a) v;
                  a' = a\<lparr>vma_inner := s\<rparr>
              in case f of
                   None \<Rightarrow> Some (Inr (), a', m2)
                 | Some p \<Rightarrow> map_option (\<lambda>m3. (Inr (), a', m3)) (um_retire_frame env m2 p)))
      })"

text \<open>
  The body of the loop of \<open>unmap\<close> and \<open>discard_range\<close> at the resident page \<open>v\<close>: clear its
  translation if there is one, drop the table's entry, and retire the frame only if a
  translation to it existed.
\<close>

definition evict_page ::
  "mm_env \<Rightarrow> 'pt page_table_ops \<Rightarrow> Vma \<Rightarrow> 'pt UserMapper \<Rightarrow> vpn \<Rightarrow>
     ((MemoryError + unit) \<times> Vma \<times> 'pt UserMapper) option" where
  "evict_page env ops a m v =
     do {
       (r, m1) \<leftarrow> unmap_user_page_if_mapped ops m v;
       (case r of
          Inl e \<Rightarrow> Some (Inl e, a, m1)
        | Inr unmapped \<Rightarrow>
            (let m2 = (if unmapped then note_file_pte_unmapped env a m1 v else m1);
                 (f, s) = remove_in_memory (vma_inner a) v;
                 a' = a\<lparr>vma_inner := s\<rparr>
             in case f of
                  None \<Rightarrow> Some (Inr (), a', m2)
                | Some p \<Rightarrow>
                    if unmapped then map_option (\<lambda>m3. (Inr (), a', m3)) (um_retire_frame env m2 p)
                    else Some (Inr (), a', m2)))
     }"

partial_function (option) evict_loop ::
  "mm_env \<Rightarrow> 'pt page_table_ops \<Rightarrow> vpn \<Rightarrow> vpn \<Rightarrow> Vma \<Rightarrow> 'pt UserMapper \<Rightarrow>
     ((MemoryError + unit) \<times> Vma \<times> 'pt UserMapper) option" where
  "evict_loop env ops end_vpn cursor a m =
     (case first_in_memory_vpn_in_range (vma_inner a) cursor end_vpn of
        None \<Rightarrow> None
      | Some None \<Rightarrow> Some (Inr (), a, m)
      | Some (Some v) \<Rightarrow>
          (case evict_page env ops a m v of
             None \<Rightarrow> None
           | Some (Inl e, a', m') \<Rightarrow> Some (Inl e, a', m')
           | Some (Inr _, a', m') \<Rightarrow> evict_loop env ops end_vpn (saturating_add v 1) a' m'))"

definition discard_range ::
  "mm_env \<Rightarrow> 'pt page_table_ops \<Rightarrow> Vma \<Rightarrow> 'pt UserMapper \<Rightarrow> vpn \<Rightarrow> vpn \<Rightarrow>
     ((MemoryError + unit) \<times> Vma \<times> 'pt UserMapper) option" where
  "discard_range env ops a m s e =
     (if s < vm_start a \<or> vm_end a < e then Some (Inl BadAddress, a, m)
      else evict_loop env ops e s a m)"

definition vma_unmap ::
  "mm_env \<Rightarrow> 'pt page_table_ops \<Rightarrow> Vma \<Rightarrow> 'pt UserMapper \<Rightarrow>
     ((MemoryError + unit) \<times> Vma \<times> 'pt UserMapper) option" where
  "vma_unmap env ops a m = evict_loop env ops (vm_end a) (vm_start a) a m"

section \<open>Fork\<close>

text \<open>
  The loop of \<open>map_from_existing_page_table\<close> over the pages still to visit. It returns the
  first error, the end of the mapped part, and both mappers.
\<close>

fun fork_loop ::
  "mm_env \<Rightarrow> 'pt page_table_ops \<Rightarrow> Vma \<Rightarrow> bool \<Rightarrow> MapPermission \<Rightarrow> vpn list \<Rightarrow> vpn \<Rightarrow>
     'pt UserMapper \<Rightarrow> 'pt UserMapper \<Rightarrow>
     MemoryError option \<times> vpn \<times> 'pt UserMapper \<times> 'pt UserMapper" where
  "fork_loop env ops a protect perm [] mapped_end dst src = (None, mapped_end, dst, src)"
| "fork_loop env ops a protect perm (v # vs) mapped_end dst src =
     (let (r, src') = (if protect then block_write ops src v else (um_translate ops src v, src))
      in case r of
           None \<Rightarrow> fork_loop env ops a protect perm vs mapped_end dst src'
         | Some p \<Rightarrow>
             if \<not> um_is_mapped ops dst v
             then (case map_page_with_perm env ops dst v p perm of
                     (Inl e, dst') \<Rightarrow> (Some e, mapped_end, dst', src')
                   | (Inr _, dst') \<Rightarrow>
                       fork_loop env ops a protect perm vs (v + 1)
                         (note_file_pte_mapped env a dst' v) src')
             else (Some AlreadyMapped, mapped_end, dst, src'))"

fun unmap_each :: "'pt page_table_ops \<Rightarrow> vpn list \<Rightarrow> 'pt UserMapper \<Rightarrow> 'pt UserMapper option" where
  "unmap_each ops [] m = Some m"
| "unmap_each ops (v # vs) m =
     do { (_, m') \<leftarrow> unmap_user_page_if_mapped ops m v; unmap_each ops vs m' }"

definition fork_perm :: "Vma \<Rightarrow> bool \<times> MapPermission" where
  "fork_perm a =
     (let is_shared = flags_contains (vma_flags a) MAP_SHARED;
          is_file_backed = (vma_map_file a \<noteq> None);
          is_writable = flags_contains (vma_map_perm a) PERM_W;
          protect = (\<not> is_shared \<and> is_writable)
      in (protect,
          if is_shared \<and> is_file_backed \<and> is_writable
          then flags_difference (vma_map_perm a) PERM_W
          else if protect then flags_difference (vma_map_perm a) PERM_W
          else vma_map_perm a))"

definition map_from_existing_page_table ::
  "mm_env \<Rightarrow> 'pt page_table_ops \<Rightarrow> Vma \<Rightarrow> 'pt UserMapper \<Rightarrow> 'pt UserMapper \<Rightarrow>
     ((MemoryError + unit) \<times> 'pt UserMapper \<times> 'pt UserMapper) option" where
  "map_from_existing_page_table env ops a dst src =
     (let (protect, perm) = fork_perm a;
          (err, mapped_end, dst1, src1) =
            fork_loop env ops a protect perm [vm_start a..<vm_end a] (vm_start a) dst src
      in case err of
           None \<Rightarrow> Some (Inr (), dst1, src1)
         | Some e \<Rightarrow>
             map_option (\<lambda>dst2. (Inl e, dst2, src1)) (unmap_each ops [vm_start a..<mapped_end] dst1))"

section \<open>Copy on write\<close>

text \<open>
  \<open>cow_source_frame\<close>: the resident frame of the page, after bringing a compressed or swapped
  page back.
\<close>

definition restore_frame ::
  "mm_env \<Rightarrow> Vma \<Rightarrow> 'pt UserMapper \<Rightarrow> vpn \<Rightarrow> (MemoryError + ppn option) \<times> Vma \<times> 'pt UserMapper" where
  "restore_frame env a m v =
     (case frame_if_present (vma_inner a) v of
        Inl e \<Rightarrow> (Inl e, a, m)
      | Inr (InMemory _) \<Rightarrow> (Inr None, a, m)
      | Inr Unallocated \<Rightarrow> (Inl NotMapped, a, m)
      | Inr f \<Rightarrow>
          (let (new, m1) = frame_alloc m;
               (r, f') = (if is_compressed f then frame_unzip env new f else frame_swap_in env new f)
           in case r of
                Inl e \<Rightarrow> (Inl e, a, m1)
              | Inr p \<Rightarrow> (Inr (Some p), a\<lparr>vma_inner := put_frame (vma_inner a) v f'\<rparr>, m1)))"

definition cow_source_frame ::
  "mm_env \<Rightarrow> 'pt page_table_ops \<Rightarrow> Vma \<Rightarrow> 'pt UserMapper \<Rightarrow> vpn \<Rightarrow>
     (MemoryError + ppn) \<times> Vma \<times> 'pt UserMapper" where
  "cow_source_frame env ops a m v =
     (if \<not> contains_vpn (vma_inner a) v then (Inl BadAddress, a, m)
      else
        let was_compressed = (frame_state (vma_inner a) v = Inr FsCompressed);
            resident = (\<lambda>a m. case get_in_memory (vma_inner a) v of
                                  None \<Rightarrow> (Inl BadAddress, a, m) | Some p \<Rightarrow> (Inr p, a, m))
        in case restore_frame env a m v of
             (Inl e, a1, m1) \<Rightarrow> (Inl e, a1, m1)
           | (Inr None, a1, m1) \<Rightarrow> resident a1 m1
           | (Inr (Some p), a1, m1) \<Rightarrow>
               (let (set_ppn_result, m2) = um_set_ppn ops m1 v p
                in case record_active env (vma_inner a1) v of
                     Inl e \<Rightarrow> (Inl e, a1, m2)
                   | Inr s \<Rightarrow>
                       (let a2 = a1\<lparr>vma_inner := (if was_compressed then dec_compressed s else dec_swapped s)\<rparr>
                        in case set_ppn_result of
                             Inl e \<Rightarrow> (Inl e, a2, m2)
                           | Inr _ \<Rightarrow> resident a2 m2)))"

text \<open>Put the source frame back into the table; a failure is the \<open>expect\<close> of the rollback.\<close>

definition cow_restore :: "mm_env \<Rightarrow> Vma \<Rightarrow> vpn \<Rightarrow> ppn \<Rightarrow> Vma option" where
  "cow_restore env a v old =
     (case alloc_in_memory env (vma_inner a) v old of
        (Inl _, _) \<Rightarrow> None
      | (Inr _, s) \<Rightarrow> Some (a\<lparr>vma_inner := s\<rparr>))"

text \<open>
  The copying branch of \<open>copy_on_write\<close>, after the source frame is known. The caller's own
  handle counts as one reference.
\<close>

definition cow_copy ::
  "mm_env \<Rightarrow> 'pt page_table_ops \<Rightarrow> Vma \<Rightarrow> 'pt UserMapper \<Rightarrow> vpn \<Rightarrow> ppn \<Rightarrow>
     ((MemoryError + ppn) \<times> Vma \<times> 'pt UserMapper) option" where
  "cow_copy env ops a m v old_ppn =
     (if \<not> um_is_mapped ops m v then Some (Inl NotMapped, a, m)
      else case frame_alloc_uninit m of
        (None, m1) \<Rightarrow> Some (Inl OutOfMemory, a, m1)
      | (Some new_ppn, m1) \<Rightarrow>
          (let m2 = m1\<lparr>um_mem := (um_mem m1)(new_ppn := um_mem m1 old_ppn)\<rparr>
           in case remove_in_memory (vma_inner a) v of
                (None, s) \<Rightarrow> Some (Inl BadAddress, a\<lparr>vma_inner := s\<rparr>, m2)
              | (Some old, s1) \<Rightarrow>
                  (case alloc_in_memory env s1 v new_ppn of
                     (Inl e, s2) \<Rightarrow>
                       map_option (\<lambda>a'. (Inl e, a', m2)) (cow_restore env (a\<lparr>vma_inner := s2\<rparr>) v old)
                   | (Inr _, s2) \<Rightarrow>
                       (case um_set_ppn ops m2 v new_ppn of
                          (Inl _, m3) \<Rightarrow>
                            map_option (\<lambda>a'. (Inl NotMapped, a', m3))
                              (cow_restore env (a\<lparr>vma_inner := snd (remove_in_memory s2 v)\<rparr>) v old)
                        | (Inr _, m3) \<Rightarrow>
                            (case set_user_flags ops m3 v (vma_map_perm a) of
                               (Inl _, m4) \<Rightarrow>
                                 (case um_set_ppn ops m4 v old_ppn of
                                    (Inl _, _) \<Rightarrow> None
                                  | (Inr _, m5) \<Rightarrow>
                                      (let (f, s3) = remove_in_memory s2 v
                                       in do {
                                         m6 \<leftarrow> (case f of None \<Rightarrow> Some m5 | Some p \<Rightarrow> um_retire_frame env m5 p);
                                         a' \<leftarrow> cow_restore env (a\<lparr>vma_inner := s3\<rparr>) v old;
                                         Some (Inl NotMapped, a', m6)
                                       }))
                             | (Inr _, m4) \<Rightarrow>
                                 map_option (\<lambda>m5. (Inr new_ppn, a\<lparr>vma_inner := s2\<rparr>, m5))
                                   (um_retire_frame env m4 old))))))"

definition copy_on_write ::
  "mm_env \<Rightarrow> 'pt page_table_ops \<Rightarrow> Vma \<Rightarrow> 'pt UserMapper \<Rightarrow> vpn \<Rightarrow>
     ((MemoryError + ppn) \<times> Vma \<times> 'pt UserMapper) option" where
  "copy_on_write env ops a m v =
     (case cow_source_frame env ops a m v of
        (Inl e, a1, m1) \<Rightarrow> Some (Inl e, a1, m1)
      | (Inr old_ppn, a1, m1) \<Rightarrow>
          if env_refs env old_ppn + 1 \<le> 2
          then (case set_user_flags ops m1 v (vma_map_perm a1) of
                  (Inl e, m2) \<Rightarrow> Some (Inl e, a1, m2)
                | (Inr _, m2) \<Rightarrow> Some (Inr old_ppn, a1, m2))
          else cow_copy env ops a1 m1 v old_ppn)"

section \<open>Growing, shrinking and splitting\<close>

definition expand_to :: "Vma \<Rightarrow> addr \<Rightarrow> (errno + unit) \<times> Vma" where
  "expand_to a new_end =
     (if va_ceil new_end < vm_end a then (Inl EINVAL, a)
      else case set_end (vma_inner a) (va_ceil new_end) of
             None \<Rightarrow> (Inl ENOMEM, a)
           | Some s \<Rightarrow> (Inr (), a\<lparr>vma_inner := s\<rparr>))"

definition expand_down_to :: "Vma \<Rightarrow> addr \<Rightarrow> (errno + unit) \<times> Vma" where
  "expand_down_to a new_start =
     (if vm_start a < va_floor new_start then (Inl EINVAL, a)
      else if vma_map_file a \<noteq> None then (Inl EINVAL, a)
      else case set_start (vma_inner a) (va_floor new_start) of
             None \<Rightarrow> (Inl ENOMEM, a)
           | Some s \<Rightarrow> (Inr (), a\<lparr>vma_inner := s\<rparr>))"

text \<open>The loops of \<open>shrink_to\<close> and \<open>rshrink_to\<close>: the flag says that some page had no translation.\<close>

fun unmap_pages ::
  "mm_env \<Rightarrow> 'pt page_table_ops \<Rightarrow> vpn list \<Rightarrow> bool \<Rightarrow> Vma \<Rightarrow> 'pt UserMapper \<Rightarrow>
     (bool \<times> Vma \<times> 'pt UserMapper) option" where
  "unmap_pages env ops [] failed a m = Some (failed, a, m)"
| "unmap_pages env ops (v # vs) failed a m =
     do {
       (r, a', m') \<leftarrow> unmap_one env ops a m v;
       unmap_pages env ops vs (failed \<or> r \<noteq> Inr ()) a' m'
     }"

definition shrink_to ::
  "mm_env \<Rightarrow> 'pt page_table_ops \<Rightarrow> Vma \<Rightarrow> 'pt UserMapper \<Rightarrow> addr \<Rightarrow>
     (bool \<times> Vma \<times> 'pt UserMapper) option" where
  "shrink_to env ops a m new_end =
     (if vm_end a < va_ceil new_end then Some (False, a, m)
      else do {
        (failed, a1, m1) \<leftarrow> unmap_pages env ops [va_ceil new_end..<vm_end a] False a m;
        (case set_end (vma_inner a1) (va_ceil new_end) of
           None \<Rightarrow> Some (False, a1, m1)
         | Some s \<Rightarrow> Some (\<not> failed, a1\<lparr>vma_inner := s\<rparr>, m1))
      })"

definition rshrink_to ::
  "mm_env \<Rightarrow> 'pt page_table_ops \<Rightarrow> Vma \<Rightarrow> 'pt UserMapper \<Rightarrow> addr \<Rightarrow>
     (bool \<times> Vma \<times> 'pt UserMapper) option" where
  "rshrink_to env ops a m new_start =
     (if va_floor new_start < vm_start a then Some (False, a, m)
      else do {
        (failed, a1, m1) \<leftarrow> unmap_pages env ops [vm_start a..<va_floor new_start] False a m;
        (case set_start (vma_inner a1) (va_floor new_start) of
           None \<Rightarrow> Some (False, a1, m1)
         | Some s \<Rightarrow> Some (\<not> failed, a1\<lparr>vma_inner := s\<rparr>, m1))
      })"

text \<open>
  \<open>into_two\<close> returns the left part (the receiver afterwards) and the right part; on an error
  the receiver is unchanged. \<open>into_three\<close> returns the receiver also on an error: when the
  second cut fails the receiver has already been cut once and the middle part is lost.
\<close>

definition vma_into_two :: "Vma \<Rightarrow> vpn \<Rightarrow> (Vma \<times> Vma) option" where
  "vma_into_two a c =
     do {
       second_offset \<leftarrow>
         (if vma_map_file a \<noteq> None
          then checked_add (vma_map_file_offset a)
                 (wrapping_sub (vpn_addr c) (vpn_addr (st_start (vma_inner a))))
          else Some 0);
       (s1, s2) \<leftarrow> store_into_two (vma_inner a) c;
       Some (a\<lparr>vma_inner := s1\<rparr>, a\<lparr>vma_inner := s2, vma_map_file_offset := second_offset\<rparr>)
     }"

definition vma_into_three :: "Vma \<Rightarrow> vpn \<Rightarrow> vpn \<Rightarrow> (Vma \<times> Vma) option \<times> Vma" where
  "vma_into_three a c1 c2 =
     (case vma_into_two a c1 of
        None \<Rightarrow> (None, a)
      | Some (first, rest) \<Rightarrow>
          (case vma_into_two rest c2 of
             None \<Rightarrow> (None, first)
           | Some (second, third) \<Rightarrow> (Some (second, third), first)))"

section \<open>Memory reclaim\<close>

text \<open>
  What happens to one reclaim candidate in \<open>do_oom\<close>: it is dropped from the queue, put back,
  or reclaim stops.
\<close>

definition oom_unmap ::
  "mm_env \<Rightarrow> 'pt page_table_ops \<Rightarrow> 'pt UserMapper \<Rightarrow> vpn \<Rightarrow> ppn \<Rightarrow> 'pt UserMapper option" where
  "oom_unmap env ops m v f =
     do {
       (r, m1) \<leftarrow> unmap_user_page ops m v;
       (case r of Inr _ \<Rightarrow> um_retire_frame env m1 f | Inl _ \<Rightarrow> Some m1)
     }"

definition oom_candidate ::
  "mm_env \<Rightarrow> 'pt page_table_ops \<Rightarrow> VmPageStore \<Rightarrow> 'pt UserMapper \<Rightarrow> vpn \<Rightarrow>
     (bool \<times> VmPageStore \<times> 'pt UserMapper) option" where
  "oom_candidate env ops s m v =
     (if \<not> contains_vpn s v then Some (True, s, m)
      else case frame_if_present s v of
        Inl _ \<Rightarrow> Some (True, s, m)
      | Inr f \<Rightarrow>
          if \<not> is_in_memory f then Some (True, s, m)
          else case frame_zip env f of
            (Inr p, f') \<Rightarrow>
              map_option (\<lambda>m'. (True, inc_compressed (put_frame s v f'), m')) (oom_unmap env ops m v p)
          | (Inl SharedPage, _) \<Rightarrow> Some (True, requeue_active s v, m)
          | (Inl ZramIsFull, _) \<Rightarrow>
              (case frame_swap_out env f of
                 (Inr p, f') \<Rightarrow>
                   map_option (\<lambda>m'. (True, inc_swapped (put_frame s v f'), m')) (oom_unmap env ops m v p)
               | (Inl SharedPage, _) \<Rightarrow> Some (True, requeue_active s v, m)
               | (Inl NotInMemory, _) \<Rightarrow> Some (True, s, m)
               | (Inl OutOfMemory, _) \<Rightarrow> Some (False, requeue_active s v, m)
               | (Inl SwapIsFull, _) \<Rightarrow> Some (False, requeue_active s v, m)
               | (Inl BackingStoreFailure, _) \<Rightarrow> Some (False, requeue_active s v, m)
               | (Inl _, _) \<Rightarrow> Some (False, s, m))
          | (Inl _, _) \<Rightarrow> Some (True, s, m))"

fun oom_loop ::
  "mm_env \<Rightarrow> 'pt page_table_ops \<Rightarrow> nat \<Rightarrow> VmPageStore \<Rightarrow> 'pt UserMapper \<Rightarrow>
     (VmPageStore \<times> 'pt UserMapper) option" where
  "oom_loop env ops 0 s m = Some (s, m)"
| "oom_loop env ops (Suc n) s m =
     (case pop_active s of
        (None, s1) \<Rightarrow> Some (s1, m)
      | (Some v, s1) \<Rightarrow>
          (case oom_candidate env ops s1 m v of
             None \<Rightarrow> None
           | Some (go, s2, m2) \<Rightarrow> if go then oom_loop env ops n s2 m2 else Some (s2, m2)))"

definition do_oom ::
  "mm_env \<Rightarrow> 'pt page_table_ops \<Rightarrow> Vma \<Rightarrow> 'pt UserMapper \<Rightarrow> (usize \<times> Vma \<times> 'pt UserMapper) option" where
  "do_oom env ops a m =
     (let s = vma_inner a in
      map_option
        (\<lambda>(s', m'). (wrapping_sub (wrapping_sub (wrapping_add (st_compressed s') (st_swapped s'))
                        (st_compressed s)) (st_swapped s),
                     a\<lparr>vma_inner := s'\<rparr>, m'))
        (oom_loop env ops (length (st_active s)) s m))"

end
