(* ===== verification/VmaSet.thy ===== *)
theory VmaSet
  imports Vma
begin

text \<open>
  \<open>os/src/mm/vma_set.rs\<close>: the ordered set of areas of an address space, the table of free
  ranges of the mmap arena, and the cached counts of user areas and pages. Registering a
  reverse mapping with a page cache and removing it are recorded as calls, latest first.
  The areas are owned by the set alone, so \<open>Arc::try_unwrap\<close> and \<open>Arc::get_mut\<close> succeed. The
  debug assertions of the source are compiled out; they are theorems here.

  Operations that fail half-way return the set as it is then, next to the error.
\<close>

definition STACK_GUARD_GAP_PAGES :: usize where "STACK_GUARD_GAP_PAGES = 256"

definition GROWSDOWN_MAX_FAULT_GAP_PAGES :: usize where
  "GROWSDOWN_MAX_FAULT_GAP_PAGES = USER_STACK_SIZE div PAGE_SIZE"

datatype rmap_call = RmapRegister FileVmaRmap | RmapUnregister FileVmaRmap

record VmaSet =
  vs_vmas :: "(vpn, Vma) btree"
  vs_file_rmaps :: "(vpn, FileVmaRmap) btree"
  vs_owner :: "nat option"
  vs_holes :: "(vpn, vpn) btree"
  vs_user_area_count :: usize
  vs_user_page_count :: usize
  vs_rmap_calls :: "rmap_call list"

definition mmap_bounds :: "vpn \<times> vpn" where
  "mmap_bounds = (va_floor MMAP_BASE, va_floor MMAP_END)"

definition align_up :: "usize \<Rightarrow> usize \<Rightarrow> usize option" where
  "align_up value align =
     (if align \<le> 1 then Some value
      else map_option (\<lambda>v. unat ((word_of_nat v :: u64) AND NOT (word_of_nat (align - 1))))
             (checked_add value (align - 1)))"

definition file_backed_page_resident :: "mm_env \<Rightarrow> Vma \<Rightarrow> vpn \<Rightarrow> bool" where
  "file_backed_page_resident env a v =
     (case vma_map_file a of
        None \<Rightarrow> False
      | Some inode \<Rightarrow>
          (case vm_file_offset a v of
             Inl _ \<Rightarrow> False
           | Inr off \<Rightarrow> env_page_cache env inode \<and> env_cached_page env inode (off div PAGE_SIZE)))"

definition is_anonymous_private :: "Vma \<Rightarrow> bool" where
  "is_anonymous_private a \<longleftrightarrow>
     vma_map_file a = None \<and> flags_contains (vma_flags a) (MAP_PRIVATE OR MAP_ANONYMOUS) \<and>
     \<not> flags_contains (vma_flags a) MAP_SHARED"

definition area_page_count :: "Vma \<Rightarrow> usize" where
  "area_page_count a = saturating_sub (vm_end a) (vm_start a)"

definition errno_to_memory_error :: "errno \<Rightarrow> MemoryError" where
  "errno_to_memory_error e =
     (if e = ENOMEM then OutOfMemory else if e = EACCES then NoPermission else BadAddress)"

section \<open>Storing and taking areas\<close>

definition insert_file_rmap :: "VmaSet \<Rightarrow> vpn \<Rightarrow> FileVmaRmap \<Rightarrow> VmaSet" where
  "insert_file_rmap vs start rmap =
     vs\<lparr>vs_rmap_calls := RmapRegister rmap # vs_rmap_calls vs,
        vs_file_rmaps := bt_insert start rmap (vs_file_rmaps vs)\<rparr>"

definition remove_file_rmap :: "VmaSet \<Rightarrow> vpn \<Rightarrow> VmaSet" where
  "remove_file_rmap vs start =
     (case bt_get (vs_file_rmaps vs) start of
        None \<Rightarrow> vs
      | Some rmap \<Rightarrow>
          vs\<lparr>vs_file_rmaps := bt_remove start (vs_file_rmaps vs),
             vs_rmap_calls := RmapUnregister rmap # vs_rmap_calls vs\<rparr>)"

definition set_owner :: "VmaSet \<Rightarrow> nat \<Rightarrow> VmaSet" where
  "set_owner vs owner =
     (let vmas = map (\<lambda>(k, a). (k, a\<lparr>vma_user_address_space := Some owner\<rparr>)) (vs_vmas vs);
          vs1 = vs\<lparr>vs_owner := Some owner, vs_vmas := vmas\<rparr>;
          rmaps = List.map_filter (\<lambda>(k, a). map_option (Pair k) (rmap_from_vma a)) vmas
      in fold (\<lambda>(k, r) vs. insert_file_rmap vs k r) rmaps vs1)"

definition take_vma :: "VmaSet \<Rightarrow> vpn \<Rightarrow> errno + (Vma \<times> VmaSet)" where
  "take_vma vs start =
     (case bt_get (vs_vmas vs) start of
        None \<Rightarrow> Inl EINVAL
      | Some a \<Rightarrow> Inr (a, remove_file_rmap (vs\<lparr>vs_vmas := bt_remove start (vs_vmas vs)\<rparr>) start))"

definition adopt :: "VmaSet \<Rightarrow> Vma \<Rightarrow> Vma" where
  "adopt vs a = (case vs_owner vs of None \<Rightarrow> a | Some _ \<Rightarrow> a\<lparr>vma_user_address_space := vs_owner vs\<rparr>)"

definition put_vma :: "VmaSet \<Rightarrow> Vma \<Rightarrow> VmaSet" where
  "put_vma vs area =
     (let a = adopt vs area;
          vs1 = vs\<lparr>vs_vmas := bt_insert (vm_start a) a (vs_vmas vs)\<rparr>
      in case rmap_from_vma a of
           None \<Rightarrow> vs1
         | Some rmap \<Rightarrow> insert_file_rmap vs1 (vm_start a) rmap)"

definition vs_new :: VmaSet where
  "vs_new = \<lparr>vs_vmas = [], vs_file_rmaps = [], vs_owner = None, vs_holes = [mmap_bounds],
             vs_user_area_count = 0, vs_user_page_count = 0, vs_rmap_calls = []\<rparr>"

definition has_shared_writable_mapping :: "VmaSet \<Rightarrow> nat \<Rightarrow> bool" where
  "has_shared_writable_mapping vs inode =
     list_ex (\<lambda>(_, a). flags_contains (vma_flags a) MAP_SHARED \<and>
                       flags_contains (vma_map_perm a) PERM_W \<and> vma_map_file a = Some inode)
       (vs_vmas vs)"

definition last_non_user :: "VmaSet \<Rightarrow> Vma option" where
  "last_non_user vs = List.find (\<lambda>a. \<not> vm_is_user a) (rev (map snd (vs_vmas vs)))"

definition vs_clear :: "VmaSet \<Rightarrow> VmaSet" where
  "vs_clear vs =
     vs\<lparr>vs_rmap_calls := map (RmapUnregister \<circ> snd) (rev (vs_file_rmaps vs)) @ vs_rmap_calls vs,
        vs_file_rmaps := [], vs_vmas := [], vs_user_area_count := 0, vs_user_page_count := 0,
        vs_holes := [mmap_bounds]\<rparr>"

definition ensure_can_add :: "mm_env \<Rightarrow> VmaSet \<Rightarrow> usize \<Rightarrow> errno + unit" where
  "ensure_can_add env vs additional =
     (case checked_add (vs_user_area_count vs) additional of
        None \<Rightarrow> Inl ENOMEM
      | Some len \<Rightarrow>
          if saturating_add (env_max_map_count env) 1 < len then Inl ENOMEM else Inr ())"

definition untrack_area :: "VmaSet \<Rightarrow> Vma \<Rightarrow> VmaSet" where
  "untrack_area vs a =
     (if vm_is_user a
      then vs\<lparr>vs_user_area_count := saturating_sub (vs_user_area_count vs) 1,
              vs_user_page_count := saturating_sub (vs_user_page_count vs) (area_page_count a)\<rparr>
      else vs)"

section \<open>Lookup\<close>

definition find_vma_key :: "VmaSet \<Rightarrow> vpn \<Rightarrow> vpn option" where
  "find_vma_key vs v =
     (case bt_last_le v (vs_vmas vs) of
        None \<Rightarrow> None
      | Some (start, a) \<Rightarrow> if vm_contains a v then Some start else None)"

definition find_user_vma_key :: "VmaSet \<Rightarrow> vpn \<Rightarrow> vpn option" where
  "find_user_vma_key vs v =
     do {
       start \<leftarrow> find_vma_key vs v;
       a \<leftarrow> bt_get (vs_vmas vs) start;
       if vm_is_user a then Some start else None
     }"

definition has_overlap :: "VmaSet \<Rightarrow> vpn \<Rightarrow> vpn \<Rightarrow> bool" where
  "has_overlap vs s e =
     (if e \<le> s then False
      else if (case bt_last_le s (vs_vmas vs) of None \<Rightarrow> False | Some (_, a) \<Rightarrow> s < vm_end a) then True
      else case bt_first_ge s (vs_vmas vs) of None \<Rightarrow> False | Some (_, a) \<Rightarrow> vm_start a < e)"

definition first_overlap_key :: "VmaSet \<Rightarrow> vpn \<Rightarrow> vpn \<Rightarrow> vpn option" where
  "first_overlap_key vs s e =
     (case bt_last_le s (vs_vmas vs) of
        Some (k, a) \<Rightarrow>
          if vm_overlaps a s e then Some k
          else map_option fst (List.find (\<lambda>(k, a). s \<le> k \<and> vm_overlaps a s e) (vs_vmas vs))
      | None \<Rightarrow> map_option fst (List.find (\<lambda>(k, a). s \<le> k \<and> vm_overlaps a s e) (vs_vmas vs)))"

section \<open>The free ranges of the arena\<close>

definition clip_mmap_range :: "vpn \<Rightarrow> vpn \<Rightarrow> (vpn \<times> vpn) option" where
  "clip_mmap_range s e =
     (let (mmap_start, mmap_end) = mmap_bounds;
          s' = (if s > mmap_start then s else mmap_start);
          e' = (if e < mmap_end then e else mmap_end)
      in if s' < e' then Some (s', e') else None)"

fun reserve_each :: "vpn \<Rightarrow> vpn \<Rightarrow> (vpn \<times> vpn) list \<Rightarrow> (vpn, vpn) btree \<Rightarrow> (vpn, vpn) btree" where
  "reserve_each s e [] hs = hs"
| "reserve_each s e ((hole_start, hole_end) # overlapping) hs =
     (let h1 = bt_remove hole_start hs;
          h2 = (if hole_start < s then bt_insert hole_start s h1 else h1);
          h3 = (if e < hole_end then bt_insert e hole_end h2 else h2)
      in reserve_each s e overlapping h3)"

definition reserve_holes :: "vpn \<Rightarrow> vpn \<Rightarrow> (vpn, vpn) btree \<Rightarrow> (vpn, vpn) btree" where
  "reserve_holes s0 e0 hs =
     (case clip_mmap_range s0 e0 of
        None \<Rightarrow> hs
      | Some (s, e) \<Rightarrow>
          reserve_each s e (filter (\<lambda>(_, hole_end). hole_end > s) (filter (\<lambda>(k, _). k < e) hs)) hs)"

definition reserve_mmap_range :: "VmaSet \<Rightarrow> vpn \<Rightarrow> vpn \<Rightarrow> VmaSet" where
  "reserve_mmap_range vs s e = vs\<lparr>vs_holes := reserve_holes s e (vs_holes vs)\<rparr>"

function release_loop :: "vpn \<Rightarrow> vpn \<Rightarrow> (vpn, vpn) btree \<Rightarrow> vpn \<times> (vpn, vpn) btree" where
  "release_loop s e hs =
     (case bt_first_ge s hs of
        None \<Rightarrow> (e, hs)
      | Some (next_start, next_end) \<Rightarrow>
          if next_start > e then (e, hs)
          else release_loop s (if next_end > e then next_end else e) (bt_remove next_start hs))"
  by pat_completeness auto
termination
  by (relation "measure (\<lambda>(s, e, hs). length hs)")
    (auto intro: length_bt_remove_first_ge)

definition release_holes :: "vpn \<Rightarrow> vpn \<Rightarrow> (vpn, vpn) btree \<Rightarrow> (vpn, vpn) btree" where
  "release_holes s0 e0 hs0 =
     (case clip_mmap_range s0 e0 of
        None \<Rightarrow> hs0
      | Some (s1, e1) \<Rightarrow>
          (let (s, e, hs) =
                 (case bt_last_le s1 hs0 of
                    None \<Rightarrow> (s1, e1, hs0)
                  | Some (prev_start, prev_end) \<Rightarrow>
                      if s1 \<le> prev_end
                      then (prev_start, if prev_end > e1 then prev_end else e1, bt_remove prev_start hs0)
                      else (s1, e1, hs0));
               (e', hs') = release_loop s e hs
           in bt_insert s e' hs'))"

definition release_mmap_range :: "VmaSet \<Rightarrow> vpn \<Rightarrow> vpn \<Rightarrow> VmaSet" where
  "release_mmap_range vs s e = vs\<lparr>vs_holes := release_holes s e (vs_holes vs)\<rparr>"

fun find_free_loop :: "usize \<Rightarrow> usize \<Rightarrow> (vpn \<times> vpn) list \<Rightarrow> errno + addr" where
  "find_free_loop len align [] = Inl ENOMEM"
| "find_free_loop len align ((hole_start, hole_end) # hs) =
     (case align_up (vpn_addr hole_start) align of
        None \<Rightarrow> Inl EINVAL
      | Some start_addr \<Rightarrow>
          (case checked_add start_addr len of
             None \<Rightarrow> Inl EINVAL
           | Some end_addr \<Rightarrow>
               if end_addr \<le> vpn_addr hole_end then Inr start_addr else find_free_loop len align hs))"

definition find_free_mmap_range :: "VmaSet \<Rightarrow> usize \<Rightarrow> usize \<Rightarrow> errno + addr" where
  "find_free_mmap_range vs len align = find_free_loop len (max align PAGE_SIZE) (vs_holes vs)"

function free_loop :: "(vpn, vpn) btree \<Rightarrow> vpn \<Rightarrow> vpn \<Rightarrow> bool" where
  "free_loop hs cursor e =
     (if cursor < e
      then (case bt_last_le cursor hs of
              None \<Rightarrow> False
            | Some (_, hole_end) \<Rightarrow>
                if hole_end \<le> cursor then False
                else free_loop hs (if hole_end < e then hole_end else e) e)
      else True)"
  by pat_completeness auto
termination
  by (relation "measure (\<lambda>(hs, cursor, e). e - cursor)") auto

definition is_mmap_range_free :: "VmaSet \<Rightarrow> vpn \<Rightarrow> vpn \<Rightarrow> bool" where
  "is_mmap_range_free vs s e =
     (case clip_mmap_range s e of
        None \<Rightarrow> False
      | Some (cs, ce) \<Rightarrow> if cs \<noteq> s \<or> ce \<noteq> e then False else free_loop (vs_holes vs) s e)"

section \<open>Inserting, removing and splitting\<close>

definition insert_vma :: "mm_env \<Rightarrow> VmaSet \<Rightarrow> Vma \<Rightarrow> (errno + unit) \<times> VmaSet" where
  "insert_vma env vs new_area =
     (let s = vm_start new_area; e = vm_end new_area in
      if e \<le> s then (Inl EINVAL, vs)
      else if has_overlap vs s e then (Inl EINVAL, vs)
      else case ensure_can_add env vs 1 of
        Inl err \<Rightarrow> (Inl err, vs)
      | Inr _ \<Rightarrow>
          (let vs1 = put_vma (reserve_mmap_range vs s e) new_area
           in (Inr (),
               if vm_is_user new_area
               then vs1\<lparr>vs_user_area_count := vs_user_area_count vs1 + 1,
                        vs_user_page_count := vs_user_page_count vs1 + area_page_count new_area\<rparr>
               else vs1)))"

definition remove_area_with_start ::
  "mm_env \<Rightarrow> 'pt page_table_ops \<Rightarrow> VmaSet \<Rightarrow> 'pt UserMapper \<Rightarrow> vpn \<Rightarrow>
     ((MemoryError + unit) \<times> VmaSet \<times> 'pt UserMapper) option" where
  "remove_area_with_start env ops vs m start =
     (case take_vma vs start of
        Inl _ \<Rightarrow> Some (Inl AreaNotFound, vs, m)
      | Inr (a, vs1) \<Rightarrow>
          do {
            (r, _, m') \<leftarrow> vma_unmap env ops a m;
            Some (r, release_mmap_range (untrack_area vs1 a) (vm_start a) (vm_end a), m')
          })"

definition add_user_areas :: "bool \<Rightarrow> usize \<Rightarrow> VmaSet \<Rightarrow> VmaSet" where
  "add_user_areas user n vs =
     (if user then vs\<lparr>vs_user_area_count := vs_user_area_count vs + n\<rparr> else vs)"

definition split_for_range ::
  "mm_env \<Rightarrow> VmaSet \<Rightarrow> vpn \<Rightarrow> vpn \<Rightarrow> vpn \<Rightarrow> (errno + vpn) \<times> VmaSet" where
  "split_for_range env vs area_start s e =
     (case bt_get (vs_vmas vs) area_start of
        None \<Rightarrow> (Inl EINVAL, vs)
      | Some a0 \<Rightarrow>
          (let user = vm_is_user a0; a_s = vm_start a0; a_e = vm_end a0 in
           if s < a_s \<or> a_e < e \<or> e \<le> s then (Inl EINVAL, vs)
           else
             let additional = (if s = a_s \<and> e = a_e then 0 else if s = a_s \<or> e = a_e then 1 else 2)
             in case ensure_can_add env vs additional of
               Inl err \<Rightarrow> (Inl err, vs)
             | Inr _ \<Rightarrow>
                 (case take_vma vs area_start of
                    Inl err \<Rightarrow> (Inl err, vs)
                  | Inr (a, vs1) \<Rightarrow>
                      if s = a_s \<and> e = a_e then (Inr a_s, put_vma vs1 a)
                      else if s = a_s
                      then (case vma_into_two a e of
                              None \<Rightarrow> (Inl EINVAL, put_vma vs1 a)
                            | Some (first, second) \<Rightarrow>
                                (Inr (vm_start first),
                                 add_user_areas user 1 (put_vma (put_vma vs1 first) second)))
                      else if e = a_e
                      then (case vma_into_two a s of
                              None \<Rightarrow> (Inl EINVAL, put_vma vs1 a)
                            | Some (first, second) \<Rightarrow>
                                (Inr (vm_start second),
                                 add_user_areas user 1 (put_vma (put_vma vs1 first) second)))
                      else (case vma_into_three a s e of
                              (None, a') \<Rightarrow> (Inl EINVAL, put_vma vs1 a')
                            | (Some (second, third), first) \<Rightarrow>
                                (Inr (vm_start second),
                                 add_user_areas user 2
                                   (put_vma (put_vma (put_vma vs1 first) second) third))))))"

text \<open>
  One round of the loop of \<open>unmap_range\<close> at the overlapping area \<open>area_start\<close>.
\<close>

definition unmap_area ::
  "mm_env \<Rightarrow> 'pt page_table_ops \<Rightarrow> vpn \<Rightarrow> vpn \<Rightarrow> vpn \<Rightarrow> VmaSet \<Rightarrow> 'pt UserMapper \<Rightarrow>
     ((errno + unit) \<times> VmaSet \<times> 'pt UserMapper) option" where
  "unmap_area env ops s e area_start vs m =
     (case bt_get (vs_vmas vs) area_start of
        None \<Rightarrow> Some (Inl EINVAL, vs, m)
      | Some a \<Rightarrow>
          if \<not> vm_is_user a then Some (Inl EINVAL, vs, m)
          else
            let overlap_start = (if s > vm_start a then s else vm_start a);
                overlap_end = (if e < vm_end a then e else vm_end a)
            in case split_for_range env vs area_start overlap_start overlap_end of
              (Inl err, vs1) \<Rightarrow> Some (Inl err, vs1, m)
            | (Inr target_start, vs1) \<Rightarrow>
                (case take_vma vs1 target_start of
                   Inl err \<Rightarrow> Some (Inl err, vs1, m)
                 | Inr (target, vs2) \<Rightarrow>
                     do {
                       (_, _, m') \<leftarrow> vma_unmap env ops target m;
                       Some (Inr (),
                             release_mmap_range (untrack_area vs2 target) (vm_start target) (vm_end target),
                             m')
                     }))"

partial_function (option) unmap_loop ::
  "mm_env \<Rightarrow> 'pt page_table_ops \<Rightarrow> vpn \<Rightarrow> vpn \<Rightarrow> bool \<Rightarrow> VmaSet \<Rightarrow> 'pt UserMapper \<Rightarrow>
     ((errno + bool) \<times> VmaSet \<times> 'pt UserMapper) option" where
  "unmap_loop env ops s e found vs m =
     (case first_overlap_key vs s e of
        None \<Rightarrow> Some (Inr found, vs, m)
      | Some area_start \<Rightarrow>
          (case unmap_area env ops s e area_start vs m of
             None \<Rightarrow> None
           | Some (Inl err, vs', m') \<Rightarrow> Some (Inl err, vs', m')
           | Some (Inr _, vs', m') \<Rightarrow> unmap_loop env ops s e True vs' m'))"

definition unmap_range ::
  "mm_env \<Rightarrow> 'pt page_table_ops \<Rightarrow> VmaSet \<Rightarrow> 'pt UserMapper \<Rightarrow> vpn \<Rightarrow> vpn \<Rightarrow> bool \<Rightarrow>
     ((errno + bool) \<times> VmaSet \<times> 'pt UserMapper) option" where
  "unmap_range env ops vs m s e allow_empty =
     do {
       (r, vs', m') \<leftarrow> unmap_loop env ops s e False vs m;
       (case r of
          Inl err \<Rightarrow> Some (Inl err, vs', m')
        | Inr found \<Rightarrow> Some (if found \<or> allow_empty then Inr found else Inl EINVAL, vs', m'))
     }"

fun unmap_all_loop ::
  "mm_env \<Rightarrow> 'pt page_table_ops \<Rightarrow> (vpn \<times> Vma) list \<Rightarrow> MemoryError option \<Rightarrow> 'pt UserMapper \<Rightarrow>
     (MemoryError option \<times> 'pt UserMapper) option" where
  "unmap_all_loop env ops [] err m = Some (err, m)"
| "unmap_all_loop env ops ((_, a) # as) err m =
     do {
       (r, _, m') \<leftarrow> vma_unmap env ops a m;
       unmap_all_loop env ops as
         (case r of Inr _ \<Rightarrow> err | Inl e \<Rightarrow> (case err of None \<Rightarrow> Some e | Some e0 \<Rightarrow> Some e0)) m'
     }"

definition unmap_all ::
  "mm_env \<Rightarrow> 'pt page_table_ops \<Rightarrow> VmaSet \<Rightarrow> 'pt UserMapper \<Rightarrow>
     ((MemoryError + unit) \<times> VmaSet \<times> 'pt UserMapper) option" where
  "unmap_all env ops vs m =
     (let old_vmas = vs_vmas vs; vs1 = vs_clear (vs\<lparr>vs_vmas := []\<rparr>)
      in do {
           (err, m') \<leftarrow> unmap_all_loop env ops old_vmas None m;
           Some (case err of None \<Rightarrow> Inr () | Some e \<Rightarrow> Inl e, vs1, m')
         })"

end
