(* ===== verification/VmaSetOps.thy ===== *)
theory VmaSetOps
  imports VmaSet
begin

text \<open>
  The range operations of \<open>os/src/mm/vma_set.rs\<close> built on the primitives of \<open>VmaSet\<close>: stack
  growth, page-cache write protection, advice, residency, coverage, protection and merging.
  A loop over a cursor is a partial function whose \<open>None\<close> is a loop that does not end; the
  theorems show that it ends.
\<close>

definition update_area :: "VmaSet \<Rightarrow> vpn \<Rightarrow> Vma \<Rightarrow> VmaSet" where
  "update_area vs start a = vs\<lparr>vs_vmas := bt_insert start a (vs_vmas vs)\<rparr>"

section \<open>Stack growth\<close>

definition growsdown_blocked :: "VmaSet \<Rightarrow> vpn \<Rightarrow> vpn \<Rightarrow> bool" where
  "growsdown_blocked vs fault_vpn old_start =
     (case bt_last_lt old_start (vs_vmas vs) of
        None \<Rightarrow> False
      | Some (_, prev) \<Rightarrow>
          vm_end prev > fault_vpn \<or> saturating_sub fault_vpn (vm_end prev) < STACK_GUARD_GAP_PAGES)"

definition expand_growsdown_for_fault ::
  "VmaSet \<Rightarrow> vpn \<Rightarrow> (MemoryError + vpn option) \<times> VmaSet" where
  "expand_growsdown_for_fault vs fault_vpn =
     (case bt_first_ge fault_vpn (vs_vmas vs) of
        None \<Rightarrow> (Inr None, vs)
      | Some (old_start, _) \<Rightarrow>
          (case bt_get (vs_vmas vs) old_start of
             None \<Rightarrow> (Inr None, vs)
           | Some area \<Rightarrow>
               if old_start \<le> fault_vpn \<or> \<not> vm_is_user area \<or>
                  \<not> flags_contains (vma_flags area) MAP_GROWSDOWN
               then (Inr None, vs)
               else if old_start - fault_vpn > GROWSDOWN_MAX_FAULT_GAP_PAGES then (Inr None, vs)
               else if growsdown_blocked vs fault_vpn old_start then (Inr None, vs)
               else if has_overlap vs fault_vpn old_start then (Inr None, vs)
               else
                 let vs1 = reserve_mmap_range vs fault_vpn old_start
                 in case take_vma vs1 old_start of
                   Inl _ \<Rightarrow> (Inl BadAddress, vs1)
                 | Inr (a, vs2) \<Rightarrow>
                     (case expand_down_to a (vpn_addr fault_vpn) of
                        (Inl err, a') \<Rightarrow>
                          (Inl (errno_to_memory_error err),
                           release_mmap_range (put_vma vs2 a') fault_vpn old_start)
                      | (Inr _, a') \<Rightarrow>
                          (let vs3 = (if vm_is_user a
                                      then vs2\<lparr>vs_user_page_count :=
                                             saturating_add (vs_user_page_count vs2)
                                               (saturating_sub (area_page_count a') (area_page_count a))\<rparr>
                                      else vs2)
                           in (Inr (Some (vm_start a')), put_vma vs3 a')))))"

section \<open>Page-cache write protection\<close>

text \<open>
  A reverse mapping is identified by its value: the entries of the table have different start
  pages. The result is the set and the mapper; there is no error.
\<close>

definition mkclean_file_page ::
  "mm_env \<Rightarrow> 'pt page_table_ops \<Rightarrow> VmaSet \<Rightarrow> 'pt UserMapper \<Rightarrow> FileVmaRmap \<Rightarrow> usize \<Rightarrow> bool \<Rightarrow>
     (VmaSet \<times> 'pt UserMapper) option" where
  "mkclean_file_page env ops vs m expected page_index unmap =
     (case List.find (\<lambda>(_, rmap). rmap = expected) (vs_file_rmaps vs) of
        None \<Rightarrow> Some (vs, m)
      | Some (start, _) \<Rightarrow>
          (case bt_get (vs_vmas vs) start of
             None \<Rightarrow> Some (vs, m)
           | Some a \<Rightarrow>
               if \<not> flags_contains (vma_flags a) MAP_SHARED \<or> vma_map_file a = None then Some (vs, m)
               else case checked_mul page_index PAGE_SIZE of
                 None \<Rightarrow> Some (vs, m)
               | Some file_byte \<Rightarrow>
                   (case checked_sub file_byte (vma_map_file_offset a) of
                      None \<Rightarrow> Some (vs, m)
                    | Some relative \<Rightarrow>
                        if page_offset relative \<noteq> 0 then Some (vs, m)
                        else
                          let v = saturating_add (vm_start a) (relative div PAGE_SIZE)
                          in if \<not> vm_contains a v \<or> \<not> um_is_mapped ops m v then Some (vs, m)
                             else if unmap
                             then do {
                               (r, m1) \<leftarrow> unmap_user_page_if_mapped ops m v;
                               if r = Inr True
                               then (let m2 = note_file_pte_unmapped env a m1 v;
                                         (f, s) = remove_in_memory (vma_inner a) v;
                                         vs' = update_area vs start (a\<lparr>vma_inner := s\<rparr>)
                                     in case f of
                                          None \<Rightarrow> Some (vs', m2)
                                        | Some p \<Rightarrow> map_option (Pair vs') (um_retire_frame env m2 p))
                               else Some (vs, m1)
                             }
                             else
                               (case set_user_flags ops m v (flags_difference (vma_map_perm a) PERM_W) of
                                  (Inl _, m1) \<Rightarrow> Some (vs, m1)
                                | (Inr _, m1) \<Rightarrow> Some (vs, snd (um_clear_dirty ops m1 v))))))"

section \<open>Advice\<close>

definition MADV_DONTNEED :: usize where "MADV_DONTNEED = 4"
definition MADV_FREE :: usize where "MADV_FREE = 8"
definition MADV_DONTFORK :: usize where "MADV_DONTFORK = 10"
definition MADV_DOFORK :: usize where "MADV_DOFORK = 11"
definition MADV_MERGEABLE :: usize where "MADV_MERGEABLE = 12"
definition MADV_UNMERGEABLE :: usize where "MADV_UNMERGEABLE = 13"
definition MADV_WIPEONFORK :: usize where "MADV_WIPEONFORK = 18"
definition MADV_KEEPONFORK :: usize where "MADV_KEEPONFORK = 19"

lemmas madv_defs = MADV_DONTNEED_def MADV_FREE_def MADV_DONTFORK_def MADV_DOFORK_def
  MADV_MERGEABLE_def MADV_UNMERGEABLE_def MADV_WIPEONFORK_def MADV_KEEPONFORK_def

text \<open>Split off the advised part and set one of its fork attributes.\<close>

definition advise_split ::
  "mm_env \<Rightarrow> VmaSet \<Rightarrow> vpn \<Rightarrow> vpn \<Rightarrow> vpn \<Rightarrow> (Vma \<Rightarrow> Vma) \<Rightarrow> (errno + unit) \<times> VmaSet" where
  "advise_split env vs area_start cursor advise_end upd =
     (case split_for_range env vs area_start cursor advise_end of
        (Inl err, vs') \<Rightarrow> (Inl err, vs')
      | (Inr target_start, vs') \<Rightarrow>
          (case bt_get (vs_vmas vs') target_start of
             None \<Rightarrow> (Inl ENOMEM, vs')
           | Some a \<Rightarrow> (Inr (), update_area vs' target_start (upd a))))"

text \<open>The body of the loop of \<open>advise_range\<close> for the part of one area; the advices exclude each other.\<close>

definition advise_area ::
  "mm_env \<Rightarrow> 'pt page_table_ops \<Rightarrow> usize \<Rightarrow> vpn \<Rightarrow> vpn \<Rightarrow> vpn \<Rightarrow> Vma \<Rightarrow> VmaSet \<Rightarrow> 'pt UserMapper \<Rightarrow>
     ((errno + unit) \<times> VmaSet \<times> 'pt UserMapper) option" where
  "advise_area env ops advice area_start cursor advise_end a vs m =
     (if advice = MADV_DONTNEED
      then if vma_map_file a = None \<and> flags_contains (vma_flags a) MAP_PRIVATE
           then do {
             (r, a', m') \<leftarrow> discard_range env ops a m cursor advise_end;
             Some (case r of Inl _ \<Rightarrow> Inl EINVAL | Inr _ \<Rightarrow> Inr (), update_area vs area_start a', m')
           }
           else Some (Inr (), vs, m)
      else if advice = MADV_FREE
      then Some (if is_anonymous_private a then Inr () else Inl EINVAL, vs, m)
      else if advice = MADV_MERGEABLE \<or> advice = MADV_UNMERGEABLE
      then Some (if flags_contains (vma_map_perm a) PERM_W then Inr () else Inl EINVAL, vs, m)
      else if advice = MADV_DONTFORK \<or> advice = MADV_DOFORK
      then (let (r, vs') = advise_split env vs area_start cursor advise_end
                             (\<lambda>a. a\<lparr>vma_dont_fork := (advice = MADV_DONTFORK)\<rparr>)
            in Some (r, vs', m))
      else if advice = MADV_WIPEONFORK \<or> advice = MADV_KEEPONFORK
      then (if advice = MADV_WIPEONFORK \<and> \<not> is_anonymous_private a then Some (Inl EINVAL, vs, m)
            else (let (r, vs') = advise_split env vs area_start cursor advise_end
                                   (\<lambda>a. a\<lparr>vma_wipe_on_fork := (advice = MADV_WIPEONFORK)\<rparr>)
                  in Some (r, vs', m)))
      else Some (Inr (), vs, m))"

partial_function (option) advise_range ::
  "mm_env \<Rightarrow> 'pt page_table_ops \<Rightarrow> usize \<Rightarrow> vpn \<Rightarrow> VmaSet \<Rightarrow> 'pt UserMapper \<Rightarrow> vpn \<Rightarrow>
     ((errno + unit) \<times> VmaSet \<times> 'pt UserMapper) option" where
  "advise_range env ops advice end_vpn vs m cursor =
     (if \<not> cursor < end_vpn then Some (Inr (), vs, m)
      else case find_user_vma_key vs cursor of
        None \<Rightarrow> Some (Inl ENOMEM, vs, m)
      | Some area_start \<Rightarrow>
          (case bt_get (vs_vmas vs) area_start of
             None \<Rightarrow> Some (Inl ENOMEM, vs, m)
           | Some a \<Rightarrow>
               (let advise_end = (if vm_end a < end_vpn then vm_end a else end_vpn)
                in case advise_area env ops advice area_start cursor advise_end a vs m of
                     None \<Rightarrow> None
                   | Some (Inl err, vs', m') \<Rightarrow> Some (Inl err, vs', m')
                   | Some (Inr _, vs', m') \<Rightarrow> advise_range env ops advice end_vpn vs' m' advise_end)))"

section \<open>Residency and coverage\<close>

text \<open>The residency bytes of the pages of one area, written at the index of each page.\<close>

fun mincore_scan ::
  "mm_env \<Rightarrow> 'pt page_table_ops \<Rightarrow> 'pt \<Rightarrow> Vma \<Rightarrow> vpn list \<Rightarrow> usize \<Rightarrow> u8 list \<Rightarrow> usize \<times> u8 list" where
  "mincore_scan env ops pt a [] index residency = (index, residency)"
| "mincore_scan env ops pt a (v # vs) index residency =
     mincore_scan env ops pt a vs (index + 1)
       (if index < length residency
        then residency[index := if pt_is_mapped ops pt v \<or> file_backed_page_resident env a v then 1 else 0]
        else residency)"

partial_function (option) mincore_range ::
  "mm_env \<Rightarrow> 'pt page_table_ops \<Rightarrow> 'pt \<Rightarrow> VmaSet \<Rightarrow> vpn \<Rightarrow> vpn \<Rightarrow> usize \<Rightarrow> u8 list \<Rightarrow>
     ((errno + unit) \<times> u8 list) option" where
  "mincore_range env ops pt vs end_vpn cursor index residency =
     (if \<not> cursor < end_vpn then Some (Inr (), residency)
      else case find_user_vma_key vs cursor of
        None \<Rightarrow> Some (Inl ENOMEM, residency)
      | Some area_start \<Rightarrow>
          (case bt_get (vs_vmas vs) area_start of
             None \<Rightarrow> Some (Inl ENOMEM, residency)
           | Some a \<Rightarrow>
               (let scan_end = (if vm_end a < end_vpn then vm_end a else end_vpn);
                    (index', residency') = mincore_scan env ops pt a [cursor..<scan_end] index residency
                in mincore_range env ops pt vs end_vpn (max cursor scan_end) index' residency')))"

function covers_user_range :: "VmaSet \<Rightarrow> vpn \<Rightarrow> vpn \<Rightarrow> bool" where
  "covers_user_range vs cursor end_vpn =
     (if cursor < end_vpn
      then (case find_user_vma_key vs cursor of
              None \<Rightarrow> False
            | Some area_start \<Rightarrow>
                (case bt_get (vs_vmas vs) area_start of
                   None \<Rightarrow> False
                 | Some a \<Rightarrow>
                     if vm_end a \<le> cursor then False
                     else covers_user_range vs (if vm_end a < end_vpn then vm_end a else end_vpn) end_vpn))
      else True)"
  by pat_completeness auto
termination
  by (relation "measure (\<lambda>(vs, cursor, end_vpn). end_vpn - cursor)") auto

definition user_mapped_bytes :: "VmaSet \<Rightarrow> usize" where
  "user_mapped_bytes vs = saturating_mul (vs_user_page_count vs) PAGE_SIZE"

section \<open>Protection\<close>

fun set_flags_each ::
  "'pt page_table_ops \<Rightarrow> MapPermission \<Rightarrow> vpn list \<Rightarrow> 'pt UserMapper \<Rightarrow> 'pt UserMapper" where
  "set_flags_each ops perm [] m = m"
| "set_flags_each ops perm (v # vs) m = set_flags_each ops perm vs (snd (set_user_flags ops m v perm))"

definition protect_area ::
  "'pt page_table_ops \<Rightarrow> VmaSet \<Rightarrow> 'pt UserMapper \<Rightarrow> vpn \<Rightarrow> MapPermission \<Rightarrow>
     (errno + unit) \<times> VmaSet \<times> 'pt UserMapper" where
  "protect_area ops vs m area_start prot =
     (case bt_get (vs_vmas vs) area_start of
        None \<Rightarrow> (Inl EINVAL, vs, m)
      | Some a \<Rightarrow>
          (Inr (), update_area vs area_start (a\<lparr>vma_map_perm := prot\<rparr>),
           set_flags_each ops (flags_difference prot PERM_W) (in_memory_vpns (vma_inner a)) m))"

text \<open>The first loop of \<open>protect_range\<close>: every page has a user area that may get the permission.\<close>

partial_function (option) protect_check ::
  "VmaSet \<Rightarrow> MapPermission \<Rightarrow> vpn \<Rightarrow> vpn \<Rightarrow> (errno + unit) option" where
  "protect_check vs prot end_vpn cursor =
     (if \<not> cursor < end_vpn then Some (Inr ())
      else case find_user_vma_key vs cursor of
        None \<Rightarrow> Some (Inl ENOMEM)
      | Some area_start \<Rightarrow>
          (case bt_get (vs_vmas vs) area_start of
             None \<Rightarrow> Some (Inl ENOMEM)
           | Some a \<Rightarrow>
               if flags_contains prot PERM_W \<and> flags_contains (vma_flags a) MAP_SHARED \<and> vma_write_sealed a
               then Some (Inl EPERM)
               else if flags_contains prot PERM_W \<and> flags_contains (vma_flags a) MAP_SHARED \<and> \<not> vma_may_write a
               then Some (Inl EACCES)
               else protect_check vs prot end_vpn (if vm_end a < end_vpn then vm_end a else end_vpn)))"

partial_function (option) protect_apply ::
  "mm_env \<Rightarrow> 'pt page_table_ops \<Rightarrow> MapPermission \<Rightarrow> vpn \<Rightarrow> VmaSet \<Rightarrow> 'pt UserMapper \<Rightarrow> vpn \<Rightarrow>
     ((errno + unit) \<times> VmaSet \<times> 'pt UserMapper) option" where
  "protect_apply env ops prot end_vpn vs m cursor =
     (if \<not> cursor < end_vpn then Some (Inr (), vs, m)
      else case find_user_vma_key vs cursor of
        None \<Rightarrow> Some (Inl ENOMEM, vs, m)
      | Some area_start \<Rightarrow>
          (case bt_get (vs_vmas vs) area_start of
             None \<Rightarrow> Some (Inl ENOMEM, vs, m)
           | Some a \<Rightarrow>
               (let protect_end = (if vm_end a < end_vpn then vm_end a else end_vpn)
                in case split_for_range env vs area_start cursor protect_end of
                     (Inl err, vs1) \<Rightarrow> Some (Inl err, vs1, m)
                   | (Inr target_start, vs1) \<Rightarrow>
                       (case protect_area ops vs1 m target_start prot of
                          (Inl err, vs2, m2) \<Rightarrow> Some (Inl err, vs2, m2)
                        | (Inr _, vs2, m2) \<Rightarrow> protect_apply env ops prot end_vpn vs2 m2 protect_end))))"

definition protect_range ::
  "mm_env \<Rightarrow> 'pt page_table_ops \<Rightarrow> VmaSet \<Rightarrow> 'pt UserMapper \<Rightarrow> vpn \<Rightarrow> vpn \<Rightarrow> MapPermission \<Rightarrow>
     ((errno + unit) \<times> VmaSet \<times> 'pt UserMapper) option" where
  "protect_range env ops vs m start_vpn end_vpn prot =
     (case protect_check vs prot end_vpn start_vpn of
        None \<Rightarrow> None
      | Some (Inl err) \<Rightarrow> Some (Inl err, vs, m)
      | Some (Inr _) \<Rightarrow> protect_apply env ops prot end_vpn vs m start_vpn)"

section \<open>Merging a new private mapping into its left neighbour\<close>

definition try_merge_lazy_private_mmap ::
  "VmaSet \<Rightarrow> addr \<Rightarrow> usize \<Rightarrow> MapPermission \<Rightarrow> MapFlags \<Rightarrow> (errno + addr option) \<times> VmaSet" where
  "try_merge_lazy_private_mmap vs start_va len prot flags =
     (case checked_add start_va len of
        None \<Rightarrow> (Inl EINVAL, vs)
      | Some new_end \<Rightarrow>
          (let start_vpn = va_floor start_va; end_vpn = va_ceil new_end in
           if \<not> is_mmap_range_free vs start_vpn end_vpn then (Inr None, vs)
           else case bt_last_le start_vpn (vs_vmas vs) of
             None \<Rightarrow> (Inr None, vs)
           | Some (key, area) \<Rightarrow>
               if vm_end area \<noteq> start_vpn \<or> \<not> vm_can_merge_lazy_private area prot flags
               then (Inr None, vs)
               else
                 let vs1 = reserve_mmap_range vs start_vpn end_vpn
                 in case bt_get (vs_vmas vs1) key of
                   None \<Rightarrow> (Inl EINVAL, vs1)
                 | Some a \<Rightarrow>
                     (case expand_to a new_end of
                        (Inl err, _) \<Rightarrow> (Inl err, release_mmap_range vs1 start_vpn end_vpn)
                      | (Inr _, a') \<Rightarrow>
                          (let vs2 = update_area vs1 key a'
                           in (Inr (Some start_va),
                               if vm_is_user area
                               then vs2\<lparr>vs_user_page_count :=
                                      saturating_add (vs_user_page_count vs2)
                                        (saturating_sub (area_page_count a') (area_page_count area))\<rparr>
                               else vs2)))))"

end
