(* ===== verification/HoleTable.thy ===== *)
theory HoleTable
  imports VmaSetOps
begin

text \<open>
  The table of free ranges of the mmap arena. The table is well formed when its ranges are
  non-empty, inside the arena and separated by at least one page (so that adjacent ranges
  have been merged). Reserving a range removes exactly its pages from the table, releasing a
  range adds exactly its pages inside the arena, and both keep the table well formed. The
  locale \<open>page_pool\<close> is what the set of areas relies on.
\<close>

definition arena_lo :: vpn where "arena_lo = fst mmap_bounds"
definition arena_hi :: vpn where "arena_hi = snd mmap_bounds"

definition holes_wf :: "(vpn, vpn) btree \<Rightarrow> bool" where
  "holes_wf hs \<longleftrightarrow> bt_wf hs \<and>
     (\<forall>(s, e) \<in> set hs. arena_lo \<le> s \<and> s < e \<and> e \<le> arena_hi) \<and>
     (\<forall>(s, e) \<in> set hs. \<forall>(s', e') \<in> set hs. s < s' \<longrightarrow> e < s')"

definition hole_pages :: "(vpn, vpn) btree \<Rightarrow> vpn set" where
  "hole_pages hs = {p. \<exists>(s, e) \<in> set hs. s \<le> p \<and> p < e}"

definition arena :: "vpn set" where "arena = {arena_lo..<arena_hi}"

locale page_pool =
  fixes pool_wf :: "'h \<Rightarrow> bool"
    and pool_pages :: "'h \<Rightarrow> vpn set"
    and reserve :: "vpn \<Rightarrow> vpn \<Rightarrow> 'h \<Rightarrow> 'h"
    and release :: "vpn \<Rightarrow> vpn \<Rightarrow> 'h \<Rightarrow> 'h"
  assumes pool_in_arena: "pool_wf h \<Longrightarrow> pool_pages h \<subseteq> arena"
    and reserve_wf: "pool_wf h \<Longrightarrow> pool_wf (reserve s e h)"
    and reserve_pages: "pool_wf h \<Longrightarrow> pool_pages (reserve s e h) = pool_pages h - {s..<e}"
    and release_wf: "pool_wf h \<Longrightarrow> pool_wf (release s e h)"
    and release_pages: "pool_wf h \<Longrightarrow> pool_pages (release s e h) = pool_pages h \<union> ({s..<e} \<inter> arena)"
begin

text \<open>A reserved range can be given back, and a reservation inside a free range can be undone.\<close>

lemma reserve_release:
  "pool_wf h \<Longrightarrow> {s..<e} \<subseteq> pool_pages h \<Longrightarrow> pool_pages (release s e (reserve s e h)) = pool_pages h"
  using pool_in_arena reserve_wf reserve_pages release_pages by blast

text \<open>Moving a range into the complement of a used set, and back.\<close>

lemma reserve_complement:
  "pool_wf h \<Longrightarrow> pool_pages h = arena - used \<Longrightarrow>
     pool_pages (reserve s e h) = arena - (used \<union> {s..<e})"
  using reserve_pages by blast

lemma release_complement:
  "pool_wf h \<Longrightarrow> pool_pages h = arena - used \<Longrightarrow>
     pool_pages (release s e h) = arena - (used - {s..<e})"
  using release_pages by blast

end

lemma mmap_bounds_arena: "mmap_bounds = (arena_lo, arena_hi)"
  by (simp add: arena_lo_def arena_hi_def)

lemma arena_nonempty: "arena_lo < arena_hi"
  by (simp add: arena_lo_def arena_hi_def mmap_bounds_def va_floor_def MMAP_BASE_def MMAP_END_def
      PAGE_SIZE_def)

lemma clip_mmap_range_None: "clip_mmap_range s e = None \<longleftrightarrow> {s..<e} \<inter> arena = {}"
  using arena_nonempty
  by (auto simp: clip_mmap_range_def mmap_bounds_arena arena_def Let_def disjoint_iff)

lemma clip_mmap_range_Some:
  assumes "clip_mmap_range s e = Some (s', e')"
  shows "s' < e'" and "{s..<e} \<inter> arena = {s'..<e'}" and "arena_lo \<le> s'" and "e' \<le> arena_hi"
  using assms
  by (auto simp: clip_mmap_range_def mmap_bounds_arena arena_def Let_def split: if_splits)

lemma holes_wf_in_arena: "holes_wf hs \<Longrightarrow> hole_pages hs \<subseteq> arena"
  by (fastforce simp: holes_wf_def hole_pages_def arena_def)

lemma in_hole_pages: "p \<in> hole_pages hs \<longleftrightarrow> (\<exists>a b. (a, b) \<in> set hs \<and> a \<le> p \<and> p < b)"
  by (auto simp: hole_pages_def)

lemma hole_pages_extract:
  assumes "(a, b) \<in> set hs" and "set hs' = set hs - {(a, b)}"
  shows "hole_pages hs = hole_pages hs' \<union> {a..<b}"
proof -
  have "set hs = insert (a, b) (set hs')" unfolding assms(2) using assms(1) by blast
  then show ?thesis by (auto simp: hole_pages_def)
qed

lemma hole_subset_pages: "(a, b) \<in> set hs \<Longrightarrow> {a..<b} \<subseteq> hole_pages hs"
  by (force simp: in_hole_pages)

lemma holes_wf_separated:
  "holes_wf hs \<Longrightarrow> (a, b) \<in> set hs \<Longrightarrow> (a', b') \<in> set hs \<Longrightarrow> a < a' \<Longrightarrow> b < a'"
  by (fastforce simp: holes_wf_def)

lemma holes_wf_bounds:
  "holes_wf hs \<Longrightarrow> (a, b) \<in> set hs \<Longrightarrow> arena_lo \<le> a \<and> a < b \<and> b \<le> arena_hi"
  by (fastforce simp: holes_wf_def)

lemma holes_wfI:
  assumes "bt_wf hs" and "\<And>s e. (s, e) \<in> set hs \<Longrightarrow> arena_lo \<le> s \<and> s < e \<and> e \<le> arena_hi"
    and "\<And>s e s' e'. (s, e) \<in> set hs \<Longrightarrow> (s', e') \<in> set hs \<Longrightarrow> s < s' \<Longrightarrow> e < s'"
  shows "holes_wf hs"
  using assms unfolding holes_wf_def by blast

lemma holes_wf_subset:
  assumes "holes_wf hs" and "bt_wf hs'" and "set hs' \<subseteq> set hs"
  shows "holes_wf hs'"
  using assms by (intro holes_wfI) (blast dest: holes_wf_bounds intro: holes_wf_separated)+

section \<open>Reserving\<close>

definition carve :: "vpn \<Rightarrow> vpn \<Rightarrow> vpn \<times> vpn \<Rightarrow> (vpn, vpn) btree \<Rightarrow> (vpn, vpn) btree" where
  "carve s e h hs =
     (let h1 = bt_remove (fst h) hs;
          h2 = (if fst h < s then bt_insert (fst h) s h1 else h1)
      in if e < snd h then bt_insert e (snd h) h2 else h2)"

lemma set_carve:
  assumes wf: "holes_wf hs" and h: "(a, b) \<in> set hs" and se: "s < e" and ov: "a < e" "s < b"
  shows "set (carve s e (a, b) hs) =
    (set hs - {(a, b)}) \<union> (if a < s then {(a, s)} else {}) \<union> (if e < b then {(e, b)} else {})"
proof -
  have bw: "bt_wf hs" using wf by (simp add: holes_wf_def)
  have rem: "set (bt_remove a hs) = set hs - {(a, b)}" by (rule set_bt_remove_entry [OF bw h])
  have e_free: "e < b \<Longrightarrow> (e, c) \<notin> set hs" for c
    using holes_wf_separated [OF wf h, of e c] ov by auto
  have k1: "{x \<in> set hs - {(a, b)}. fst x \<noteq> a} = set hs - {(a, b)}"
    using bt_entry_eq [OF bw h] by blast
  have k2: "e < b \<Longrightarrow> {x \<in> set hs - {(a, b)}. fst x \<noteq> e} = set hs - {(a, b)}"
    using e_free by auto
  have k3: "e < b \<Longrightarrow> {x \<in> insert (a, s) (set hs - {(a, b)}). fst x \<noteq> e} = insert (a, s) (set hs - {(a, b)})"
    using e_free ov by auto
  show ?thesis
    using bw rem k1 k2 k3 by (simp add: carve_def Let_def set_bt_insert del: set_bt_remove)
qed

lemma carve_wf:
  assumes wf: "holes_wf hs" and h: "(a, b) \<in> set hs" and se: "s < e" and ov: "a < e" "s < b"
  shows "holes_wf (carve s e (a, b) hs)"
proof (rule holes_wfI)
  have bw: "bt_wf hs" using wf by (simp add: holes_wf_def)
  then show "bt_wf (carve s e (a, b) hs)" by (simp add: carve_def Let_def)
  note set = set_carve [OF assms]
  note ab = holes_wf_bounds [OF wf h]
  show "arena_lo \<le> x \<and> x < y \<and> y \<le> arena_hi" if "(x, y) \<in> set (carve s e (a, b) hs)" for x y
    using that ab ov holes_wf_bounds [OF wf, of x y] by (auto simp: set split: if_splits)
  fix x y x' y'
  assume xy: "(x, y) \<in> set (carve s e (a, b) hs)" and xy': "(x', y') \<in> set (carve s e (a, b) hs)"
    and lt: "x < x'"
  have old: "(u, w) \<in> set hs \<Longrightarrow> (u, w) \<noteq> (a, b) \<Longrightarrow> w < a \<or> b < u" for u w
    using holes_wf_separated [OF wf h, of u w] holes_wf_separated [OF wf _ h, of u w]
      bt_entry_eq [OF bw h, of "(u, w)"] by (cases u a rule: linorder_cases) auto
  show "y < x'"
    using xy xy' lt ab ov se old [of x y] old [of x' y'] holes_wf_separated [OF wf, of x y x' y']
      holes_wf_bounds [OF wf, of x y] holes_wf_bounds [OF wf, of x' y']
    by (auto simp: set split: if_splits)
qed

lemma carve_pages:
  assumes wf: "holes_wf hs" and h: "(a, b) \<in> set hs" and se: "s < e" and ov: "a < e" "s < b"
  shows "hole_pages (carve s e (a, b) hs) = hole_pages hs - ({s..<e} \<inter> {a..<b})"
proof -
  have bw: "bt_wf hs" using wf by (simp add: holes_wf_def)
  have other: "(u, w) \<in> set hs \<Longrightarrow> (u, w) \<noteq> (a, b) \<Longrightarrow> u \<le> p \<Longrightarrow> p < w \<Longrightarrow> \<not> (a \<le> p \<and> p < b)" for u w p
    using holes_wf_separated [OF wf h, of u w] holes_wf_separated [OF wf _ h, of u w]
      bt_entry_eq [OF bw h, of "(u, w)"] by (cases u a rule: linorder_cases) auto
  show ?thesis (is "?L = ?R")
  proof (rule set_eqI)
    fix p
    show "p \<in> ?L \<longleftrightarrow> p \<in> ?R"
    proof (cases "a \<le> p \<and> p < b")
      case True
      then have "p \<in> ?L \<longleftrightarrow> p < s \<or> e \<le> p"
        using other [of _ _ p] ov se
        by (fastforce simp: hole_pages_def set_carve [OF assms] split: if_splits)
      with True h show ?thesis by (auto simp: hole_pages_def)
    next
      case False
      then have "p \<in> ?L \<longleftrightarrow> (\<exists>(u, w) \<in> set hs - {(a, b)}. u \<le> p \<and> p < w)"
        using ov se by (auto simp: hole_pages_def set_carve [OF assms] split: if_splits)
      also have "\<dots> \<longleftrightarrow> p \<in> ?R" using False by (fastforce simp: hole_pages_def)
      finally show ?thesis .
    qed
  qed
qed

lemma reserve_each_carve: "reserve_each s e (h # ov) hs = reserve_each s e ov (carve s e h hs)"
  by (cases h) (simp add: carve_def Let_def)

lemma reserve_each_facts:
  assumes "s < e" and "holes_wf hs" and "set ov \<subseteq> set hs" and "distinct ov"
    and "\<And>a b. (a, b) \<in> set ov \<Longrightarrow> a < e \<and> s < b"
  shows "holes_wf (reserve_each s e ov hs) \<and>
    hole_pages (reserve_each s e ov hs) = hole_pages hs - ({s..<e} \<inter> hole_pages ov)"
  using assms(2-)
proof (induction ov arbitrary: hs)
  case Nil
  then show ?case by (simp add: hole_pages_def)
next
  case (Cons h ov)
  obtain a b where h: "h = (a, b)" by (cases h)
  have in_hs: "(a, b) \<in> set hs" and ov: "a < e" "s < b" using Cons.prems h by auto
  let ?hs = "carve s e (a, b) hs"
  note wf = carve_wf [OF Cons.prems(1) in_hs assms(1) ov]
  have sub: "set ov \<subseteq> set ?hs"
    using Cons.prems h by (auto simp: set_carve [OF Cons.prems(1) in_hs assms(1) ov])
  have hp: "hole_pages (h # ov) = {a..<b} \<union> hole_pages ov" by (auto simp: hole_pages_def h)
  have "distinct ov" "\<And>a b. (a, b) \<in> set ov \<Longrightarrow> a < e \<and> s < b" using Cons.prems by auto
  from Cons.IH [OF wf sub this]
  have "holes_wf (reserve_each s e ov ?hs)"
    "hole_pages (reserve_each s e ov ?hs) = hole_pages ?hs - ({s..<e} \<inter> hole_pages ov)" by blast+
  moreover have "hole_pages ?hs - ({s..<e} \<inter> hole_pages ov) =
    hole_pages hs - ({s..<e} \<inter> hole_pages (h # ov))"
    unfolding hp carve_pages [OF Cons.prems(1) in_hs assms(1) ov] by blast
  ultimately show ?case unfolding reserve_each_carve h by simp
qed

lemma reserve_holes_facts:
  assumes "holes_wf hs"
  shows "holes_wf (reserve_holes s e hs) \<and> hole_pages (reserve_holes s e hs) = hole_pages hs - {s..<e}"
proof (cases "clip_mmap_range s e")
  case None
  then have "reserve_holes s e hs = hs" and "{s..<e} \<inter> arena = {}"
    by (simp add: reserve_holes_def) (simp only: None clip_mmap_range_None [symmetric])
  with assms holes_wf_in_arena [OF assms] show ?thesis by auto
next
  case (Some c)
  obtain s' e' where c: "c = (s', e')" by (cases c)
  note clip = clip_mmap_range_Some [OF Some [unfolded c]]
  let ?ov = "filter (\<lambda>(_, hole_end). hole_end > s') (filter (\<lambda>(k, _). k < e') hs)"
  have bw: "bt_wf hs" using assms by (simp add: holes_wf_def)
  have "distinct ?ov" using bt_wf_distinct [OF bw] by (simp add: distinct_map)
  then have r: "holes_wf (reserve_each s' e' ?ov hs) \<and>
    hole_pages (reserve_each s' e' ?ov hs) = hole_pages hs - ({s'..<e'} \<inter> hole_pages ?ov)"
    by (intro reserve_each_facts [OF clip(1) assms]) auto
  have "hole_pages hs \<inter> {s'..<e'} \<subseteq> hole_pages ?ov"
    by (fastforce simp: hole_pages_def)
  moreover have "hole_pages hs \<inter> {s..<e} = hole_pages hs \<inter> {s'..<e'}"
    using clip(2) holes_wf_in_arena [OF assms] by blast
  ultimately show ?thesis using r Some c by (auto simp: reserve_holes_def)
qed

section \<open>Releasing\<close>

declare release_loop.simps [simp del]

lemma release_loop_facts:
  assumes "release_loop s e hs = (e', hs')" and "holes_wf hs" and "s < e" and "e \<le> arena_hi"
    and "\<forall>a b. (a, b) \<in> set hs \<longrightarrow> a < s \<longrightarrow> b < s"
  shows "e \<le> e' \<and> e' \<le> arena_hi \<and> set hs' \<subseteq> set hs \<and> bt_wf hs' \<and>
    (\<forall>(a, b) \<in> set hs'. b < s \<or> e' < a) \<and>
    hole_pages hs' \<union> {s..<e'} = hole_pages hs \<union> {s..<e}"
  using assms
proof (induction s e hs rule: release_loop.induct)
  case (1 s e hs)
  have bw: "bt_wf hs" using "1.prems"(2) by (simp add: holes_wf_def)
  have left: "(a, b) \<in> set hs \<Longrightarrow> a < s \<Longrightarrow> b < s" for a b using "1.prems"(5) by blast
  show ?case
  proof (cases "bt_first_ge s hs")
    case None
    then have "\<forall>f \<in> set hs. fst f < s" by (simp add: bt_first_ge_None_iff)
    with "1.prems" left None bw show ?thesis by (fastforce simp: release_loop.simps [of s e hs])
  next
    case (Some h)
    obtain a b where h: "h = (a, b)" by (cases h)
    from Some h have ab: "(a, b) \<in> set hs" "s \<le> a" "\<forall>f \<in> set hs. s \<le> fst f \<longrightarrow> a \<le> fst f"
      using bt_first_ge_Some_iff [OF bw, of s h] by auto
    show ?thesis
    proof (cases "e < a")
      case True
      with Some h "1.prems"(1) have eq: "e' = e" "hs' = hs"
        by (simp_all add: release_loop.simps [of s e hs])
      have "y < s \<or> e < x" if "(x, y) \<in> set hs" for x y
        using left [OF that] ab(3) that True by (cases "x < s") force+
      with eq "1.prems" bw show ?thesis by auto
    next
      case False
      let ?e = "if b > e then b else e" and ?hs = "bt_remove a hs"
      have rec: "release_loop s ?e ?hs = (e', hs')"
        using False Some h "1.prems"(1) by (simp add: release_loop.simps [of s e hs])
      have set: "set ?hs = set hs - {(a, b)}" by (rule set_bt_remove_entry [OF bw ab(1)])
      have wf: "holes_wf ?hs" by (rule holes_wf_subset [OF "1.prems"(2)]) (use bw set in auto)
      have bd: "a < b" "b \<le> arena_hi" using holes_wf_bounds [OF "1.prems"(2) ab(1)] by auto
      have e: "s < ?e" "?e \<le> arena_hi" "e \<le> ?e" using "1.prems"(3,4) bd by auto
      have "\<forall>x y. (x, y) \<in> set ?hs \<longrightarrow> x < s \<longrightarrow> y < s" using left unfolding set by blast
      from "1.IH" [OF Some h [symmetric] False rec wf e(1,2) this]
      have r: "?e \<le> e'" "e' \<le> arena_hi" "set hs' \<subseteq> set ?hs" "bt_wf hs'"
        "\<forall>(a, b) \<in> set hs'. b < s \<or> e' < a" "hole_pages hs' \<union> {s..<e'} = hole_pages ?hs \<union> {s..<?e}"
        by blast+
      have "hole_pages ?hs \<union> {s..<?e} = hole_pages hs \<union> {s..<e}"
      proof -
        have "hole_pages hs = hole_pages ?hs \<union> {a..<b}" by (rule hole_pages_extract [OF ab(1) set])
        with False ab(2) bd show ?thesis by auto
      qed
      then have "hole_pages hs' \<union> {s..<e'} = hole_pages hs \<union> {s..<e}" unfolding r(6) .
      moreover have "e \<le> e'" using e(3) r(1) by (rule le_trans)
      moreover have "set hs' \<subseteq> set hs" using r(3) set by blast
      ultimately show ?thesis using r(2,4,5) by (intro conjI)
    qed
  qed
qed

text \<open>The first step of a release: a range that touches the new one from the left is absorbed.\<close>

definition absorb_left ::
  "vpn \<Rightarrow> vpn \<Rightarrow> (vpn, vpn) btree \<Rightarrow> vpn \<times> vpn \<times> (vpn, vpn) btree" where
  "absorb_left s1 e1 hs0 =
     (case bt_last_le s1 hs0 of
        None \<Rightarrow> (s1, e1, hs0)
      | Some (prev_start, prev_end) \<Rightarrow>
          if s1 \<le> prev_end
          then (prev_start, if prev_end > e1 then prev_end else e1, bt_remove prev_start hs0)
          else (s1, e1, hs0))"

lemma absorb_left_facts:
  assumes r: "absorb_left s1 e1 hs0 = (s, e, hs)" and wf: "holes_wf hs0"
    and s1: "s1 < e1" "arena_lo \<le> s1" "e1 \<le> arena_hi"
  shows "holes_wf hs" and "s < e" and "e \<le> arena_hi" and "arena_lo \<le> s"
    and "\<forall>a b. (a, b) \<in> set hs \<longrightarrow> a < s \<longrightarrow> b < s"
    and "hole_pages hs \<union> {s..<e} = hole_pages hs0 \<union> {s1..<e1}"
proof -
  have bw: "bt_wf hs0" using wf by (simp add: holes_wf_def)
  have "holes_wf hs \<and> s < e \<and> e \<le> arena_hi \<and> arena_lo \<le> s \<and>
    (\<forall>a b. (a, b) \<in> set hs \<longrightarrow> a < s \<longrightarrow> b < s) \<and>
    hole_pages hs \<union> {s..<e} = hole_pages hs0 \<union> {s1..<e1}"
  proof (cases "bt_last_le s1 hs0")
    case None
    then have "\<forall>f \<in> set hs0. s1 < fst f" by (simp add: bt_last_le_None_iff)
    with None r wf s1 show ?thesis by (fastforce simp: absorb_left_def)
  next
    case (Some h)
    obtain a b where h: "h = (a, b)" by (cases h)
    from Some h have ab: "(a, b) \<in> set hs0" "a \<le> s1" and mx: "\<And>x y. (x, y) \<in> set hs0 \<Longrightarrow> x \<le> s1 \<Longrightarrow> x \<le> a"
      using bt_last_le_Some_iff [OF bw, of s1 h] by auto
    note bd = holes_wf_bounds [OF wf ab(1)]
    show ?thesis
    proof (cases "s1 \<le> b")
      case True
      have eq: "s = a" "e = max b e1" "hs = bt_remove a hs0"
        using r Some h True by (auto simp: absorb_left_def max_def split: if_splits)
      have set: "set hs = set hs0 - {(a, b)}" unfolding eq by (rule set_bt_remove_entry [OF bw ab(1)])
      have "holes_wf hs" using holes_wf_subset [OF wf, of hs] set bw by (auto simp: eq)
      moreover have "\<forall>x y. (x, y) \<in> set hs \<longrightarrow> x < a \<longrightarrow> y < a"
        using holes_wf_separated [OF wf _ ab(1)] set by blast
      moreover have "hole_pages hs0 = hole_pages hs \<union> {a..<b}"
        by (rule hole_pages_extract [OF ab(1) set])
      ultimately show ?thesis using True ab(2) bd s1 by (auto simp: eq(1,2))
    next
      case False
      have eq: "s = s1" "e = e1" "hs = hs0" using r Some h False by (auto simp: absorb_left_def)
      have "y < s1" if xy: "(x, y) \<in> set hs0" and lt: "x < s1" for x y
      proof (cases "x = a")
        case True
        with bt_entry_eq [OF bw ab(1) xy] False show ?thesis by simp
      next
        case ne: False
        with mx [OF xy] lt have "x < a" by simp
        with holes_wf_separated [OF wf xy ab(1)] ab(2) show ?thesis by simp
      qed
      then show ?thesis using wf s1 by (simp add: eq)
    qed
  qed
  then show "holes_wf hs" "s < e" "e \<le> arena_hi" "arena_lo \<le> s"
    "\<forall>a b. (a, b) \<in> set hs \<longrightarrow> a < s \<longrightarrow> b < s"
    "hole_pages hs \<union> {s..<e} = hole_pages hs0 \<union> {s1..<e1}" by blast+
qed

lemma insert_separated_wf:
  assumes wf: "holes_wf hs" and se: "s < e" "arena_lo \<le> s" "e \<le> arena_hi"
    and sep: "\<And>a b. (a, b) \<in> set hs \<Longrightarrow> b < s \<or> e < a"
  shows "holes_wf (bt_insert s e hs)" and "hole_pages (bt_insert s e hs) = hole_pages hs \<union> {s..<e}"
proof -
  have bw: "bt_wf hs" using wf by (simp add: holes_wf_def)
  have key: "(a, b) \<in> set hs \<Longrightarrow> a \<noteq> s" for a b
    using sep [of a b] holes_wf_bounds [OF wf, of a b] se(1) by auto
  have set: "set (bt_insert s e hs) = insert (s, e) (set hs)"
    unfolding set_bt_insert [OF bw] using key by fastforce
  show "holes_wf (bt_insert s e hs)"
  proof (rule holes_wfI)
    fix a b a' b'
    assume "(a, b) \<in> set (bt_insert s e hs)" "(a', b') \<in> set (bt_insert s e hs)" "a < a'"
    with sep [of a b] sep [of a' b'] holes_wf_separated [OF wf, of a b a' b']
      holes_wf_bounds [OF wf, of a b] holes_wf_bounds [OF wf, of a' b'] se(1)
    show "b < a'" by (auto simp: set)
  qed (use bw se holes_wf_bounds [OF wf] in \<open>auto simp: set\<close>)
  show "hole_pages (bt_insert s e hs) = hole_pages hs \<union> {s..<e}" by (auto simp: hole_pages_def set)
qed

lemma release_holes_alt:
  "release_holes s0 e0 hs0 =
     (case clip_mmap_range s0 e0 of
        None \<Rightarrow> hs0
      | Some (s1, e1) \<Rightarrow>
          (let (s, e, hs) = absorb_left s1 e1 hs0; (e', hs') = release_loop s e hs
           in bt_insert s e' hs'))"
  by (simp add: release_holes_def absorb_left_def split: option.splits prod.splits)

lemma release_holes_facts:
  assumes wf: "holes_wf hs0"
  shows "holes_wf (release_holes s0 e0 hs0) \<and>
    hole_pages (release_holes s0 e0 hs0) = hole_pages hs0 \<union> ({s0..<e0} \<inter> arena)"
proof (cases "clip_mmap_range s0 e0")
  case None
  then have "release_holes s0 e0 hs0 = hs0" and "{s0..<e0} \<inter> arena = {}"
    by (simp add: release_holes_def) (simp only: None clip_mmap_range_None [symmetric])
  with wf show ?thesis by simp
next
  case (Some c)
  obtain s1 e1 where c: "c = (s1, e1)" by (cases c)
  note clip = clip_mmap_range_Some [OF Some [unfolded c]]
  obtain s e hs where a: "absorb_left s1 e1 hs0 = (s, e, hs)" by (cases "absorb_left s1 e1 hs0") auto
  obtain e' hs' where l: "release_loop s e hs = (e', hs')" by (cases "release_loop s e hs")
  note ab = absorb_left_facts [OF a wf clip(1,3,4)]
  note rl = release_loop_facts [OF l ab(1,2,3,5)]
  have wf': "holes_wf hs'" using holes_wf_subset [OF ab(1), of hs'] rl by blast
  have sep: "\<And>a b. (a, b) \<in> set hs' \<Longrightarrow> b < s \<or> e' < a" using rl by blast
  have se: "s < e'" "e' \<le> arena_hi" using rl ab(2) by auto
  note ins = insert_separated_wf [OF wf' se(1) ab(4) se(2) sep]
  have "release_holes s0 e0 hs0 = bt_insert s e' hs'" by (simp add: release_holes_alt Some c a l)
  with ins rl ab(6) clip(2) show ?thesis by simp
qed

interpretation mmap_pool: page_pool holes_wf hole_pages reserve_holes release_holes
  using holes_wf_in_arena reserve_holes_facts release_holes_facts by unfold_locales blast+

section \<open>Queries\<close>

declare free_loop.simps [simp del]

lemma bt_last_le_hole:
  assumes "holes_wf hs" and "bt_last_le p hs = Some (s, e)"
  shows "p \<in> hole_pages hs \<longleftrightarrow> p < e"
proof -
  have bw: "bt_wf hs" using assms(1) by (simp add: holes_wf_def)
  from assms(2) have m: "(s, e) \<in> set hs" "s \<le> p" "\<And>x y. (x, y) \<in> set hs \<Longrightarrow> x \<le> p \<Longrightarrow> x \<le> s"
    using bt_last_le_Some_iff [OF bw, of p "(s, e)"] by auto
  have "y < s \<or> (x, y) = (s, e)" if "(x, y) \<in> set hs" "x \<le> p" for x y
    using m(3) [OF that] holes_wf_separated [OF assms(1) that(1) m(1)] bt_entry_eq [OF bw m(1) that(1)]
    by (cases "x = s") auto
  with m show ?thesis by (fastforce simp: hole_pages_def)
qed

lemma free_loop_correct:
  "holes_wf hs \<Longrightarrow> free_loop hs cursor e \<longleftrightarrow> {cursor..<e} \<subseteq> hole_pages hs"
proof (induction hs cursor e rule: free_loop.induct)
  case (1 hs cursor e)
  have bw: "bt_wf hs" using "1.prems" by (simp add: holes_wf_def)
  show ?case
  proof (cases "cursor < e")
    case True
    show ?thesis
    proof (cases "bt_last_le cursor hs")
      case None
      then have "cursor \<notin> hole_pages hs" by (fastforce simp: bt_last_le_None_iff hole_pages_def)
      with None True show ?thesis by (auto simp: free_loop.simps [of hs cursor e])
    next
      case (Some h)
      obtain a b where h: "h = (a, b)" by (cases h)
      note mem = bt_last_le_hole [OF "1.prems" Some [unfolded h]]
      show ?thesis
      proof (cases "b \<le> cursor")
        case True
        with mem Some h \<open>cursor < e\<close> show ?thesis by (auto simp: free_loop.simps [of hs cursor e])
      next
        case False
        let ?c = "if b < e then b else e"
        have "(a, b) \<in> set hs" "a \<le> cursor" using Some h bt_last_le_Some_iff [OF bw, of cursor h] by auto
        then have "{cursor..<?c} \<subseteq> hole_pages hs" using hole_subset_pages [of a b hs] by auto
        moreover have "{cursor..<e} = {cursor..<?c} \<union> {?c..<e}" using False True by auto
        ultimately have "{cursor..<e} \<subseteq> hole_pages hs \<longleftrightarrow> {?c..<e} \<subseteq> hole_pages hs" by blast
        moreover have "free_loop hs cursor e = free_loop hs ?c e"
          using False True Some h by (simp add: free_loop.simps [of hs cursor e])
        moreover have "free_loop hs ?c e \<longleftrightarrow> {?c..<e} \<subseteq> hole_pages hs"
          by (rule "1.IH" [OF True Some _ False "1.prems"]) (simp add: h)
        ultimately show ?thesis by simp
      qed
    qed
  qed (simp add: free_loop.simps [of hs cursor e])
qed

text \<open>A range is reported free exactly when it is non-empty and all its pages are free.\<close>

lemma is_mmap_range_free_iff:
  assumes "holes_wf (vs_holes vs)"
  shows "is_mmap_range_free vs s e \<longleftrightarrow> s < e \<and> {s..<e} \<subseteq> hole_pages (vs_holes vs)"
proof (cases "clip_mmap_range s e")
  case None
  then have "{s..<e} \<inter> arena = {}" by (simp only: clip_mmap_range_None)
  with None holes_wf_in_arena [OF assms] show ?thesis
    by (fastforce simp: is_mmap_range_free_def)
next
  case (Some c)
  obtain s' e' where c: "c = (s', e')" by (cases c)
  note clip = clip_mmap_range_Some [OF Some [unfolded c]]
  show ?thesis
  proof (cases "s' = s \<and> e' = e")
    case True
    with Some c clip show ?thesis by (simp add: is_mmap_range_free_def free_loop_correct [OF assms])
  next
    case False
    have "\<not> {s..<e} \<subseteq> arena"
    proof
      assume "{s..<e} \<subseteq> arena"
      with clip(2) have "{s..<e} = {s'..<e'}" by blast
      moreover from this clip(1) have "s < e" by (cases "s < e") auto
      ultimately have "s' = s \<and> e' = e" using clip(1) atLeastLessThan_inj by metis
      with False show False ..
    qed
    with False Some c holes_wf_in_arena [OF assms] show ?thesis
      by (auto simp: is_mmap_range_free_def)
  qed
qed

end
