(* ===== verification/AreaSet.thy ===== *)
theory AreaSet
  imports HoleTable "HOL-Library.Multiset"
begin

text \<open>
  The invariant of \<open>VmaSet\<close> and its abstraction. An address space promises its clients a
  partial function from pages to attributes: \<open>page_view\<close>. The areas are disjoint and
  non-empty, the free ranges are exactly the arena pages no area covers, the cached counts
  are exact, and the page-cache registrations are those of the live shared file areas.
  Storing and taking an area have simple effects on all of these; the operations are
  sequences of such steps.
\<close>

section \<open>Pages of areas\<close>

definition area_pages :: "Vma \<Rightarrow> vpn set" where
  "area_pages a = {vm_start a..<vm_end a}"

definition vma_pages :: "(vpn, Vma) btree \<Rightarrow> vpn set" where
  "vma_pages m = (\<Union>(k, a) \<in> set m. area_pages a)"

text \<open>An area of the set: non-empty, within the address space, and with file offsets that fit.\<close>

definition vma_wf :: "Vma \<Rightarrow> bool" where
  "vma_wf a \<longleftrightarrow> store_wf (vma_inner a) \<and> vm_start a < vm_end a \<and> vm_end a \<le> MAX_VPN \<and>
     (vma_map_file a \<noteq> None \<longrightarrow>
        vma_map_file_offset a + (vm_end a - vm_start a) * PAGE_SIZE \<le> USIZE_MAX)"

definition areas_wf :: "(vpn, Vma) btree \<Rightarrow> bool" where
  "areas_wf m \<longleftrightarrow> bt_wf m \<and> (\<forall>(k, a) \<in> set m. k = vm_start a \<and> vma_wf a) \<and>
     (\<forall>(k, a) \<in> set m. \<forall>(k', a') \<in> set m. k \<noteq> k' \<longrightarrow> area_pages a \<inter> area_pages a' = {})"

lemma vm_contains_iff: "vm_contains a v \<longleftrightarrow> v \<in> area_pages a"
  by (simp add: vm_contains_def area_pages_def)

lemma vm_overlaps_iff: "s < e \<Longrightarrow> vm_start a < vm_end a \<Longrightarrow> vm_overlaps a s e \<longleftrightarrow> area_pages a \<inter> {s..<e} \<noteq> {}"
  by (auto simp: vm_overlaps_def area_pages_def disjoint_iff)

lemma areas_wfI:
  assumes "bt_wf m" and "\<And>k a. (k, a) \<in> set m \<Longrightarrow> k = vm_start a \<and> vma_wf a"
    and "\<And>k a k' a'. (k, a) \<in> set m \<Longrightarrow> (k', a') \<in> set m \<Longrightarrow> k \<noteq> k' \<Longrightarrow> area_pages a \<inter> area_pages a' = {}"
  shows "areas_wf m"
  using assms unfolding areas_wf_def by blast

lemma areas_wf_bt [simp]: "areas_wf m \<Longrightarrow> bt_wf m"
  by (simp add: areas_wf_def)

lemma areas_wf_entry:
  assumes "areas_wf m" and "(k, a) \<in> set m"
  shows "k = vm_start a" and "vma_wf a"
  using assms by (auto simp: areas_wf_def)

lemma areas_wf_disjoint:
  "areas_wf m \<Longrightarrow> (k, a) \<in> set m \<Longrightarrow> (k', a') \<in> set m \<Longrightarrow> k \<noteq> k' \<Longrightarrow> area_pages a \<inter> area_pages a' = {}"
  unfolding areas_wf_def by fast

lemma areas_wf_subset:
  assumes wf: "areas_wf m" and "bt_wf m'" and sub: "set m' \<subseteq> set m"
  shows "areas_wf m'"
proof (rule areas_wfI)
  show "k = vm_start a \<and> vma_wf a" if "(k, a) \<in> set m'" for k a
    using areas_wf_entry [OF wf, of k a] sub that by blast
  show "area_pages a \<inter> area_pages a' = {}"
    if "(k, a) \<in> set m'" "(k', a') \<in> set m'" "k \<noteq> k'" for k a k' a'
    by (rule areas_wf_disjoint [OF wf _ _ that(3)]) (use sub that in blast)+
qed (fact assms(2))

lemma vma_wf_nonempty: "vma_wf a \<Longrightarrow> vm_start a \<in> area_pages a"
  by (simp add: vma_wf_def area_pages_def)

lemma area_pages_subset: "(k, a) \<in> set m \<Longrightarrow> area_pages a \<subseteq> vma_pages m"
  by (auto simp: vma_pages_def)

lemma in_vma_pages: "p \<in> vma_pages m \<longleftrightarrow> (\<exists>k a. (k, a) \<in> set m \<and> p \<in> area_pages a)"
  by (auto simp: vma_pages_def)

text \<open>The area of a page is unique.\<close>

lemma areas_wf_unique:
  assumes "areas_wf m" and "(k, a) \<in> set m" and "(k', a') \<in> set m"
    and "p \<in> area_pages a" and "p \<in> area_pages a'"
  shows "k = k'" and "a = a'"
proof -
  show "k = k'" using areas_wf_disjoint [OF assms(1-3)] assms(4,5) by blast
  with assms(2,3) show "a = a'" using bt_key_unique [OF areas_wf_bt [OF assms(1)]] by blast
qed

lemma areas_wf_order:
  assumes "areas_wf m" and "(k, a) \<in> set m" and "(k', a') \<in> set m" and "k < k'"
  shows "vm_end a \<le> k'"
proof (rule ccontr)
  assume "\<not> vm_end a \<le> k'"
  with assms(4) areas_wf_entry [OF assms(1,2)] have "k' \<in> area_pages a" by (simp add: area_pages_def)
  moreover have "k' \<in> area_pages a'"
    using areas_wf_entry [OF assms(1,3)] vma_wf_nonempty by blast
  ultimately show False using areas_wf_disjoint [OF assms(1-3)] assms(4) by blast
qed

subsection \<open>Storing and taking\<close>

lemma area_key_fresh:
  assumes "areas_wf m" and "vma_wf a" and "area_pages a \<inter> vma_pages m = {}"
  shows "bt_get m (vm_start a) = None"
proof (rule ccontr)
  assume "bt_get m (vm_start a) \<noteq> None"
  then obtain b where b: "(vm_start a, b) \<in> set m" using bt_get_iff [OF areas_wf_bt [OF assms(1)]] by blast
  then have "vm_start a \<in> area_pages b" using areas_wf_entry [OF assms(1) b] vma_wf_nonempty by metis
  with b assms(3) vma_wf_nonempty [OF assms(2)] show False by (auto simp: in_vma_pages disjoint_iff)
qed

lemma set_bt_insert_fresh:
  "bt_wf m \<Longrightarrow> bt_get m k = None \<Longrightarrow> set (bt_insert k v m) = insert (k, v) (set m)"
  by (auto simp: set_bt_insert bt_get_None_keys)

lemma areas_wf_insert:
  assumes wf: "areas_wf m" and a: "vma_wf a" and dis: "area_pages a \<inter> vma_pages m = {}"
  shows "areas_wf (bt_insert (vm_start a) a m)"
    and "vma_pages (bt_insert (vm_start a) a m) = vma_pages m \<union> area_pages a"
proof -
  have set: "set (bt_insert (vm_start a) a m) = insert (vm_start a, a) (set m)"
    by (rule set_bt_insert_fresh [OF areas_wf_bt [OF wf] area_key_fresh [OF assms]])
  have "area_pages a \<inter> area_pages b = {}" if "(k, b) \<in> set m" for k b
    using area_pages_subset [OF that] dis by blast
  note dis' = this
  show "areas_wf (bt_insert (vm_start a) a m)"
  proof (rule areas_wfI)
    fix k b k' b'
    assume "(k, b) \<in> set (bt_insert (vm_start a) a m)" "(k', b') \<in> set (bt_insert (vm_start a) a m)" "k \<noteq> k'"
    then show "area_pages b \<inter> area_pages b' = {}"
      unfolding set using areas_wf_disjoint [OF wf] dis' by blast
  qed (use wf a areas_wf_entry [OF wf] in \<open>auto simp: set\<close>)
  show "vma_pages (bt_insert (vm_start a) a m) = vma_pages m \<union> area_pages a"
    by (auto simp: vma_pages_def set)
qed

lemma areas_wf_remove:
  assumes wf: "areas_wf m" and a: "(k, a) \<in> set m"
  shows "areas_wf (bt_remove k m)" and "vma_pages (bt_remove k m) = vma_pages m - area_pages a"
proof -
  have set: "set (bt_remove k m) = set m - {(k, a)}"
    by (rule set_bt_remove_entry [OF areas_wf_bt [OF wf] a])
  have bw: "bt_wf (bt_remove k m)" using wf by simp
  show "areas_wf (bt_remove k m)"
    by (rule areas_wf_subset [OF wf bw]) (simp only: set, blast)
  show "vma_pages (bt_remove k m) = vma_pages m - area_pages a"
  proof (rule set_eqI)
    fix p
    show "p \<in> vma_pages (bt_remove k m) \<longleftrightarrow> p \<in> vma_pages m - area_pages a"
      unfolding Diff_iff in_vma_pages set
      using areas_wf_unique [OF wf a] a by (metis Diff_iff Pair_inject empty_iff insert_iff)
  qed
qed

section \<open>The attributes of a page\<close>

record page_attrs =
  pa_perm :: MapPermission
  pa_flags :: MapFlags
  pa_file :: "(nat \<times> usize) option"
  pa_elf :: "nat option"
  pa_may_write :: bool
  pa_write_sealed :: bool
  pa_wipe_on_fork :: bool
  pa_dont_fork :: bool
  pa_fork_inherited :: bool
  pa_frame :: Frame

text \<open>The file of a page comes with the byte offset of the page in the file.\<close>

definition area_view :: "Vma \<Rightarrow> vpn \<Rightarrow> page_attrs" where
  "area_view a p =
     \<lparr>pa_perm = vma_map_perm a, pa_flags = vma_flags a,
      pa_file = map_option (\<lambda>f. (f, vma_map_file_offset a + (p - vm_start a) * PAGE_SIZE)) (vma_map_file a),
      pa_elf = vma_elf_lazy a, pa_may_write = vma_may_write a, pa_write_sealed = vma_write_sealed a,
      pa_wipe_on_fork = vma_wipe_on_fork a, pa_dont_fork = vma_dont_fork a,
      pa_fork_inherited = vma_fork_inherited a, pa_frame = page_frame (vma_inner a) p\<rparr>"

definition page_view :: "(vpn, Vma) btree \<Rightarrow> vpn \<Rightarrow> page_attrs option" where
  "page_view m p = map_option (\<lambda>(k, a). area_view a p) (List.find (\<lambda>(k, a). vm_contains a p) m)"

lemma page_view_Some:
  assumes "areas_wf m" and "(k, a) \<in> set m" and "p \<in> area_pages a"
  shows "page_view m p = Some (area_view a p)"
proof -
  have "List.find (\<lambda>(k, a). vm_contains a p) m \<noteq> None"
    using assms(2,3) unfolding find_None_iff vm_contains_iff by blast
  then obtain k' a' where f: "List.find (\<lambda>(k, a). vm_contains a p) m = Some (k', a')" by auto
  then have "(k', a') \<in> set m" "p \<in> area_pages a'"
    by (auto simp: find_Some_iff vm_contains_iff) (metis nth_mem)
  then have "a' = a" using areas_wf_unique(2) [OF assms(1)] assms(2,3) by blast
  with f show ?thesis by (simp add: page_view_def)
qed

lemma page_view_None_iff: "page_view m p = None \<longleftrightarrow> p \<notin> vma_pages m"
  by (auto simp: page_view_def find_None_iff vm_contains_iff in_vma_pages)

lemma page_view_insert:
  assumes wf: "areas_wf m" and a: "vma_wf a" and dis: "area_pages a \<inter> vma_pages m = {}"
  shows "page_view (bt_insert (vm_start a) a m) p =
    (if p \<in> area_pages a then Some (area_view a p) else page_view m p)"
proof -
  have set: "set (bt_insert (vm_start a) a m) = insert (vm_start a, a) (set m)"
    by (rule set_bt_insert_fresh [OF areas_wf_bt [OF wf] area_key_fresh [OF assms]])
  note wf' = areas_wf_insert(1) [OF assms] and pg = areas_wf_insert(2) [OF assms]
  show ?thesis
  proof (cases "p \<in> area_pages a")
    case True
    then show ?thesis using page_view_Some [OF wf', of "vm_start a" a p] by (simp add: set)
  next
    case False
    show ?thesis
    proof (cases "p \<in> vma_pages m")
      case True
      then obtain k b where "(k, b) \<in> set m" "p \<in> area_pages b" by (auto simp: in_vma_pages)
      with page_view_Some [OF wf, of k b p] page_view_Some [OF wf', of k b p] False set
      show ?thesis by simp
    next
      case np: False
      then have "page_view m p = None" "page_view (bt_insert (vm_start a) a m) p = None"
        using False pg by (simp_all add: page_view_None_iff)
      with False show ?thesis by simp
    qed
  qed
qed

lemma page_view_remove:
  assumes wf: "areas_wf m" and a: "(k, a) \<in> set m"
  shows "page_view (bt_remove k m) p = (if p \<in> area_pages a then None else page_view m p)"
proof -
  note rem = areas_wf_remove [OF assms]
  show ?thesis
  proof (cases "p \<in> vma_pages (bt_remove k m)")
    case True
    then obtain k' b where b: "(k', b) \<in> set (bt_remove k m)" "p \<in> area_pages b" by (auto simp: in_vma_pages)
    then have "(k', b) \<in> set m" by simp
    with page_view_Some [OF wf _ b(2)] page_view_Some [OF rem(1) b] True rem(2) show ?thesis by simp
  next
    case False
    then have "page_view (bt_remove k m) p = None" by (simp add: page_view_None_iff)
    moreover have "p \<notin> area_pages a \<Longrightarrow> page_view m p = None"
      using False rem(2) by (simp add: page_view_None_iff)
    ultimately show ?thesis by simp
  qed
qed

section \<open>Counts and registrations\<close>

definition user_areas :: "(vpn, Vma) btree \<Rightarrow> nat" where
  "user_areas m = bt_sum (\<lambda>e. of_bool (vm_is_user (snd e))) m"

definition user_size :: "Vma \<Rightarrow> nat" where
  "user_size a = (if vm_is_user a then area_page_count a else 0)"

definition user_pages :: "(vpn, Vma) btree \<Rightarrow> nat" where
  "user_pages m = bt_sum (\<lambda>e. user_size (snd e)) m"

fun registered :: "rmap_call list \<Rightarrow> FileVmaRmap multiset" where
  "registered [] = {#}"
| "registered (RmapRegister r # cs) = add_mset r (registered cs)"
| "registered (RmapUnregister r # cs) = registered cs - {#r#}"

definition rmaps_ok :: "VmaSet \<Rightarrow> bool" where
  "rmaps_ok vs \<longleftrightarrow> bt_wf (vs_file_rmaps vs) \<and>
     (\<forall>k. bt_get (vs_file_rmaps vs) k = Option.bind (bt_get (vs_vmas vs) k) rmap_from_vma) \<and>
     registered (vs_rmap_calls vs) = mset (map snd (vs_file_rmaps vs))"

definition vs_inv :: "VmaSet \<Rightarrow> bool" where
  "vs_inv vs \<longleftrightarrow> areas_wf (vs_vmas vs) \<and> holes_wf (vs_holes vs) \<and>
     hole_pages (vs_holes vs) = arena - vma_pages (vs_vmas vs) \<and>
     vs_user_area_count vs = user_areas (vs_vmas vs) \<and>
     vs_user_page_count vs = user_pages (vs_vmas vs) \<and> rmaps_ok vs"

lemma mset_bt_insert:
  "bt_wf m \<Longrightarrow> bt_get m k = None \<Longrightarrow> mset (map snd (bt_insert k v m)) = add_mset v (mset (map snd m))"
  by (induction m) (auto simp: bt_get_def split: if_splits)

lemma mset_bt_remove:
  assumes "bt_wf m" and "bt_get m k = Some v"
  shows "mset (map snd (bt_remove k m)) = mset (map snd m) - {#v#}"
proof -
  let ?n = "bt_remove k m"
  have "m = bt_insert k v ?n"
    using assms by (intro bt_ext) (auto simp: set_bt_insert bt_get_iff dest: bt_entry_eq)
  moreover have "mset (map snd (bt_insert k v ?n)) = add_mset v (mset (map snd ?n))"
    using assms by (intro mset_bt_insert) (simp_all add: bt_get_remove)
  ultimately show ?thesis by simp
qed

subsection \<open>Adopting an area\<close>

lemma adopt_simps [simp]:
  "vma_inner (adopt vs a) = vma_inner a" "vma_map_perm (adopt vs a) = vma_map_perm a"
  "vma_map_file (adopt vs a) = vma_map_file a" "vma_elf_lazy (adopt vs a) = vma_elf_lazy a"
  "vma_map_file_offset (adopt vs a) = vma_map_file_offset a" "vma_flags (adopt vs a) = vma_flags a"
  "vma_may_write (adopt vs a) = vma_may_write a" "vma_write_sealed (adopt vs a) = vma_write_sealed a"
  "vma_wipe_on_fork (adopt vs a) = vma_wipe_on_fork a" "vma_dont_fork (adopt vs a) = vma_dont_fork a"
  "vma_fork_inherited (adopt vs a) = vma_fork_inherited a"
  by (simp_all add: adopt_def split: option.splits)

lemma adopt_facts [simp]:
  "vm_start (adopt vs a) = vm_start a" "vm_end (adopt vs a) = vm_end a"
  "area_pages (adopt vs a) = area_pages a" "vma_wf (adopt vs a) = vma_wf a"
  "vm_is_user (adopt vs a) = vm_is_user a" "area_view (adopt vs a) = area_view a"
  "area_page_count (adopt vs a) = area_page_count a" "user_size (adopt vs a) = user_size a"
  by (simp_all add: vm_start_def vm_end_def area_pages_def vma_wf_def vm_is_user_def area_view_def
      area_page_count_def user_size_def fun_eq_iff)

subsection \<open>The effect of \<open>put_vma\<close> and \<open>take_vma\<close>\<close>

lemma put_vma_fields [simp]:
  "vs_vmas (put_vma vs a) = bt_insert (vm_start a) (adopt vs a) (vs_vmas vs)"
  "vs_holes (put_vma vs a) = vs_holes vs" "vs_owner (put_vma vs a) = vs_owner vs"
  "vs_user_area_count (put_vma vs a) = vs_user_area_count vs"
  "vs_user_page_count (put_vma vs a) = vs_user_page_count vs"
  by (simp_all add: put_vma_def Let_def insert_file_rmap_def split: option.splits)

lemma adopt_put [simp]: "adopt (put_vma vs b) a = adopt vs a"
  by (simp add: adopt_def split: option.splits)

lemma put_vma_rmaps_ok:
  assumes ok: "rmaps_ok vs" and fresh: "bt_get (vs_vmas vs) (vm_start a) = None" and wf: "bt_wf (vs_vmas vs)"
  shows "rmaps_ok (put_vma vs a)"
proof -
  have rm: "bt_wf (vs_file_rmaps vs)" "bt_get (vs_file_rmaps vs) (vm_start a) = None"
    using ok fresh by (simp_all add: rmaps_ok_def)
  show ?thesis
  proof (cases "rmap_from_vma (adopt vs a)")
    case None
    then show ?thesis using ok rm wf
      by (simp add: rmaps_ok_def put_vma_def bt_get_insert)
  next
    case (Some r)
    then show ?thesis using ok rm wf mset_bt_insert [OF rm, of r]
      by (simp add: rmaps_ok_def put_vma_def insert_file_rmap_def bt_get_insert)
  qed
qed

lemma remove_file_rmap_fields [simp]:
  "vs_vmas (remove_file_rmap vs k) = vs_vmas vs" "vs_holes (remove_file_rmap vs k) = vs_holes vs"
  "vs_owner (remove_file_rmap vs k) = vs_owner vs"
  "vs_user_area_count (remove_file_rmap vs k) = vs_user_area_count vs"
  "vs_user_page_count (remove_file_rmap vs k) = vs_user_page_count vs"
  by (simp_all add: remove_file_rmap_def split: option.splits)

lemma take_vma_facts:
  assumes "take_vma vs k = Inr (a, vs')"
  shows "bt_get (vs_vmas vs) k = Some a" and "vs_vmas vs' = bt_remove k (vs_vmas vs)"
    and "vs_holes vs' = vs_holes vs" and "vs_owner vs' = vs_owner vs"
    and "vs_user_area_count vs' = vs_user_area_count vs"
    and "vs_user_page_count vs' = vs_user_page_count vs"
  using assms by (auto simp: take_vma_def split: option.splits)

lemma take_vma_rmaps_ok:
  assumes ok: "rmaps_ok vs" and t: "take_vma vs k = Inr (a, vs')"
  shows "rmaps_ok vs'"
proof -
  let ?vs = "vs\<lparr>vs_vmas := bt_remove k (vs_vmas vs)\<rparr>"
  have vs': "vs' = remove_file_rmap ?vs k" using t by (auto simp: take_vma_def split: option.splits)
  show ?thesis
  proof (cases "bt_get (vs_file_rmaps vs) k")
    case None
    then show ?thesis using ok by (simp add: vs' remove_file_rmap_def rmaps_ok_def bt_get_remove)
  next
    case (Some r)
    have "bt_wf (vs_file_rmaps vs)" using ok by (simp add: rmaps_ok_def)
    from mset_bt_remove [OF this Some] Some ok show ?thesis
      by (simp add: vs' remove_file_rmap_def rmaps_ok_def bt_get_remove)
  qed
qed

lemma take_vma_defined: "bt_get (vs_vmas vs) k = Some a \<Longrightarrow> \<exists>vs'. take_vma vs k = Inr (a, vs')"
  by (simp add: take_vma_def)

text \<open>Storing the pieces of an area, one after the other.\<close>

definition put_all :: "Vma list \<Rightarrow> VmaSet \<Rightarrow> VmaSet" where
  "put_all ps vs = fold (\<lambda>a vs. put_vma vs a) ps vs"

lemma put_all_simps [simp]: "put_all [] vs = vs" "put_all (a # ps) vs = put_all ps (put_vma vs a)"
  by (simp_all add: put_all_def)

definition pieces_pages :: "Vma list \<Rightarrow> vpn set" where
  "pieces_pages ps = (\<Union>a \<in> set ps. area_pages a)"

lemma pieces_pages_simps [simp]:
  "pieces_pages [] = {}" "pieces_pages (a # ps) = area_pages a \<union> pieces_pages ps"
  by (simp_all add: pieces_pages_def)

fun pieces_ok :: "Vma list \<Rightarrow> bool" where
  "pieces_ok [] \<longleftrightarrow> True"
| "pieces_ok (a # ps) \<longleftrightarrow> vma_wf a \<and> area_pages a \<inter> pieces_pages ps = {} \<and> pieces_ok ps"

definition pieces_view :: "Vma list \<Rightarrow> (vpn \<Rightarrow> page_attrs option) \<Rightarrow> vpn \<Rightarrow> page_attrs option" where
  "pieces_view ps old p =
     (case List.find (\<lambda>a. vm_contains a p) ps of Some a \<Rightarrow> Some (area_view a p) | None \<Rightarrow> old p)"

lemma put_all_facts:
  assumes "areas_wf (vs_vmas vs)" and "rmaps_ok vs" and "pieces_ok ps"
    and "pieces_pages ps \<inter> vma_pages (vs_vmas vs) = {}" and "vs' = put_all ps vs"
  shows "areas_wf (vs_vmas vs') \<and> rmaps_ok vs' \<and> vs_holes vs' = vs_holes vs \<and> vs_owner vs' = vs_owner vs \<and>
    vs_user_area_count vs' = vs_user_area_count vs \<and> vs_user_page_count vs' = vs_user_page_count vs \<and>
    vma_pages (vs_vmas vs') = vma_pages (vs_vmas vs) \<union> pieces_pages ps \<and>
    page_view (vs_vmas vs') = pieces_view ps (page_view (vs_vmas vs)) \<and>
    user_areas (vs_vmas vs') = user_areas (vs_vmas vs) + length (filter vm_is_user ps) \<and>
    user_pages (vs_vmas vs') = user_pages (vs_vmas vs) + sum_list (map user_size ps) \<and>
    (\<forall>a \<in> set ps. bt_get (vs_vmas vs') (vm_start a) = Some (adopt vs a)) \<and>
    (\<forall>k. k \<notin> pieces_pages ps \<longrightarrow> bt_get (vs_vmas vs') k = bt_get (vs_vmas vs) k)"
  using assms
proof (induction ps arbitrary: vs)
  case Nil
  then show ?case by (simp add: pieces_view_def)
next
  case (Cons a ps)
  let ?vs = "put_vma vs a" and ?m = "vs_vmas vs"
  have a: "vma_wf a" "area_pages a \<inter> vma_pages ?m = {}" using Cons.prems by auto
  have a': "vma_wf (adopt vs a)" "area_pages (adopt vs a) \<inter> vma_pages ?m = {}" using a by simp_all
  have fresh: "bt_get ?m (vm_start a) = None" by (rule area_key_fresh [OF Cons.prems(1) a])
  note ins = areas_wf_insert [OF Cons.prems(1) a', unfolded adopt_facts]
  have bw: "bt_wf ?m" using Cons.prems(1) by simp
  note rm = put_vma_rmaps_ok [OF Cons.prems(2) fresh bw]
  have IH: "areas_wf (vs_vmas vs') \<and> rmaps_ok vs' \<and> vs_holes vs' = vs_holes ?vs \<and> vs_owner vs' = vs_owner ?vs \<and>
    vs_user_area_count vs' = vs_user_area_count ?vs \<and> vs_user_page_count vs' = vs_user_page_count ?vs \<and>
    vma_pages (vs_vmas vs') = vma_pages (vs_vmas ?vs) \<union> pieces_pages ps \<and>
    page_view (vs_vmas vs') = pieces_view ps (page_view (vs_vmas ?vs)) \<and>
    user_areas (vs_vmas vs') = user_areas (vs_vmas ?vs) + length (filter vm_is_user ps) \<and>
    user_pages (vs_vmas vs') = user_pages (vs_vmas ?vs) + sum_list (map user_size ps) \<and>
    (\<forall>a \<in> set ps. bt_get (vs_vmas vs') (vm_start a) = Some (adopt ?vs a)) \<and>
    (\<forall>k. k \<notin> pieces_pages ps \<longrightarrow> bt_get (vs_vmas vs') k = bt_get (vs_vmas ?vs) k)"
    by (rule Cons.IH) (use Cons.prems ins rm in auto)
  have pv: "page_view (vs_vmas ?vs) = (\<lambda>p. if p \<in> area_pages a then Some (area_view a p) else page_view ?m p)"
    using page_view_insert [OF Cons.prems(1) a'] by (simp add: fun_eq_iff)
  have view: "pieces_view ps (page_view (vs_vmas ?vs)) = pieces_view (a # ps) (page_view ?m)"
  proof
    fix p
    have "p \<in> area_pages a \<Longrightarrow> List.find (\<lambda>a. vm_contains a p) ps = None"
      using Cons.prems(3) by (auto simp: find_None_iff vm_contains_iff pieces_pages_def)
    then show "pieces_view ps (page_view (vs_vmas ?vs)) p = pieces_view (a # ps) (page_view ?m) p"
      unfolding pv by (cases "p \<in> area_pages a")
        (auto simp: pieces_view_def vm_contains_iff split: option.splits)
  qed
  have st: "vm_start a \<in> area_pages a" "vm_start a \<notin> pieces_pages ps"
    using vma_wf_nonempty [OF a(1)] Cons.prems(3) by auto
  have cnt: "user_areas (vs_vmas ?vs) = user_areas ?m + of_bool (vm_is_user a)"
    "user_pages (vs_vmas ?vs) = user_pages ?m + user_size a"
    using bt_sum_insert [OF bw fresh] by (simp_all add: user_areas_def user_pages_def)
  have get: "bt_get (vs_vmas ?vs) = (bt_get ?m)(vm_start a \<mapsto> adopt vs a)"
    by (simp add: bt_get_insert [OF bw])
  show ?case using IH ins(2) view cnt st get by auto
qed

end
