(* ===== verification/VmaSetInv.thy ===== *)
theory VmaSetInv
  imports AreaSet VmaSetOps
begin

text \<open>
  The operations of \<open>VmaSet\<close> keep \<open>vs_inv\<close> and act on the page view as their names say:
  lookups find the area of a page, insertion adds the pages of the new area, splitting
  changes no page.
\<close>

section \<open>Lookup\<close>

lemma bt_last_le_entry:
  assumes "bt_wf m" and "bt_last_le v m = Some (k, a)"
  shows "(k, a) \<in> set m" and "k \<le> v" and "\<And>k' a'. (k', a') \<in> set m \<Longrightarrow> k' \<le> v \<Longrightarrow> k' \<le> k"
  using assms by (auto simp: bt_last_le_Some_iff)

lemma last_le_of_page:
  assumes wf: "areas_wf m" and a: "(k, a) \<in> set m" and v: "v \<in> area_pages a"
  shows "bt_last_le v m = Some (k, a)"
proof -
  have kv: "k \<le> v" using areas_wf_entry(1) [OF wf a] v by (simp add: area_pages_def)
  have "k' \<le> k" if "(k', a') \<in> set m" "k' \<le> v" for k' a'
  proof (rule ccontr)
    assume "\<not> k' \<le> k"
    then have "vm_end a \<le> k'" using areas_wf_order [OF wf a that(1)] by simp
    with that(2) v show False by (simp add: area_pages_def)
  qed
  with kv a show ?thesis using areas_wf_bt [OF wf] by (auto simp: bt_last_le_Some_iff)
qed

lemma find_vma_key_Some:
  assumes wf: "areas_wf (vs_vmas vs)" and k: "find_vma_key vs v = Some k"
  obtains a where "(k, a) \<in> set (vs_vmas vs)" and "bt_get (vs_vmas vs) k = Some a" and "v \<in> area_pages a"
proof -
  from k obtain a where "bt_last_le v (vs_vmas vs) = Some (k, a)" "v \<in> area_pages a"
    by (auto simp: find_vma_key_def vm_contains_iff split: option.splits if_splits)
  with that bt_last_le_entry(1) [OF areas_wf_bt [OF wf]] bt_get_iff [OF areas_wf_bt [OF wf]]
  show thesis by blast
qed

lemma find_vma_key_None:
  assumes wf: "areas_wf (vs_vmas vs)"
  shows "find_vma_key vs v = None \<longleftrightarrow> v \<notin> vma_pages (vs_vmas vs)"
proof
  assume n: "find_vma_key vs v = None"
  show "v \<notin> vma_pages (vs_vmas vs)"
  proof
    assume "v \<in> vma_pages (vs_vmas vs)"
    then obtain k a where "(k, a) \<in> set (vs_vmas vs)" "v \<in> area_pages a" by (auto simp: in_vma_pages)
    with last_le_of_page [OF wf this] n show False by (simp add: find_vma_key_def vm_contains_iff)
  qed
next
  assume "v \<notin> vma_pages (vs_vmas vs)"
  then show "find_vma_key vs v = None"
    unfolding in_vma_pages using find_vma_key_Some [OF wf] by (metis not_None_eq)
qed

lemma find_vma_key_view:
  assumes wf: "areas_wf (vs_vmas vs)"
  shows "page_view (vs_vmas vs) v =
    map_option (\<lambda>k. area_view (the (bt_get (vs_vmas vs) k)) v) (find_vma_key vs v)"
proof (cases "find_vma_key vs v")
  case None
  then have "page_view (vs_vmas vs) v = None" using find_vma_key_None [OF wf] page_view_None_iff by blast
  with None show ?thesis by simp
next
  case (Some k)
  from find_vma_key_Some [OF wf Some] page_view_Some [OF wf] Some show ?thesis by fastforce
qed

lemma has_overlap_iff:
  assumes wf: "areas_wf (vs_vmas vs)" and ne: "s < e"
  shows "has_overlap vs s e \<longleftrightarrow> vma_pages (vs_vmas vs) \<inter> {s..<e} \<noteq> {}"
proof
  let ?m = "vs_vmas vs"
  have bw: "bt_wf ?m" using wf by simp
  assume h: "has_overlap vs s e"
  show "vma_pages ?m \<inter> {s..<e} \<noteq> {}"
  proof (cases "case bt_last_le s ?m of None \<Rightarrow> False | Some (_, a) \<Rightarrow> s < vm_end a")
    case True
    then obtain k a where l: "bt_last_le s ?m = Some (k, a)" "s < vm_end a" by (auto split: option.splits)
    note en = bt_last_le_entry(1,2) [OF bw l(1)]
    have "s \<in> area_pages a" using areas_wf_entry(1) [OF wf en(1)] en(2) l(2) by (simp add: area_pages_def)
    with en(1) ne show ?thesis by (auto simp: in_vma_pages disjoint_iff)
  next
    case False
    with h ne obtain k a where f: "bt_first_ge s ?m = Some (k, a)" "vm_start a < e"
      by (auto simp: has_overlap_def split: option.splits if_splits)
    then have "(k, a) \<in> set ?m" "s \<le> k" using bw by (auto simp: bt_first_ge_Some_iff)
    moreover from this have "k \<in> area_pages a" "k = vm_start a"
      using areas_wf_entry [OF wf] vma_wf_nonempty by metis+
    ultimately show ?thesis using f(2) unfolding disjoint_iff in_vma_pages by auto
  qed
next
  let ?m = "vs_vmas vs"
  have bw: "bt_wf ?m" using wf by simp
  assume "vma_pages ?m \<inter> {s..<e} \<noteq> {}"
  then obtain p k a where p: "s \<le> p" "p < e" and a: "(k, a) \<in> set ?m" "p \<in> area_pages a"
    by (auto simp: in_vma_pages)
  have k: "k = vm_start a" by (rule areas_wf_entry(1) [OF wf a(1)])
  show "has_overlap vs s e"
  proof (cases "k \<le> s")
    case True
    then have "s \<in> area_pages a" using a(2) p k by (simp add: area_pages_def)
    from last_le_of_page [OF wf a(1) this] ne this show ?thesis
      by (simp add: has_overlap_def area_pages_def)
  next
    case False
    then have "s \<le> k" by simp
    then have "bt_first_ge s ?m \<noteq> None" using a(1)
      by (metis bt_first_ge_None_iff fst_conv not_le)
    then obtain k' a' where f: "bt_first_ge s ?m = Some (k', a')" by auto
    then have "(k', a') \<in> set ?m" "k' \<le> k"
      using \<open>s \<le> k\<close> a(1) bw by (auto simp: bt_first_ge_Some_iff)
    then have "vm_start a' < e"
      using areas_wf_entry(1) [OF wf] a(2) p k by (fastforce simp: area_pages_def)
    with f ne show ?thesis by (simp add: has_overlap_def)
  qed
qed

lemma first_overlap_key_Some:
  assumes wf: "areas_wf (vs_vmas vs)" and ne: "s < e" and f: "first_overlap_key vs s e = Some k"
  obtains a where "(k, a) \<in> set (vs_vmas vs)" and "bt_get (vs_vmas vs) k = Some a"
    and "area_pages a \<inter> {s..<e} \<noteq> {}"
proof -
  have bw: "bt_wf (vs_vmas vs)" using wf by simp
  have "\<exists>a. (k, a) \<in> set (vs_vmas vs) \<and> vm_overlaps a s e"
    using f bt_last_le_entry(1) [OF bw]
    by (auto simp: first_overlap_key_def find_Some_iff split: option.splits if_splits) (metis nth_mem)+
  then obtain a where a: "(k, a) \<in> set (vs_vmas vs)" "vm_overlaps a s e" by blast
  then have "area_pages a \<inter> {s..<e} \<noteq> {}"
    using areas_wf_entry(2) [OF wf a(1)] vm_overlaps_iff [OF ne] by (simp add: vma_wf_def)
  with a(1) that bt_get_iff [OF bw] show thesis by blast
qed

lemma first_overlap_key_None:
  assumes wf: "areas_wf (vs_vmas vs)" and ne: "s < e" and f: "first_overlap_key vs s e = None"
  shows "vma_pages (vs_vmas vs) \<inter> {s..<e} = {}"
proof (rule ccontr)
  let ?m = "vs_vmas vs"
  assume "vma_pages ?m \<inter> {s..<e} \<noteq> {}"
  then obtain p k a where p: "s \<le> p" "p < e" and a: "(k, a) \<in> set ?m" "p \<in> area_pages a"
    by (auto simp: in_vma_pages)
  have k: "k = vm_start a" by (rule areas_wf_entry(1) [OF wf a(1)])
  have o: "vm_overlaps a s e" using a(2) p by (auto simp: vm_overlaps_def area_pages_def)
  show False
  proof (cases "k \<le> s")
    case True
    then have "s \<in> area_pages a" using a(2) p k by (simp add: area_pages_def)
    from last_le_of_page [OF wf a(1) this] f o show False by (simp add: first_overlap_key_def)
  next
    case False
    then have "List.find (\<lambda>(k, a). s \<le> k \<and> vm_overlaps a s e) ?m \<noteq> None"
      using a(1) o unfolding find_None_iff by (metis (mono_tags, lifting) case_prod_conv nle_le)
    with f show False by (auto simp: first_overlap_key_def split: option.splits if_splits)
  qed
qed

section \<open>Splitting areas\<close>

lemma range_fields [simp]: "st_range s = (a, b) \<Longrightarrow> st_start s = a \<and> st_end s = b"
  by (simp add: st_start_def st_end_def)

lemma vma_into_two_facts:
  assumes wf: "vma_wf a" and c: "vm_start a < c" "c < vm_end a"
  obtains f g where "vma_into_two a c = Some (f, g)" and "vma_wf f" and "vma_wf g"
    and "vm_start f = vm_start a" and "vm_end f = c" and "vm_start g = c" and "vm_end g = vm_end a"
    and "\<And>p. p < c \<Longrightarrow> area_view f p = area_view a p"
    and "\<And>p. c \<le> p \<Longrightarrow> area_view g p = area_view a p"
    and "vm_is_user f = vm_is_user a" and "vm_is_user g = vm_is_user a"
proof -
  let ?s = "vma_inner a" and ?off = "vma_map_file_offset a"
  have sw: "store_wf ?s" and se: "vm_end a \<le> MAX_VPN" using wf by (simp_all add: vma_wf_def)
  have cs: "st_start ?s < c" "c < st_end ?s" using c by (simp_all add: vm_start_def vm_end_def)
  from into_two_defined [OF cs] obtain s1 s2 where s12: "store_into_two ?s c = Some (s1, s2)" by blast
  note f = store_into_two_facts [OF sw s12]
  have adr: "vpn_addr c = c * PAGE_SIZE" "vpn_addr (st_start ?s) = st_start ?s * PAGE_SIZE"
    using c se by (simp_all add: vpn_addr_small vm_start_def vm_end_def)
  have sub: "wrapping_sub (vpn_addr c) (vpn_addr (st_start ?s)) = (c - st_start ?s) * PAGE_SIZE"
    using cs se c unfolding adr
    by (subst wrapping_sub_small) (auto simp: diff_mult_distrib MAX_VPN_def PAGE_SIZE_def USIZE_MAX_def)
  define o2 where "o2 = (if vma_map_file a \<noteq> None then ?off + (c - st_start ?s) * PAGE_SIZE else 0)"
  have fit: "vma_map_file a \<noteq> None \<Longrightarrow> ?off + (vm_end a - vm_start a) * PAGE_SIZE \<le> USIZE_MAX"
    using wf by (simp add: vma_wf_def)
  have le: "(c - st_start ?s) * PAGE_SIZE \<le> (vm_end a - vm_start a) * PAGE_SIZE"
    using c by (intro mult_right_mono) (simp_all add: vm_start_def)
  have ofs: "(if vma_map_file a \<noteq> None then checked_add ?off ((c - st_start ?s) * PAGE_SIZE) else Some 0) = Some o2"
  proof (cases "vma_map_file a = None")
    case False
    then have "?off + (c - st_start ?s) * PAGE_SIZE \<le> USIZE_MAX" using fit le by linarith
    then show ?thesis using False by (simp add: o2_def checked_add_def)
  qed (simp add: o2_def)
  let ?f = "a\<lparr>vma_inner := s1\<rparr>" and ?g = "a\<lparr>vma_inner := s2, vma_map_file_offset := o2\<rparr>"
  have split: "(c - vm_start a) * PAGE_SIZE + (vm_end a - c) * PAGE_SIZE = (vm_end a - vm_start a) * PAGE_SIZE"
    using c by (simp add: diff_mult_distrib)
  have lef: "?off + (c - vm_start a) * PAGE_SIZE \<le> USIZE_MAX" if "vma_map_file a \<noteq> None"
    using split fit [OF that] by linarith
  show thesis
  proof (rule that [of ?f ?g])
    show "vma_into_two a c = Some (?f, ?g)" unfolding vma_into_two_def sub ofs by (simp add: s12)
    show "vma_wf ?f"
      using f(1,3) c se lef by (auto simp: vma_wf_def vm_start_def vm_end_def)
    show "vma_wf ?g"
      using f(2,4) c se fit split by (auto simp: vma_wf_def vm_start_def vm_end_def o2_def)
    show "area_view ?f p = area_view a p" if "p < c" for p
      using f(3) f(7) [of p] that by (simp add: area_view_def vm_start_def)
    show "area_view ?g p = area_view a p" if "c \<le> p" for p
    proof -
      have "(c - st_start ?s) * PAGE_SIZE + (p - c) * PAGE_SIZE = (p - st_start ?s) * PAGE_SIZE"
        using that cs by (simp add: diff_mult_distrib)
      then show ?thesis using f(4) f(8) [of p] that by (auto simp: area_view_def vm_start_def o2_def)
    qed
  qed (use f(3,4) in \<open>simp_all add: vm_start_def vm_end_def vm_is_user_def\<close>)
qed

lemma vma_into_three_facts:
  assumes wf: "vma_wf a" and c: "vm_start a < c1" "c1 < c2" "c2 < vm_end a"
  obtains f g h where "vma_into_three a c1 c2 = (Some (g, h), f)" and "vma_wf f" and "vma_wf g" and "vma_wf h"
    and "vm_start f = vm_start a" and "vm_end f = c1" and "vm_start g = c1" and "vm_end g = c2"
    and "vm_start h = c2" and "vm_end h = vm_end a"
    and "\<And>p. p < c1 \<Longrightarrow> area_view f p = area_view a p"
    and "\<And>p. c1 \<le> p \<Longrightarrow> p < c2 \<Longrightarrow> area_view g p = area_view a p"
    and "\<And>p. c2 \<le> p \<Longrightarrow> area_view h p = area_view a p"
    and "vm_is_user f = vm_is_user a" and "vm_is_user g = vm_is_user a" and "vm_is_user h = vm_is_user a"
proof -
  have c1e: "c1 < vm_end a" using c by simp
  obtain f r where f: "vma_into_two a c1 = Some (f, r)" "vma_wf f" "vma_wf r"
    "vm_start f = vm_start a" "vm_end f = c1" "vm_start r = c1" "vm_end r = vm_end a"
    "\<And>p. p < c1 \<Longrightarrow> area_view f p = area_view a p" "\<And>p. c1 \<le> p \<Longrightarrow> area_view r p = area_view a p"
    "vm_is_user f = vm_is_user a" "vm_is_user r = vm_is_user a"
    by (rule vma_into_two_facts [OF wf c(1) c1e]) blast
  have rc: "vm_start r < c2" "c2 < vm_end r" using c f(6,7) by simp_all
  obtain g h where "vma_into_two r c2 = Some (g, h)" "vma_wf g" "vma_wf h"
    "vm_start g = vm_start r" "vm_end g = c2" "vm_start h = c2" "vm_end h = vm_end r"
    "\<And>p. p < c2 \<Longrightarrow> area_view g p = area_view r p" "\<And>p. c2 \<le> p \<Longrightarrow> area_view h p = area_view r p"
    "vm_is_user g = vm_is_user r" "vm_is_user h = vm_is_user r"
    by (rule vma_into_two_facts [OF f(3) rc]) blast
  with f c show thesis
    by (intro that [of g h f]) (simp_all add: vma_into_three_def)
qed

lemma user_counts_remove:
  assumes "bt_wf m" and "bt_get m k = Some a"
  shows "user_areas m = user_areas (bt_remove k m) + of_bool (vm_is_user a)"
    and "user_pages m = user_pages (bt_remove k m) + user_size a"
  using bt_sum_remove [OF assms, of "\<lambda>e. of_bool (vm_is_user (snd e))"]
    bt_sum_remove [OF assms, of "\<lambda>e. user_size (snd e)"]
  unfolding user_areas_def user_pages_def by simp_all

text \<open>Replacing an area by the pieces it was cut into changes no page.\<close>

lemma replace_pieces:
  assumes inv: "vs_inv vs" and t: "take_vma vs k = Inr (a, vs1)" and ok: "pieces_ok ps"
    and pg: "pieces_pages ps = area_pages a"
    and view: "\<And>b p. b \<in> set ps \<Longrightarrow> p \<in> area_pages b \<Longrightarrow> area_view b p = area_view a p"
    and user: "\<And>b. b \<in> set ps \<Longrightarrow> vm_is_user b = vm_is_user a" and ne: "ps \<noteq> []"
    and sz: "sum_list (map area_page_count ps) = area_page_count a"
    and vs': "vs' = add_user_areas (vm_is_user a) (length ps - 1) (put_all ps vs1)"
  shows "vs_inv vs' \<and> page_view (vs_vmas vs') = page_view (vs_vmas vs) \<and>
    vs_holes vs' = vs_holes vs \<and> vs_owner vs' = vs_owner vs \<and>
    vs_user_area_count vs' = vs_user_area_count vs + (if vm_is_user a then length ps - 1 else 0) \<and>
    (\<forall>b \<in> set ps. bt_get (vs_vmas vs') (vm_start b) = Some (adopt vs b))"
proof -
  let ?m = "vs_vmas vs" and ?m1 = "bt_remove k (vs_vmas vs)"
  note tf = take_vma_facts [OF t]
  have wf: "areas_wf ?m" and rm: "rmaps_ok vs" using inv by (simp_all add: vs_inv_def)
  have bw: "bt_wf ?m" using wf by simp
  have a: "(k, a) \<in> set ?m" using tf(1) bt_get_iff [OF bw] by blast
  note r = areas_wf_remove [OF wf a]
  have wf1: "areas_wf (vs_vmas vs1)" "rmaps_ok vs1" using r(1) tf(2) take_vma_rmaps_ok [OF rm t] by simp_all
  have dis: "pieces_pages ps \<inter> vma_pages (vs_vmas vs1) = {}" using r(2) tf(2) pg by auto
  note p = put_all_facts [OF wf1 ok dis refl]
  have pv: "pieces_view ps (page_view ?m1) = page_view ?m"
  proof
    fix q
    show "pieces_view ps (page_view ?m1) q = page_view ?m q"
    proof (cases "List.find (\<lambda>b. vm_contains b q) ps")
      case None
      then have "q \<notin> area_pages a" using pg by (auto simp: find_None_iff vm_contains_iff pieces_pages_def)
      then show ?thesis using page_view_remove [OF wf a] None by (simp add: pieces_view_def)
    next
      case (Some b)
      then have b: "b \<in> set ps" "q \<in> area_pages b"
        by (auto simp: find_Some_iff vm_contains_iff)
      moreover from this have "q \<in> area_pages a" using pg by (auto simp: pieces_pages_def)
      ultimately show ?thesis using page_view_Some [OF wf a] view Some by (simp add: pieces_view_def)
    qed
  qed
  have pg': "vma_pages ?m1 \<union> pieces_pages ps = vma_pages ?m"
    using r(2) pg area_pages_subset [OF a] by auto
  have f: "filter vm_is_user ps = (if vm_is_user a then ps else [])" using user by (induction ps) auto
  have g: "sum_list (map user_size ps) = user_size a"
  proof -
    have "map user_size ps = map (\<lambda>b. if vm_is_user a then area_page_count b else 0) ps"
      by (rule map_cong) (simp_all add: user_size_def user)
    then have "sum_list (map user_size ps) = (if vm_is_user a then sum_list (map area_page_count ps) else 0)"
      by (simp only:) simp
    then show ?thesis using sz by (simp add: user_size_def)
  qed
  have rem: "user_areas ?m = user_areas ?m1 + of_bool (vm_is_user a)" "user_pages ?m = user_pages ?m1 + user_size a"
    using user_counts_remove [OF bw tf(1)] by simp_all
  have ad: "adopt vs1 = adopt vs" unfolding adopt_def tf(4) by (rule refl)
  have au: "vs_vmas vs' = vs_vmas (put_all ps vs1)" "vs_holes vs' = vs_holes (put_all ps vs1)"
    "vs_owner vs' = vs_owner (put_all ps vs1)" "rmaps_ok vs' = rmaps_ok (put_all ps vs1)"
    "vs_user_page_count vs' = vs_user_page_count (put_all ps vs1)"
    "vs_user_area_count vs' = vs_user_area_count (put_all ps vs1) + (if vm_is_user a then length ps - 1 else 0)"
    by (simp_all add: vs' add_user_areas_def rmaps_ok_def)
  have cnt: "vs_user_area_count vs' = user_areas (vs_vmas vs')"
    using p rem f ne tf inv by (cases ps) (auto simp: au vs_inv_def)
  show ?thesis using p tf pv pg' g rem inv cnt ad by (auto simp: au vs_inv_def)
qed

text \<open>Room for \<open>n\<close> more user areas under the limit of \<open>max_map_count\<close>.\<close>

definition map_room :: "mm_env \<Rightarrow> VmaSet \<Rightarrow> nat \<Rightarrow> bool" where
  "map_room env vs n \<longleftrightarrow> vs_user_area_count vs + n \<le> saturating_add (env_max_map_count env) 1"

lemma ensure_can_add_eq: "ensure_can_add env vs n = (if map_room env vs n then Inr () else Inl ENOMEM)"
  by (auto simp: ensure_can_add_def map_room_def checked_add_def saturating_add_def)

lemma map_room_mono: "map_room env vs n \<Longrightarrow> k \<le> n \<Longrightarrow> map_room env vs k"
  by (simp add: map_room_def)

text \<open>After a split, the area at \<open>t\<close> is exactly \<open>[s, e)\<close>, and no page has changed.\<close>

definition split_result :: "VmaSet \<Rightarrow> vpn \<Rightarrow> vpn \<Rightarrow> bool \<Rightarrow> nat \<Rightarrow> vpn \<Rightarrow> VmaSet \<Rightarrow> bool" where
  "split_result vs s e user n t vs' \<longleftrightarrow>
     vs_inv vs' \<and> page_view (vs_vmas vs') = page_view (vs_vmas vs) \<and>
     vs_user_area_count vs' = vs_user_area_count vs + (if user then n else 0) \<and>
     vs_holes vs' = vs_holes vs \<and> vs_owner vs' = vs_owner vs \<and>
     (\<exists>b. bt_get (vs_vmas vs') t = Some b \<and> vm_start b = s \<and> vm_end b = e \<and> vm_is_user b = user)"

lemma replace_split_result:
  assumes "vs_inv vs" and "take_vma vs k = Inr (a, vs1)" and "pieces_ok ps"
    and "pieces_pages ps = area_pages a"
    and "\<And>b p. b \<in> set ps \<Longrightarrow> p \<in> area_pages b \<Longrightarrow> area_view b p = area_view a p"
    and "\<And>b. b \<in> set ps \<Longrightarrow> vm_is_user b = vm_is_user a" and b: "b \<in> set ps" "vm_start b = s" "vm_end b = e"
    and "sum_list (map area_page_count ps) = area_page_count a"
    and "vs' = add_user_areas (vm_is_user a) (length ps - 1) (put_all ps vs1)"
  shows "split_result vs s e (vm_is_user a) (length ps - 1) s vs'"
proof -
  have ne: "ps \<noteq> []" using b by auto
  note r = replace_pieces [OF assms(1-6) ne assms(10,11)]
  moreover have "bt_get (vs_vmas vs') s = Some (adopt vs b)" using r b by auto
  ultimately show ?thesis using b assms(6) [OF b(1)] unfolding split_result_def by auto
qed

lemma area_page_count_eq: "vm_start a \<le> vm_end a \<Longrightarrow> area_page_count a = vm_end a - vm_start a"
  by (simp add: area_page_count_def saturating_sub_def)

lemma split_for_range_two:
  assumes inv: "vs_inv vs" and t: "take_vma vs k = Inr (a, vs1)" and c: "vm_start a < c" "c < vm_end a"
  obtains f g where "vma_into_two a c = Some (f, g)" and "vm_start f = vm_start a" and "vm_start g = c"
    and "split_result vs (vm_start a) c (vm_is_user a) 1 (vm_start a)
           (add_user_areas (vm_is_user a) 1 (put_vma (put_vma vs1 f) g))"
    and "split_result vs c (vm_end a) (vm_is_user a) 1 c
           (add_user_areas (vm_is_user a) 1 (put_vma (put_vma vs1 f) g))"
proof -
  have wf: "areas_wf (vs_vmas vs)" using inv by (simp add: vs_inv_def)
  have "(k, a) \<in> set (vs_vmas vs)"
    using take_vma_facts(1) [OF t] bt_get_iff [OF areas_wf_bt [OF wf]] by blast
  then have aw: "vma_wf a" by (rule areas_wf_entry(2) [OF wf])
  obtain f g where fg: "vma_into_two a c = Some (f, g)" "vma_wf f" "vma_wf g"
    "vm_start f = vm_start a" "vm_end f = c" "vm_start g = c" "vm_end g = vm_end a"
    "\<And>p. p < c \<Longrightarrow> area_view f p = area_view a p" "\<And>p. c \<le> p \<Longrightarrow> area_view g p = area_view a p"
    "vm_is_user f = vm_is_user a" "vm_is_user g = vm_is_user a"
    by (rule vma_into_two_facts [OF aw c]) blast
  have ok: "pieces_ok [f, g]" using fg by (auto simp: area_pages_def)
  have pg: "pieces_pages [f, g] = area_pages a" using fg c by (auto simp: area_pages_def)
  have view: "area_view b p = area_view a p" if "b \<in> set [f, g]" "p \<in> area_pages b" for b p
    using that fg(4-9) by (auto simp: area_pages_def)
  have us: "vm_is_user b = vm_is_user a" if "b \<in> set [f, g]" for b using that fg(10,11) by auto
  have sz: "sum_list (map area_page_count [f, g]) = area_page_count a"
    using fg c by (simp add: area_page_count_eq)
  note r = replace_split_result [OF inv t ok pg view us _ _ _ sz refl]
  show thesis
    using r [of f "vm_start a" c] r [of g c "vm_end a"] fg by (intro that [of f g]) simp_all
qed

lemma split_for_range_three:
  assumes inv: "vs_inv vs" and t: "take_vma vs k = Inr (a, vs1)"
    and c: "vm_start a < c1" "c1 < c2" "c2 < vm_end a"
  obtains f g h where "vma_into_three a c1 c2 = (Some (g, h), f)" and "vm_start g = c1"
    and "split_result vs c1 c2 (vm_is_user a) 2 c1
           (add_user_areas (vm_is_user a) 2 (put_vma (put_vma (put_vma vs1 f) g) h))"
proof -
  have wf: "areas_wf (vs_vmas vs)" using inv by (simp add: vs_inv_def)
  have "(k, a) \<in> set (vs_vmas vs)"
    using take_vma_facts(1) [OF t] bt_get_iff [OF areas_wf_bt [OF wf]] by blast
  then have aw: "vma_wf a" by (rule areas_wf_entry(2) [OF wf])
  obtain f g h where fg: "vma_into_three a c1 c2 = (Some (g, h), f)" "vma_wf f" "vma_wf g" "vma_wf h"
    "vm_start f = vm_start a" "vm_end f = c1" "vm_start g = c1" "vm_end g = c2" "vm_start h = c2"
    "vm_end h = vm_end a" "\<And>p. p < c1 \<Longrightarrow> area_view f p = area_view a p"
    "\<And>p. c1 \<le> p \<Longrightarrow> p < c2 \<Longrightarrow> area_view g p = area_view a p"
    "\<And>p. c2 \<le> p \<Longrightarrow> area_view h p = area_view a p"
    "vm_is_user f = vm_is_user a" "vm_is_user g = vm_is_user a" "vm_is_user h = vm_is_user a"
    by (rule vma_into_three_facts [OF aw c]) blast
  have ok: "pieces_ok [f, g, h]" using fg c by (auto simp: area_pages_def)
  have pg: "pieces_pages [f, g, h] = area_pages a" using fg c by (auto simp: area_pages_def)
  have view: "area_view b p = area_view a p" if "b \<in> set [f, g, h]" "p \<in> area_pages b" for b p
    using that fg(5-13) by (auto simp: area_pages_def)
  have us: "vm_is_user b = vm_is_user a" if "b \<in> set [f, g, h]" for b using that fg(14-16) by auto
  have sz: "sum_list (map area_page_count [f, g, h]) = area_page_count a"
    using fg c by (simp add: area_page_count_eq)
  note r = replace_split_result [OF inv t ok pg view us _ _ _ sz refl]
  show thesis
    using r [of g c1 c2] fg by (intro that [of g h f]) (simp_all add: numeral_2_eq_2)
qed

lemma split_for_range_whole:
  assumes inv: "vs_inv vs" and t: "take_vma vs k = Inr (a, vs1)"
  shows "split_result vs (vm_start a) (vm_end a) (vm_is_user a) 0 (vm_start a) (put_vma vs1 a)"
proof -
  have wf: "areas_wf (vs_vmas vs)" using inv by (simp add: vs_inv_def)
  have "(k, a) \<in> set (vs_vmas vs)"
    using take_vma_facts(1) [OF t] bt_get_iff [OF areas_wf_bt [OF wf]] by blast
  then have aw: "vma_wf a" by (rule areas_wf_entry(2) [OF wf])
  then show ?thesis
    using replace_split_result [OF inv t, of "[a]" a "vm_start a" "vm_end a" "put_vma vs1 a"]
    by (simp add: add_user_areas_def)
qed

definition split_extra :: "Vma \<Rightarrow> vpn \<Rightarrow> vpn \<Rightarrow> nat" where
  "split_extra a s e = of_bool (vm_start a < s) + of_bool (e < vm_end a)"

lemma split_for_range_room:
  assumes inv: "vs_inv vs" and a: "bt_get (vs_vmas vs) k = Some a"
    and se: "vm_start a \<le> s" "s < e" "e \<le> vm_end a" and room: "map_room env vs (split_extra a s e)"
  shows "\<exists>vs'. split_for_range env vs k s e = (Inr s, vs') \<and>
    split_result vs s e (vm_is_user a) (split_extra a s e) s vs'"
proof -
  from take_vma_defined [OF a] obtain vs1 where t: "take_vma vs k = Inr (a, vs1)" by blast
  consider "s = vm_start a" "e = vm_end a" | "s = vm_start a" "e < vm_end a"
    | "vm_start a < s" "e = vm_end a" | "vm_start a < s" "e < vm_end a" using se by linarith
  then show ?thesis
  proof cases
    case 1
    with split_for_range_whole [OF inv t] t a room se show ?thesis
      by (simp add: split_for_range_def split_extra_def ensure_can_add_eq)
  next
    case 2
    then have "vm_start a < e" using se by simp
    from split_for_range_two [OF inv t this 2(2)] obtain f g
      where "vma_into_two a e = Some (f, g)" "vm_start f = vm_start a"
        "split_result vs (vm_start a) e (vm_is_user a) 1 (vm_start a)
           (add_user_areas (vm_is_user a) 1 (put_vma (put_vma vs1 f) g))" by blast
    with 2 t a room se show ?thesis by (simp add: split_for_range_def split_extra_def ensure_can_add_eq)
  next
    case 3
    then have "s < vm_end a" using se by simp
    from split_for_range_two [OF inv t 3(1) this] obtain f g
      where "vma_into_two a s = Some (f, g)" "vm_start g = s"
        "split_result vs s (vm_end a) (vm_is_user a) 1 s
           (add_user_areas (vm_is_user a) 1 (put_vma (put_vma vs1 f) g))" by blast
    with 3 t a room se show ?thesis by (simp add: split_for_range_def split_extra_def ensure_can_add_eq)
  next
    case 4
    from split_for_range_three [OF inv t 4(1) se(2) 4(2)] obtain f g h
      where "vma_into_three a s e = (Some (g, h), f)" "vm_start g = s"
        "split_result vs s e (vm_is_user a) 2 s
           (add_user_areas (vm_is_user a) 2 (put_vma (put_vma (put_vma vs1 f) g) h))" by blast
    with 4 t a room se show ?thesis
      by (simp add: split_for_range_def split_extra_def ensure_can_add_eq flip: numeral_2_eq_2)
  qed
qed

lemma split_for_range_no_room:
  assumes a: "bt_get (vs_vmas vs) k = Some a" and se: "vm_start a \<le> s" "s < e" "e \<le> vm_end a"
    and room: "\<not> map_room env vs (split_extra a s e)"
  shows "split_for_range env vs k s e = (Inl ENOMEM, vs)"
proof -
  have "(if s = vm_start a \<and> e = vm_end a then 0 else if s = vm_start a \<or> e = vm_end a then 1 else 2) =
      split_extra a s e"
    using se by (auto simp: split_extra_def)
  with assms show ?thesis by (simp add: split_for_range_def ensure_can_add_eq)
qed

lemma split_for_range_refused:
  assumes "\<And>a. bt_get (vs_vmas vs) k = Some a \<Longrightarrow> \<not> (vm_start a \<le> s \<and> s < e \<and> e \<le> vm_end a)"
  shows "split_for_range env vs k s e = (Inl EINVAL, vs)"
  using assms by (auto simp: split_for_range_def split: option.splits)

section \<open>Adding and dropping an area\<close>

lemma reserve_mmap_range_fields [simp]:
  "vs_vmas (reserve_mmap_range vs s e) = vs_vmas vs" "vs_owner (reserve_mmap_range vs s e) = vs_owner vs"
  "vs_holes (reserve_mmap_range vs s e) = reserve_holes s e (vs_holes vs)"
  "vs_user_area_count (reserve_mmap_range vs s e) = vs_user_area_count vs"
  "vs_user_page_count (reserve_mmap_range vs s e) = vs_user_page_count vs"
  "rmaps_ok (reserve_mmap_range vs s e) = rmaps_ok vs"
  by (simp_all add: reserve_mmap_range_def rmaps_ok_def)

lemma release_mmap_range_fields [simp]:
  "vs_vmas (release_mmap_range vs s e) = vs_vmas vs" "vs_owner (release_mmap_range vs s e) = vs_owner vs"
  "vs_holes (release_mmap_range vs s e) = release_holes s e (vs_holes vs)"
  "vs_user_area_count (release_mmap_range vs s e) = vs_user_area_count vs"
  "vs_user_page_count (release_mmap_range vs s e) = vs_user_page_count vs"
  "rmaps_ok (release_mmap_range vs s e) = rmaps_ok vs"
  by (simp_all add: release_mmap_range_def rmaps_ok_def)

lemma untrack_area_fields [simp]:
  "vs_vmas (untrack_area vs a) = vs_vmas vs" "vs_owner (untrack_area vs a) = vs_owner vs"
  "vs_holes (untrack_area vs a) = vs_holes vs" "rmaps_ok (untrack_area vs a) = rmaps_ok vs"
  "vs_user_area_count (untrack_area vs a) = vs_user_area_count vs - of_bool (vm_is_user a)"
  "vs_user_page_count (untrack_area vs a) = vs_user_page_count vs - user_size a"
  by (simp_all add: untrack_area_def rmaps_ok_def saturating_sub_def user_size_def)

lemma insert_vma_facts:
  assumes inv: "vs_inv vs" and wf: "vma_wf a" and r: "insert_vma env vs a = (Inr (), vs')"
  shows "vs_inv vs' \<and> area_pages a \<inter> vma_pages (vs_vmas vs) = {} \<and>
    page_view (vs_vmas vs') = (\<lambda>p. if p \<in> area_pages a then Some (area_view a p) else page_view (vs_vmas vs) p)"
proof -
  let ?s = "vm_start a" and ?e = "vm_end a" and ?m = "vs_vmas vs"
  have lt: "?s < ?e" using wf by (simp add: vma_wf_def)
  have aw: "areas_wf ?m" and hw: "holes_wf (vs_holes vs)" and rm: "rmaps_ok vs" using inv by (simp_all add: vs_inv_def)
  have no: "\<not> has_overlap vs ?s ?e"
    using r lt by (auto simp: insert_vma_def Let_def split: if_splits)
  then have dis: "area_pages a \<inter> vma_pages ?m = {}"
    using has_overlap_iff [OF aw lt] by (auto simp: area_pages_def)
  let ?v = "put_all [a] (reserve_mmap_range vs ?s ?e)"
  from r no lt have vs': "vs' = (if vm_is_user a
      then ?v\<lparr>vs_user_area_count := vs_user_area_count ?v + 1,
              vs_user_page_count := vs_user_page_count ?v + area_page_count a\<rparr> else ?v)"
    by (auto simp: insert_vma_def Let_def split: if_splits sum.splits)
  have p: "areas_wf (vs_vmas (reserve_mmap_range vs ?s ?e))" "rmaps_ok (reserve_mmap_range vs ?s ?e)"
    "pieces_ok [a]" "pieces_pages [a] \<inter> vma_pages (vs_vmas (reserve_mmap_range vs ?s ?e)) = {}"
    using aw rm wf dis by simp_all
  note f = put_all_facts [OF p refl]
  have au: "vs_vmas vs' = vs_vmas ?v" "vs_holes vs' = vs_holes ?v" "rmaps_ok vs' = rmaps_ok ?v"
    "vs_user_area_count vs' = vs_user_area_count ?v + of_bool (vm_is_user a)"
    "vs_user_page_count vs' = vs_user_page_count ?v + user_size a"
    by (simp_all add: vs' rmaps_ok_def user_size_def)
  have "vs_inv vs'"
    using f inv mmap_pool.reserve_wf [OF hw] mmap_pool.reserve_pages [OF hw] unfolding vs_inv_def au
    by (auto simp: area_pages_def)
  moreover have "page_view (vs_vmas vs') = pieces_view [a] (page_view ?m)" using f by (simp add: au)
  ultimately show ?thesis using dis by (auto simp: pieces_view_def vm_contains_iff fun_eq_iff)
qed

lemma insert_vma_error:
  assumes "insert_vma env vs a = (Inl err, vs')"
  shows "vs' = vs"
  using assms by (auto simp: insert_vma_def Let_def split: if_splits sum.splits)

lemma insert_vma_ok_iff:
  assumes inv: "vs_inv vs" and wf: "vma_wf a" and fit: "vs_user_area_count vs < USIZE_MAX"
  shows "fst (insert_vma env vs a) = Inr () \<longleftrightarrow>
    area_pages a \<inter> vma_pages (vs_vmas vs) = {} \<and>
    vs_user_area_count vs + 1 \<le> saturating_add (env_max_map_count env) 1"
proof -
  have lt: "vm_start a < vm_end a" using wf by (simp add: vma_wf_def)
  have aw: "areas_wf (vs_vmas vs)" using inv by (simp add: vs_inv_def)
  have ov: "has_overlap vs (vm_start a) (vm_end a) \<longleftrightarrow> area_pages a \<inter> vma_pages (vs_vmas vs) \<noteq> {}"
    using has_overlap_iff [OF aw lt] by (auto simp: area_pages_def)
  have ca: "checked_add (vs_user_area_count vs) 1 = Some (vs_user_area_count vs + 1)"
    using fit by (simp add: checked_add_def)
  show ?thesis
    using lt unfolding insert_vma_def Let_def ov ensure_can_add_def ca by auto
qed

text \<open>\<open>take_vma\<close>, \<open>untrack_area\<close> and \<open>release_mmap_range\<close> in sequence.\<close>

lemma drop_area_facts:
  assumes inv: "vs_inv vs" and t: "take_vma vs k = Inr (a, vs1)"
    and vs': "vs' = release_mmap_range (untrack_area vs1 a) (vm_start a) (vm_end a)"
  shows "vs_inv vs'" and "vs_owner vs' = vs_owner vs"
    and "vma_pages (vs_vmas vs') = vma_pages (vs_vmas vs) - area_pages a"
    and "page_view (vs_vmas vs') p = (if p \<in> area_pages a then None else page_view (vs_vmas vs) p)"
    and "vma_wf a" and "(k, a) \<in> set (vs_vmas vs)" and "vs_vmas vs' = bt_remove k (vs_vmas vs)"
proof -
  let ?m = "vs_vmas vs"
  note tf = take_vma_facts [OF t]
  have wf: "areas_wf ?m" and hw: "holes_wf (vs_holes vs)" and rm: "rmaps_ok vs" using inv by (simp_all add: vs_inv_def)
  have bw: "bt_wf ?m" using wf by simp
  show a: "(k, a) \<in> set ?m" using tf(1) bt_get_iff [OF bw] by blast
  show "vma_wf a" by (rule areas_wf_entry(2) [OF wf a])
  show "vs_vmas vs' = bt_remove k (vs_vmas vs)" using tf(2) by (simp add: vs')
  note r = areas_wf_remove [OF wf a]
  show "vs_owner vs' = vs_owner vs" "vma_pages (vs_vmas vs') = vma_pages (vs_vmas vs) - area_pages a"
    "page_view (vs_vmas vs') p = (if p \<in> area_pages a then None else page_view (vs_vmas vs) p)"
    using tf r page_view_remove [OF wf a] by (simp_all add: vs')
  have "hole_pages (release_holes (vm_start a) (vm_end a) (vs_holes vs)) = arena - (vma_pages ?m - area_pages a)"
    using mmap_pool.release_pages [OF hw] inv area_pages_subset [OF a]
    by (auto simp: vs_inv_def area_pages_def)
  then show "vs_inv vs'"
    using r tf take_vma_rmaps_ok [OF rm t] mmap_pool.release_wf [OF hw] inv
      user_counts_remove [OF bw tf(1)]
    unfolding vs_inv_def vs' by simp
qed

lemma vs_new_inv: "vs_inv vs_new"
proof -
  have "holes_wf [mmap_bounds] \<and> hole_pages [mmap_bounds] = arena"
    by (auto simp: holes_wf_def hole_pages_def mmap_bounds_def arena_def arena_lo_def arena_hi_def va_floor_def
        MMAP_BASE_def MMAP_END_def PAGE_SIZE_def)
  then show ?thesis
    by (simp add: vs_inv_def vs_new_def areas_wf_def vma_pages_def user_areas_def user_pages_def rmaps_ok_def
        bt_get_def bt_sum_def)
qed

end
