(* ===== verification/Unmap.thy ===== *)
theory Unmap
  imports VmaSetInv
begin

text \<open>
  Removing pages from an address space, over any page table that keeps the laws of the locale
  \<open>page_table\<close>: the loops of \<open>unmap\<close>, \<open>discard_range\<close> and \<open>unmap_range\<close> end without a panic,
  remove every translation of their range, hand exactly the frames that were mapped there to
  the gather, and have every removed page covered by the recorded flush range.
\<close>

text \<open>The translations of the area's pages lead to the frames the area holds for them.\<close>

definition ptes_ok :: "(vpn \<Rightarrow> (ppn \<times> MapPermission) option) \<Rightarrow> Vma \<Rightarrow> bool" where
  "ptes_ok w a \<longleftrightarrow> (\<forall>v \<in> area_pages a. \<forall>p perm. w v = Some (p, perm) \<longrightarrow> page_frame (vma_inner a) v = InMemory p)"

text \<open>The pages of a range that are mapped, and the frames behind them.\<close>

definition mapped_in :: "(vpn \<Rightarrow> (ppn \<times> MapPermission) option) \<Rightarrow> vpn \<Rightarrow> vpn \<Rightarrow> vpn list" where
  "mapped_in w s e = filter (\<lambda>v. w v \<noteq> None) [s..<e]"

definition mapped_frames :: "(vpn \<Rightarrow> (ppn \<times> MapPermission) option) \<Rightarrow> vpn \<Rightarrow> vpn \<Rightarrow> ppn list" where
  "mapped_frames w s e = map (\<lambda>v. fst (the (w v))) (mapped_in w s e)"

lemma mapped_frames_empty [simp]: "e \<le> s \<Longrightarrow> mapped_frames w s e = []"
  by (simp add: mapped_frames_def mapped_in_def)

lemma mapped_frames_split:
  "s \<le> c \<Longrightarrow> c \<le> e \<Longrightarrow> mapped_frames w s e = mapped_frames w s c @ mapped_frames w c e"
  using upt_add_eq_append [of s c "e - c"] by (simp add: mapped_frames_def mapped_in_def)

lemma mapped_frames_none: "(\<And>v. s \<le> v \<Longrightarrow> v < e \<Longrightarrow> w v = None) \<Longrightarrow> mapped_frames w s e = []"
  by (simp add: mapped_frames_def mapped_in_def)

lemma mapped_frames_cong:
  "(\<And>v. s \<le> v \<Longrightarrow> v < e \<Longrightarrow> w v = w' v) \<Longrightarrow> mapped_frames w s e = mapped_frames w' s e"
  by (auto simp: mapped_frames_def mapped_in_def intro!: map_cong filter_cong)

lemma mapped_frames_one: "mapped_frames w v (Suc v) = (case w v of None \<Rightarrow> [] | Some (p, _) \<Rightarrow> [p])"
  by (auto simp: mapped_frames_def mapped_in_def split: option.splits)

lemma note_file_pte_unmapped_fields [simp]:
  "um_page_table (note_file_pte_unmapped env a m v) = um_page_table m"
  "um_gather (note_file_pte_unmapped env a m v) = um_gather m"
  "um_free_frames (note_file_pte_unmapped env a m v) = um_free_frames m"
  "um_mem (note_file_pte_unmapped env a m v) = um_mem m"
  by (auto simp: note_file_pte_unmapped_def split: option.splits sum.splits)

section \<open>What removing a range does to the mapper\<close>

text \<open>
  \<open>evicted w g s e w' g'\<close>: the translations \<open>w\<close> become \<open>w'\<close> and the gather \<open>g\<close> becomes \<open>g'\<close>
  when the pages of a range are removed.
\<close>

definition evicted ::
  "(vpn \<Rightarrow> (ppn \<times> MapPermission) option) \<Rightarrow> MmuGather \<Rightarrow> vpn \<Rightarrow> vpn \<Rightarrow>
     (vpn \<Rightarrow> (ppn \<times> MapPermission) option) \<Rightarrow> MmuGather \<Rightarrow> bool" where
  "evicted w g s e w' g' \<longleftrightarrow>
     w' = (\<lambda>v. if s \<le> v \<and> v < e then None else w v) \<and>
     mg_retired g' = mg_retired g @ mapped_frames w s e \<and>
     mg_active_at_begin g' = mg_active_at_begin g \<and> mg_events g' = mg_events g \<and>
     (\<forall>v. covers_vpn (mg_range g) v \<longrightarrow> covers_vpn (mg_range g') v) \<and>
     (\<forall>v. s \<le> v \<and> v < e \<and> w v \<noteq> None \<longrightarrow> covers_vpn (mg_range g') v)"

lemma evicted_none:
  assumes "\<And>v. s \<le> v \<Longrightarrow> v < e \<Longrightarrow> w v = None"
  shows "evicted w g s e w g"
  using assms by (auto simp: evicted_def mapped_frames_none)

lemma evicted_trans:
  assumes "s \<le> c" and "c \<le> e" and "evicted w g s c w1 g1" and "evicted w1 g1 c e w2 g2"
  shows "evicted w g s e w2 g2"
proof -
  have "mapped_frames w1 c e = mapped_frames w c e"
    using assms(3) by (intro mapped_frames_cong) (auto simp: evicted_def)
  moreover have "covers_vpn (mg_range g2) v" if "s \<le> v" "v < e" "w v \<noteq> None" for v
    using assms that by (cases "v < c") (auto simp: evicted_def)
  ultimately show ?thesis
    using assms mapped_frames_split [OF assms(1,2), of w] by (simp add: evicted_def fun_eq_iff)
qed

text \<open>The first resident page of an ordered range.\<close>

definition first_in_memory :: "VmPageStore \<Rightarrow> vpn \<Rightarrow> vpn \<Rightarrow> vpn option" where
  "first_in_memory s a b = map_option fst (find (is_in_memory \<circ> snd) (range_frames s a b))"

lemma first_in_memory_eq: "a \<le> b \<Longrightarrow> first_in_memory_vpn_in_range s a b = Some (first_in_memory s a b)"
  by (simp add: first_in_memory_vpn_in_range_def first_in_memory_def)

lemma first_in_memory_None:
  assumes bw: "bt_wf (st_frames s)" and n: "first_in_memory s a b = None" and v: "a \<le> v" "v < b"
  shows "\<not> is_in_memory (page_frame s v)"
proof (cases "bt_get (st_frames s) v")
  case (Some f)
  then have "(v, f) \<in> set (range_frames s a b)"
    using v bt_get_iff [OF bw] by (auto simp: range_frames_def)
  then have "\<not> is_in_memory f" using n by (auto simp: first_in_memory_def find_None_iff)
  with Some show ?thesis by (simp add: page_frame_def)
qed (simp add: page_frame_def)

lemma first_in_memory_Some:
  assumes bw: "bt_wf (st_frames s)" and f: "first_in_memory s a b = Some v"
  shows "a \<le> v" and "v < b" and "is_in_memory (page_frame s v)"
    and "\<And>u. a \<le> u \<Longrightarrow> u < v \<Longrightarrow> \<not> is_in_memory (page_frame s u)"
proof -
  let ?l = "range_frames s a b"
  from f obtain fr where "find (is_in_memory \<circ> snd) ?l = Some (v, fr)" by (auto simp: first_in_memory_def)
  then obtain i where i: "i < length ?l" "?l ! i = (v, fr)" "is_in_memory fr"
    "\<And>j. j < i \<Longrightarrow> \<not> is_in_memory (snd (?l ! j))"
    unfolding find_Some_iff comp_def by (metis snd_conv)
  then have vin: "(v, fr) \<in> set ?l" by (metis nth_mem)
  then show "a \<le> v" "v < b" by (auto simp: range_frames_def)
  have get: "bt_get (st_frames s) v = Some fr" using vin bt_get_iff [OF bw] by (auto simp: range_frames_def)
  then show "is_in_memory (page_frame s v)" using i(3) by (simp add: page_frame_def)
  fix u assume u: "a \<le> u" "u < v"
  show "\<not> is_in_memory (page_frame s u)"
  proof (cases "bt_get (st_frames s) u")
    case (Some g)
    then have "(u, g) \<in> set ?l" using u \<open>v < b\<close> bt_get_iff [OF bw] by (auto simp: range_frames_def)
    then obtain j where j: "j < length ?l" "?l ! j = (u, g)" by (auto simp: in_set_conv_nth)
    have "sorted_wrt (\<lambda>x y. fst x < fst y) ?l"
      using bw by (simp add: bt_wf_def range_frames_def sorted_wrt_filter sorted_wrt_map)
    then have "i < j \<Longrightarrow> v < u" using sorted_wrt_nth_less [of "\<lambda>x y. fst x < fst y" ?l i j] i(2) j by simp
    then have "j < i" using i(2) j(2) u(2) by (cases i j rule: linorder_cases) auto
    with i(4) j Some show ?thesis by (fastforce simp: page_frame_def)
  qed (simp add: page_frame_def)
qed

context page_table
begin

lemma unmap_if_mapped:
  assumes "pt_inv (um_page_table m)" and "user_vpn v"
  shows "\<exists>m'. unmap_user_page_if_mapped ops m v = Some (Inr (view (um_page_table m) v \<noteq> None), m') \<and>
    pt_inv (um_page_table m') \<and> view (um_page_table m') = (view (um_page_table m))(v := None) \<and>
    um_gather m' = (if view (um_page_table m) v \<noteq> None then record_change (um_gather m) v else um_gather m)"
proof (cases "view (um_page_table m) v")
  case None
  then show ?thesis using assms
    by (simp add: unmap_user_page_if_mapped_def um_is_mapped_def is_mapped_view fun_upd_idem)
next
  case (Some x)
  then obtain t' where "pt_unmap_no_flush ops (um_page_table m) v = Some t'" "pt_inv t'"
    "view t' = (view (um_page_table m))(v := None)"
    using unmap_view [OF assms] by auto
  with Some assms show ?thesis
    by (simp add: unmap_user_page_if_mapped_def um_is_mapped_def is_mapped_view)
qed

lemma evict_page_facts:
  assumes wf: "store_wf (vma_inner a)" and pt: "pt_inv (um_page_table m)" and u: "user_vpn v"
    and v: "v \<in> area_pages a" and mem: "page_frame (vma_inner a) v = InMemory p"
    and ok: "ptes_ok (view (um_page_table m)) a" and res: "\<And>n. env_reserve env n"
  shows "\<exists>s m'. evict_page env ops a m v = Some (Inr (), a\<lparr>vma_inner := s\<rparr>, m') \<and>
    pt_inv (um_page_table m') \<and> store_wf s \<and> st_range s = st_range (vma_inner a) \<and>
    page_frame s = (page_frame (vma_inner a))(v := Unallocated) \<and>
    evicted (view (um_page_table m)) (um_gather m) v (Suc v) (view (um_page_table m')) (um_gather m')"
proof -
  let ?w = "view (um_page_table m)"
  obtain r s where rs: "remove_in_memory (vma_inner a) v = (r, s)" by fastforce
  note f = remove_in_memory_facts [OF wf rs]
  have r: "r = Some p"
    using f(3) v mem by (simp add: contains_vpn_def area_pages_def vm_start_def vm_end_def)
  have s: "store_wf s" "st_range s = st_range (vma_inner a)"
    "page_frame s = (page_frame (vma_inner a))(v := Unallocated)"
    using f r mem by auto
  obtain m1 where m1: "unmap_user_page_if_mapped ops m v = Some (Inr (?w v \<noteq> None), m1)"
    "pt_inv (um_page_table m1)" "view (um_page_table m1) = ?w(v := None)"
    "um_gather m1 = (if ?w v \<noteq> None then record_change (um_gather m) v else um_gather m)"
    using unmap_if_mapped [OF pt u] by blast
  show ?thesis
  proof (cases "?w v")
    case None
    then have ev: "evicted ?w (um_gather m) v (Suc v) (view (um_page_table m1)) (um_gather m1)"
      using m1(3,4) evicted_none [of v "Suc v" ?w "um_gather m"] by (simp add: fun_upd_idem less_Suc_eq_le)
    with m1 None rs r s show ?thesis
      by (intro exI [of _ s] exI [of _ m1]) (simp add: evict_page_def)
  next
    case (Some x)
    then obtain perm where wv: "?w v = Some (p, perm)" using ok v mem by (cases x) (auto simp: ptes_ok_def)
    let ?m2 = "note_file_pte_unmapped env a m1 v"
    let ?g = "record_change (um_gather m) v"
    have g: "retire_frame env (um_gather ?m2) p = Some (?g\<lparr>mg_retired := mg_retired ?g @ [p]\<rparr>)"
      using retire_frame_defined [OF record_change_not_None, of env "um_gather m" v p] res m1(4) wv by simp
    have ev: "evicted ?w (um_gather m) v (Suc v) (view (um_page_table m1)) (?g\<lparr>mg_retired := mg_retired ?g @ [p]\<rparr>)"
      using m1(3) wv record_change_covers [of "um_gather m" v] record_change_mono
      by (auto simp: evicted_def mapped_frames_one fun_eq_iff less_Suc_eq_le dest!: antisym)
    with m1 wv rs r s g show ?thesis
      by (intro exI [of _ s] exI [of _ "?m2\<lparr>um_gather := ?g\<lparr>mg_retired := mg_retired ?g @ [p]\<rparr>\<rparr>"])
        (simp add: evict_page_def um_retire_frame_def)
  qed
qed

lemma evict_loop_facts:
  assumes "store_wf (vma_inner a)" and "pt_inv (um_page_table m)" and "\<forall>v \<in> area_pages a. user_vpn v"
    and "ptes_ok (view (um_page_table m)) a" and "\<forall>n. env_reserve env n"
    and "vm_start a \<le> c" and "c \<le> e" and "e \<le> vm_end a" and "e \<le> USIZE_MAX"
  shows "\<exists>s m'. evict_loop env ops e c a m = Some (Inr (), a\<lparr>vma_inner := s\<rparr>, m') \<and>
    pt_inv (um_page_table m') \<and> store_wf s \<and> st_range s = st_range (vma_inner a) \<and>
    page_frame s = (\<lambda>v. if c \<le> v \<and> v < e \<and> is_in_memory (page_frame (vma_inner a) v)
                        then Unallocated else page_frame (vma_inner a) v) \<and>
    evicted (view (um_page_table m)) (um_gather m) c e (view (um_page_table m')) (um_gather m')"
  using assms
proof (induction "e - c" arbitrary: c a m rule: less_induct)
  case less
  let ?s = "vma_inner a" and ?w = "view (um_page_table m)"
  have bw: "bt_wf (st_frames ?s)" using less.prems(1) by (simp add: store_wf_def)
  have rg: "v \<in> area_pages a" if "c \<le> v" "v < e" for v using that less.prems by (simp add: area_pages_def)
  show ?case
  proof (cases "first_in_memory ?s c e")
    case None
    have nm: "\<not> is_in_memory (page_frame ?s v)" if "c \<le> v" "v < e" for v
      using first_in_memory_None [OF bw None that] .
    have "?w v = None" if "c \<le> v" "v < e" for v
      using nm [OF that] less.prems(4) rg [OF that] by (cases "?w v") (auto simp: ptes_ok_def)
    then have ev: "evicted ?w (um_gather m) c e ?w (um_gather m)" by (rule evicted_none)
    have "evict_loop env ops e c a m = Some (Inr (), a, m)"
      using None less.prems(7) by (subst evict_loop.simps) (simp add: first_in_memory_eq)
    then show ?thesis using ev nm less.prems(1,2)
      by (intro exI [of _ ?s] exI [of _ m]) (auto simp: fun_eq_iff)
  next
    case (Some v)
    note fm = first_in_memory_Some [OF bw Some]
    from fm(3) obtain p where mem: "page_frame ?s v = InMemory p" by (cases "page_frame ?s v") auto
    have va: "v \<in> area_pages a" by (rule rg [OF fm(1,2)])
    have uv: "user_vpn v" using less.prems(3) va by blast
    obtain s1 m1 where ep: "evict_page env ops a m v = Some (Inr (), a\<lparr>vma_inner := s1\<rparr>, m1)"
      and p1: "pt_inv (um_page_table m1)" and s1: "store_wf s1" "st_range s1 = st_range ?s"
        "page_frame s1 = (page_frame ?s)(v := Unallocated)"
      and ev1: "evicted ?w (um_gather m) v (Suc v) (view (um_page_table m1)) (um_gather m1)"
      using evict_page_facts [OF less.prems(1,2) uv va mem less.prems(4)] less.prems(5) by blast
    let ?a = "a\<lparr>vma_inner := s1\<rparr>"
    have sa: "vm_start ?a = vm_start a" "vm_end ?a = vm_end a" "area_pages ?a = area_pages a"
      using s1(2) by (simp_all add: vm_start_def vm_end_def area_pages_def st_start_def st_end_def)
    have ok1: "ptes_ok (view (um_page_table m1)) ?a"
      using less.prems(4) ev1 s1(3) unfolding ptes_ok_def sa(3) by (auto simp: evicted_def split: if_splits)
    have "saturating_add v 1 = Suc v" using fm(2) less.prems(9) by (simp add: saturating_add_def)
    then have step: "evict_loop env ops e c a m = evict_loop env ops e (Suc v) ?a m1"
      using Some ep less.prems(7) by (subst evict_loop.simps) (simp add: first_in_memory_eq)
    have lt: "e - Suc v < e - c" using fm(1,2) by simp
    have inner: "vma_inner ?a = s1" by simp
    have c2: "vm_start ?a \<le> Suc v" "Suc v \<le> e" "e \<le> vm_end ?a"
      using sa fm(1,2) less.prems(6,8) by simp_all
    have a2: "store_wf (vma_inner ?a)" "\<forall>v \<in> area_pages ?a. user_vpn v" using s1(1) sa(3) less.prems(3) by simp_all
    obtain s2 m2 where r2: "evict_loop env ops e (Suc v) ?a m1 = Some (Inr (), ?a\<lparr>vma_inner := s2\<rparr>, m2)"
      "pt_inv (um_page_table m2)" "store_wf s2" "st_range s2 = st_range s1"
      "page_frame s2 = (\<lambda>u. if Suc v \<le> u \<and> u < e \<and> is_in_memory (page_frame s1 u)
                            then Unallocated else page_frame s1 u)"
      "evicted (view (um_page_table m1)) (um_gather m1) (Suc v) e (view (um_page_table m2)) (um_gather m2)"
      using less.hyps [OF lt a2(1) p1 a2(2) ok1 less.prems(5) c2 less.prems(9), unfolded inner] by blast
    have "?w u = None" if "c \<le> u" "u < v" for u
      using fm(4) [OF that] less.prems(4) rg [of u] that fm(2) by (cases "?w u") (auto simp: ptes_ok_def)
    then have ev0: "evicted ?w (um_gather m) c v ?w (um_gather m)" by (rule evicted_none)
    have ev: "evicted ?w (um_gather m) c e (view (um_page_table m2)) (um_gather m2)"
      using evicted_trans [OF fm(1) _ ev0 evicted_trans [OF _ _ ev1 r2(6)]] fm(2) by simp
    have "page_frame s2 = (\<lambda>u. if c \<le> u \<and> u < e \<and> is_in_memory (page_frame ?s u)
                            then Unallocated else page_frame ?s u)"
      using r2(5) s1(3) fm by (force simp: fun_eq_iff not_less_eq_eq)
    with r2 ev s1 step show ?thesis by (intro exI [of _ s2] exI [of _ m2]) simp
  qed
qed

end

section \<open>Removing a range of an address space\<close>

text \<open>
  The translations of mapped pages lead to the frames the areas hold, and grant no more than
  the permission of the area.
\<close>

definition mm_consistent ::
  "(vpn \<Rightarrow> (ppn \<times> MapPermission) option) \<Rightarrow> (vpn, Vma) btree \<Rightarrow> bool" where
  "mm_consistent w m \<longleftrightarrow>
     (\<forall>v x p perm. page_view m v = Some x \<longrightarrow> w v = Some (p, perm) \<longrightarrow>
        pa_frame x = InMemory p \<and> flags_contains (pa_perm x) perm)"

text \<open>
  What every operation keeps: the invariants of the areas and of the page table, that areas
  lie in the user part of the address space, and that both agree.
\<close>

definition mm_ok ::
  "('pt \<Rightarrow> bool) \<Rightarrow> (vpn \<Rightarrow> bool) \<Rightarrow> ('pt \<Rightarrow> vpn \<Rightarrow> (ppn \<times> MapPermission) option) \<Rightarrow>
     VmaSet \<Rightarrow> 'pt UserMapper \<Rightarrow> bool" where
  "mm_ok pt_inv user_vpn view vs m \<longleftrightarrow>
     vs_inv vs \<and> pt_inv (um_page_table m) \<and> (\<forall>v \<in> vma_pages (vs_vmas vs). user_vpn v) \<and>
     mm_consistent (view (um_page_table m)) (vs_vmas vs)"

lemma mm_consistent_ptes_ok:
  assumes "areas_wf m" and "mm_consistent w m" and "(k, a) \<in> set m"
  shows "ptes_ok w a"
  using assms page_view_Some [OF assms(1,3)] unfolding ptes_ok_def mm_consistent_def
  by (fastforce simp: area_view_def)

text \<open>The effect of removing the pages \<open>R\<close> on translations and gather, whatever the order.\<close>

definition removed ::
  "(vpn \<Rightarrow> (ppn \<times> MapPermission) option) \<Rightarrow> MmuGather \<Rightarrow> vpn set \<Rightarrow>
     (vpn \<Rightarrow> (ppn \<times> MapPermission) option) \<Rightarrow> MmuGather \<Rightarrow> bool" where
  "removed w g R w' g' \<longleftrightarrow>
     w' = (\<lambda>v. if v \<in> R then None else w v) \<and>
     mset (mg_retired g') = mset (mg_retired g) + image_mset (\<lambda>v. fst (the (w v))) (mset_set {v \<in> R. w v \<noteq> None}) \<and>
     mg_active_at_begin g' = mg_active_at_begin g \<and> mg_events g' = mg_events g \<and>
     (\<forall>v. covers_vpn (mg_range g) v \<longrightarrow> covers_vpn (mg_range g') v) \<and>
     (\<forall>v \<in> R. w v \<noteq> None \<longrightarrow> covers_vpn (mg_range g') v)"

lemma evicted_removed:
  assumes "evicted w g s e w' g'"
  shows "removed w g {s..<e} w' g'"
proof -
  have "mset (mapped_in w s e) = mset_set {v \<in> {s..<e}. w v \<noteq> None}"
    unfolding mapped_in_def by (subst mset_set_set [symmetric]) (auto intro: arg_cong [of _ _ mset_set])
  then have "mset (mapped_frames w s e) = image_mset (\<lambda>v. fst (the (w v))) (mset_set {v \<in> {s..<e}. w v \<noteq> None})"
    by (simp add: mapped_frames_def)
  with assms show ?thesis by (auto simp: evicted_def removed_def)
qed

lemma removed_none: "removed w g {} w g"
  by (simp add: removed_def)

lemma removed_trans:
  assumes dis: "R \<inter> S = {}" and fin: "finite R" "finite S"
    and a: "removed w g R w1 g1" and b: "removed w1 g1 S w2 g2"
  shows "removed w g (R \<union> S) w2 g2"
proof -
  have w1: "w1 = (\<lambda>v. if v \<in> R then None else w v)" using a by (simp add: removed_def)
  have same: "w1 v = w v" if "v \<in> S" for v using that dis by (auto simp: w1)
  have U: "{v \<in> R \<union> S. w v \<noteq> None} = {v \<in> R. w v \<noteq> None} \<union> {v \<in> S. w v \<noteq> None}" by auto
  have "image_mset (\<lambda>v. fst (the (w1 v))) (mset_set {v \<in> S. w1 v \<noteq> None}) =
    image_mset (\<lambda>v. fst (the (w v))) (mset_set {v \<in> S. w v \<noteq> None})"
  proof -
    have "{v \<in> S. w1 v \<noteq> None} = {v \<in> S. w v \<noteq> None}" using same by auto
    then show ?thesis using same fin by (auto intro!: image_mset_cong)
  qed
  moreover have "mset_set {v \<in> R \<union> S. w v \<noteq> None} = mset_set {v \<in> R. w v \<noteq> None} + mset_set {v \<in> S. w v \<noteq> None}"
    unfolding U using dis fin by (intro mset_set_Union) auto
  moreover have "covers_vpn (mg_range g2) v" if "v \<in> R \<union> S" "w v \<noteq> None" for v
    using a b that same by (auto simp: removed_def)
  ultimately show ?thesis using a b by (auto simp: removed_def fun_eq_iff)
qed

text \<open>The effect on the whole address space.\<close>

definition unmapped ::
  "(vpn \<Rightarrow> (ppn \<times> MapPermission) option) \<Rightarrow> MmuGather \<Rightarrow> VmaSet \<Rightarrow> vpn set \<Rightarrow>
     (vpn \<Rightarrow> (ppn \<times> MapPermission) option) \<Rightarrow> MmuGather \<Rightarrow> VmaSet \<Rightarrow> bool" where
  "unmapped w g vs R w' g' vs' \<longleftrightarrow>
     vs_inv vs' \<and> vs_owner vs' = vs_owner vs \<and>
     page_view (vs_vmas vs') = (\<lambda>v. if v \<in> R then None else page_view (vs_vmas vs) v) \<and>
     removed w g R w' g'"

lemma vma_pages_view: "vma_pages m = {v. page_view m v \<noteq> None}"
  by (simp only: page_view_None_iff) simp

lemma unmapped_pages: "unmapped w g vs R w' g' vs' \<Longrightarrow> vma_pages (vs_vmas vs') = vma_pages (vs_vmas vs) - R"
  unfolding vma_pages_view by (auto simp: unmapped_def split: if_splits)

lemma unmapped_consistent:
  "unmapped w g vs R w' g' vs' \<Longrightarrow> mm_consistent w (vs_vmas vs) \<Longrightarrow> mm_consistent w' (vs_vmas vs')"
  by (auto simp: unmapped_def removed_def mm_consistent_def split: if_splits)

lemma unmapped_none: "vs_inv vs \<Longrightarrow> unmapped w g vs {} w g vs"
  by (simp add: unmapped_def removed_none)

lemma unmapped_trans:
  assumes "R \<inter> S = {}" and "finite R" and "finite S"
    and "unmapped w g vs R w1 g1 vs1" and "unmapped w1 g1 vs1 S w2 g2 vs2"
  shows "unmapped w g vs (R \<union> S) w2 g2 vs2"
  using assms removed_trans [of R S w g w1 g1 w2 g2] by (auto simp: unmapped_def fun_eq_iff)

lemma unmap_loop_nothing:
  assumes inv: "vs_inv vs" and se: "s < e" and none: "vma_pages (vs_vmas vs) \<inter> {s..<e} = {}"
  shows "unmap_loop env ops s e found vs m = Some (Inr found, vs, m)"
proof (cases "first_overlap_key vs s e")
  case None
  then show ?thesis by (subst unmap_loop.simps) simp
next
  case (Some k)
  have wf: "areas_wf (vs_vmas vs)" using inv by (simp add: vs_inv_def)
  from first_overlap_key_Some [OF wf se Some] none show ?thesis
    by (metis area_pages_subset disjoint_iff subset_iff)
qed

lemma first_overlap_key_exists:
  assumes wf: "areas_wf (vs_vmas vs)" and se: "s < e" and ne: "vma_pages (vs_vmas vs) \<inter> {s..<e} \<noteq> {}"
  obtains k a where "first_overlap_key vs s e = Some k" and "(k, a) \<in> set (vs_vmas vs)"
    and "bt_get (vs_vmas vs) k = Some a" and "area_pages a \<inter> {s..<e} \<noteq> {}"
  using first_overlap_key_None [OF wf se] first_overlap_key_Some [OF wf se] ne by (metis not_None_eq)

text \<open>Why the loop can stop: a page that is not a user page, or no room for a split.\<close>

definition unmap_failed :: "mm_env \<Rightarrow> VmaSet \<Rightarrow> vpn \<Rightarrow> vpn \<Rightarrow> errno \<Rightarrow> bool" where
  "unmap_failed env vs s e err \<longleftrightarrow>
     (err = EINVAL \<and> (\<exists>v \<in> {s..<e}. \<exists>x. page_view (vs_vmas vs) v = Some x \<and> \<not> flags_contains (pa_perm x) PERM_U)) \<or>
     (err = ENOMEM \<and> \<not> map_room env vs 2)"

lemma split_extra_le: "split_extra a s e \<le> 2"
  by (simp add: split_extra_def of_bool_def)

lemma unmap_area_fails:
  assumes inv: "vs_inv vs" and a: "(k, a) \<in> set (vs_vmas vs)" "bt_get (vs_vmas vs) k = Some a"
    "area_pages a \<inter> {s..<e} \<noteq> {}"
    and f: "\<not> (vm_is_user a \<and> map_room env vs (split_extra a (max s (vm_start a)) (min e (vm_end a))))"
  shows "\<exists>err. unmap_area env ops s e k vs m = Some (Inl err, vs, m) \<and> unmap_failed env vs s e err"
proof (cases "vm_is_user a")
  case False
  have wf: "areas_wf (vs_vmas vs)" using inv by (simp add: vs_inv_def)
  obtain v where v: "v \<in> area_pages a" "v \<in> {s..<e}" using a(3) by blast
  have "\<not> flags_contains (pa_perm (area_view a v)) PERM_U" using False by (simp add: area_view_def vm_is_user_def)
  with page_view_Some [OF wf a(1) v(1)] v(2) have "unmap_failed env vs s e EINVAL" by (auto simp: unmap_failed_def)
  with False show ?thesis by (simp add: unmap_area_def a(2))
next
  case True
  let ?s = "max s (vm_start a)" and ?e = "min e (vm_end a)"
  have mx: "(if s > vm_start a then s else vm_start a) = ?s" "(if e < vm_end a then e else vm_end a) = ?e" by auto
  have se: "vm_start a \<le> ?s" "?s < ?e" "?e \<le> vm_end a" using a(3) by (auto simp: area_pages_def)
  have nr: "\<not> map_room env vs (split_extra a ?s ?e)" using f True by simp
  then have "\<not> map_room env vs 2"
    using map_room_mono [of env vs 2 "split_extra a ?s ?e"] split_extra_le [of a ?s ?e] by blast
  moreover from split_for_range_no_room [OF a(2) se nr]
  have "unmap_area env ops s e k vs m = Some (Inl ENOMEM, vs, m)"
    using True unfolding unmap_area_def a(2) option.case Let_def mx by simp
  ultimately show ?thesis by (auto simp: unmap_failed_def)
qed

lemma unmap_failed_step:
  assumes un: "unmapped w g vs (area_pages a \<inter> {s..<e}) w' g' vs1"
    and cnt: "vs_user_area_count vs1 + 1 =
      vs_user_area_count vs + split_extra a (max s (vm_start a)) (min e (vm_end a))"
    and ne: "vma_pages (vs_vmas vs1) \<inter> {s..<e} \<noteq> {}" and f: "unmap_failed env vs1 s e err"
  shows "unmap_failed env vs s e err"
proof -
  have "split_extra a (max s (vm_start a)) (min e (vm_end a)) \<le> 1"
  proof (rule ccontr)
    assume "\<not> ?thesis"
    then have "{s..<e} \<subseteq> area_pages a" 
      by (auto simp: split_extra_def of_bool_def area_pages_def max_def min_def split: if_splits)
    with ne show False using unmapped_pages [OF un] by blast
  qed
  then have "map_room env vs 2 \<Longrightarrow> map_room env vs1 2" using cnt by (simp add: map_room_def)
  moreover have "page_view (vs_vmas vs) v = Some x" if "page_view (vs_vmas vs1) v = Some x" for v x
    using un that by (auto simp: unmapped_def split: if_splits)
  ultimately show ?thesis using f unfolding unmap_failed_def by blast
qed

lemma finite_vma_pages [simp]: "finite (vma_pages m)"
  by (auto simp: vma_pages_def area_pages_def)

context page_table
begin

lemma vma_unmap_facts:
  assumes "vma_wf a" and "pt_inv (um_page_table m)" and "\<forall>v \<in> area_pages a. user_vpn v"
    and "ptes_ok (view (um_page_table m)) a" and "\<forall>n. env_reserve env n"
  shows "\<exists>a' m'. vma_unmap env ops a m = Some (Inr (), a', m') \<and> pt_inv (um_page_table m') \<and>
    removed (view (um_page_table m)) (um_gather m) (area_pages a) (view (um_page_table m')) (um_gather m')"
proof -
  have a: "store_wf (vma_inner a)" "vm_start a \<le> vm_start a" "vm_start a \<le> vm_end a" "vm_end a \<le> vm_end a"
    "vm_end a \<le> USIZE_MAX"
    using assms(1) by (auto simp: vma_wf_def MAX_VPN_def USIZE_MAX_def)
  from evict_loop_facts [OF a(1) assms(2-5) a(2-5)] show ?thesis
    unfolding vma_unmap_def area_pages_def using evicted_removed by blast
qed

text \<open>One round of the loop of \<open>unmap_range\<close>.\<close>

lemma unmap_area_facts:
  assumes inv: "vs_inv vs" and pt: "pt_inv (um_page_table m)" and u: "\<forall>v \<in> vma_pages (vs_vmas vs). user_vpn v"
    and con: "mm_consistent (view (um_page_table m)) (vs_vmas vs)" and res: "\<forall>n. env_reserve env n"
    and a: "bt_get (vs_vmas vs) k = Some a" and user: "vm_is_user a"
    and ov: "area_pages a \<inter> {s..<e} \<noteq> {}" and room: "map_room env vs (split_extra a (max s (vm_start a)) (min e (vm_end a)))"
  shows "\<exists>vs' m'. unmap_area env ops s e k vs m = Some (Inr (), vs', m') \<and> pt_inv (um_page_table m') \<and>
    vs_user_area_count vs' + 1 = vs_user_area_count vs + split_extra a (max s (vm_start a)) (min e (vm_end a)) \<and>
    unmapped (view (um_page_table m)) (um_gather m) vs (area_pages a \<inter> {s..<e})
      (view (um_page_table m')) (um_gather m') vs'"
proof -
  let ?s = "max s (vm_start a)" and ?e = "min e (vm_end a)" and ?w = "view (um_page_table m)"
  let ?n = "split_extra a ?s ?e"
  have R: "area_pages a \<inter> {s..<e} = {?s..<?e}" by (auto simp: area_pages_def)
  have se: "vm_start a \<le> ?s" "?s < ?e" "?e \<le> vm_end a" using ov unfolding R by auto
  have mx: "(if s > vm_start a then s else vm_start a) = ?s" "(if e < vm_end a then e else vm_end a) = ?e" by auto
  obtain vs1 where sp: "split_for_range env vs k ?s ?e = (Inr ?s, vs1)" and sr: "split_result vs ?s ?e True ?n ?s vs1"
    using split_for_range_room [OF inv a se room] user by auto
  then obtain b where b: "bt_get (vs_vmas vs1) ?s = Some b" "vm_start b = ?s" "vm_end b = ?e" "vm_is_user b"
    and inv1: "vs_inv vs1" and pv1: "page_view (vs_vmas vs1) = page_view (vs_vmas vs)"
    and ow: "vs_owner vs1 = vs_owner vs" and cnt: "vs_user_area_count vs1 = vs_user_area_count vs + ?n"
    by (auto simp: split_result_def)
  obtain vs2 where t: "take_vma vs1 ?s = Inr (b, vs2)" using take_vma_defined [OF b(1)] by blast
  define vs' where "vs' = release_mmap_range (untrack_area vs2 b) (vm_start b) (vm_end b)"
  note d = drop_area_facts [OF inv1 t vs'_def]
  have wf1: "areas_wf (vs_vmas vs1)" using inv1 by (simp add: vs_inv_def)
  have con1: "mm_consistent ?w (vs_vmas vs1)" using con pv1 by (simp add: mm_consistent_def)
  have bp: "area_pages b = {?s..<?e}" using b by (simp add: area_pages_def)
  have pgs: "vma_pages (vs_vmas vs1) = vma_pages (vs_vmas vs)"
    using pv1 by (simp add: vma_pages_view)
  have ub: "\<forall>v \<in> area_pages b. user_vpn v" using u area_pages_subset [OF d(6)] pgs by blast
  from vma_unmap_facts [OF d(5) pt ub mm_consistent_ptes_ok [OF wf1 con1 d(6)] res] obtain a' m'
    where vu: "vma_unmap env ops b m = Some (Inr (), a', m')" and pt': "pt_inv (um_page_table m')"
      and rem: "removed ?w (um_gather m) (area_pages b) (view (um_page_table m')) (um_gather m')" by blast
  have ua: "unmap_area env ops s e k vs m = Some (Inr (), vs', m')"
    using user sp t vu unfolding unmap_area_def a option.case Let_def mx by (simp add: vs'_def)
  have cnt': "vs_user_area_count vs' + 1 = vs_user_area_count vs + ?n"
  proof -
    have bw: "bt_wf (vs_vmas vs1)" using wf1 by simp
    have "vs_user_area_count vs1 = user_areas (vs_vmas vs1)" "vs_user_area_count vs' = user_areas (vs_vmas vs')"
      using inv1 d(1) by (simp_all add: vs_inv_def)
    then show ?thesis using user_counts_remove(1) [OF bw b(1)] b(4) cnt d(7) by simp
  qed
  have "unmapped ?w (um_gather m) vs {?s..<?e} (view (um_page_table m')) (um_gather m') vs'"
    using d(1,2) d(4) rem ow pv1 unfolding unmapped_def bp by (simp add: fun_eq_iff)
  with ua pt' cnt' show ?thesis unfolding R by blast
qed


text \<open>
  The whole loop. It always ends; it fails only at an area that is not a user area, or when
  a split would exceed the limit on areas, and then the address space is intact but for the
  areas already removed.
\<close>

lemma unmap_loop_facts:
  assumes "vs_inv vs" and "pt_inv (um_page_table m)" and "\<forall>v \<in> vma_pages (vs_vmas vs). user_vpn v"
    and "mm_consistent (view (um_page_table m)) (vs_vmas vs)" and "\<forall>n. env_reserve env n" and "s < e"
  shows "\<exists>r R vs' m'. unmap_loop env ops s e found vs m = Some (r, vs', m') \<and> pt_inv (um_page_table m') \<and>
    R \<subseteq> vma_pages (vs_vmas vs) \<inter> {s..<e} \<and>
    unmapped (view (um_page_table m)) (um_gather m) vs R (view (um_page_table m')) (um_gather m') vs' \<and>
    (\<forall>b. r = Inr b \<longrightarrow> R = vma_pages (vs_vmas vs) \<inter> {s..<e} \<and> b = (found \<or> R \<noteq> {})) \<and>
    (\<forall>err. r = Inl err \<longrightarrow> unmap_failed env vs s e err)"
  using assms
proof (induction "card (vma_pages (vs_vmas vs) \<inter> {s..<e})" arbitrary: vs m found rule: less_induct)
  case less
  let ?w = "view (um_page_table m)" and ?P = "vma_pages (vs_vmas vs) \<inter> {s..<e}"
  have wf: "areas_wf (vs_vmas vs)" using less.prems(1) by (simp add: vs_inv_def)
  show ?case
  proof (cases "?P = {}")
    case True
    with unmap_loop_nothing [OF less.prems(1,6) True] show ?thesis
      using less.prems(2) unmapped_none [OF less.prems(1)] by fastforce
  next
    case False
    obtain k a where Some: "first_overlap_key vs s e = Some k" and a: "(k, a) \<in> set (vs_vmas vs)"
      "bt_get (vs_vmas vs) k = Some a" "area_pages a \<inter> {s..<e} \<noteq> {}"
      by (rule first_overlap_key_exists [OF wf less.prems(6) False])
    let ?n = "split_extra a (max s (vm_start a)) (min e (vm_end a))" and ?R = "area_pages a \<inter> {s..<e}"
    have RP: "?R \<subseteq> ?P" using area_pages_subset [OF a(1)] by blast
    show ?thesis
    proof (cases "vm_is_user a \<and> map_room env vs ?n")
      case False
      with unmap_area_fails [OF less.prems(1) a] obtain err
        where "unmap_area env ops s e k vs m = Some (Inl err, vs, m)" "unmap_failed env vs s e err" by blast
      moreover from this have "unmap_loop env ops s e found vs m = Some (Inl err, vs, m)"
        by (subst unmap_loop.simps) (simp add: Some)
      ultimately show ?thesis using less.prems(2) unmapped_none [OF less.prems(1)] by fastforce
    next
      case True
      obtain vs1 m1 where ua: "unmap_area env ops s e k vs m = Some (Inr (), vs1, m1)"
        and p1: "pt_inv (um_page_table m1)" and cnt: "vs_user_area_count vs1 + 1 = vs_user_area_count vs + ?n"
        and un: "unmapped ?w (um_gather m) vs ?R (view (um_page_table m1)) (um_gather m1) vs1"
        using unmap_area_facts [OF less.prems(1-5) a(2) _ a(3)] True by blast
      note pg = unmapped_pages [OF un] and con1 = unmapped_consistent [OF un less.prems(4)]
      have P1: "vma_pages (vs_vmas vs1) \<inter> {s..<e} = ?P - ?R" using pg by blast
      have lt: "card (vma_pages (vs_vmas vs1) \<inter> {s..<e}) < card ?P"
        unfolding P1 using RP a(3) by (intro psubset_card_mono) auto
      have inv1: "vs_inv vs1" using un by (simp add: unmapped_def)
      have u1: "\<forall>v \<in> vma_pages (vs_vmas vs1). user_vpn v" using less.prems(3) pg by blast
      obtain r S vs2 m2 where r2: "unmap_loop env ops s e True vs1 m1 = Some (r, vs2, m2)"
        "pt_inv (um_page_table m2)" "S \<subseteq> ?P - ?R"
        "unmapped (view (um_page_table m1)) (um_gather m1) vs1 S (view (um_page_table m2)) (um_gather m2) vs2"
        "\<forall>b. r = Inr b \<longrightarrow> S = ?P - ?R \<and> b" "\<forall>err. r = Inl err \<longrightarrow> unmap_failed env vs1 s e err"
        using less.hyps [OF lt inv1 p1 u1 con1 less.prems(5,6), unfolded P1] by blast
      have step: "unmap_loop env ops s e found vs m = Some (r, vs2, m2)"
        using r2(1) by (subst unmap_loop.simps) (simp add: Some ua)
      have fin: "finite ?R" "finite S" using finite_subset [OF r2(3)] by auto
      have un2: "unmapped ?w (um_gather m) vs (?R \<union> S) (view (um_page_table m2)) (um_gather m2) vs2"
        using r2(3) by (intro unmapped_trans [OF _ fin un r2(4)]) blast
      have "r = Inl err \<Longrightarrow> ?P - ?R \<noteq> {}" for err
        using unmap_loop_nothing [OF inv1 less.prems(6), unfolded P1, of env ops True m1] r2(1) by auto
      then have "r = Inl err \<Longrightarrow> unmap_failed env vs s e err" for err
        using unmap_failed_step [OF un cnt] P1 r2(6) by blast
      then show ?thesis using step r2(2,3,5) un2 RP a(3)
        by (intro exI [of _ r] exI [of _ "?R \<union> S"] exI [of _ vs2] exI [of _ m2]) blast
    qed
  qed
qed

lemma unmap_range_facts:
  assumes ok: "mm_ok pt_inv user_vpn view vs m" and res: "\<forall>n. env_reserve env n" and se: "s < e"
  shows "\<exists>r vs' m' R. unmap_range env ops vs m s e allow_empty = Some (r, vs', m') \<and>
    mm_ok pt_inv user_vpn view vs' m' \<and> R \<subseteq> vma_pages (vs_vmas vs) \<inter> {s..<e} \<and>
    unmapped (view (um_page_table m)) (um_gather m) vs R (view (um_page_table m')) (um_gather m') vs' \<and>
    (case r of
       Inr found \<Rightarrow> R = vma_pages (vs_vmas vs) \<inter> {s..<e} \<and> found = (R \<noteq> {}) \<and> (found \<or> allow_empty)
     | Inl err \<Rightarrow> unmap_failed env vs s e err \<or>
         err = EINVAL \<and> \<not> allow_empty \<and> vma_pages (vs_vmas vs) \<inter> {s..<e} = {})"
proof -
  have h: "vs_inv vs" "pt_inv (um_page_table m)" "\<forall>v \<in> vma_pages (vs_vmas vs). user_vpn v"
    "mm_consistent (view (um_page_table m)) (vs_vmas vs)"
    using ok by (simp_all add: mm_ok_def)
  obtain r R vs' m' where l: "unmap_loop env ops s e False vs m = Some (r, vs', m')"
    "pt_inv (um_page_table m')" "R \<subseteq> vma_pages (vs_vmas vs) \<inter> {s..<e}"
    "unmapped (view (um_page_table m)) (um_gather m) vs R (view (um_page_table m')) (um_gather m') vs'"
    "\<forall>b. r = Inr b \<longrightarrow> R = vma_pages (vs_vmas vs) \<inter> {s..<e} \<and> b = (False \<or> R \<noteq> {})"
    "\<forall>err. r = Inl err \<longrightarrow> unmap_failed env vs s e err"
    using unmap_loop_facts [OF h res se, of False] by blast
  have ok': "mm_ok pt_inv user_vpn view vs' m'"
    using l(2,4) h unmapped_pages [OF l(4)] unmapped_consistent [OF l(4)] by (auto simp: mm_ok_def unmapped_def)
  show ?thesis
  proof (cases r)
    case (Inl err)
    then have "unmap_range env ops vs m s e allow_empty = Some (Inl err, vs', m')"
      using l(1) by (simp add: unmap_range_def)
    with ok' l(3,4,6) Inl show ?thesis
      by (intro exI [of _ "Inl err"] exI [of _ vs'] exI [of _ m'] exI [of _ R]) simp
  next
    case (Inr b)
    let ?r = "if b \<or> allow_empty then Inr b else Inl EINVAL"
    have "unmap_range env ops vs m s e allow_empty = Some (?r, vs', m')"
      using l(1) Inr by (simp add: unmap_range_def)
    moreover have "R = vma_pages (vs_vmas vs) \<inter> {s..<e}" "b = (R \<noteq> {})" using l(5) Inr by auto
    ultimately show ?thesis using ok' l(3,4)
      by (intro exI [of _ ?r] exI [of _ vs'] exI [of _ m'] exI [of _ R]) simp
  qed
qed

end

end
