(* ===== verification/Protect.thy ===== *)
theory Protect
  imports Unmap
begin

text \<open>
  Changing the attributes of a range: \<open>protect_range\<close> and the pages it re-grants. The loops
  end; afterwards the pages of the range have the new permission, and no translation grants
  more than the area's permission without write access.
\<close>

section \<open>Replacing an area in place\<close>

lemma update_area_fields [simp]:
  "vs_holes (update_area vs k a) = vs_holes vs" "vs_owner (update_area vs k a) = vs_owner vs"
  "vs_user_area_count (update_area vs k a) = vs_user_area_count vs"
  "vs_user_page_count (update_area vs k a) = vs_user_page_count vs"
  "vs_file_rmaps (update_area vs k a) = vs_file_rmaps vs" "vs_rmap_calls (update_area vs k a) = vs_rmap_calls vs"
  "vs_vmas (update_area vs k a) = bt_insert k a (vs_vmas vs)"
  by (simp_all add: update_area_def)

lemma update_area_facts:
  assumes inv: "vs_inv vs" and a: "bt_get (vs_vmas vs) k = Some a"
    and wf: "vma_wf a'" and same: "vm_start a' = vm_start a" "vm_end a' = vm_end a" "vm_is_user a' = vm_is_user a"
    "rmap_from_vma a' = rmap_from_vma a"
  shows "vs_inv (update_area vs k a')"
    and "page_view (vs_vmas (update_area vs k a')) =
      (\<lambda>v. if v \<in> area_pages a then Some (area_view a' v) else page_view (vs_vmas vs) v)"
proof -
  let ?m = "vs_vmas vs" and ?r = "bt_remove k (vs_vmas vs)"
  have aw: "areas_wf ?m" and bw: "bt_wf ?m" using inv by (simp_all add: vs_inv_def)
  have ka: "(k, a) \<in> set ?m" using a bt_get_iff [OF bw] by blast
  have k: "k = vm_start a'" using areas_wf_entry(1) [OF aw ka] same(1) by simp
  have ap: "area_pages a' = area_pages a" using same by (simp add: area_pages_def)
  note rem = areas_wf_remove [OF aw ka] page_view_remove [OF aw ka]
  have dis: "area_pages a' \<inter> vma_pages ?r = {}" using rem(2) ap by blast
  note ins = areas_wf_insert [OF rem(1) wf dis] page_view_insert [OF rem(1) wf dis]
  have eq: "bt_insert (vm_start a') a' ?r = bt_insert k a' ?m" using bt_insert_remove [OF bw] k by simp
  have pg: "vma_pages (bt_insert k a' ?m) = vma_pages ?m"
    using ins(2) rem(2) ap area_pages_subset [OF ka] unfolding eq by blast
  have fr: "bt_get ?r k = None" "bt_wf ?r" using bw by (simp_all add: bt_get_remove)
  have sum: "bt_sum g (bt_insert k a' ?m) = bt_sum g ?m" if "g (k, a') = g (k, a)" for g
    using bt_sum_insert [OF fr(2,1), of g a'] bt_sum_remove [OF bw a, of g] that bt_insert_remove [OF bw, of k a'] by simp
  have "user_size a' = user_size a" using same by (simp add: user_size_def area_page_count_def)
  then have cnt: "user_areas (bt_insert k a' ?m) = user_areas ?m" "user_pages (bt_insert k a' ?m) = user_pages ?m"
    unfolding user_areas_def user_pages_def by (rule_tac [!] sum) (simp_all add: same(3))
  have "rmaps_ok (update_area vs k a')"
    using inv a same(4) by (auto simp: vs_inv_def rmaps_ok_def bt_get_insert [OF bw])
  then show "vs_inv (update_area vs k a')"
    using inv ins(1) pg cnt unfolding eq by (simp add: vs_inv_def)
  show "page_view (vs_vmas (update_area vs k a')) =
      (\<lambda>v. if v \<in> area_pages a then Some (area_view a' v) else page_view (vs_vmas vs) v)"
    using ins(3) rem(3) ap unfolding eq by (simp add: fun_eq_iff)
qed

section \<open>Walking the user areas of a range\<close>

definition user_page :: "VmaSet \<Rightarrow> vpn \<Rightarrow> bool" where
  "user_page vs v \<longleftrightarrow> (\<exists>x. page_view (vs_vmas vs) v = Some x \<and> flags_contains (pa_perm x) PERM_U)"

lemma area_view_perm: "flags_contains (pa_perm (area_view a v)) PERM_U \<longleftrightarrow> vm_is_user a"
  by (simp add: area_view_def vm_is_user_def)

lemma find_user_vma_key_Some:
  assumes wf: "areas_wf (vs_vmas vs)" and k: "find_user_vma_key vs v = Some k"
  obtains a where "(k, a) \<in> set (vs_vmas vs)" and "bt_get (vs_vmas vs) k = Some a" and "v \<in> area_pages a"
    and "vm_is_user a"
proof -
  have "find_vma_key vs v = Some k"
    using k by (auto simp: find_user_vma_key_def split: bind_splits if_splits)
  from find_vma_key_Some [OF wf this] that k show thesis
    by (auto simp: find_user_vma_key_def split: bind_splits if_splits)
qed

lemma find_user_vma_key_None:
  assumes wf: "areas_wf (vs_vmas vs)"
  shows "find_user_vma_key vs v = None \<longleftrightarrow> \<not> user_page vs v"
proof (cases "find_vma_key vs v")
  case None
  then show ?thesis
    using find_vma_key_view [OF wf, of v] by (simp add: find_user_vma_key_def user_page_def)
next
  case (Some k)
  from find_vma_key_Some [OF wf Some] obtain a where "bt_get (vs_vmas vs) k = Some a" by blast
  then show ?thesis
    using Some find_vma_key_view [OF wf, of v] by (simp add: find_user_vma_key_def user_page_def area_view_perm)
qed

lemma user_page_area:
  assumes wf: "areas_wf (vs_vmas vs)" and u: "user_page vs v"
  obtains k a where "find_user_vma_key vs v = Some k" and "(k, a) \<in> set (vs_vmas vs)"
    and "bt_get (vs_vmas vs) k = Some a" and "v \<in> area_pages a" and "vm_is_user a"
  using find_user_vma_key_None [OF wf, of v] find_user_vma_key_Some [OF wf] u by (metis not_None_eq)

section \<open>The check of \<open>protect_range\<close>\<close>

text \<open>A shared page that is sealed, or was opened without write access, never becomes writable.\<close>

definition may_protect :: "MapPermission \<Rightarrow> page_attrs \<Rightarrow> bool" where
  "may_protect prot x \<longleftrightarrow> \<not> (flags_contains prot PERM_W \<and> flags_contains (pa_flags x) MAP_SHARED \<and>
     (pa_write_sealed x \<or> \<not> pa_may_write x))"

definition protect_refused :: "VmaSet \<Rightarrow> MapPermission \<Rightarrow> vpn set \<Rightarrow> errno \<Rightarrow> bool" where
  "protect_refused vs prot P err \<longleftrightarrow>
     (err = ENOMEM \<and> (\<exists>v \<in> P. \<not> user_page vs v)) \<or>
     ((err = EPERM \<or> err = EACCES) \<and>
      (\<exists>v \<in> P. \<exists>x. page_view (vs_vmas vs) v = Some x \<and> \<not> may_protect prot x))"

lemma protect_check_facts:
  assumes wf: "areas_wf (vs_vmas vs)"
  shows "\<exists>r. protect_check vs prot e c = Some r \<and>
    (r = Inr () \<longrightarrow> (\<forall>v. c \<le> v \<and> v < e \<longrightarrow>
       user_page vs v \<and> may_protect prot (the (page_view (vs_vmas vs) v)))) \<and>
    (\<forall>err. r = Inl err \<longrightarrow> protect_refused vs prot {c..<e} err)"
proof (induction "e - c" arbitrary: c rule: less_induct)
  case less
  show ?case
  proof (cases "c < e")
    case False
    then show ?thesis by (subst protect_check.simps) auto
  next
    case True
    show ?thesis
    proof (cases "user_page vs c")
      case False
      then have "protect_check vs prot e c = Some (Inl ENOMEM)"
        using True find_user_vma_key_None [OF wf, of c] by (subst protect_check.simps) simp
      with False True show ?thesis by (auto simp: protect_refused_def)
    next
      case u: True
      obtain k a where k: "find_user_vma_key vs c = Some k" and a: "(k, a) \<in> set (vs_vmas vs)"
        "bt_get (vs_vmas vs) k = Some a" "c \<in> area_pages a" "vm_is_user a"
        by (rule user_page_area [OF wf u])
      let ?d = "if vm_end a < e then vm_end a else e"
      have attr: "page_view (vs_vmas vs) v = Some (area_view a v)" if "c \<le> v" "v < ?d" for v
        using that a(3) page_view_Some [OF wf a(1), of v] by (auto simp: area_pages_def split: if_splits)
      have mp: "may_protect prot (area_view a v) \<longleftrightarrow>
          \<not> (flags_contains prot PERM_W \<and> flags_contains (vma_flags a) MAP_SHARED \<and> (vma_write_sealed a \<or> \<not> vma_may_write a))" for v
        by (simp add: may_protect_def area_view_def)
      have d: "c < ?d" "?d \<le> e" using a(3) True by (auto simp: area_pages_def)
      show ?thesis
      proof (cases "may_protect prot (area_view a c)")
        case False
        then have "\<exists>err. protect_check vs prot e c = Some (Inl err) \<and> (err = EPERM \<or> err = EACCES)"
          using True k a(2) unfolding mp by (subst protect_check.simps) auto
        moreover have "\<exists>v \<in> {c..<e}. \<exists>x. page_view (vs_vmas vs) v = Some x \<and> \<not> may_protect prot x"
          using False attr [of c] d True by (intro bexI [of _ c]) auto
        ultimately show ?thesis unfolding protect_refused_def by auto
      next
        case ok: True
        have step: "protect_check vs prot e c = protect_check vs prot e ?d"
          using True k a(2) ok unfolding mp by (subst protect_check.simps) auto
        have lt: "e - ?d < e - c" using d True by simp
        from less.hyps [OF lt] obtain r where r: "protect_check vs prot e ?d = Some r"
          "r = Inr () \<Longrightarrow> \<forall>v. ?d \<le> v \<and> v < e \<longrightarrow> user_page vs v \<and> may_protect prot (the (page_view (vs_vmas vs) v))"
          "\<And>err. r = Inl err \<Longrightarrow> protect_refused vs prot {?d..<e} err" by blast
        have here: "user_page vs v \<and> may_protect prot (the (page_view (vs_vmas vs) v))" if "c \<le> v" "v < ?d" for v
          using attr [OF that] ok a(4) mp by (simp add: user_page_def area_view_perm)
        have "user_page vs v \<and> may_protect prot (the (page_view (vs_vmas vs) v))" if "r = Inr ()" "c \<le> v" "v < e" for v
          using here [of v] r(2) [OF that(1)] that by (meson not_le)
        moreover have "protect_refused vs prot {c..<e} err" if "r = Inl err" for err
          using r(3) [OF that] d(1) unfolding protect_refused_def by (meson atLeastLessThan_iff less_imp_le less_le_trans)
        ultimately show ?thesis using step r(1) by auto
      qed
    qed
  qed
qed

section \<open>Re-granting translations\<close>

text \<open>
  \<open>regranted w g P q w' g'\<close>: the translations of the pages \<open>P\<close> keep their frames and get the
  permission \<open>q\<close>; they are in the range to flush, and no frame is queued for release.
\<close>

definition regranted ::
  "(vpn \<Rightarrow> (ppn \<times> MapPermission) option) \<Rightarrow> MmuGather \<Rightarrow> vpn set \<Rightarrow> MapPermission \<Rightarrow>
     (vpn \<Rightarrow> (ppn \<times> MapPermission) option) \<Rightarrow> MmuGather \<Rightarrow> bool" where
  "regranted w g P q w' g' \<longleftrightarrow>
     w' = (\<lambda>v. if v \<in> P then map_option (\<lambda>(p, _). (p, q)) (w v) else w v) \<and>
     mg_retired g' = mg_retired g \<and> mg_active_at_begin g' = mg_active_at_begin g \<and> mg_events g' = mg_events g \<and>
     (\<forall>v. covers_vpn (mg_range g) v \<longrightarrow> covers_vpn (mg_range g') v) \<and>
     (\<forall>v \<in> P. w v \<noteq> None \<longrightarrow> covers_vpn (mg_range g') v)"

lemma regranted_none: "regranted w g {} q w g"
  by (simp add: regranted_def)

lemma regranted_trans:
  assumes "regranted w g P q w1 g1" and "regranted w1 g1 Q q w2 g2"
  shows "regranted w g (P \<union> Q) q w2 g2"
proof -
  have w1: "w1 = (\<lambda>v. if v \<in> P then map_option (\<lambda>(p, _). (p, q)) (w v) else w v)"
    using assms(1) by (simp add: regranted_def)
  have "map_option (\<lambda>(p, _). (p, q)) (map_option (\<lambda>(p, _). (p, q)) x) = map_option (\<lambda>(p, _). (p, q)) x"
    for x :: "(ppn \<times> MapPermission) option" by (cases x) auto
  then have "w2 = (\<lambda>v. if v \<in> P \<union> Q then map_option (\<lambda>(p, _). (p, q)) (w v) else w v)"
    using assms(2) unfolding regranted_def w1 by (simp add: fun_eq_iff)
  moreover have "covers_vpn (mg_range g2) v" if "v \<in> P \<union> Q" "w v \<noteq> None" for v
  proof (cases "v \<in> P")
    case True
    then show ?thesis using assms that by (simp add: regranted_def)
  next
    case False
    then have "w1 v \<noteq> None" using that by (simp add: w1)
    with False that assms(2) show ?thesis by (simp add: regranted_def)
  qed
  ultimately show ?thesis using assms by (simp add: regranted_def)
qed

lemma regranted_mono:
  assumes "regranted w g P q w' g'" and "P \<subseteq> Q" and "\<And>v. v \<in> Q - P \<Longrightarrow> w v = None"
  shows "regranted w g Q q w' g'"
proof -
  have "(if v \<in> P then map_option (\<lambda>(p, _). (p, q)) (w v) else w v) =
      (if v \<in> Q then map_option (\<lambda>(p, _). (p, q)) (w v) else w v)" for v
    using assms(2,3) by (cases "v \<in> P"; cases "v \<in> Q") auto
  moreover have "covers_vpn (mg_range g') v" if "v \<in> Q" "w v \<noteq> None" for v
    using assms(1) assms(3) [of v] that by (auto simp: regranted_def)
  ultimately show ?thesis using assms(1) by (simp add: regranted_def fun_eq_iff)
qed

context page_table
begin

lemma set_user_flags_facts:
  assumes "pt_inv (um_page_table m)" and "user_vpn v" and "flags_contains q PERM_U"
  shows "pt_inv (um_page_table (snd (set_user_flags ops m v q)))"
    and "regranted (view (um_page_table m)) (um_gather m) {v} (perm_bits q)
      (view (um_page_table (snd (set_user_flags ops m v q)))) (um_gather (snd (set_user_flags ops m v q)))"
    and "fst (set_user_flags ops m v q) = Inr () \<longleftrightarrow> view (um_page_table m) v \<noteq> None"
proof -
  note f = set_flags_view [OF assms(1,2), of q]
  have "pt_inv (um_page_table (snd (set_user_flags ops m v q))) \<and>
    regranted (view (um_page_table m)) (um_gather m) {v} (perm_bits q)
      (view (um_page_table (snd (set_user_flags ops m v q)))) (um_gather (snd (set_user_flags ops m v q))) \<and>
    (fst (set_user_flags ops m v q) = Inr () \<longleftrightarrow> view (um_page_table m) v \<noteq> None)"
  proof (cases "pt_set_pte_flags_no_flush ops (um_page_table m) v q")
    case None
    then show ?thesis using f assms
      by (simp add: set_user_flags_def check_user_flags_def regranted_def fun_eq_iff)
  next
    case (Some t')
    then show ?thesis using f assms record_change_covers [of "um_gather m" v] record_change_mono
      by (auto simp: set_user_flags_def check_user_flags_def regranted_def fun_eq_iff)
  qed
  then show "pt_inv (um_page_table (snd (set_user_flags ops m v q)))"
    and "regranted (view (um_page_table m)) (um_gather m) {v} (perm_bits q)
      (view (um_page_table (snd (set_user_flags ops m v q)))) (um_gather (snd (set_user_flags ops m v q)))"
    and "fst (set_user_flags ops m v q) = Inr () \<longleftrightarrow> view (um_page_table m) v \<noteq> None" by simp_all
qed

lemma set_flags_each_facts:
  assumes "pt_inv (um_page_table m)" and "\<forall>v \<in> set xs. user_vpn v" and "flags_contains q PERM_U"
  shows "pt_inv (um_page_table (set_flags_each ops q xs m)) \<and>
    regranted (view (um_page_table m)) (um_gather m) (set xs) (perm_bits q)
      (view (um_page_table (set_flags_each ops q xs m))) (um_gather (set_flags_each ops q xs m))"
  using assms
proof (induction xs arbitrary: m)
  case Nil
  then show ?case by (simp add: regranted_none)
next
  case (Cons v xs)
  let ?m = "snd (set_user_flags ops m v q)"
  have v: "user_vpn v" using Cons.prems(2) by simp
  note s = set_user_flags_facts(1,2) [OF Cons.prems(1) v Cons.prems(3)]
  have "\<forall>v \<in> set xs. user_vpn v" using Cons.prems(2) by simp
  note IH = Cons.IH [OF s(1) this Cons.prems(3)]
  from regranted_trans [OF s(2) conjunct2 [OF IH]] IH show ?case by simp
qed

end

section \<open>Protecting a range\<close>

definition protected ::
  "(vpn \<Rightarrow> (ppn \<times> MapPermission) option) \<Rightarrow> MmuGather \<Rightarrow> VmaSet \<Rightarrow> vpn set \<Rightarrow> MapPermission \<Rightarrow>
     (vpn \<Rightarrow> (ppn \<times> MapPermission) option) \<Rightarrow> MmuGather \<Rightarrow> VmaSet \<Rightarrow> bool" where
  "protected w g vs P prot w' g' vs' \<longleftrightarrow>
     vs_inv vs' \<and> vs_owner vs' = vs_owner vs \<and>
     page_view (vs_vmas vs') =
       (\<lambda>v. if v \<in> P then map_option (\<lambda>x. x\<lparr>pa_perm := prot\<rparr>) (page_view (vs_vmas vs) v) else page_view (vs_vmas vs) v) \<and>
     regranted w g P (perm_bits (flags_difference prot PERM_W)) w' g'"

lemma protected_none: "vs_inv vs \<Longrightarrow> protected w g vs {} prot w g vs"
  by (simp add: protected_def regranted_none)

lemma protected_trans:
  assumes "protected w g vs P prot w1 g1 vs1" and "protected w1 g1 vs1 Q prot w2 g2 vs2"
  shows "protected w g vs (P \<union> Q) prot w2 g2 vs2"
proof -
  have "map_option (\<lambda>x. x\<lparr>pa_perm := prot\<rparr>) (map_option (\<lambda>x. x\<lparr>pa_perm := prot\<rparr>) y) =
      map_option (\<lambda>x. x\<lparr>pa_perm := prot\<rparr>) y" for y :: "page_attrs option" by (cases y) auto
  then show ?thesis
    using assms regranted_trans unfolding protected_def by (simp add: fun_eq_iff) blast
qed

lemma protected_pages: "protected w g vs P prot w' g' vs' \<Longrightarrow> vma_pages (vs_vmas vs') = vma_pages (vs_vmas vs)"
  unfolding vma_pages_view by (simp add: protected_def)

lemma flags_contains_bits: "flags_contains a b \<longleftrightarrow> (\<forall>n. bit b n \<longrightarrow> bit a n)"
  unfolding flags_contains_def by (auto simp: bit_eq_iff bit_and_iff dest: bit_imp_le_length)

lemma regrant_within: "flags_contains prot (perm_bits (flags_difference prot q))"
  unfolding flags_contains_bits by (auto simp: perm_bits_def flags_difference_def bit_and_iff)

lemma protected_consistent:
  assumes "protected w g vs P prot w' g' vs'" and "mm_consistent w (vs_vmas vs)"
  shows "mm_consistent w' (vs_vmas vs')"
  using assms regrant_within [of prot PERM_W]
  unfolding mm_consistent_def protected_def regranted_def by (auto split: if_splits)

lemma user_without_write:
  assumes "flags_contains prot PERM_U"
  shows "flags_contains (flags_difference prot PERM_W) PERM_U"
proof -
  have "NOT PERM_W AND PERM_U = PERM_U" by (simp add: PERM_U_def PERM_W_def)
  then show ?thesis using assms unfolding flags_contains_def flags_difference_def by (simp add: and.assoc)
qed

lemma set_in_memory_vpns:
  assumes "store_wf s"
  shows "set (in_memory_vpns s) = {v. is_in_memory (page_frame s v)}"
proof -
  have bw: "bt_wf (st_frames s)" using assms by (simp add: store_wf_def)
  have "set (in_memory_vpns s) = {v. \<exists>f. bt_get (st_frames s) v = Some f \<and> is_in_memory f}"
    unfolding bt_get_iff [OF bw] in_memory_vpns_def by (auto simp: image_iff)
  then show ?thesis by (auto simp: page_frame_def split: option.splits)
qed

context page_table
begin

lemma protect_area_facts:
  assumes inv: "vs_inv vs" and pt: "pt_inv (um_page_table m)" and u: "\<forall>v \<in> vma_pages (vs_vmas vs). user_vpn v"
    and con: "mm_consistent (view (um_page_table m)) (vs_vmas vs)" and a: "bt_get (vs_vmas vs) k = Some a"
    and user: "vm_is_user a" and prot: "flags_contains prot PERM_U"
  shows "\<exists>vs' m'. protect_area ops vs m k prot = (Inr (), vs', m') \<and> pt_inv (um_page_table m') \<and>
    vs_user_area_count vs' = vs_user_area_count vs \<and>
    (\<exists>b. bt_get (vs_vmas vs') k = Some b \<and> area_pages b = area_pages a) \<and>
    protected (view (um_page_table m)) (um_gather m) vs (area_pages a) prot
      (view (um_page_table m')) (um_gather m') vs'"
proof -
  let ?a = "a\<lparr>vma_map_perm := prot\<rparr>" and ?w = "view (um_page_table m)" and ?q = "flags_difference prot PERM_W"
  have wf: "areas_wf (vs_vmas vs)" and ka: "(k, a) \<in> set (vs_vmas vs)"
    using inv a bt_get_iff [of "vs_vmas vs" k a] by (auto simp: vs_inv_def)
  have aw: "vma_wf a" by (rule areas_wf_entry(2) [OF wf ka])
  then have sw: "store_wf (vma_inner a)" by (simp add: vma_wf_def)
  have same: "vma_wf ?a" "vm_start ?a = vm_start a" "vm_end ?a = vm_end a" "vm_is_user ?a = vm_is_user a"
    "rmap_from_vma ?a = rmap_from_vma a"
    using aw user prot by (simp_all add: vma_wf_def vm_start_def vm_end_def vm_is_user_def rmap_from_vma_def)
  note up = update_area_facts [OF inv a same]
  let ?xs = "in_memory_vpns (vma_inner a)"
  have sub: "set ?xs \<subseteq> area_pages a"
    using page_frame_out_of_range [OF sw] unfolding set_in_memory_vpns [OF sw]
    by (force simp: contains_vpn_def area_pages_def vm_start_def vm_end_def)
  have ux: "\<forall>v \<in> set ?xs. user_vpn v" using u sub area_pages_subset [OF ka] by blast
  note fl = set_flags_each_facts [OF pt ux user_without_write [OF prot]]
  have "?w v = None" if "v \<in> area_pages a - set ?xs" for v
  proof (rule ccontr)
    assume "?w v \<noteq> None"
    then obtain p perm where "?w v = Some (p, perm)" by auto
    with mm_consistent_ptes_ok [OF wf con ka] that show False
      by (auto simp: ptes_ok_def set_in_memory_vpns [OF sw])
  qed
  note rg = regranted_mono [OF conjunct2 [OF fl] sub this]
  have "page_view (vs_vmas (update_area vs k ?a)) =
      (\<lambda>v. if v \<in> area_pages a then map_option (\<lambda>x. x\<lparr>pa_perm := prot\<rparr>) (page_view (vs_vmas vs) v)
           else page_view (vs_vmas vs) v)"
  proof
    fix v
    show "page_view (vs_vmas (update_area vs k ?a)) v =
      (if v \<in> area_pages a then map_option (\<lambda>x. x\<lparr>pa_perm := prot\<rparr>) (page_view (vs_vmas vs) v)
       else page_view (vs_vmas vs) v)"
      unfolding up(2) using page_view_Some [OF wf ka, of v] same(2) by (simp add: area_view_def)
  qed
  moreover have "bt_get (vs_vmas (update_area vs k ?a)) k = Some ?a" "area_pages ?a = area_pages a"
    using bt_get_insert [OF areas_wf_bt [OF wf]] same(2,3) by (simp_all add: area_pages_def)
  ultimately show ?thesis using up(1) fl rg a
    by (intro exI [of _ "update_area vs k ?a"] exI [of _ "set_flags_each ops ?q ?xs m"])
      (simp add: protect_area_def protected_def)
qed

end

lemma protected_user_page:
  assumes "protected w g vs P prot w' g' vs'" and "flags_contains prot PERM_U" and "user_page vs v"
  shows "user_page vs' v"
  using assms by (auto simp: protected_def user_page_def)

lemma protected_cong:
  assumes "protected w g vs P prot w' g' vs'" and "page_view (vs_vmas vs0) = page_view (vs_vmas vs)"
    and "vs_owner vs0 = vs_owner vs"
  shows "protected w g vs0 P prot w' g' vs'"
  using assms(1) unfolding protected_def assms(2,3) .

text \<open>Whether an area begins before the page \<open>c\<close> and reaches it; splitting there adds an area.\<close>

definition cut :: "VmaSet \<Rightarrow> vpn \<Rightarrow> nat" where
  "cut vs c = of_bool (\<exists>(k, a) \<in> set (vs_vmas vs). c \<in> area_pages a \<and> vm_start a < c)"

lemma cut_area:
  assumes "areas_wf (vs_vmas vs)" and "(k, a) \<in> set (vs_vmas vs)" and "c \<in> area_pages a"
  shows "cut vs c = of_bool (vm_start a < c)"
proof -
  have "(\<exists>(k, a) \<in> set (vs_vmas vs). c \<in> area_pages a \<and> vm_start a < c) \<longleftrightarrow> vm_start a < c"
    using areas_wf_unique(2) [OF assms(1) _ assms(2) _ assms(3)] assms(2,3) by blast
  then show ?thesis by (simp add: cut_def)
qed

lemma cut_after:
  assumes wf: "areas_wf (vs_vmas vs)" and b: "bt_get (vs_vmas vs) c = Some b" "area_pages b = {c..<d}" "c < d"
  shows "cut vs d = 0"
proof -
  have cb: "(c, b) \<in> set (vs_vmas vs)" using b(1) bt_get_iff [OF areas_wf_bt [OF wf]] by blast
  have "\<not> (d \<in> area_pages a \<and> vm_start a < d)" if a: "(k, a) \<in> set (vs_vmas vs)" for k a
  proof
    assume d: "d \<in> area_pages a \<and> vm_start a < d"
    then have "d - 1 \<in> area_pages a" by (auto simp: area_pages_def)
    moreover have "d - 1 \<in> area_pages b" using b(2,3) by auto
    ultimately have "a = b" using areas_wf_unique(2) [OF wf a cb] by blast
    with d b(2) show False by simp
  qed
  then show ?thesis unfolding cut_def by auto
qed

context page_table
begin

lemma protect_step:
  assumes inv: "vs_inv vs" and pt: "pt_inv (um_page_table m)" and u: "\<forall>v \<in> vma_pages (vs_vmas vs). user_vpn v"
    and con: "mm_consistent (view (um_page_table m)) (vs_vmas vs)" and prot: "flags_contains prot PERM_U"
    and k: "bt_get (vs_vmas vs) k = Some a" and user: "vm_is_user a" and se: "vm_start a \<le> c" "c < d" "d \<le> vm_end a"
    and room: "map_room env vs (split_extra a c d)"
  shows "\<exists>vs1 vs2 m2. split_for_range env vs k c d = (Inr c, vs1) \<and> protect_area ops vs1 m c prot = (Inr (), vs2, m2) \<and>
    pt_inv (um_page_table m2) \<and> cut vs2 d = 0 \<and>
    vs_user_area_count vs2 = vs_user_area_count vs + split_extra a c d \<and>
    protected (view (um_page_table m)) (um_gather m) vs {c..<d} prot (view (um_page_table m2)) (um_gather m2) vs2"
proof -
  obtain vs1 where sp: "split_for_range env vs k c d = (Inr c, vs1)"
    and sr: "split_result vs c d True (split_extra a c d) c vs1"
    using split_for_range_room [OF inv k se room] user by auto
  then obtain b where b: "bt_get (vs_vmas vs1) c = Some b" "vm_start b = c" "vm_end b = d" "vm_is_user b"
    and inv1: "vs_inv vs1" and pv1: "page_view (vs_vmas vs1) = page_view (vs_vmas vs)"
    and ow: "vs_owner vs1 = vs_owner vs" and n1: "vs_user_area_count vs1 = vs_user_area_count vs + split_extra a c d"
    by (auto simp: split_result_def)
  have u1: "\<forall>v \<in> vma_pages (vs_vmas vs1). user_vpn v" using u pv1 by (simp add: vma_pages_view)
  have con1: "mm_consistent (view (um_page_table m)) (vs_vmas vs1)" using con pv1 by (simp add: mm_consistent_def)
  have bp: "area_pages b = {c..<d}" using b by (simp add: area_pages_def)
  from protect_area_facts [OF inv1 pt u1 con1 b(1,4) prot, unfolded bp] obtain vs2 m2 b2
    where p: "protect_area ops vs1 m c prot = (Inr (), vs2, m2)" "pt_inv (um_page_table m2)"
      "vs_user_area_count vs2 = vs_user_area_count vs1" and b2: "bt_get (vs_vmas vs2) c = Some b2" "area_pages b2 = {c..<d}"
      and pr: "protected (view (um_page_table m)) (um_gather m) vs1 {c..<d} prot (view (um_page_table m2)) (um_gather m2) vs2"
    by blast
  have "areas_wf (vs_vmas vs2)" using pr by (simp add: protected_def vs_inv_def)
  from cut_after [OF this b2 se(2)] p sp n1 protected_cong [OF pr pv1 [symmetric] ow [symmetric]] show ?thesis by simp
qed

lemma protect_apply_facts:
  assumes "vs_inv vs" and "pt_inv (um_page_table m)" and "\<forall>v \<in> vma_pages (vs_vmas vs). user_vpn v"
    and "mm_consistent (view (um_page_table m)) (vs_vmas vs)" and "flags_contains prot PERM_U"
    and "\<forall>v. c \<le> v \<and> v < e \<longrightarrow> user_page vs v" and "c \<le> e"
  shows "\<exists>r d vs' m'. protect_apply env ops prot e vs m c = Some (r, vs', m') \<and> pt_inv (um_page_table m') \<and>
    c \<le> d \<and> d \<le> e \<and>
    protected (view (um_page_table m)) (um_gather m) vs {c..<d} prot (view (um_page_table m')) (um_gather m') vs' \<and>
    (r = Inr () \<longrightarrow> d = e) \<and> (\<forall>err. r = Inl err \<longrightarrow> err = ENOMEM \<and> \<not> map_room env vs (cut vs c + 1))"
  using assms
proof (induction "e - c" arbitrary: c vs m rule: less_induct)
  case less
  have wf: "areas_wf (vs_vmas vs)" using less.prems(1) by (simp add: vs_inv_def)
  show ?case
  proof (cases "c < e")
    case False
    then have "c = e" using less.prems(7) by simp
    with less.prems(2) protected_none [OF less.prems(1)] show ?thesis by (subst protect_apply.simps) simp
  next
    case True
    then have "user_page vs c" using less.prems(6) by simp
    then obtain k a where k: "find_user_vma_key vs c = Some k" and a: "(k, a) \<in> set (vs_vmas vs)"
      "bt_get (vs_vmas vs) k = Some a" "c \<in> area_pages a" "vm_is_user a"
      by (rule user_page_area [OF wf])
    define d where "d = (if vm_end a < e then vm_end a else e)"
    have d: "vm_start a \<le> c" "c < d" "d \<le> vm_end a" "d \<le> e" using a(3) True by (auto simp: area_pages_def d_def)
    show ?thesis
    proof (cases "map_room env vs (split_extra a c d)")
      case False
      then have "protect_apply env ops prot e vs m c = Some (Inl ENOMEM, vs, m)"
        using True k a(2) split_for_range_no_room [OF a(2) d(1-3) False]
        by (subst protect_apply.simps) (simp add: d_def [symmetric])
      moreover have "split_extra a c d \<le> cut vs c + 1"
        using cut_area [OF wf a(1,3)] by (simp add: split_extra_def)
      then have "\<not> map_room env vs (cut vs c + 1)" using False map_room_mono [of env vs "cut vs c + 1"] by blast
      ultimately show ?thesis
        using less.prems(2) protected_none [OF less.prems(1)] True
        by (intro exI [of _ "Inl ENOMEM"] exI [of _ c] exI [of _ vs] exI [of _ m]) simp
    next
      case room: True
      obtain vs1 vs2 m2 where s: "split_for_range env vs k c d = (Inr c, vs1)" "protect_area ops vs1 m c prot = (Inr (), vs2, m2)"
        and p2: "pt_inv (um_page_table m2)" "cut vs2 d = 0" "vs_user_area_count vs2 = vs_user_area_count vs + split_extra a c d"
        and pr: "protected (view (um_page_table m)) (um_gather m) vs {c..<d} prot (view (um_page_table m2)) (um_gather m2) vs2"
        using protect_step [OF less.prems(1-5) a(2,4) d(1-3) room] by blast
      have step: "protect_apply env ops prot e vs m c = protect_apply env ops prot e vs2 m2 d"
        using True k a(2) s by (subst protect_apply.simps) (simp add: d_def [symmetric])
      have inv2: "vs_inv vs2" using pr by (simp add: protected_def)
      have u2: "\<forall>v \<in> vma_pages (vs_vmas vs2). user_vpn v" using less.prems(3) protected_pages [OF pr] by simp
      have up2: "\<forall>v. d \<le> v \<and> v < e \<longrightarrow> user_page vs2 v"
        using less.prems(6) protected_user_page [OF pr less.prems(5)] d(2) by simp
      have lt: "e - d < e - c" using d True by simp
      from less.hyps [OF lt inv2 p2(1) u2 protected_consistent [OF pr less.prems(4)] less.prems(5) up2 d(4)]
      obtain r d' vs' m' where r: "protect_apply env ops prot e vs2 m2 d = Some (r, vs', m')" "pt_inv (um_page_table m')"
        "d \<le> d'" "d' \<le> e" "r = Inr () \<longrightarrow> d' = e" "\<forall>err. r = Inl err \<longrightarrow> err = ENOMEM \<and> \<not> map_room env vs2 (cut vs2 d + 1)"
        and pr2: "protected (view (um_page_table m2)) (um_gather m2) vs2 {d..<d'} prot (view (um_page_table m')) (um_gather m') vs'"
        by blast
      have "{c..<d} \<union> {d..<d'} = {c..<d'}" using d(2) r(3) by auto
      moreover have "\<not> map_room env vs (cut vs c + 1)" if "r = Inl err" for err
      proof -
        have "d < e" using r(1) that by (subst (asm) protect_apply.simps) (simp split: if_splits)
        then have "split_extra a c d = cut vs c"
          using cut_area [OF wf a(1,3)] by (auto simp: split_extra_def d_def split: if_splits)
        then show ?thesis using r(6) that p2(2,3) by (simp add: map_room_def)
      qed
      ultimately show ?thesis using protected_trans [OF pr pr2] step r d(2)
        by (intro exI [of _ r] exI [of _ d'] exI [of _ vs'] exI [of _ m']) simp
    qed
  qed
qed

lemma protect_range_facts:
  assumes ok: "mm_ok pt_inv user_vpn view vs m" and prot: "flags_contains prot PERM_U" and se: "s \<le> e"
  shows "\<exists>r vs' m' d. protect_range env ops vs m s e prot = Some (r, vs', m') \<and>
    mm_ok pt_inv user_vpn view vs' m' \<and> s \<le> d \<and> d \<le> e \<and>
    protected (view (um_page_table m)) (um_gather m) vs {s..<d} prot
      (view (um_page_table m')) (um_gather m') vs' \<and>
    (case r of
       Inr _ \<Rightarrow> d = e \<and> (\<forall>v. s \<le> v \<and> v < e \<longrightarrow>
         user_page vs v \<and> may_protect prot (the (page_view (vs_vmas vs) v)))
     | Inl err \<Rightarrow> (d = s \<and> vs' = vs \<and> m' = m \<and> protect_refused vs prot {s..<e} err) \<or>
         (err = ENOMEM \<and> \<not> map_room env vs (cut vs s + 1)))"
proof -
  have h: "vs_inv vs" "pt_inv (um_page_table m)" "\<forall>v \<in> vma_pages (vs_vmas vs). user_vpn v"
    "mm_consistent (view (um_page_table m)) (vs_vmas vs)"
    using ok by (simp_all add: mm_ok_def)
  have wf: "areas_wf (vs_vmas vs)" using h(1) by (simp add: vs_inv_def)
  from protect_check_facts [OF wf, of prot e s] obtain c where c: "protect_check vs prot e s = Some c"
    and good: "c = Inr () \<longrightarrow> (\<forall>v. s \<le> v \<and> v < e \<longrightarrow> user_page vs v \<and> may_protect prot (the (page_view (vs_vmas vs) v)))"
    and bad: "\<forall>err. c = Inl err \<longrightarrow> protect_refused vs prot {s..<e} err" by blast
  show ?thesis
  proof (cases c)
    case (Inl err)
    then have "protect_range env ops vs m s e prot = Some (Inl err, vs, m)"
      using c by (simp add: protect_range_def)
    with Inl bad ok se protected_none [OF h(1)] show ?thesis
      by (intro exI [of _ "Inl err"] exI [of _ vs] exI [of _ m] exI [of _ s]) simp
  next
    case (Inr x)
    then have up: "\<forall>v. s \<le> v \<and> v < e \<longrightarrow> user_page vs v" using good by simp
    from protect_apply_facts [OF h prot up se, of env] obtain r d vs' m'
      where a: "protect_apply env ops prot e vs m s = Some (r, vs', m')" "pt_inv (um_page_table m')" "s \<le> d" "d \<le> e"
        and pr: "protected (view (um_page_table m)) (um_gather m) vs {s..<d} prot (view (um_page_table m')) (um_gather m') vs'"
        and r: "r = Inr () \<longrightarrow> d = e" "\<forall>err. r = Inl err \<longrightarrow> err = ENOMEM \<and> \<not> map_room env vs (cut vs s + 1)" by blast
    have ok': "mm_ok pt_inv user_vpn view vs' m'"
      using a(2) h(3) pr protected_pages [OF pr] protected_consistent [OF pr h(4)] unfolding mm_ok_def protected_def by simp
    have "protect_range env ops vs m s e prot = Some (r, vs', m')"
      using c a(1) Inr by (simp add: protect_range_def)
    then show ?thesis using ok' a(3,4) pr r good Inr
      by (intro exI [of _ r] exI [of _ vs'] exI [of _ m'] exI [of _ d]) (simp split: sum.splits)
  qed
qed

end

end
