(* ===== verification/Advise.thy ===== *)
theory Advise
  imports Protect
begin

text \<open>
  Advice on a range (\<open>advise_range\<close>): what every advice does to a page, that the loop ends, and
  that \<open>MADV_DONTNEED\<close> removes the translations of the discarded pages, queues their frames
  and has the pages flushed.
\<close>

section \<open>The meaning of an advice for one page\<close>

definition anon_private :: "page_attrs \<Rightarrow> bool" where
  "anon_private x \<longleftrightarrow> pa_file x = None \<and> flags_contains (pa_flags x) MAP_PRIVATE"

definition advised_page :: "usize \<Rightarrow> page_attrs \<Rightarrow> page_attrs" where
  "advised_page advice x =
     (if advice = MADV_DONTNEED
      then if anon_private x \<and> is_in_memory (pa_frame x) then x\<lparr>pa_frame := Unallocated\<rparr> else x
      else if advice = MADV_DONTFORK \<or> advice = MADV_DOFORK then x\<lparr>pa_dont_fork := (advice = MADV_DONTFORK)\<rparr>
      else if advice = MADV_WIPEONFORK \<or> advice = MADV_KEEPONFORK
      then x\<lparr>pa_wipe_on_fork := (advice = MADV_WIPEONFORK)\<rparr>
      else x)"

text \<open>Advices some pages do not accept.\<close>

definition advice_ok :: "usize \<Rightarrow> page_attrs \<Rightarrow> bool" where
  "advice_ok advice x \<longleftrightarrow>
     ((advice = MADV_FREE \<or> advice = MADV_WIPEONFORK) \<longrightarrow>
        pa_file x = None \<and> flags_contains (pa_flags x) (MAP_PRIVATE OR MAP_ANONYMOUS) \<and>
        \<not> flags_contains (pa_flags x) MAP_SHARED) \<and>
     ((advice = MADV_MERGEABLE \<or> advice = MADV_UNMERGEABLE) \<longrightarrow> flags_contains (pa_perm x) PERM_W)"

text \<open>Advices that set an attribute of the area, and so split it.\<close>

definition split_advice :: "usize \<Rightarrow> bool" where
  "split_advice advice \<longleftrightarrow>
     advice = MADV_DONTFORK \<or> advice = MADV_DOFORK \<or> advice = MADV_WIPEONFORK \<or> advice = MADV_KEEPONFORK"

definition discarded :: "VmaSet \<Rightarrow> usize \<Rightarrow> vpn set \<Rightarrow> vpn set" where
  "discarded vs advice P =
     {v \<in> P. advice = MADV_DONTNEED \<and> (\<exists>x. page_view (vs_vmas vs) v = Some x \<and> anon_private x)}"

definition advised ::
  "(vpn \<Rightarrow> (ppn \<times> MapPermission) option) \<Rightarrow> MmuGather \<Rightarrow> VmaSet \<Rightarrow> vpn set \<Rightarrow> usize \<Rightarrow>
     (vpn \<Rightarrow> (ppn \<times> MapPermission) option) \<Rightarrow> MmuGather \<Rightarrow> VmaSet \<Rightarrow> bool" where
  "advised w g vs P advice w' g' vs' \<longleftrightarrow>
     vs_inv vs' \<and> vs_owner vs' = vs_owner vs \<and>
     page_view (vs_vmas vs') =
       (\<lambda>v. if v \<in> P then map_option (advised_page advice) (page_view (vs_vmas vs) v) else page_view (vs_vmas vs) v) \<and>
     removed w g (discarded vs advice P) w' g'"

lemma advised_none: "vs_inv vs \<Longrightarrow> advised w g vs {} advice w g vs"
  by (simp add: advised_def discarded_def removed_none)

lemma advised_pages: "advised w g vs P advice w' g' vs' \<Longrightarrow> vma_pages (vs_vmas vs') = vma_pages (vs_vmas vs)"
  unfolding vma_pages_view by (simp add: advised_def)

lemma advised_trans:
  assumes a: "advised w g vs P advice w1 g1 vs1" and b: "advised w1 g1 vs1 Q advice w2 g2 vs2"
    and dis: "P \<inter> Q = {}" and fin: "finite P" "finite Q"
  shows "advised w g vs (P \<union> Q) advice w2 g2 vs2"
proof -
  have pv: "page_view (vs_vmas vs1) v = page_view (vs_vmas vs) v" if "v \<in> Q" for v
    using a dis that by (auto simp: advised_def)
  have D: "discarded vs1 advice Q = discarded vs advice Q" using pv by (auto simp: discarded_def)
  have U: "discarded vs advice P \<union> discarded vs advice Q = discarded vs advice (P \<union> Q)" by (auto simp: discarded_def)
  have sub: "discarded vs advice P \<subseteq> P" "discarded vs advice Q \<subseteq> Q" unfolding discarded_def by simp_all
  have dd: "discarded vs advice P \<inter> discarded vs advice Q = {}" using sub dis by blast
  have "removed w g (discarded vs advice P) w1 g1" "removed w1 g1 (discarded vs advice Q) w2 g2"
    using a b unfolding advised_def D by blast+
  note rt = removed_trans [OF dd finite_subset [OF sub(1) fin(1)] finite_subset [OF sub(2) fin(2)] this]
  have "page_view (vs_vmas vs2) v =
      (if v \<in> P \<union> Q then map_option (advised_page advice) (page_view (vs_vmas vs) v) else page_view (vs_vmas vs) v)" for v
    using a b dis by (auto simp: advised_def disjoint_iff)
  moreover have "vs_inv vs2" "vs_owner vs2 = vs_owner vs" using a b unfolding advised_def by simp_all
  ultimately show ?thesis using rt unfolding advised_def U by blast
qed

lemma advised_page_perm [simp]: "pa_perm (advised_page advice x) = pa_perm x"
  by (simp add: advised_page_def)

lemma advised_user_page:
  assumes "advised w g vs P advice w' g' vs'"
  shows "user_page vs' v \<longleftrightarrow> user_page vs v"
proof -
  have "page_view (vs_vmas vs') v = (if v \<in> P then map_option (advised_page advice) (page_view (vs_vmas vs) v)
      else page_view (vs_vmas vs) v)"
    using assms unfolding advised_def by meson
  then show ?thesis unfolding user_page_def by (cases "page_view (vs_vmas vs) v") auto
qed

lemma advised_consistent:
  assumes "advised w g vs P advice w' g' vs'" and "mm_consistent w (vs_vmas vs)"
  shows "mm_consistent w' (vs_vmas vs')"
  unfolding mm_consistent_def
proof (intro allI impI)
  fix v x p perm
  assume x: "page_view (vs_vmas vs') v = Some x" and w': "w' v = Some (p, perm)"
  have w: "w v = Some (p, perm)" "v \<notin> discarded vs advice P"
    using assms(1) w' by (auto simp: advised_def removed_def split: if_splits)
  obtain y where y: "page_view (vs_vmas vs) v = Some y" "x = y \<or> x = advised_page advice y \<and> v \<in> P"
    using assms(1) x by (auto simp: advised_def split: if_splits)
  then have f: "pa_frame y = InMemory p" "flags_contains (pa_perm y) perm"
    using assms(2) w(1) by (auto simp: mm_consistent_def)
  have "v \<in> P \<Longrightarrow> \<not> (advice = MADV_DONTNEED \<and> anon_private y)" using w(2) y(1) by (auto simp: discarded_def)
  then show "pa_frame x = InMemory p \<and> flags_contains (pa_perm x) perm"
    using y(2) f by (auto simp: advised_page_def)
qed

section \<open>One area\<close>

lemma advise_split_facts:
  assumes inv: "vs_inv vs" and k: "bt_get (vs_vmas vs) k = Some a" and se: "vm_start a \<le> c" "c < d" "d \<le> vm_end a"
    and room: "map_room env vs (split_extra a c d)"
    and upd: "\<And>b. vma_wf b \<Longrightarrow> vma_wf (upd b)" "\<And>b. vm_start (upd b) = vm_start b" "\<And>b. vm_end (upd b) = vm_end b"
      "\<And>b. vm_is_user (upd b) = vm_is_user b" "\<And>b. rmap_from_vma (upd b) = rmap_from_vma b"
    and attr: "\<And>b v. area_view (upd b) v = f (area_view b v)"
  shows "\<exists>vs'. advise_split env vs k c d upd = (Inr (), vs') \<and> vs_inv vs' \<and> vs_owner vs' = vs_owner vs \<and>
    page_view (vs_vmas vs') = (\<lambda>v. if v \<in> {c..<d} then map_option f (page_view (vs_vmas vs) v) else page_view (vs_vmas vs) v)"
proof -
  obtain vs1 where sp: "split_for_range env vs k c d = (Inr c, vs1)"
    and sr: "split_result vs c d (vm_is_user a) (split_extra a c d) c vs1"
    using split_for_range_room [OF inv k se room] by auto
  then obtain b where b: "bt_get (vs_vmas vs1) c = Some b" "vm_start b = c" "vm_end b = d"
    and inv1: "vs_inv vs1" and pv1: "page_view (vs_vmas vs1) = page_view (vs_vmas vs)"
    and ow: "vs_owner vs1 = vs_owner vs" by (auto simp: split_result_def)
  have wf1: "areas_wf (vs_vmas vs1)" using inv1 by (simp add: vs_inv_def)
  have cb: "(c, b) \<in> set (vs_vmas vs1)" using b(1) bt_get_iff [OF areas_wf_bt [OF wf1]] by blast
  have bw: "vma_wf b" by (rule areas_wf_entry(2) [OF wf1 cb])
  note up = update_area_facts [OF inv1 b(1) upd(1) [OF bw] upd(2-5)]
  have bp: "area_pages b = {c..<d}" using b by (simp add: area_pages_def)
  have "page_view (vs_vmas (update_area vs1 c (upd b))) =
      (\<lambda>v. if v \<in> {c..<d} then map_option f (page_view (vs_vmas vs) v) else page_view (vs_vmas vs) v)"
    unfolding up(2) bp using page_view_Some [OF wf1 cb] by (auto simp: fun_eq_iff bp attr pv1 [symmetric])
  with sp b(1) up(1) ow show ?thesis by (simp add: advise_split_def)
qed

lemma advised_page_cases:
  "advice = MADV_DONTFORK \<or> advice = MADV_DOFORK \<Longrightarrow> advised_page advice = pa_dont_fork_update (\<lambda>_. advice = MADV_DONTFORK)"
  "advice = MADV_WIPEONFORK \<or> advice = MADV_KEEPONFORK \<Longrightarrow> advised_page advice = pa_wipe_on_fork_update (\<lambda>_. advice = MADV_WIPEONFORK)"
  by (auto simp: advised_page_def fun_eq_iff madv_defs)

lemma advice_ok_area:
  "advice = MADV_FREE \<or> advice = MADV_WIPEONFORK \<Longrightarrow> advice_ok advice (area_view a v) \<longleftrightarrow> is_anonymous_private a"
  "advice = MADV_MERGEABLE \<or> advice = MADV_UNMERGEABLE \<Longrightarrow>
     advice_ok advice (area_view a v) \<longleftrightarrow> flags_contains (vma_map_perm a) PERM_W"
  "advice \<notin> {MADV_FREE, MADV_WIPEONFORK, MADV_MERGEABLE, MADV_UNMERGEABLE} \<Longrightarrow> advice_ok advice (area_view a v)"
  by (auto simp: advice_ok_def area_view_def is_anonymous_private_def madv_defs)

lemma anon_private_area: "anon_private (area_view a v) \<longleftrightarrow> vma_map_file a = None \<and> flags_contains (vma_flags a) MAP_PRIVATE"
  by (simp add: anon_private_def area_view_def)

text \<open>What one round of the loop may do.\<close>

definition advise_outcome ::
  "mm_env \<Rightarrow> ('pt \<Rightarrow> bool) \<Rightarrow> ('pt \<Rightarrow> vpn \<Rightarrow> (ppn \<times> MapPermission) option) \<Rightarrow> usize \<Rightarrow> VmaSet \<Rightarrow> 'pt UserMapper \<Rightarrow>
     Vma \<Rightarrow> vpn set \<Rightarrow> errno + unit \<Rightarrow> VmaSet \<Rightarrow> 'pt UserMapper \<Rightarrow> bool" where
  "advise_outcome env pt_inv view advice vs m a P r vs' m' \<longleftrightarrow>
     pt_inv (um_page_table m') \<and>
     (case r of
        Inr _ \<Rightarrow> (\<forall>v. advice_ok advice (area_view a v)) \<and>
          advised (view (um_page_table m)) (um_gather m) vs P advice (view (um_page_table m')) (um_gather m') vs'
      | Inl err \<Rightarrow> vs' = vs \<and> m' = m \<and>
          (err = EINVAL \<and> (\<forall>v. \<not> advice_ok advice (area_view a v)) \<or> err = ENOMEM \<and> split_advice advice \<and> \<not> map_room env vs 2))"

lemma advised_unchanged:
  assumes "vs_inv vs" and "\<And>v x. v \<in> P \<Longrightarrow> page_view (vs_vmas vs) v = Some x \<Longrightarrow> advised_page advice x = x"
    and "discarded vs advice P = {}"
  shows "advised w g vs P advice w g vs"
proof -
  have "map_option (advised_page advice) (page_view (vs_vmas vs) v) = page_view (vs_vmas vs) v" if "v \<in> P" for v
    using assms(2) [OF that] by (cases "page_view (vs_vmas vs) v") auto
  then show ?thesis using assms(1,3) by (simp add: advised_def removed_none fun_eq_iff)
qed

lemma advised_nothing:
  assumes "vs_inv vs" and "advice \<notin> {MADV_DONTNEED, MADV_DONTFORK, MADV_DOFORK, MADV_WIPEONFORK, MADV_KEEPONFORK}"
  shows "advised w g vs P advice w g vs"
  by (rule advised_unchanged [OF assms(1)]) (use assms(2) in \<open>simp_all add: advised_page_def discarded_def\<close>)

context page_table
begin

lemma discard_area:
  assumes inv: "vs_inv vs" and pt: "pt_inv (um_page_table m)" and u: "\<forall>v \<in> vma_pages (vs_vmas vs). user_vpn v"
    and con: "mm_consistent (view (um_page_table m)) (vs_vmas vs)" and res: "\<forall>n. env_reserve env n"
    and k: "bt_get (vs_vmas vs) k = Some a" and se: "vm_start a \<le> c" "c < d" "d \<le> vm_end a"
    and ap: "vma_map_file a = None" "flags_contains (vma_flags a) MAP_PRIVATE"
  shows "\<exists>a' m'. discard_range env ops a m c d = Some (Inr (), a', m') \<and> pt_inv (um_page_table m') \<and>
    advised (view (um_page_table m)) (um_gather m) vs {c..<d} MADV_DONTNEED
      (view (um_page_table m')) (um_gather m') (update_area vs k a')"
proof -
  have wf: "areas_wf (vs_vmas vs)" and ka: "(k, a) \<in> set (vs_vmas vs)"
    using inv k bt_get_iff [of "vs_vmas vs" k a] by (auto simp: vs_inv_def)
  have aw: "vma_wf a" by (rule areas_wf_entry(2) [OF wf ka])
  then have sw: "store_wf (vma_inner a)" by (simp add: vma_wf_def)
  have ua: "\<forall>v \<in> area_pages a. user_vpn v" using u area_pages_subset [OF ka] by blast
  have mx: "d \<le> USIZE_MAX" "c \<le> d" using aw se by (auto simp: vma_wf_def MAX_VPN_def USIZE_MAX_def)
  obtain s m' where e: "evict_loop env ops d c a m = Some (Inr (), a\<lparr>vma_inner := s\<rparr>, m')" "pt_inv (um_page_table m')"
    and s: "store_wf s" "st_range s = st_range (vma_inner a)"
      "page_frame s = (\<lambda>v. if c \<le> v \<and> v < d \<and> is_in_memory (page_frame (vma_inner a) v)
                        then Unallocated else page_frame (vma_inner a) v)"
    and ev: "evicted (view (um_page_table m)) (um_gather m) c d (view (um_page_table m')) (um_gather m')"
    using evict_loop_facts [OF sw pt ua mm_consistent_ptes_ok [OF wf con ka] res se(1) mx(2) se(3) mx(1)] by blast
  let ?a = "a\<lparr>vma_inner := s\<rparr>"
  have same: "vm_start ?a = vm_start a" "vm_end ?a = vm_end a" "vm_is_user ?a = vm_is_user a"
    "rmap_from_vma ?a = rmap_from_vma a"
    using s(2) ap by (simp_all add: vm_start_def vm_end_def st_start_def st_end_def vm_is_user_def rmap_from_vma_def)
  have "vma_wf ?a" using aw s(1) same by (simp add: vma_wf_def)
  note up = update_area_facts [OF inv k this same]
  have sub: "{c..<d} \<subseteq> area_pages a" using se by (auto simp: area_pages_def)
  have view: "page_view (vs_vmas (update_area vs k ?a)) v =
      (if v \<in> {c..<d} then map_option (advised_page MADV_DONTNEED) (page_view (vs_vmas vs) v) else page_view (vs_vmas vs) v)" for v
    unfolding up(2) using page_view_Some [OF wf ka, of v] sub ap same(1)
    by (auto simp: area_view_def advised_page_def anon_private_def s(3) subset_iff)
  have "discarded vs MADV_DONTNEED {c..<d} = {c..<d}"
    using page_view_Some [OF wf ka] sub ap unfolding discarded_def by (auto simp: anon_private_area)
  with evicted_removed [OF ev] up(1) view
  have "advised (view (um_page_table m)) (um_gather m) vs {c..<d} MADV_DONTNEED
      (view (um_page_table m')) (um_gather m') (update_area vs k ?a)"
    unfolding advised_def by (simp add: fun_eq_iff)
  with e se show ?thesis by (simp add: discard_range_def)
qed

end

lemma advise_split_outcome:
  assumes inv: "vs_inv vs" and pt: "pt_inv (um_page_table m)" and k: "bt_get (vs_vmas vs) k = Some a"
    and se: "vm_start a \<le> c" "c < d" "d \<le> vm_end a" and ok: "\<And>v. advice_ok advice (area_view a v)"
    and upd: "\<And>b. vma_wf b \<Longrightarrow> vma_wf (upd b)" "\<And>b. vm_start (upd b) = vm_start b" "\<And>b. vm_end (upd b) = vm_end b"
      "\<And>b. vm_is_user (upd b) = vm_is_user b" "\<And>b. rmap_from_vma (upd b) = rmap_from_vma b"
    and attr: "\<And>b v. area_view (upd b) v = advised_page advice (area_view b v)" and nd: "advice \<noteq> MADV_DONTNEED"
    and sa: "split_advice advice"
  shows "advise_outcome env pt_inv view advice vs m a {c..<d}
    (fst (advise_split env vs k c d upd)) (snd (advise_split env vs k c d upd)) m"
proof (cases "map_room env vs (split_extra a c d)")
  case True
  from advise_split_facts [OF inv k se True upd attr] pt ok nd show ?thesis
    by (auto simp: advise_outcome_def advised_def discarded_def removed_none)
next
  case False
  then have "\<not> map_room env vs 2" using map_room_mono [of env vs 2] split_extra_le by blast
  with split_for_range_no_room [OF k se False] pt sa show ?thesis
    by (simp add: advise_split_def advise_outcome_def)
qed

lemma advise_outcome_same:
  assumes "pt_inv (um_page_table m)" and "\<And>v. advice_ok advice (area_view a v) \<longleftrightarrow> ok"
    and "advised (view (um_page_table m)) (um_gather m) vs P advice (view (um_page_table m)) (um_gather m) vs"
  shows "advise_outcome env pt_inv view advice vs m a P (if ok then Inr () else Inl EINVAL) vs m"
  using assms by (cases ok) (simp_all add: advise_outcome_def)

lemma advise_area_eqs:
  "advise_area env ops MADV_FREE k c d a vs m = Some (if is_anonymous_private a then Inr () else Inl EINVAL, vs, m)"
  "advice = MADV_MERGEABLE \<or> advice = MADV_UNMERGEABLE \<Longrightarrow>
     advise_area env ops advice k c d a vs m = Some (if flags_contains (vma_map_perm a) PERM_W then Inr () else Inl EINVAL, vs, m)"
  "advice = MADV_DONTFORK \<or> advice = MADV_DOFORK \<Longrightarrow>
     advise_area env ops advice k c d a vs m =
       (let x = advise_split env vs k c d (\<lambda>a. a\<lparr>vma_dont_fork := (advice = MADV_DONTFORK)\<rparr>) in Some (fst x, snd x, m))"
  "advice = MADV_WIPEONFORK \<or> advice = MADV_KEEPONFORK \<Longrightarrow> \<not> (advice = MADV_WIPEONFORK \<and> \<not> is_anonymous_private a) \<Longrightarrow>
     advise_area env ops advice k c d a vs m =
       (let x = advise_split env vs k c d (\<lambda>a. a\<lparr>vma_wipe_on_fork := (advice = MADV_WIPEONFORK)\<rparr>) in Some (fst x, snd x, m))"
  "\<not> is_anonymous_private a \<Longrightarrow> advise_area env ops MADV_WIPEONFORK k c d a vs m = Some (Inl EINVAL, vs, m)"
  by (auto simp: advise_area_def madv_defs split: prod.splits)

context page_table
begin

lemma advise_area_facts:
  assumes inv: "vs_inv vs" and pt: "pt_inv (um_page_table m)" and u: "\<forall>v \<in> vma_pages (vs_vmas vs). user_vpn v"
    and con: "mm_consistent (view (um_page_table m)) (vs_vmas vs)" and res: "\<forall>n. env_reserve env n"
    and k: "bt_get (vs_vmas vs) k = Some a" and se: "vm_start a \<le> c" "c < d" "d \<le> vm_end a"
  shows "\<exists>r vs' m'. advise_area env ops advice k c d a vs m = Some (r, vs', m') \<and>
    advise_outcome env pt_inv view advice vs m a {c..<d} r vs' m'"
proof -
  have wf: "areas_wf (vs_vmas vs)" and ka: "(k, a) \<in> set (vs_vmas vs)"
    using inv k bt_get_iff [of "vs_vmas vs" k a] by (auto simp: vs_inv_def)
  have pv: "page_view (vs_vmas vs) v = Some (area_view a v)" if "v \<in> {c..<d}" for v
    using that se by (intro page_view_Some [OF wf ka]) (auto simp: area_pages_def)
  let ?same = "advised (view (um_page_table m)) (um_gather m) vs {c..<d} advice (view (um_page_table m)) (um_gather m) vs"
  consider (need) "advice = MADV_DONTNEED" | (free) "advice = MADV_FREE"
    | (merge) "advice = MADV_MERGEABLE \<or> advice = MADV_UNMERGEABLE"
    | (fork) "advice = MADV_DONTFORK \<or> advice = MADV_DOFORK"
    | (wipe) "advice = MADV_WIPEONFORK \<or> advice = MADV_KEEPONFORK"
    | (other) "advice \<notin> {MADV_DONTNEED, MADV_FREE, MADV_MERGEABLE, MADV_UNMERGEABLE, MADV_DONTFORK, MADV_DOFORK,
         MADV_WIPEONFORK, MADV_KEEPONFORK}" by blast
  then show ?thesis
  proof cases
    case need
    have ok: "advice_ok advice (area_view a v)" for v by (rule advice_ok_area(3)) (simp add: need madv_defs)
    show ?thesis
    proof (cases "vma_map_file a = None \<and> flags_contains (vma_flags a) MAP_PRIVATE")
      case True
      from discard_area [OF inv pt u con res k se conjunct1 [OF True] conjunct2 [OF True]] obtain a' m' where
        "discard_range env ops a m c d = Some (Inr (), a', m')" "pt_inv (um_page_table m')"
        "advised (view (um_page_table m)) (um_gather m) vs {c..<d} MADV_DONTNEED
           (view (um_page_table m')) (um_gather m') (update_area vs k a')" by blast
      with True ok need show ?thesis by (simp add: advise_area_def advise_outcome_def)
    next
      case False
      have ?same by (rule advised_unchanged [OF inv])
        (use False pv in \<open>auto simp: advised_page_def need discarded_def anon_private_area\<close>)
      moreover have "advise_area env ops advice k c d a vs m = Some (Inr (), vs, m)"
        using False need by (simp only: advise_area_def if_True if_False simp_thms)
      ultimately show ?thesis using ok pt by (simp add: advise_outcome_def)
    qed
  next
    case free
    have "?same" by (rule advised_nothing [OF inv]) (simp add: free madv_defs)
    then have "advise_outcome env pt_inv view advice vs m a {c..<d} (if is_anonymous_private a then Inr () else Inl EINVAL) vs m"
      by (intro advise_outcome_same pt advice_ok_area(1)) (simp_all add: free)
    moreover note advise_area_eqs(1) [of env ops k c d a vs m, folded free]
    ultimately show ?thesis by (intro exI conjI)
  next
    case merge
    have "?same" by (rule advised_nothing [OF inv]) (use merge in \<open>elim disjE; simp add: madv_defs\<close>)
    then have "advise_outcome env pt_inv view advice vs m a {c..<d}
        (if flags_contains (vma_map_perm a) PERM_W then Inr () else Inl EINVAL) vs m"
      by (intro advise_outcome_same pt advice_ok_area(2) merge)
    moreover note advise_area_eqs(2) [OF merge, of env ops k c d a vs m]
    ultimately show ?thesis by (intro exI conjI)
  next
    case fork
    have ok: "advice_ok advice (area_view a v)" for v by (rule advice_ok_area(3)) (use fork in \<open>auto simp: madv_defs\<close>)
    have "advise_outcome env pt_inv view advice vs m a {c..<d}
        (fst (advise_split env vs k c d (\<lambda>a. a\<lparr>vma_dont_fork := (advice = MADV_DONTFORK)\<rparr>)))
        (snd (advise_split env vs k c d (\<lambda>a. a\<lparr>vma_dont_fork := (advice = MADV_DONTFORK)\<rparr>))) m"
      by (rule advise_split_outcome [of _ pt_inv, OF inv pt k se ok])
        (use fork advised_page_cases(1) [OF fork] in \<open>auto simp: vma_wf_def vm_start_def vm_end_def vm_is_user_def
          rmap_from_vma_def area_view_def madv_defs split_advice_def\<close>)
    moreover note advise_area_eqs(3) [OF fork, of env ops k c d a vs m, unfolded Let_def]
    ultimately show ?thesis by (intro exI conjI)
  next
    case wipe
    show ?thesis
    proof (cases "advice = MADV_WIPEONFORK \<and> \<not> is_anonymous_private a")
      case True
      then have "advise_outcome env pt_inv view advice vs m a {c..<d} (Inl EINVAL) vs m"
        using pt advice_ok_area(1) [of advice a] by (simp add: advise_outcome_def)
      moreover have "advise_area env ops advice k c d a vs m = Some (Inl EINVAL, vs, m)"
        unfolding conjunct1 [OF True] by (rule advise_area_eqs(5) [OF conjunct2 [OF True]])
      ultimately show ?thesis by (intro exI conjI)
    next
      case False
      have ok: "advice_ok advice (area_view a v)" for v
        using False wipe advice_ok_area(1,3) [of advice a v] by (auto simp: madv_defs)
      have "advise_outcome env pt_inv view advice vs m a {c..<d}
          (fst (advise_split env vs k c d (\<lambda>a. a\<lparr>vma_wipe_on_fork := (advice = MADV_WIPEONFORK)\<rparr>)))
          (snd (advise_split env vs k c d (\<lambda>a. a\<lparr>vma_wipe_on_fork := (advice = MADV_WIPEONFORK)\<rparr>))) m"
        by (rule advise_split_outcome [of _ pt_inv, OF inv pt k se ok])
          (use wipe advised_page_cases(2) [OF wipe] in \<open>auto simp: vma_wf_def vm_start_def vm_end_def vm_is_user_def
            rmap_from_vma_def area_view_def madv_defs split_advice_def\<close>)
      moreover note advise_area_eqs(4) [OF wipe False, of env ops k c d vs m, unfolded Let_def]
      ultimately show ?thesis by (intro exI conjI)
    qed
  next
    case other
    have ok: "advice_ok advice (area_view a v)" for v by (rule advice_ok_area(3)) (use other in auto)
    have "?same" by (rule advised_nothing [OF inv]) (use other in simp)
    with other pt ok show ?thesis by (simp add: advise_area_def advise_outcome_def)
  qed
qed

end

section \<open>The whole range\<close>

definition advise_refused :: "mm_env \<Rightarrow> usize \<Rightarrow> VmaSet \<Rightarrow> vpn set \<Rightarrow> errno \<Rightarrow> bool" where
  "advise_refused env advice vs P err \<longleftrightarrow>
     (err = ENOMEM \<and> ((\<exists>v \<in> P. \<not> user_page vs v) \<or> split_advice advice \<and> \<not> map_room env vs 2)) \<or>
     (err = EINVAL \<and> (\<exists>v \<in> P. \<exists>x. page_view (vs_vmas vs) v = Some x \<and> \<not> advice_ok advice x))"

text \<open>The loop stops at the page \<open>d\<close>: everything before it is done, and \<open>d\<close> is the end or the page that was refused.\<close>

definition advise_result ::
  "mm_env \<Rightarrow> ('pt \<Rightarrow> bool) \<Rightarrow> ('pt \<Rightarrow> vpn \<Rightarrow> (ppn \<times> MapPermission) option) \<Rightarrow> usize \<Rightarrow> VmaSet \<Rightarrow> 'pt UserMapper \<Rightarrow>
     vpn \<Rightarrow> vpn \<Rightarrow> errno + unit \<Rightarrow> vpn \<Rightarrow> VmaSet \<Rightarrow> 'pt UserMapper \<Rightarrow> bool" where
  "advise_result env pt_inv view advice vs m c e r d vs' m' \<longleftrightarrow>
     pt_inv (um_page_table m') \<and> c \<le> d \<and> d \<le> e \<and>
     advised (view (um_page_table m)) (um_gather m) vs {c..<d} advice (view (um_page_table m')) (um_gather m') vs' \<and>
     (\<forall>v. c \<le> v \<and> v < d \<longrightarrow> user_page vs v) \<and>
     (case r of Inr _ \<Rightarrow> d = e | Inl err \<Rightarrow> d < e \<and> advise_refused env advice vs' {d} err)"

lemma advise_result_step:
  assumes a: "advised (view (um_page_table m)) (um_gather m) vs {c..<d} advice (view (um_page_table m1)) (um_gather m1) vs1"
    and u: "\<forall>v. c \<le> v \<and> v < d \<longrightarrow> user_page vs v" and d: "c < d"
    and r: "advise_result env pt_inv view advice vs1 m1 d e r d' vs' m'"
  shows "advise_result env pt_inv view advice vs m c e r d' vs' m'"
proof -
  have le: "d \<le> d'" using r by (simp add: advise_result_def)
  have "{c..<d} \<union> {d..<d'} = {c..<d'}" using d le by auto
  moreover have "advised (view (um_page_table m1)) (um_gather m1) vs1 {d..<d'} advice (view (um_page_table m')) (um_gather m') vs'"
    using r unfolding advise_result_def by blast
  from advised_trans [OF a this]
  have "advised (view (um_page_table m)) (um_gather m) vs ({c..<d} \<union> {d..<d'}) advice (view (um_page_table m')) (um_gather m') vs'"
    by simp
  moreover have "user_page vs v" if "c \<le> v" "v < d'" for v
    using u that r advised_user_page [OF a, of v] unfolding advise_result_def by (cases "v < d") auto
  ultimately show ?thesis using r d unfolding advise_result_def by simp
qed

context page_table
begin

lemma advise_range_facts:
  assumes "vs_inv vs" and "pt_inv (um_page_table m)" and "\<forall>v \<in> vma_pages (vs_vmas vs). user_vpn v"
    and "mm_consistent (view (um_page_table m)) (vs_vmas vs)" and "\<forall>n. env_reserve env n" and "c \<le> e"
  shows "\<exists>r d vs' m'. advise_range env ops advice e vs m c = Some (r, vs', m') \<and>
    advise_result env pt_inv view advice vs m c e r d vs' m'"
  using assms
proof (induction "e - c" arbitrary: c vs m rule: less_induct)
  case less
  have wf: "areas_wf (vs_vmas vs)" using less.prems(1) by (simp add: vs_inv_def)
  note none = advised_none [OF less.prems(1), of "view (um_page_table m)" "um_gather m" advice]
  have stop: "advise_result env pt_inv view advice vs m c e r c vs m"
    if "case r of Inr _ \<Rightarrow> c = e | Inl err \<Rightarrow> c < e \<and> advise_refused env advice vs {c} err" for r
    using that none less.prems(2,6) by (auto simp: advise_result_def)
  show ?case
  proof (cases "c < e \<and> user_page vs c")
    case False
    show ?thesis
    proof (cases "c < e")
      case True
      then have "advise_range env ops advice e vs m c = Some (Inl ENOMEM, vs, m)"
        using False find_user_vma_key_None [OF wf, of c] by (subst advise_range.simps) simp
      with stop [of "Inl ENOMEM"] False True show ?thesis by (auto simp: advise_refused_def)
    next
      case ge: False
      then have "advise_range env ops advice e vs m c = Some (Inr (), vs, m)" by (subst advise_range.simps) simp
      with stop [of "Inr ()"] ge less.prems(6) show ?thesis by fastforce
    qed
  next
    case True
    then obtain k a where k: "find_user_vma_key vs c = Some k" and a: "(k, a) \<in> set (vs_vmas vs)"
      "bt_get (vs_vmas vs) k = Some a" "c \<in> area_pages a" "vm_is_user a"
      using user_page_area [OF wf] by blast
    define d where "d = (if vm_end a < e then vm_end a else e)"
    have d: "vm_start a \<le> c" "c < d" "d \<le> vm_end a" "d \<le> e" using a(3) True by (auto simp: area_pages_def d_def)
    have pv: "page_view (vs_vmas vs) v = Some (area_view a v)" if "c \<le> v" "v < d" for v
      using that d by (intro page_view_Some [OF wf a(1)]) (auto simp: area_pages_def)
    obtain r vs1 m1 where ar: "advise_area env ops advice k c d a vs m = Some (r, vs1, m1)"
      and o: "advise_outcome env pt_inv view advice vs m a {c..<d} r vs1 m1"
      using advise_area_facts [OF less.prems(1-5) a(2) d(1-3)] by blast
    have unf: "advise_range env ops advice e vs m c =
        (case r of Inl err \<Rightarrow> Some (Inl err, vs1, m1) | Inr _ \<Rightarrow> advise_range env ops advice e vs1 m1 d)"
      using True k a(2) ar by (subst advise_range.simps) (simp add: d_def [symmetric] split: sum.splits)
    show ?thesis
    proof (cases r)
      case (Inl err)
      then have "vs1 = vs" "m1 = m" "advise_refused env advice vs {c} err"
        using o pv [of c] d(2) by (auto simp: advise_outcome_def advise_refused_def)
      with Inl unf stop [of r] True show ?thesis by auto
    next
      case (Inr x)
      then have adv: "advised (view (um_page_table m)) (um_gather m) vs {c..<d} advice (view (um_page_table m1)) (um_gather m1) vs1"
        and p1: "pt_inv (um_page_table m1)" using o by (auto simp: advise_outcome_def)
      have lt: "e - d < e - c" using d True by auto
      have inv1: "vs_inv vs1" using adv unfolding advised_def by blast
      have u1: "\<forall>v \<in> vma_pages (vs_vmas vs1). user_vpn v" using less.prems(3) advised_pages [OF adv] by simp
      obtain r2 d' vs' m' where r2: "advise_range env ops advice e vs1 m1 d = Some (r2, vs', m')"
        "advise_result env pt_inv view advice vs1 m1 d e r2 d' vs' m'"
        using less.hyps [OF lt inv1 p1 u1 advised_consistent [OF adv less.prems(4)] less.prems(5) d(4)] by blast
      have "\<forall>v. c \<le> v \<and> v < d \<longrightarrow> user_page vs v" using pv a(4) by (auto simp: user_page_def area_view_perm)
      from advise_result_step [OF adv this d(2) r2(2)] r2(1) unf Inr show ?thesis by auto
    qed
  qed
qed

lemma advise_range_ok:
  assumes ok: "mm_ok pt_inv user_vpn view vs m" and res: "\<forall>n. env_reserve env n" and se: "s \<le> e"
  shows "\<exists>r vs' m' d. advise_range env ops advice e vs m s = Some (r, vs', m') \<and>
    mm_ok pt_inv user_vpn view vs' m' \<and> s \<le> d \<and> d \<le> e \<and> (\<forall>v. s \<le> v \<and> v < d \<longrightarrow> user_page vs v) \<and>
    advised (view (um_page_table m)) (um_gather m) vs {s..<d} advice
      (view (um_page_table m')) (um_gather m') vs' \<and>
    (case r of Inr _ \<Rightarrow> d = e | Inl err \<Rightarrow> d < e \<and> advise_refused env advice vs' {d} err)"
proof -
  have h: "vs_inv vs" "pt_inv (um_page_table m)" "\<forall>v \<in> vma_pages (vs_vmas vs). user_vpn v"
    "mm_consistent (view (um_page_table m)) (vs_vmas vs)"
    using ok by (simp_all add: mm_ok_def)
  from advise_range_facts [OF h res se, of advice] obtain r d vs' m'
    where a: "advise_range env ops advice e vs m s = Some (r, vs', m')"
      and r: "advise_result env pt_inv view advice vs m s e r d vs' m'" by blast
  from r have adv: "advised (view (um_page_table m)) (um_gather m) vs {s..<d} advice
      (view (um_page_table m')) (um_gather m') vs'" by (simp add: advise_result_def)
  have "mm_ok pt_inv user_vpn view vs' m'"
    using r h(3) adv advised_pages [OF adv] advised_consistent [OF adv h(4)]
    unfolding mm_ok_def advise_result_def advised_def by simp
  with a r adv show ?thesis
    unfolding advise_result_def by (intro exI [of _ r] exI [of _ vs'] exI [of _ m'] exI [of _ d]) simp
qed

end

end
