(* ===== verification/MmapSearch.thy ===== *)
theory MmapSearch
  imports VmaSetInv
begin

text \<open>
  Choosing the address of a new mapping: \<open>find_free_mmap_range\<close> returns an aligned address
  whose pages are free exactly when there is one, for every power-of-two alignment.
\<close>

lemma and_not_mask_nat: "(w :: u64) AND NOT (mask k) = push_bit k (drop_bit k w)"
  by (rule bit_word_eqI) (auto simp: bit_simps)

lemma align_up_pow2:
  assumes k: "0 < k" "k < 64"
  shows "align_up v (2 ^ k) =
    (if v + (2 ^ k - 1) \<le> USIZE_MAX then Some ((v + (2 ^ k - 1)) div 2 ^ k * 2 ^ k) else None)"
proof -
  have big: "\<not> (2::nat) ^ k \<le> 1" using one_less_power [of "2::nat" k] k(1) by simp
  have m: "(word_of_nat (2 ^ k - 1) :: u64) = mask k" by (simp add: mask_eq_exp_minus_1 of_nat_diff)
  have r: "unat ((word_of_nat x :: u64) AND NOT (word_of_nat (2 ^ k - 1))) = x div 2 ^ k * 2 ^ k"
    if "x \<le> USIZE_MAX" for x
  proof -
    have "unat (push_bit k (drop_bit k (word_of_nat x :: u64))) = push_bit k (drop_bit k x) mod 2 ^ 64"
      by (simp add: unsigned_push_bit_eq unat_drop_bit_eq unat_u64_small [OF that] take_bit_eq_mod)
    also have "push_bit k (drop_bit k x) = x div 2 ^ k * 2 ^ k" by (simp add: push_bit_eq_mult drop_bit_eq_div)
    also have "x div 2 ^ k * 2 ^ k \<le> USIZE_MAX" using that div_times_less_eq_dividend [of x "2 ^ k"] by linarith
    then have "x div 2 ^ k * 2 ^ k mod 2 ^ 64 = x div 2 ^ k * 2 ^ k" by (simp add: USIZE_MAX_def)
    finally show ?thesis by (simp only: m and_not_mask_nat)
  qed
  show ?thesis
    by (cases "v + (2 ^ k - 1) \<le> USIZE_MAX")
      (simp_all only: align_up_def checked_add_def big if_False if_True option.map r)
qed

text \<open>The rounded address is the first aligned one.\<close>

lemma round_up_least:
  assumes "0 < (al::nat)" and "a mod al = 0" and "v \<le> a"
  shows "(v + (al - 1)) div al * al \<le> a"
proof -
  from assms(1,2) obtain q where "a = q * al" by (metis mod_0_imp_dvd dvd_def mult.commute)
  with assms(1,3) have "v + (al - 1) < (q + 1) * al" by simp
  then have "(v + (al - 1)) div al < q + 1" using assms(1) by (simp add: div_less_iff_less_mult)
  then have "(v + (al - 1)) div al \<le> q" by simp
  then show ?thesis unfolding \<open>a = q * al\<close> by (rule mult_le_mono1)
qed

lemma round_up_ge: "0 < (al::nat) \<Longrightarrow> v \<le> (v + (al - 1)) div al * al"
  using dividend_less_div_times [of al "v + (al - 1)"] by simp

text \<open>The pages of \<open>[a, a + len)\<close>, and when they lie in one hole.\<close>

definition byte_pages :: "addr \<Rightarrow> usize \<Rightarrow> vpn set" where
  "byte_pages a len = {va_floor a..<va_ceil (a + len)}"

lemma byte_pages_nonempty: "0 < len \<Longrightarrow> va_floor a < va_ceil (a + len)"
  by (auto simp: va_floor_def va_ceil_def PAGE_SIZE_def less_Suc_eq_le div_le_mono)

lemma holes_wf_sorted: "holes_wf hs \<Longrightarrow> sorted (map fst hs)"
  by (simp add: holes_wf_def bt_wf_def strict_sorted_iff)

lemma holes_wf_small: "holes_wf hs \<Longrightarrow> \<forall>(s, e) \<in> set hs. s < MAX_VPN \<and> e < MAX_VPN"
proof -
  assume "holes_wf hs"
  then have "\<forall>(s, e) \<in> set hs. s < arena_hi \<and> e \<le> arena_hi" unfolding holes_wf_def by fastforce
  moreover have "arena_hi < MAX_VPN"
    by (simp add: arena_hi_def mmap_bounds_def MAX_VPN_def va_floor_def MMAP_END_def PAGE_SIZE_def)
  ultimately show ?thesis by fastforce
qed

lemma byte_pages_in_range:
  assumes "0 < len"
  shows "byte_pages a len \<subseteq> {hs..<he} \<longleftrightarrow> hs * PAGE_SIZE \<le> a \<and> a + len \<le> he * PAGE_SIZE"
proof -
  have ne: "va_floor a < va_ceil (a + len)"
    using assms by (auto simp: va_floor_def va_ceil_def PAGE_SIZE_def less_Suc_eq_le div_le_mono)
  have "byte_pages a len \<subseteq> {hs..<he} \<longleftrightarrow> hs \<le> va_floor a \<and> va_ceil (a + len) \<le> he"
    using ne by (auto simp: byte_pages_def)
  moreover have "hs \<le> va_floor a \<longleftrightarrow> hs * PAGE_SIZE \<le> a"
    by (simp add: va_floor_def PAGE_SIZE_def less_eq_div_iff_mult_less_eq)
  ultimately show ?thesis by (simp add: va_ceil_least)
qed

text \<open>A run of free pages lies in one hole, because holes are separated.\<close>

lemma free_run_in_hole:
  assumes wf: "holes_wf hs" and ne: "s < e" and sub: "{s..<e} \<subseteq> hole_pages hs"
  obtains a b where "(a, b) \<in> set hs" and "a \<le> s" and "e \<le> b"
proof -
  have "s \<in> hole_pages hs" using ne sub by auto
  then obtain a b where h: "(a, b) \<in> set hs" "a \<le> s" "s < b" by (auto simp: hole_pages_def)
  have "e \<le> b"
  proof (rule ccontr)
    assume "\<not> e \<le> b"
    then have "b \<in> hole_pages hs" using sub h(3) by auto
    then obtain a' b' where h': "(a', b') \<in> set hs" "a' \<le> b" "b < b'" by (auto simp: hole_pages_def)
    show False
    proof (cases "a' = a")
      case True
      have "bt_wf hs" using wf by (simp add: holes_wf_def)
      with True h h' show False using bt_key_unique by fastforce
    next
      case False
      have "a < a' \<Longrightarrow> b < a'" "a' < a \<Longrightarrow> b' < a" using wf h(1) h'(1) by (auto simp: holes_wf_def)
      with False h h' show False by linarith
    qed
  qed
  with h that show thesis by blast
qed

lemma align_up_reaches:
  assumes k: "0 < k" "k < 64" and a: "a mod 2 ^ k = 0" "v \<le> a" "a \<le> USIZE_MAX"
  obtains r where "align_up v (2 ^ k) = Some r" and "r \<le> a"
proof -
  from a(1) obtain q where q: "a = 2 ^ k * q" by (metis mod_0_imp_dvd dvd_def)
  have p: "(2::nat) ^ 64 = 2 ^ k * 2 ^ (64 - k)" using k by (simp flip: power_add)
  have "a < 2 ^ 64" using a(3) by (simp add: USIZE_MAX_def)
  then have "q < 2 ^ (64 - k)" unfolding p q by simp
  then have "2 ^ k * (q + 1) \<le> 2 ^ k * 2 ^ (64 - k)" by (intro mult_le_mono2) simp
  then have "a + 2 ^ k \<le> 2 ^ 64" unfolding p q by simp
  moreover have "(0::nat) < 2 ^ k" by simp
  ultimately have "v + (2 ^ k - 1) \<le> USIZE_MAX" using a(2) by (simp add: USIZE_MAX_def)
  then show thesis
    using that align_up_pow2 [OF k, of v] round_up_least [OF _ a(1,2)] by simp
qed

definition fits :: "(vpn \<times> vpn) list \<Rightarrow> usize \<Rightarrow> usize \<Rightarrow> addr \<Rightarrow> bool" where
  "fits holes len al a \<longleftrightarrow> a mod al = 0 \<and> a + len \<le> USIZE_MAX \<and>
     (\<exists>(hs, he) \<in> set holes. byte_pages a len \<subseteq> {hs..<he})"

lemma find_free_loop_facts:
  assumes "\<forall>(hs, he) \<in> set holes. hs < MAX_VPN \<and> he < MAX_VPN" and "sorted (map fst holes)" and len: "0 < len"
    and k: "0 < k" "k < 64"
  shows "case find_free_loop len (2 ^ k) holes of
     Inr a \<Rightarrow> fits holes len (2 ^ k) a | Inl err \<Rightarrow> (\<forall>a. \<not> fits holes len (2 ^ k) a)"
  using assms(1,2)
proof (induction holes)
  case Nil
  then show ?case by (simp add: fits_def)
next
  case (Cons h holes)
  obtain hs he where h: "h = (hs, he)" by (cases h)
  have adr: "vpn_addr hs = hs * PAGE_SIZE" "vpn_addr he = he * PAGE_SIZE"
    using Cons.prems(1) h by (simp_all add: vpn_addr_small)
  have later: "hs * PAGE_SIZE \<le> a" if "fits (h # holes) len (2 ^ k) a" for a
  proof -
    from that obtain s e where se: "(s, e) \<in> set (h # holes)" "byte_pages a len \<subseteq> {s..<e}"
      unfolding fits_def by blast
    then have "hs \<le> s" using Cons.prems(2) h by auto
    moreover have "s * PAGE_SIZE \<le> a" using se(2) byte_pages_in_range [OF len] by blast
    ultimately show ?thesis by (meson le_trans mult_le_mono1)
  qed
  have reach: "\<exists>r. align_up (hs * PAGE_SIZE) (2 ^ k) = Some r \<and> r \<le> a" if "fits (h # holes) len (2 ^ k) a" for a
    using align_up_reaches [OF k _ later [OF that]] that unfolding fits_def by (metis add_leD1)
  show ?case
  proof (cases "align_up (hs * PAGE_SIZE) (2 ^ k)")
    case None
    then show ?thesis using reach by (simp add: h adr) (metis h)
  next
    case (Some r)
    have r: "hs * PAGE_SIZE \<le> r" "r mod 2 ^ k = 0"
      using Some align_up_pow2 [OF k, of "hs * PAGE_SIZE"] round_up_ge [of "2 ^ k" "hs * PAGE_SIZE"]
      by (auto split: if_splits)
    show ?thesis
    proof (cases "r + len \<le> USIZE_MAX")
      case False
      have "\<not> fits (h # holes) len (2 ^ k) a" for a
      proof
        assume f: "fits (h # holes) len (2 ^ k) a"
        with reach [OF f] Some False show "False" by (simp add: fits_def)
      qed
      then show ?thesis using Some False by (simp add: h adr checked_add_def)
    next
      case fit: True
      show ?thesis
      proof (cases "r + len \<le> he * PAGE_SIZE")
        case True
        then have "fits (h # holes) len (2 ^ k) r"
          using r fit byte_pages_in_range [OF len, of r hs he] by (simp add: fits_def h)
        then show ?thesis using Some fit True by (simp add: h adr checked_add_def)
      next
        case False
        have "fits holes len (2 ^ k) a" if f: "fits (h # holes) len (2 ^ k) a" for a
        proof -
          have "\<not> byte_pages a len \<subseteq> {hs..<he}"
            using reach [OF f] Some False unfolding byte_pages_in_range [OF len] by auto
          then show ?thesis using f by (simp add: fits_def h)
        qed
        then have "fits (h # holes) len (2 ^ k) a \<longleftrightarrow> fits holes len (2 ^ k) a" for a
          unfolding fits_def by (metis list.set_intros(2))
        then show ?thesis using Cons Some fit False by (simp add: h adr checked_add_def split: sum.splits)
      qed
    qed
  qed
qed

lemma fits_free:
  assumes wf: "holes_wf hs" and len: "0 < len"
  shows "fits hs len al a \<longleftrightarrow> a mod al = 0 \<and> a + len \<le> USIZE_MAX \<and> byte_pages a len \<subseteq> hole_pages hs"
proof -
  have ne: "va_floor a < va_ceil (a + len)" using len by (rule byte_pages_nonempty)
  have "(\<exists>(s, e) \<in> set hs. byte_pages a len \<subseteq> {s..<e}) \<longleftrightarrow> byte_pages a len \<subseteq> hole_pages hs" (is "?l = ?r")
  proof
    assume ?l
    then obtain s e where "(s, e) \<in> set hs" "byte_pages a len \<subseteq> {s..<e}" by blast
    then show ?r by (force simp: hole_pages_def)
  next
    assume ?r
    then obtain s e where "(s, e) \<in> set hs" "s \<le> va_floor a" "va_ceil (a + len) \<le> e"
      unfolding byte_pages_def using free_run_in_hole [OF wf ne] by blast
    then show ?l by (force simp: byte_pages_def)
  qed
  then show ?thesis by (simp only: fits_def)
qed

lemma find_free_loop_error: "find_free_loop len al holes = Inl err \<Longrightarrow> err = ENOMEM \<or> err = EINVAL"
  by (induction len al holes rule: find_free_loop.induct) (auto split: option.splits if_splits)

lemma max_pow2: "max (2 ^ k) (2 ^ m) = (2::nat) ^ max k m"
  by (simp add: max_def)

lemma mod_max_pow2: "a mod 2 ^ max k m = 0 \<longleftrightarrow> a mod 2 ^ k = 0 \<and> a mod 2 ^ m = (0::nat)"
proof -
  have "2 ^ y dvd a \<Longrightarrow> 2 ^ x dvd a" if "x \<le> y" for x y
    using le_imp_power_dvd [OF that] by (rule dvd_trans)
  from this [of k m] this [of m k] show ?thesis by (cases "k \<le> m") (auto simp: mod_eq_0_iff_dvd max_def)
qed

lemma find_free_mmap_range_facts:
  assumes wf: "holes_wf (vs_holes vs)" and len: "0 < len" and k: "k < 64"
  shows "case find_free_mmap_range vs len (2 ^ k) of
      Inr a \<Rightarrow> a mod 2 ^ k = 0 \<and> a mod PAGE_SIZE = 0 \<and> a + len \<le> USIZE_MAX \<and>
        is_mmap_range_free vs (va_floor a) (va_ceil (a + len))
    | Inl err \<Rightarrow> (err = ENOMEM \<or> err = EINVAL) \<and>
        (\<nexists>a. a mod 2 ^ k = 0 \<and> a mod PAGE_SIZE = 0 \<and> a + len \<le> USIZE_MAX \<and>
             is_mmap_range_free vs (va_floor a) (va_ceil (a + len)))"
proof -
  define j where "j = max k 12"
  have p: "PAGE_SIZE = 2 ^ 12" by (simp add: PAGE_SIZE_def)
  have j: "0 < j" "j < 64" using k by (auto simp: j_def)
  have mx: "max (2 ^ k) PAGE_SIZE = 2 ^ j" unfolding p j_def by (rule max_pow2)
  have al: "a mod 2 ^ j = 0 \<longleftrightarrow> a mod 2 ^ k = 0 \<and> a mod PAGE_SIZE = 0" for a :: nat
    unfolding p j_def by (rule mod_max_pow2)
  have fit: "fits (vs_holes vs) len (2 ^ j) a \<longleftrightarrow> a mod 2 ^ k = 0 \<and> a mod PAGE_SIZE = 0 \<and> a + len \<le> USIZE_MAX \<and>
        is_mmap_range_free vs (va_floor a) (va_ceil (a + len))" for a
    by (simp only: fits_free [OF wf len] is_mmap_range_free_iff [OF wf] al byte_pages_def byte_pages_nonempty [OF len] simp_thms conj_assoc)
  show ?thesis
    using find_free_loop_facts [OF holes_wf_small [OF wf] holes_wf_sorted [OF wf] len j]
      find_free_loop_error [of len "2 ^ j" "vs_holes vs"]
    by (simp add: find_free_mmap_range_def mx fit split: sum.splits)
qed

text \<open>
  C20. Searching for the address of a new mapping (find_free_mmap_range) is sound and complete for
  every power-of-two alignment: a returned address is a multiple of the page size and of the
  alignment and all pages of the requested range are free; and when an error is returned, it is
  ENOMEM or EINVAL and no address at all would have served.
\<close>

theorem find_free_mmap_range_correct:
  assumes wf: "holes_wf (vs_holes vs)" and len: "0 < len" and k: "k < 64"
  shows "case find_free_mmap_range vs len (2 ^ k) of
      Inr a \<Rightarrow> a mod 2 ^ k = 0 \<and> a mod PAGE_SIZE = 0 \<and> a + len \<le> USIZE_MAX \<and>
        is_mmap_range_free vs (va_floor a) (va_ceil (a + len))
    | Inl err \<Rightarrow> (err = ENOMEM \<or> err = EINVAL) \<and>
        (\<nexists>a. a mod 2 ^ k = 0 \<and> a mod PAGE_SIZE = 0 \<and> a + len \<le> USIZE_MAX \<and>
             is_mmap_range_free vs (va_floor a) (va_ceil (a + len)))"
  by (rule find_free_mmap_range_facts [OF assms])

theorem find_free_mmap_range_correct_witness:
  "find_free_mmap_range vs_new 5000 (2 ^ 21) = Inr MMAP_BASE \<and>
   is_mmap_range_free vs_new (va_floor MMAP_BASE) (va_ceil (MMAP_BASE + 5000))"
proof -
  have "holes_wf (vs_holes vs_new)" using vs_new_inv by (simp add: vs_inv_def)
  moreover have "vpn_addr (va_floor MMAP_BASE) = MMAP_BASE" "vpn_addr (va_floor MMAP_END) = MMAP_END"
    by (simp_all add: vpn_addr_small va_floor_def MMAP_BASE_def MMAP_END_def PAGE_SIZE_def MAX_VPN_def)
  then have "find_free_mmap_range vs_new 5000 (2 ^ 21) = Inr MMAP_BASE"
    using align_up_pow2 [of 21 MMAP_BASE]
    by (simp add: find_free_mmap_range_def vs_new_def mmap_bounds_def checked_add_def USIZE_MAX_def
        MMAP_BASE_def MMAP_END_def PAGE_SIZE_def)
  ultimately show ?thesis using find_free_mmap_range_correct [of vs_new 5000 21] by simp
qed

end
