(* ===== verification/MmapOps.thy ===== *)
theory MmapOps
  imports VmaSetOps
begin

text \<open>
  The address space of a process under its lock (\<open>AddressSpaceInner\<close> in
  \<open>os/src/mm/address_space.rs\<close>) and the operations behind \<open>brk\<close>, \<open>mmap\<close>, \<open>munmap\<close>,
  \<open>mprotect\<close>, \<open>madvise\<close> and \<open>mlock\<close> (\<open>os/src/mm/mmap.rs\<close>), with the overcommit policy of
  \<open>os/src/mm/sysctl.rs\<close> and the argument parsing of \<open>os/src/syscall/process/mm.rs\<close>. A result
  \<open>None\<close> is a panic or a loop that does not end; an \<open>Inl\<close> is a negative error number.
\<close>

section \<open>Constants\<close>

definition TASK_SIZE :: addr where "TASK_SIZE = 0xc0000000"
definition USER_VA_END :: addr where "USER_VA_END = TASK_SIZE"
definition USER_HEAP_SIZE :: usize where "USER_HEAP_SIZE = PAGE_SIZE * 0x100"
definition MAX_EAGER_MMAP_SIZE :: usize where "MAX_EAGER_MMAP_SIZE = 1024 * 1024 * 1024"

definition ISIZE_MAX :: usize where "ISIZE_MAX = 2 ^ 63 - 1"

definition MAP_SHARED_VALIDATE :: MapFlags where "MAP_SHARED_VALIDATE = 0x03"
definition MAP_TYPE :: MapFlags where "MAP_TYPE = 0x0f"
definition MAP_FIXED :: MapFlags where "MAP_FIXED = 0x10"
definition MAP_LOCKED :: MapFlags where "MAP_LOCKED = 0x2000"
definition MAP_FIXED_NOREPLACE :: MapFlags where "MAP_FIXED_NOREPLACE = 0x100000"

text \<open>\<open>MapFlags::all()\<close>: every bit some flag has.\<close>

definition MAP_ALL :: MapFlags where "MAP_ALL = 0x1FF93F"

section \<open>Overcommit\<close>

record vm_tunables =
  vt_overcommit_memory :: usize
  vt_overcommit_ratio :: usize
  vt_max_map_count :: usize
  vt_min_free_kbytes :: usize
  vt_panic_on_oom :: usize
  vt_usable_memory :: usize

definition COMMIT_LIMIT_CAP_KB :: usize where "COMMIT_LIMIT_CAP_KB = 512 * 1024"

definition set_overcommit_memory :: "vm_tunables \<Rightarrow> usize \<Rightarrow> bool \<times> vm_tunables" where
  "set_overcommit_memory t value = (if value > 2 then (False, t) else (True, t\<lparr>vt_overcommit_memory := value\<rparr>))"

definition set_max_map_count :: "vm_tunables \<Rightarrow> usize \<Rightarrow> bool \<times> vm_tunables" where
  "set_max_map_count t value = (if value = 0 then (False, t) else (True, t\<lparr>vt_max_map_count := value\<rparr>))"

definition total_memory_kbytes :: "vm_tunables \<Rightarrow> usize" where
  "total_memory_kbytes t = vt_usable_memory t div 1024"

definition reported_memory_bytes :: "vm_tunables \<Rightarrow> usize" where
  "reported_memory_bytes t = saturating_mul (total_memory_kbytes t) 1024"

definition commit_limit_bytes :: "vm_tunables \<Rightarrow> usize" where
  "commit_limit_bytes t =
     min (saturating_mul (reported_memory_bytes t) (vt_overcommit_ratio t) div 100)
         (saturating_mul COMMIT_LIMIT_CAP_KB 1024)"

definition overcommit_allows :: "vm_tunables \<Rightarrow> usize \<Rightarrow> usize \<Rightarrow> bool" where
  "overcommit_allows t current_committed additional =
     (if vt_overcommit_memory t = 1 then True
      else if vt_overcommit_memory t = 2
      then saturating_add current_committed additional \<le> commit_limit_bytes t
      else additional \<le> reported_memory_bytes t)"

section \<open>The address space\<close>

record 'pt AddressSpaceInner =
  as_mapper :: "'pt UserMapper"
  as_vmas :: VmaSet
  as_heap_bottom :: addr
  as_heap_pt :: addr
  as_locked :: "vpn set"

definition new_bare :: "'pt \<Rightarrow> ppn list \<Rightarrow> (ppn \<Rightarrow> nat \<Rightarrow> u8) \<Rightarrow> 'pt AddressSpaceInner" where
  "new_bare pt free mem =
     \<lparr>as_mapper = \<lparr>um_page_table = pt, um_gather = gather_new, um_free_frames = free,
                   um_mem = mem, um_cache_calls = []\<rparr>,
      as_vmas = vs_new, as_heap_bottom = 0, as_heap_pt = 0, as_locked = {}\<rparr>"

definition committed_bytes :: "'pt AddressSpaceInner \<Rightarrow> usize" where
  "committed_bytes sp = user_mapped_bytes (as_vmas sp)"

text \<open>The loop of \<open>set_locked_pages\<close> inserts or removes every page of the range.\<close>

definition set_locked_pages :: "'pt AddressSpaceInner \<Rightarrow> vpn \<Rightarrow> vpn \<Rightarrow> bool \<Rightarrow> usize \<times> 'pt AddressSpaceInner" where
  "set_locked_pages sp s e locked =
     (saturating_mul (e - s) PAGE_SIZE,
      sp\<lparr>as_locked := (if locked then as_locked sp \<union> {s..<e} else as_locked sp - {s..<e})\<rparr>)"

definition unmap_user_range ::
  "mm_env \<Rightarrow> 'pt page_table_ops \<Rightarrow> 'pt AddressSpaceInner \<Rightarrow> vpn \<Rightarrow> vpn \<Rightarrow> bool \<Rightarrow>
     ((errno + bool) \<times> 'pt AddressSpaceInner) option" where
  "unmap_user_range env ops sp s e allow_empty =
     map_option (\<lambda>(r, vs', m'). (r, sp\<lparr>as_vmas := vs', as_mapper := m'\<rparr>))
       (unmap_range env ops (as_vmas sp) (as_mapper sp) s e allow_empty)"

definition protect_user_range ::
  "mm_env \<Rightarrow> 'pt page_table_ops \<Rightarrow> 'pt AddressSpaceInner \<Rightarrow> vpn \<Rightarrow> vpn \<Rightarrow> MapPermission \<Rightarrow>
     ((errno + unit) \<times> 'pt AddressSpaceInner) option" where
  "protect_user_range env ops sp s e prot =
     map_option (\<lambda>(r, vs', m'). (r, sp\<lparr>as_vmas := vs', as_mapper := m'\<rparr>))
       (protect_range env ops (as_vmas sp) (as_mapper sp) s e prot)"

section \<open>Ranges and checks of \<open>mmap.rs\<close>\<close>

text \<open>\<open>addr & !(PAGE_SIZE - 1)\<close>: the page size is a power of two.\<close>

definition page_round_up_addr :: "addr \<Rightarrow> addr option" where
  "page_round_up_addr a = map_option (\<lambda>x. x - x mod PAGE_SIZE) (checked_add a (PAGE_SIZE - 1))"

definition checked_user_range :: "addr \<Rightarrow> usize \<Rightarrow> errno + (addr \<times> addr)" where
  "checked_user_range start len =
     (if len = 0 then Inl EINVAL
      else case checked_add start len of
        None \<Rightarrow> Inl EINVAL
      | Some e \<Rightarrow> if start \<ge> USER_VA_END \<or> e > USER_VA_END then Inl EINVAL else Inr (start, e))"

definition charges_overcommit :: "MapPermission \<Rightarrow> MapFlags \<Rightarrow> bool" where
  "charges_overcommit prot flags \<longleftrightarrow> flags_contains flags MAP_ANONYMOUS \<and> flags_contains prot PERM_W"

definition brk_overlap_blocks :: "Vma \<Rightarrow> bool" where
  "brk_overlap_blocks a \<longleftrightarrow>
     (let private_mapping = (vma_flags a AND MAP_TYPE = MAP_PRIVATE);
          writable_user = flags_contains (vma_map_perm a) (PERM_R OR PERM_W OR PERM_U)
      in \<not> vm_is_user a \<or> vma_map_file a \<noteq> None \<or> \<not> private_mapping \<or> \<not> writable_user)"

section \<open>mmap\<close>

text \<open>Where the mapping goes: \<open>Inr (Inl a)\<close> when the request was merged into its left neighbour.\<close>

definition mmap_fixed_start ::
  "mm_env \<Rightarrow> 'pt page_table_ops \<Rightarrow> 'pt AddressSpaceInner \<Rightarrow> addr \<Rightarrow> addr \<Rightarrow> MapFlags \<Rightarrow>
     ((errno + addr) \<times> 'pt AddressSpaceInner) option" where
  "mmap_fixed_start env ops sp start_hint requested_end flags =
     (let start_vpn = va_floor start_hint; end_vpn = va_ceil requested_end in
      if flags_contains flags MAP_FIXED_NOREPLACE \<and> has_overlap (as_vmas sp) start_vpn end_vpn
      then Some (Inl EEXIST, sp)
      else case unmap_user_range env ops sp start_vpn end_vpn True of
        None \<Rightarrow> None
      | Some (Inl err, sp1) \<Rightarrow> Some (Inl err, sp1)
      | Some (Inr _, sp1) \<Rightarrow> Some (Inr start_hint, snd (set_locked_pages sp1 start_vpn end_vpn False)))"

definition mmap_chosen_start ::
  "'pt AddressSpaceInner \<Rightarrow> addr \<Rightarrow> usize \<Rightarrow> addr \<Rightarrow> addr \<Rightarrow> errno + addr" where
  "mmap_chosen_start sp start len start_hint requested_end =
     (if start \<noteq> 0 \<and> is_mmap_range_free (as_vmas sp) (va_floor start_hint) (va_ceil requested_end)
      then Inr start_hint
      else find_free_mmap_range (as_vmas sp) len PAGE_SIZE)"

text \<open>The frames of a writable shared anonymous mapping, allocated page by page.\<close>

fun mmap_prealloc ::
  "mm_env \<Rightarrow> Vma \<Rightarrow> 'pt UserMapper \<Rightarrow> vpn list \<Rightarrow> (errno + unit) \<times> Vma \<times> 'pt UserMapper" where
  "mmap_prealloc env a m [] = (Inr (), a, m)"
| "mmap_prealloc env a m (v # vs) =
     (case alloc_one_zeroed_unmapped env a m v of
        (Inl err, a', m') \<Rightarrow> (Inl (if err = OutOfMemory then ENOMEM else EINVAL), a', m')
      | (Inr _, a', m') \<Rightarrow> mmap_prealloc env a' m' vs)"

text \<open>The last part: allocate the frames in advance if asked to, insert the area, lock its pages.\<close>

definition mmap_finish ::
  "mm_env \<Rightarrow> 'pt AddressSpaceInner \<Rightarrow> Vma \<Rightarrow> bool \<Rightarrow> bool \<Rightarrow> (errno + unit) \<times> 'pt AddressSpaceInner" where
  "mmap_finish env sp a eager lock =
     (let (r, a3, m3) = (if eager then mmap_prealloc env a (as_mapper sp) [vm_start a..<vm_end a]
                         else (Inr (), a, as_mapper sp));
          sp3 = sp\<lparr>as_mapper := m3\<rparr> in
      case r of
        Inl err \<Rightarrow> (Inl err, sp3)
      | Inr _ \<Rightarrow>
          (case insert_vma env (as_vmas sp3) a3 of
             (Inl err, _) \<Rightarrow> (Inl err, sp3)
           | (Inr _, vs4) \<Rightarrow>
               (let sp4 = sp3\<lparr>as_vmas := vs4\<rparr> in
                (Inr (), if lock then snd (set_locked_pages sp4 (vm_start a) (vm_end a) True) else sp4))))"

text \<open>From the choice of the address on: build the area and insert it.\<close>

definition mmap_insert ::
  "mm_env \<Rightarrow> 'pt AddressSpaceInner \<Rightarrow> addr \<Rightarrow> usize \<Rightarrow> MapPermission \<Rightarrow> MapFlags \<Rightarrow> usize \<Rightarrow> nat option \<Rightarrow>
     bool \<Rightarrow> bool \<Rightarrow> ((errno + addr) \<times> 'pt AddressSpaceInner) option" where
  "mmap_insert env sp start_va len prot flags offset map_file may_write write_sealed =
     (case checked_add start_va len of
        None \<Rightarrow> Some (Inl EINVAL, sp)
      | Some e \<Rightarrow>
          (let start_vpn = va_floor start_va; end_vpn = va_ceil e in
           if has_overlap (as_vmas sp) start_vpn end_vpn then Some (Inl EINVAL, sp)
           else case ensure_can_add env (as_vmas sp) 1 of
             Inl err \<Rightarrow> Some (Inl err, sp)
           | Inr _ \<Rightarrow>
               (case vma_try_new start_va e prot None 0 of
                  None \<Rightarrow> None
                | Some a0 \<Rightarrow>
                    (let a1 = a0\<lparr>vma_flags := flags, vma_may_write := may_write, vma_write_sealed := write_sealed\<rparr>;
                         anonymous = flags_contains flags MAP_ANONYMOUS in
                     if \<not> anonymous \<and> (offset mod PAGE_SIZE \<noteq> 0 \<or> offset > ISIZE_MAX) then Some (Inl EINVAL, sp)
                     else if \<not> anonymous \<and> map_file = None then Some (Inl EBADF, sp)
                     else
                       let a2 = (if anonymous then a1
                                 else a1\<lparr>vma_map_file := map_file, vma_map_file_offset := offset\<rparr>);
                           eager = (flags_contains flags MAP_SHARED \<and> vma_map_file a2 = None \<and>
                                    flags_contains (vma_map_perm a2) PERM_W) in
                       if eager \<and> len > MAX_EAGER_MMAP_SIZE then Some (Inl ENOMEM, sp)
                       else let (r, sp') = mmap_finish env sp a2 eager (flags_contains flags MAP_LOCKED)
                            in Some (map_sum id (\<lambda>_. start_va) r, sp')))))"

definition do_mmap ::
  "mm_env \<Rightarrow> vm_tunables \<Rightarrow> 'pt page_table_ops \<Rightarrow> 'pt AddressSpaceInner \<Rightarrow> addr \<Rightarrow> usize \<Rightarrow> MapPermission \<Rightarrow>
     MapFlags \<Rightarrow> usize \<Rightarrow> nat option \<Rightarrow> bool \<Rightarrow> bool \<Rightarrow> ((errno + addr) \<times> 'pt AddressSpaceInner) option" where
  "do_mmap env tun ops sp start len prot flags offset map_file may_write write_sealed =
     (if start mod PAGE_SIZE \<noteq> 0 then Some (Inl EINVAL, sp)
      else case checked_user_range start len of
        Inl err \<Rightarrow> Some (Inl err, sp)
      | Inr (start_hint, requested_end) \<Rightarrow>
          if charges_overcommit prot flags \<and> \<not> overcommit_allows tun (committed_bytes sp) len
          then Some (Inl ENOMEM, sp)
          else if flags_contains flags MAP_FIXED \<or> flags_contains flags MAP_FIXED_NOREPLACE
          then (case mmap_fixed_start env ops sp start_hint requested_end flags of
                  None \<Rightarrow> None
                | Some (Inl err, sp1) \<Rightarrow> Some (Inl err, sp1)
                | Some (Inr start_va, sp1) \<Rightarrow>
                    mmap_insert env sp1 start_va len prot flags offset map_file may_write write_sealed)
          else case mmap_chosen_start sp start len start_hint requested_end of
            Inl err \<Rightarrow> Some (Inl err, sp)
          | Inr start_va \<Rightarrow>
              if flags_contains flags MAP_LOCKED
              then mmap_insert env sp start_va len prot flags offset map_file may_write write_sealed
              else (case try_merge_lazy_private_mmap (as_vmas sp) start_va len prot flags of
                      (Inr (Some va), vs1) \<Rightarrow> Some (Inr va, sp\<lparr>as_vmas := vs1\<rparr>)
                    | (Inl err, vs1) \<Rightarrow> Some (Inl err, sp\<lparr>as_vmas := vs1\<rparr>)
                    | (Inr None, vs1) \<Rightarrow>
                        mmap_insert env (sp\<lparr>as_vmas := vs1\<rparr>) start_va len prot flags offset map_file
                          may_write write_sealed))"

section \<open>Shared memory segments\<close>

text \<open>Map the pages of an area whose frames are all resident, then insert it.\<close>

fun push_pages ::
  "mm_env \<Rightarrow> 'pt page_table_ops \<Rightarrow> Vma \<Rightarrow> vpn list \<Rightarrow> 'pt UserMapper \<Rightarrow> (bool \<times> 'pt UserMapper) option" where
  "push_pages env ops a [] m = Some (True, m)"
| "push_pages env ops a (v # vs) m =
     (case get_in_memory (vma_inner a) v of
        None \<Rightarrow> None
      | Some p \<Rightarrow>
          if um_is_mapped ops m v then map_option (\<lambda>(_, _, m'). (False, m')) (vma_unmap env ops a m)
          else case map_user_page env ops m v p (vma_map_perm a) of
            (Inl _, m1) \<Rightarrow> map_option (\<lambda>(_, _, m'). (False, m')) (vma_unmap env ops a m1)
          | (Inr _, m1) \<Rightarrow> push_pages env ops a vs m1)"

definition push_no_alloc ::
  "mm_env \<Rightarrow> 'pt page_table_ops \<Rightarrow> 'pt AddressSpaceInner \<Rightarrow> Vma \<Rightarrow> ((unit + unit) \<times> 'pt AddressSpaceInner) option" where
  "push_no_alloc env ops sp a =
     (case ensure_can_add env (as_vmas sp) 1 of
        Inl _ \<Rightarrow> Some (Inl (), sp)
      | Inr _ \<Rightarrow>
          (case push_pages env ops a [vm_start a..<vm_end a] (as_mapper sp) of
             None \<Rightarrow> None
           | Some (False, m1) \<Rightarrow> Some (Inl (), sp\<lparr>as_mapper := m1\<rparr>)
           | Some (True, m1) \<Rightarrow>
               (case insert_vma env (as_vmas sp) a of
                  (Inl _, _) \<Rightarrow> Some (Inl (), sp\<lparr>as_mapper := m1\<rparr>)
                | (Inr _, vs1) \<Rightarrow> Some (Inr (), sp\<lparr>as_mapper := m1, as_vmas := vs1\<rparr>))))"

fun store_frames :: "mm_env \<Rightarrow> Vma \<Rightarrow> (vpn \<times> ppn) list \<Rightarrow> Vma option" where
  "store_frames env a [] = Some a"
| "store_frames env a ((v, p) # fs) =
     (case alloc_in_memory env (vma_inner a) v p of
        (Inl _, _) \<Rightarrow> None
      | (Inr _, s) \<Rightarrow> store_frames env (a\<lparr>vma_inner := s\<rparr>) fs)"

definition shm_insert ::
  "mm_env \<Rightarrow> 'pt page_table_ops \<Rightarrow> 'pt AddressSpaceInner \<Rightarrow> addr \<Rightarrow> usize \<Rightarrow> MapPermission \<Rightarrow> MapFlags \<Rightarrow>
     ppn list \<Rightarrow> bool \<Rightarrow> ((errno + addr) \<times> 'pt AddressSpaceInner) option" where
  "shm_insert env ops sp start_va len prot flags frames may_write =
     (case checked_add start_va len of
        None \<Rightarrow> Some (Inl EINVAL, sp)
      | Some e \<Rightarrow>
          (let start_vpn = va_floor start_va; end_vpn = va_ceil e in
           if length frames \<noteq> saturating_sub end_vpn start_vpn then Some (Inl EINVAL, sp)
           else if has_overlap (as_vmas sp) start_vpn end_vpn then Some (Inl EINVAL, sp)
           else case ensure_can_add env (as_vmas sp) 1 of
             Inl err \<Rightarrow> Some (Inl err, sp)
           | Inr _ \<Rightarrow>
               (case vma_try_new start_va e prot None 0 of
                  None \<Rightarrow> None
                | Some a0 \<Rightarrow>
                    (let a1 = a0\<lparr>vma_flags := flags, vma_may_write := may_write\<rparr> in
                     case store_frames env a1 (zip [vm_start a1..<vm_end a1] frames) of
                       None \<Rightarrow> Some (Inl EINVAL, sp)
                     | Some a2 \<Rightarrow>
                         map_option (\<lambda>(r, sp'). (if r = Inr () then Inr start_va else Inl ENOMEM, sp'))
                           (push_no_alloc env ops sp a2)))))"

definition do_shm_mmap ::
  "mm_env \<Rightarrow> 'pt page_table_ops \<Rightarrow> 'pt AddressSpaceInner \<Rightarrow> addr \<Rightarrow> usize \<Rightarrow> MapPermission \<Rightarrow> MapFlags \<Rightarrow>
     ppn list \<Rightarrow> bool \<Rightarrow> ((errno + addr) \<times> 'pt AddressSpaceInner) option" where
  "do_shm_mmap env ops sp start len prot flags frames may_write =
     (if start mod PAGE_SIZE \<noteq> 0 then Some (Inl EINVAL, sp)
      else case checked_user_range start len of
        Inl err \<Rightarrow> Some (Inl err, sp)
      | Inr (start_hint, requested_end) \<Rightarrow>
          if flags_contains flags MAP_FIXED \<or> flags_contains flags MAP_FIXED_NOREPLACE
          then (case mmap_fixed_start env ops sp start_hint requested_end flags of
                  None \<Rightarrow> None
                | Some (Inl err, sp1) \<Rightarrow> Some (Inl err, sp1)
                | Some (Inr start_va, sp1) \<Rightarrow> shm_insert env ops sp1 start_va len prot flags frames may_write)
          else case find_free_mmap_range (as_vmas sp) len PAGE_SIZE of
            Inl err \<Rightarrow> Some (Inl err, sp)
          | Inr start_va \<Rightarrow> shm_insert env ops sp start_va len prot flags frames may_write)"

section \<open>munmap, mprotect, madvise\<close>

definition do_munmap ::
  "mm_env \<Rightarrow> 'pt page_table_ops \<Rightarrow> 'pt AddressSpaceInner \<Rightarrow> addr \<Rightarrow> usize \<Rightarrow>
     ((errno + unit) \<times> 'pt AddressSpaceInner) option" where
  "do_munmap env ops sp start len =
     (case checked_user_range start len of
        Inl err \<Rightarrow> Some (Inl err, sp)
      | Inr (s, e) \<Rightarrow>
          if \<not> va_aligned s then Some (Inl EINVAL, sp)
          else map_option (\<lambda>(r, sp'). (map_sum id (\<lambda>_. ()) r, sp'))
                 (unmap_user_range env ops sp (va_floor s) (va_ceil e) True))"

definition as_munmap ::
  "mm_env \<Rightarrow> 'pt page_table_ops \<Rightarrow> 'pt AddressSpaceInner \<Rightarrow> addr \<Rightarrow> usize \<Rightarrow>
     ((errno + unit) \<times> 'pt AddressSpaceInner) option" where
  "as_munmap env ops sp start len =
     map_option (\<lambda>(r, sp').
       (r, if r = Inr () then (case checked_add start len of
                                 None \<Rightarrow> sp'
                               | Some e \<Rightarrow> snd (set_locked_pages sp' (va_floor start) (va_ceil e) False))
           else sp'))
       (do_munmap env ops sp start len)"

definition do_mprotect ::
  "mm_env \<Rightarrow> 'pt page_table_ops \<Rightarrow> 'pt AddressSpaceInner \<Rightarrow> addr \<Rightarrow> usize \<Rightarrow> MapPermission \<Rightarrow>
     ((errno + unit) \<times> 'pt AddressSpaceInner) option" where
  "do_mprotect env ops sp addr len prot =
     (if len = 0 then Some (Inr (), sp)
      else case checked_user_range addr len of
        Inl err \<Rightarrow> Some (Inl err, sp)
      | Inr (s, e) \<Rightarrow>
          if \<not> va_aligned s then Some (Inl EINVAL, sp)
          else protect_user_range env ops sp (va_floor s) (va_ceil e) prot)"

text \<open>The addition of \<open>madvise\<close> wraps in a release build.\<close>

definition as_madvise ::
  "mm_env \<Rightarrow> 'pt page_table_ops \<Rightarrow> 'pt AddressSpaceInner \<Rightarrow> addr \<Rightarrow> usize \<Rightarrow> usize \<Rightarrow>
     ((errno + unit) \<times> 'pt AddressSpaceInner) option" where
  "as_madvise env ops sp start len advice =
     (let s = va_floor start; e = va_ceil (wrapping_add start len) in
      if advice = MADV_DONTNEED \<and> as_locked sp \<inter> {s..<e} \<noteq> {} then Some (Inl EINVAL, sp)
      else map_option (\<lambda>(r, vs', m'). (r, sp\<lparr>as_vmas := vs', as_mapper := m'\<rparr>))
             (advise_range env ops advice e (as_vmas sp) (as_mapper sp) s))"

definition as_mincore ::
  "mm_env \<Rightarrow> 'pt page_table_ops \<Rightarrow> 'pt AddressSpaceInner \<Rightarrow> addr \<Rightarrow> usize \<Rightarrow> u8 list \<Rightarrow>
     ((errno + unit) \<times> u8 list) option" where
  "as_mincore env ops sp start len residency =
     (case checked_add start len of
        None \<Rightarrow> Some (Inl ENOMEM, residency)
      | Some e \<Rightarrow>
          mincore_range env ops (um_page_table (as_mapper sp)) (as_vmas sp) (va_ceil e) (va_floor start) 0 residency)"

section \<open>Locking pages\<close>

definition user_lock_range :: "'pt AddressSpaceInner \<Rightarrow> addr \<Rightarrow> usize \<Rightarrow> errno + (vpn \<times> vpn \<times> usize)" where
  "user_lock_range sp start len =
     (if len = 0 then Inr (0, 0, 0)
      else case checked_add start len of
        None \<Rightarrow> Inl ENOMEM
      | Some e \<Rightarrow>
          if e > USER_VA_END then Inl ENOMEM
          else let start_vpn = va_floor start; end_vpn = va_ceil e in
            if \<not> covers_user_range (as_vmas sp) start_vpn end_vpn then Inl ENOMEM
            else Inr (start_vpn, end_vpn, saturating_mul (end_vpn - start_vpn) PAGE_SIZE))"

definition mlock_onfault :: "'pt AddressSpaceInner \<Rightarrow> addr \<Rightarrow> usize \<Rightarrow> (errno + usize) \<times> 'pt AddressSpaceInner" where
  "mlock_onfault sp start len =
     (case user_lock_range sp start len of
        Inl err \<Rightarrow> (Inl err, sp)
      | Inr (s, e, locked_len) \<Rightarrow> (Inr locked_len, snd (set_locked_pages sp s e True)))"

definition munlock :: "'pt AddressSpaceInner \<Rightarrow> addr \<Rightarrow> usize \<Rightarrow> (errno + unit) \<times> 'pt AddressSpaceInner" where
  "munlock sp start len =
     (case user_lock_range sp start len of
        Inl err \<Rightarrow> (Inl err, sp)
      | Inr (s, e, _) \<Rightarrow> (Inr (), snd (set_locked_pages sp s e False)))"

fun lock_ranges :: "(vpn \<times> vpn) list \<Rightarrow> usize \<Rightarrow> 'pt AddressSpaceInner \<Rightarrow> usize \<times> 'pt AddressSpaceInner" where
  "lock_ranges [] locked_len sp = (locked_len, sp)"
| "lock_ranges ((s, e) # rs) locked_len sp =
     (let (n, sp') = set_locked_pages sp s e True in lock_ranges rs (saturating_add locked_len n) sp')"

definition mlockall_current :: "'pt AddressSpaceInner \<Rightarrow> usize \<times> 'pt AddressSpaceInner" where
  "mlockall_current sp =
     lock_ranges (map (\<lambda>a. (vm_start a, vm_end a)) (filter vm_is_user (map snd (vs_vmas (as_vmas sp))))) 0 sp"

definition munlockall :: "'pt AddressSpaceInner \<Rightarrow> 'pt AddressSpaceInner" where
  "munlockall sp = sp\<lparr>as_locked := {}\<rparr>"

definition resident_user_bytes :: "'pt AddressSpaceInner \<Rightarrow> usize" where
  "resident_user_bytes sp =
     saturating_mul
       (fold (\<lambda>a acc. saturating_add acc (in_memory_len (vma_inner a)))
          (filter vm_is_user (map snd (vs_vmas (as_vmas sp)))) 0) PAGE_SIZE"

definition locked_user_bytes :: "'pt AddressSpaceInner \<Rightarrow> usize" where
  "locked_user_bytes sp = saturating_mul (card (as_locked sp)) PAGE_SIZE"

section \<open>brk\<close>

text \<open>
  \<open>do_sbrk\<close> returns the program break: the new one, or the old one when the request is refused.
  The increment is a signed integer of 64 bits.
\<close>

definition sbrk_target :: "'pt AddressSpaceInner \<Rightarrow> int \<Rightarrow> addr option" where
  "sbrk_target sp increment =
     (if increment > 0 then checked_add (as_heap_pt sp) (nat increment)
      else if increment < 0
      then (if increment = - (2 ^ 63) then None else checked_sub (as_heap_pt sp) (nat (- increment)))
      else None)"

definition do_sbrk ::
  "mm_env \<Rightarrow> vm_tunables \<Rightarrow> 'pt page_table_ops \<Rightarrow> 'pt AddressSpaceInner \<Rightarrow> int \<Rightarrow>
     (addr \<times> 'pt AddressSpaceInner) option" where
  "do_sbrk env tun ops sp increment =
     (let old_pt = as_heap_pt sp; heap_bottom = as_heap_bottom sp; refuse = Some (old_pt, sp) in
      case checked_add heap_bottom USER_HEAP_SIZE of
        None \<Rightarrow> refuse
      | Some limit \<Rightarrow>
          (case sbrk_target sp increment of
             None \<Rightarrow> refuse
           | Some new_pt \<Rightarrow>
               if new_pt < heap_bottom \<or> new_pt > limit then refuse
               else case page_round_up_addr old_pt of
                 None \<Rightarrow> refuse
               | Some old_page_end \<Rightarrow>
                   (case page_round_up_addr new_pt of
                      None \<Rightarrow> refuse
                    | Some new_page_end \<Rightarrow>
                        if new_pt > old_pt
                        then (if new_page_end > old_page_end
                              then let len = new_page_end - old_page_end;
                                       s = va_floor old_page_end; e = va_ceil new_page_end in
                                if list_ex (\<lambda>a. vm_overlaps a s e \<and> brk_overlap_blocks a) (map snd (vs_vmas (as_vmas sp)))
                                then refuse
                                else if \<not> overcommit_allows tun (committed_bytes sp) len then refuse
                                else case do_mmap env tun ops sp old_page_end len (PERM_R OR PERM_W OR PERM_U)
                                            (MAP_ANONYMOUS OR MAP_FIXED OR MAP_PRIVATE) 0 None True False of
                                  None \<Rightarrow> None
                                | Some (Inl _, sp') \<Rightarrow> Some (old_pt, sp')
                                | Some (Inr _, sp') \<Rightarrow> Some (new_pt, sp'\<lparr>as_heap_pt := new_pt\<rparr>)
                              else Some (new_pt, sp\<lparr>as_heap_pt := new_pt\<rparr>))
                        else if old_page_end > new_page_end
                        then (case do_munmap env ops sp new_page_end (old_page_end - new_page_end) of
                                None \<Rightarrow> None
                              | Some (Inl _, sp') \<Rightarrow> Some (old_pt, sp')
                              | Some (Inr _, sp') \<Rightarrow> Some (new_pt, sp'\<lparr>as_heap_pt := new_pt\<rparr>))
                        else Some (new_pt, sp\<lparr>as_heap_pt := new_pt\<rparr>))))"

text \<open>\<open>sys_brk\<close>: an address, turned into an increment.\<close>

definition sys_brk ::
  "mm_env \<Rightarrow> vm_tunables \<Rightarrow> 'pt page_table_ops \<Rightarrow> 'pt AddressSpaceInner \<Rightarrow> addr \<Rightarrow>
     (addr \<times> 'pt AddressSpaceInner) option" where
  "sys_brk env tun ops sp brk_addr =
     (if brk_addr = 0 then do_sbrk env tun ops sp 0
      else let former = as_heap_pt sp;
               delta = (if brk_addr < former then former - brk_addr else brk_addr - former);
               grow = (if delta > ISIZE_MAX then 0 else if brk_addr < former then - int delta else int delta)
           in do_sbrk env tun ops sp grow)"

section \<open>System call arguments\<close>

definition parse_mmap_prot :: "u64 \<Rightarrow> errno + MapPermission" where
  "parse_mmap_prot prot =
     (if prot AND NOT 7 \<noteq> 0 then Inl EINVAL
      else Inr (PERM_U OR (if prot AND 1 \<noteq> 0 then PERM_R else 0) OR
                (if prot AND 2 \<noteq> 0 then PERM_R OR PERM_W else 0) OR (if prot AND 4 \<noteq> 0 then PERM_X else 0)))"

definition parse_mmap_flags :: "u64 \<Rightarrow> errno + MapFlags" where
  "parse_mmap_flags flags =
     (let type_bits = flags AND MAP_TYPE in
      if type_bits \<noteq> MAP_SHARED \<and> type_bits \<noteq> MAP_PRIVATE \<and> type_bits \<noteq> MAP_SHARED_VALIDATE then Inl EINVAL
      else if type_bits = MAP_SHARED_VALIDATE \<and> flags AND NOT MAP_ALL \<noteq> 0 then Inl EOPNOTSUPP
      else Inr (flags AND MAP_ALL))"

section \<open>Buffers and msync\<close>

text \<open>The part of the heap above the program break is not usable.\<close>

definition beyond_break :: "'pt AddressSpaceInner \<Rightarrow> addr \<Rightarrow> addr \<Rightarrow> bool" where
  "beyond_break sp s e \<longleftrightarrow>
     as_heap_bottom sp \<noteq> 0 \<and> s < saturating_add (as_heap_bottom sp) USER_HEAP_SIZE \<and>
     e > as_heap_pt sp \<and> e > as_heap_bottom sp"

definition contains_valid_buffer :: "'pt AddressSpaceInner \<Rightarrow> addr \<Rightarrow> usize \<Rightarrow> MapPermission \<Rightarrow> bool" where
  "contains_valid_buffer sp buf len perm =
     (case checked_add buf len of
        None \<Rightarrow> False
      | Some e \<Rightarrow>
          \<not> beyond_break sp buf e \<and>
          list_ex (\<lambda>a. flags_contains (vma_map_perm a) (perm OR PERM_U) \<and> vm_start a \<le> va_floor buf \<and> va_ceil e \<le> vm_end a)
            (map snd (vs_vmas (as_vmas sp))))"

definition validate_msync_range :: "'pt AddressSpaceInner \<Rightarrow> addr \<Rightarrow> usize \<Rightarrow> bool \<Rightarrow> errno + unit" where
  "validate_msync_range sp addr len invalidate =
     (if len = 0 then Inr ()
      else case page_round_up_addr len of
        None \<Rightarrow> Inl ENOMEM
      | Some rounded_len \<Rightarrow>
          (case checked_add addr rounded_len of
             None \<Rightarrow> Inl ENOMEM
           | Some e \<Rightarrow>
               if e > USER_VA_END then Inl ENOMEM
               else if beyond_break sp addr e then Inl ENOMEM
               else let s_vpn = va_floor addr; e_vpn = va_ceil e in
                 if \<not> covers_user_range (as_vmas sp) s_vpn e_vpn then Inl ENOMEM
                 else if invalidate \<and> list_ex (\<lambda>a. vm_is_user a \<and> vm_overlaps a s_vpn e_vpn \<and>
                            flags_contains (vma_flags a) MAP_LOCKED) (map snd (vs_vmas (as_vmas sp)))
                 then Inl EBUSY else Inr ()))"

text \<open>The page cache ranges an \<open>msync\<close> writes back, one for every shared file area it meets.\<close>

partial_function (option) msync_loop ::
  "VmaSet \<Rightarrow> vpn \<Rightarrow> vpn \<Rightarrow> (nat \<times> usize \<times> usize) list \<Rightarrow> (errno + (nat \<times> usize \<times> usize) list) option" where
  "msync_loop vs end_vpn cursor ranges =
     (if \<not> cursor < end_vpn then Some (Inr ranges)
      else case find_user_vma_key vs cursor of
        None \<Rightarrow> Some (Inl ENOMEM)
      | Some area_start \<Rightarrow>
          (case bt_get (vs_vmas vs) area_start of
             None \<Rightarrow> Some (Inl ENOMEM)
           | Some a \<Rightarrow>
               (let overlap_end = min (vm_end a) end_vpn in
                if flags_contains (vma_flags a) MAP_SHARED
                then (case vma_map_file a of
                        None \<Rightarrow> msync_loop vs end_vpn overlap_end ranges
                      | Some inode \<Rightarrow>
                          (case vm_file_offset a cursor of
                             Inl _ \<Rightarrow> Some (Inl EINVAL)
                           | Inr first_offset \<Rightarrow>
                               (case vm_file_offset a (overlap_end - 1) of
                                  Inl _ \<Rightarrow> Some (Inl EINVAL)
                                | Inr last_offset \<Rightarrow>
                                    msync_loop vs end_vpn overlap_end
                                      (ranges @ [(inode, first_offset div PAGE_SIZE, last_offset div PAGE_SIZE)]))))
                else msync_loop vs end_vpn overlap_end ranges)))"

definition msync_page_ranges ::
  "'pt AddressSpaceInner \<Rightarrow> addr \<Rightarrow> usize \<Rightarrow> (errno + (nat \<times> usize \<times> usize) list) option" where
  "msync_page_ranges sp addr len =
     (case validate_msync_range sp addr len False of
        Inl err \<Rightarrow> Some (Inl err)
      | Inr _ \<Rightarrow>
          if len = 0 then Some (Inr [])
          else case page_round_up_addr len of
            None \<Rightarrow> Some (Inl ENOMEM)
          | Some rounded_len \<Rightarrow>
              (case checked_add addr rounded_len of
                 None \<Rightarrow> Some (Inl ENOMEM)
               | Some e \<Rightarrow> msync_loop (as_vmas sp) (va_ceil e) (va_floor addr) []))"

end
