(* ===== verification/MmapSpace.thy ===== *)
theory MmapSpace
  imports Advise MmapSearch MmapOps
begin

text \<open>
  What \<open>mmap\<close>, \<open>munmap\<close> and \<open>brk\<close> keep and achieve, over any page table that satisfies the
  locale \<open>page_table\<close>.
\<close>

section \<open>The page counter\<close>

lemma user_pages_le_card: "areas_wf m \<Longrightarrow> user_pages m \<le> card (vma_pages m)"
proof (induction m)
  case Nil
  then show ?case by (simp add: user_pages_def bt_sum_def vma_pages_def)
next
  case (Cons x m)
  obtain k a where x: "x = (k, a)" by fastforce
  have wf: "areas_wf m"
    by (rule areas_wf_subset [OF Cons.prems]) (use areas_wf_bt [OF Cons.prems] in \<open>auto simp: bt_wf_def\<close>)
  have a: "vma_wf a" using areas_wf_entry(2) [OF Cons.prems, of k a] x by simp
  have "area_pages a \<inter> area_pages b = {}" if "(k', b) \<in> set m" for k' b
    using that areas_wf_bt [OF Cons.prems] areas_wf_disjoint [OF Cons.prems, of k a k' b] x
    by (force simp: bt_wf_def)
  then have dis: "area_pages a \<inter> vma_pages m = {}" by (auto simp: vma_pages_def)
  have pg: "vma_pages (x # m) = area_pages a \<union> vma_pages m" by (simp add: vma_pages_def x)
  have "user_size a \<le> card (area_pages a)"
    using a by (simp add: user_size_def area_page_count_eq vma_wf_def area_pages_def)
  then show ?case
    using Cons.IH [OF wf] card_Un_disjoint [OF _ finite_vma_pages dis] pg
    by (simp add: user_pages_def bt_sum_def x area_pages_def)
qed

lemma vma_pages_bounded: "areas_wf m \<Longrightarrow> vma_pages m \<subseteq> {..<MAX_VPN}"
  using areas_wf_entry(2) by (fastforce simp: in_vma_pages area_pages_def vma_wf_def)

lemma user_pages_bounded: "areas_wf m \<Longrightarrow> user_pages m \<le> MAX_VPN"
  using user_pages_le_card [of m] card_mono [OF _ vma_pages_bounded, of m] by fastforce

section \<open>Growing an area\<close>

lemma grow_area_facts:
  assumes inv: "vs_inv vs" and a: "bt_get (vs_vmas vs) k = Some a" and wf: "vma_wf a'"
    and start: "vm_start a' = vm_start a" and user: "vm_is_user a' = vm_is_user a"
    and rm: "rmap_from_vma a' = rmap_from_vma a" and pgs: "area_pages a' = area_pages a \<union> {s..<e}"
    and free: "{s..<e} \<inter> vma_pages (vs_vmas vs) = {}"
    and vs': "vs' = update_area (reserve_mmap_range vs s e) k a'"
  shows "vs_inv (vs'\<lparr>vs_user_page_count := vs_user_page_count vs + (user_size a' - user_size a)\<rparr>)"
    and "page_view (vs_vmas vs') v = (if v \<in> area_pages a' then Some (area_view a' v) else page_view (vs_vmas vs) v)"
proof -
  let ?m = "vs_vmas vs" and ?r = "bt_remove k (vs_vmas vs)"
  have aw: "areas_wf ?m" and bw: "bt_wf ?m" and hw: "holes_wf (vs_holes vs)"
    and hp: "hole_pages (vs_holes vs) = arena - vma_pages ?m"
    using inv by (simp_all add: vs_inv_def)
  have ka: "(k, a) \<in> set ?m" using a bt_get_iff [OF bw] by blast
  have k: "k = vm_start a'" using areas_wf_entry(1) [OF aw ka] start by simp
  note rem = areas_wf_remove [OF aw ka] page_view_remove [OF aw ka]
  have dis: "area_pages a' \<inter> vma_pages ?r = {}" using rem(2) pgs free by blast
  note ins = areas_wf_insert [OF rem(1) wf dis] page_view_insert [OF rem(1) wf dis]
  have eq: "bt_insert (vm_start a') a' ?r = bt_insert k a' ?m" using bt_insert_remove [OF bw] k by simp
  have pg: "vma_pages (bt_insert k a' ?m) = vma_pages ?m \<union> {s..<e}"
    using ins(2) rem(2) pgs area_pages_subset [OF ka] unfolding eq by blast
  have holes: "holes_wf (reserve_holes s e (vs_holes vs))"
    "hole_pages (reserve_holes s e (vs_holes vs)) = arena - (vma_pages ?m \<union> {s..<e})"
    using reserve_holes_facts [OF hw, of s e] hp by auto
  have fr: "bt_get ?r k = None" "bt_wf ?r" using bw by (simp_all add: bt_get_remove)
  have sum: "bt_sum g (bt_insert k a' ?m) + g (k, a) = bt_sum g ?m + g (k, a')" for g
    using bt_sum_insert [OF fr(2,1), of g a'] bt_sum_remove [OF bw a, of g] bt_insert_remove [OF bw, of k a'] by simp
  have le: "user_size a \<le> user_size a'"
  proof -
    have "area_pages a \<subseteq> area_pages a'" using pgs by simp
    then have "card (area_pages a) \<le> card (area_pages a')" by (intro card_mono) (simp_all add: area_pages_def)
    then show ?thesis using user by (simp add: user_size_def area_page_count_def saturating_sub_def area_pages_def)
  qed
  have cnt: "user_areas (bt_insert k a' ?m) = user_areas ?m"
    "user_pages (bt_insert k a' ?m) = user_pages ?m + (user_size a' - user_size a)"
    using sum [of "\<lambda>e. of_bool (vm_is_user (snd e))"] sum [of "\<lambda>e. user_size (snd e)"] user le
    unfolding user_areas_def user_pages_def by simp_all
  have rms: "rmaps_ok (vs'\<lparr>vs_user_page_count := n\<rparr>)" for n
    using inv a rm by (auto simp: vs_inv_def rmaps_ok_def bt_get_insert [OF bw] vs' reserve_mmap_range_def)
  then show "vs_inv (vs'\<lparr>vs_user_page_count := vs_user_page_count vs + (user_size a' - user_size a)\<rparr>)"
    using inv ins(1) pg cnt holes unfolding eq by (simp add: vs_inv_def vs')
  show "page_view (vs_vmas vs') v = (if v \<in> area_pages a' then Some (area_view a' v) else page_view (vs_vmas vs) v)"
    using ins(3) rem(3) pgs unfolding eq by (simp add: vs')
qed

section \<open>Merging a request into its left neighbour\<close>

lemma user_range_ceil: "a \<le> USER_VA_END \<Longrightarrow> va_ceil a \<le> va_floor USER_VA_END"
  by (simp add: va_ceil_least va_floor_def USER_VA_END_def TASK_SIZE_def PAGE_SIZE_def)

lemma user_end_small: "va_floor USER_VA_END \<le> MAX_VPN" "USER_VA_END \<le> USIZE_MAX"
  by (simp_all add: va_floor_def USER_VA_END_def TASK_SIZE_def PAGE_SIZE_def MAX_VPN_def USIZE_MAX_def)

lemma expand_to_facts:
  assumes wf: "vma_wf a" and nf: "vma_map_file a = None" and e: "vm_end a \<le> va_ceil new_end" "va_ceil new_end \<le> MAX_VPN"
  obtains a' where "expand_to a new_end = (Inr (), a')" and "vma_wf a'" and "vm_start a' = vm_start a"
    and "vm_end a' = va_ceil new_end" and "vm_is_user a' = vm_is_user a" and "rmap_from_vma a' = rmap_from_vma a"
    and "\<And>v. area_view a' v = (area_view a v)\<lparr>pa_frame := if v < vm_end a then page_frame (vma_inner a) v else Unallocated\<rparr>"
proof -
  have sw: "store_wf (vma_inner a)" and lt: "vm_start a < vm_end a" using wf by (simp_all add: vma_wf_def)
  then obtain s where s: "set_end (vma_inner a) (va_ceil new_end) = Some s"
    using e(1) by (auto simp: set_end_def vm_start_def vm_end_def)
  note f = set_end_facts [OF sw s]
  define a' where "a' = a\<lparr>vma_inner := s\<rparr>"
  have ends: "vm_start a' = vm_start a" "vm_end a' = va_ceil new_end"
    using f(2) by (simp_all add: a'_def vm_start_def vm_end_def st_start_def st_end_def)
  show thesis
  proof (rule that [of a'])
    show "expand_to a new_end = (Inr (), a')" using e(1) s by (simp add: expand_to_def a'_def)
    show "vma_wf a'" using f(1) lt e ends nf by (simp add: vma_wf_def) (simp add: a'_def)
    show "vm_is_user a' = vm_is_user a" by (simp add: a'_def vm_is_user_def)
    show "rmap_from_vma a' = rmap_from_vma a" using nf by (simp add: a'_def rmap_from_vma_def)
    fix v
    have "page_frame (vma_inner a) v = Unallocated" if "vm_end a \<le> v"
      using page_frame_out_of_range [OF sw, of v] that by (simp add: contains_vpn_def vm_end_def)
    then show "area_view a' v = (area_view a v)\<lparr>pa_frame := if v < vm_end a then page_frame (vma_inner a) v else Unallocated\<rparr>"
      using f(4) [of v] e(1) nf by (simp add: area_view_def a'_def)
  qed (use ends in simp_all)
qed

text \<open>A request that was merged: its pages were free and get the attributes of the neighbour.\<close>

definition merged_into :: "VmaSet \<Rightarrow> vpn set \<Rightarrow> MapPermission \<Rightarrow> MapFlags \<Rightarrow> page_attrs \<Rightarrow> VmaSet \<Rightarrow> bool" where
  "merged_into vs P prot flags x vs' \<longleftrightarrow>
     vs_inv vs' \<and> P \<inter> vma_pages (vs_vmas vs) = {} \<and>
     flags_contains flags (MAP_PRIVATE OR MAP_ANONYMOUS) \<and> flags_contains (pa_flags x) (MAP_PRIVATE OR MAP_ANONYMOUS) \<and>
     pa_perm x = prot \<and> pa_file x = None \<and> pa_frame x = Unallocated \<and> \<not> pa_wipe_on_fork x \<and> \<not> pa_dont_fork x \<and>
     \<not> pa_fork_inherited x \<and>
     (\<forall>v. page_view (vs_vmas vs') v = (if v \<in> P then Some x else page_view (vs_vmas vs) v))"

lemma try_merge_facts:
  assumes inv: "vs_inv vs" and len: "0 < len" and bound: "start + len \<le> USER_VA_END"
  shows "try_merge_lazy_private_mmap vs start len prot flags = (Inr None, vs) \<or>
    (\<exists>x vs'. try_merge_lazy_private_mmap vs start len prot flags = (Inr (Some start), vs') \<and>
       merged_into vs (byte_pages start len) prot flags x vs')"
proof -
  let ?s = "va_floor start" and ?e = "va_ceil (start + len)"
  have c: "checked_add start len = Some (start + len)" using bound user_end_small by (simp add: checked_add_def)
  have aw: "areas_wf (vs_vmas vs)" and hw: "holes_wf (vs_holes vs)" and hp: "hole_pages (vs_holes vs) = arena - vma_pages (vs_vmas vs)"
    using inv by (simp_all add: vs_inv_def)
  show ?thesis
  proof (cases "is_mmap_range_free vs ?s ?e \<and> (\<exists>k a. bt_last_le ?s (vs_vmas vs) = Some (k, a) \<and> vm_end a = ?s \<and>
      vm_can_merge_lazy_private a prot flags)")
    case False
    then have "try_merge_lazy_private_mmap vs start len prot flags = (Inr None, vs)"
      by (auto simp: try_merge_lazy_private_mmap_def c Let_def split: option.splits)
    then show ?thesis ..
  next
    case True
    then obtain k a where fr: "is_mmap_range_free vs ?s ?e" and l: "bt_last_le ?s (vs_vmas vs) = Some (k, a)"
      and e: "vm_end a = ?s" and m: "vm_can_merge_lazy_private a prot flags" by blast
    have se: "?s < ?e" by (rule byte_pages_nonempty [OF len])
    have free: "{?s..<?e} \<inter> vma_pages (vs_vmas vs) = {}" using fr hp is_mmap_range_free_iff [OF hw] by blast
    have ka: "(k, a) \<in> set (vs_vmas vs)" using bt_last_le_entry(1) [OF areas_wf_bt [OF aw] l] .
    then have g: "bt_get (vs_vmas vs) k = Some a" using bt_get_iff [OF areas_wf_bt [OF aw]] by blast
    have w: "vma_wf a" by (rule areas_wf_entry(2) [OF aw ka])
    have nf: "vma_map_file a = None" using m by (simp add: vm_can_merge_lazy_private_def)
    have eM: "?e \<le> MAX_VPN" using user_range_ceil [OF bound] user_end_small(1) by simp
    have le: "vm_end a \<le> ?e" using se e by simp
    from expand_to_facts [OF w nf le eM] obtain a' where x: "expand_to a (start + len) = (Inr (), a')" "vma_wf a'"
      "vm_start a' = vm_start a" "vm_end a' = ?e" "vm_is_user a' = vm_is_user a" "rmap_from_vma a' = rmap_from_vma a"
      "\<And>v. area_view a' v = (area_view a v)\<lparr>pa_frame := if v < vm_end a then page_frame (vma_inner a) v else Unallocated\<rparr>"
      by blast
    have pgs: "area_pages a' = area_pages a \<union> {?s..<?e}"
      using x(3,4) e se w by (auto simp: area_pages_def vma_wf_def)
    define vs2 where "vs2 = update_area (reserve_mmap_range vs ?s ?e) k a'"
    note G = grow_area_facts [OF inv g x(2,3,5,6) pgs free vs2_def]
    define vs' where "vs' = vs2\<lparr>vs_user_page_count := vs_user_page_count vs + (user_size a' - user_size a)\<rparr>"
    have "area_page_count a' \<le> MAX_VPN" using x(4) eM by (simp add: area_page_count_def saturating_sub_def)
    then have "vs_user_page_count vs + (area_page_count a' - area_page_count a) \<le> USIZE_MAX"
      using inv user_pages_bounded [OF aw] by (simp add: vs_inv_def MAX_VPN_def USIZE_MAX_def)
    then have t: "try_merge_lazy_private_mmap vs start len prot flags = (Inr (Some start), vs')"
      using fr l e m g x(1,5)
      by (simp add: try_merge_lazy_private_mmap_def c Let_def vs'_def vs2_def saturating_add_def saturating_sub_def user_size_def)
    have new: "area_view a' v = (area_view a ?s)\<lparr>pa_frame := Unallocated\<rparr>" if "?s \<le> v" for v
      using x(7) [of v] that e nf by (simp add: area_view_def)
    have old: "area_view a' v = area_view a v" if "v \<in> area_pages a" for v
      using x(7) [of v] that by (simp add: area_pages_def) (simp add: area_view_def)
    have "page_view (vs_vmas vs') v = (if v \<in> byte_pages start len then Some ((area_view a ?s)\<lparr>pa_frame := Unallocated\<rparr>)
        else page_view (vs_vmas vs) v)" for v
      using G(2) [of v] new [of v] old [of v] page_view_Some [OF aw ka, of v]
      unfolding vs'_def byte_pages_def pgs by auto
    moreover have "vs_inv vs'" unfolding vs'_def by (rule G(1))
    ultimately have "merged_into vs (byte_pages start len) prot flags ((area_view a ?s)\<lparr>pa_frame := Unallocated\<rparr>) vs'"
      using free m by (simp add: merged_into_def byte_pages_def vm_can_merge_lazy_private_def area_view_def)
    then show ?thesis using t by blast
  qed
qed

section \<open>Frames in use and frames left\<close>

text \<open>Removing pages touches neither the supply of frames nor memory.\<close>

definition same_supply :: "'pt UserMapper \<Rightarrow> 'pt UserMapper \<Rightarrow> bool" where
  "same_supply m m' \<longleftrightarrow> um_free_frames m' = um_free_frames m \<and> um_mem m' = um_mem m"

lemma same_supply_refl [simp]: "same_supply m m"
  by (simp add: same_supply_def)

lemma same_supply_trans: "same_supply m m1 \<Longrightarrow> same_supply m1 m2 \<Longrightarrow> same_supply m m2"
  by (simp add: same_supply_def)

lemma evict_page_supply: "evict_page env ops a m v = Some y \<Longrightarrow> same_supply m (snd (snd y))"
  by (auto simp: evict_page_def unmap_user_page_if_mapped_def um_retire_frame_def same_supply_def Let_def
        note_file_pte_unmapped_def split: Option.bind_splits if_splits sum.splits option.splits prod.splits)

lemma evict_loop_supply: "evict_loop env ops e c a m = Some y \<Longrightarrow> same_supply m (snd (snd y))"
  by (erule evict_loop.raw_induct [rotated])
     (fastforce dest: evict_page_supply intro: same_supply_trans split: option.splits sum.splits prod.splits)

lemma unmap_area_supply: "unmap_area env ops s e k vs m = Some y \<Longrightarrow> same_supply m (snd (snd y))"
  by (auto simp: unmap_area_def vma_unmap_def Let_def dest: evict_loop_supply
        split: option.splits if_splits prod.splits sum.splits Option.bind_splits)

lemma unmap_loop_supply: "unmap_loop env ops s e b vs m = Some y \<Longrightarrow> same_supply m (snd (snd y))"
  by (erule unmap_loop.raw_induct [rotated])
     (fastforce dest: unmap_area_supply intro: same_supply_trans split: option.splits sum.splits prod.splits)

lemma unmap_range_supply: "unmap_range env ops vs m s e b = Some (r, vs', m') \<Longrightarrow> same_supply m m'"
  by (auto simp: unmap_range_def dest: unmap_loop_supply split: Option.bind_splits sum.splits)

text \<open>
  A step that may take frames from the supply: the taken ones are cleared, all others keep their
  contents.
\<close>

definition takes_frames :: "'pt UserMapper \<Rightarrow> ppn list \<Rightarrow> 'pt UserMapper \<Rightarrow> bool" where
  "takes_frames m taken m' \<longleftrightarrow>
     um_free_frames m = taken @ um_free_frames m' \<and>
     um_mem m' = (\<lambda>p. if p \<in> set taken then (\<lambda>_. 0) else um_mem m p)"

lemma same_supply_takes: "same_supply m m' \<longleftrightarrow> takes_frames m [] m'"
  by (auto simp: same_supply_def takes_frames_def)

lemma takes_frames_trans: "takes_frames m xs m1 \<Longrightarrow> takes_frames m1 ys m2 \<Longrightarrow> takes_frames m (xs @ ys) m2"
  by (auto simp: takes_frames_def fun_eq_iff)

lemma frame_alloc_takes:
  "frame_alloc m = (None, m1) \<Longrightarrow> m1 = m"
  "frame_alloc m = (Some p, m1) \<Longrightarrow> takes_frames m [p] m1 \<and> um_page_table m1 = um_page_table m \<and>
     um_gather m1 = um_gather m \<and> um_cache_calls m1 = um_cache_calls m"
  by (auto simp: frame_alloc_def frame_alloc_uninit_def takes_frames_def split: list.splits)

text \<open>The frames of the areas are usable and never in the supply, and the supply has no duplicates.\<close>

definition frames_ok :: "(ppn \<Rightarrow> bool) \<Rightarrow> VmaSet \<Rightarrow> 'pt UserMapper \<Rightarrow> bool" where
  "frames_ok frame_ok vs m \<longleftrightarrow>
     distinct (um_free_frames m) \<and> (\<forall>p \<in> set (um_free_frames m). frame_ok p) \<and>
     (\<forall>v x p. page_view (vs_vmas vs) v = Some x \<longrightarrow> pa_frame x = InMemory p \<longrightarrow>
        frame_ok p \<and> p \<notin> set (um_free_frames m))"

text \<open>The user part of the page table has translations only inside areas.\<close>

definition no_strays :: "(vpn \<Rightarrow> (ppn \<times> MapPermission) option) \<Rightarrow> (vpn, Vma) btree \<Rightarrow> bool" where
  "no_strays w m \<longleftrightarrow> (\<forall>v. v < va_floor USER_VA_END \<longrightarrow> w v \<noteq> None \<longrightarrow> v \<in> vma_pages m)"

definition space_ok ::
  "('pt \<Rightarrow> bool) \<Rightarrow> (vpn \<Rightarrow> bool) \<Rightarrow> (ppn \<Rightarrow> bool) \<Rightarrow> ('pt \<Rightarrow> vpn \<Rightarrow> (ppn \<times> MapPermission) option) \<Rightarrow>
     'pt AddressSpaceInner \<Rightarrow> bool" where
  "space_ok pt_inv user_vpn frame_ok view sp \<longleftrightarrow>
     mm_ok pt_inv user_vpn view (as_vmas sp) (as_mapper sp) \<and>
     no_strays (view (um_page_table (as_mapper sp))) (vs_vmas (as_vmas sp)) \<and>
     frames_ok frame_ok (as_vmas sp) (as_mapper sp)"

section \<open>The effect of an operation on an address space\<close>

text \<open>
  The pages \<open>P\<close> get the attributes \<open>X\<close> (none: they are gone) and lose their translations, whose
  frames are queued and whose pages are flushed; all other pages, translations and locks stay,
  the break stays, and the memory of every frame not taken from the supply stays.
\<close>

abbreviation as_page :: "'pt AddressSpaceInner \<Rightarrow> vpn \<Rightarrow> page_attrs option" where
  "as_page sp \<equiv> page_view (vs_vmas (as_vmas sp))"

definition remapped ::
  "('pt \<Rightarrow> vpn \<Rightarrow> (ppn \<times> MapPermission) option) \<Rightarrow> 'pt AddressSpaceInner \<Rightarrow> vpn set \<Rightarrow>
     (vpn \<Rightarrow> page_attrs option) \<Rightarrow> ppn list \<Rightarrow> 'pt AddressSpaceInner \<Rightarrow> bool" where
  "remapped view sp P X taken sp' \<longleftrightarrow>
     as_heap_bottom sp' = as_heap_bottom sp \<and> as_heap_pt sp' = as_heap_pt sp \<and>
     (\<forall>v. as_page sp' v = (if v \<in> P then X v else as_page sp v)) \<and>
     removed (view (um_page_table (as_mapper sp))) (um_gather (as_mapper sp)) P
       (view (um_page_table (as_mapper sp'))) (um_gather (as_mapper sp')) \<and>
     (\<forall>v. v \<notin> P \<longrightarrow> (v \<in> as_locked sp' \<longleftrightarrow> v \<in> as_locked sp)) \<and>
     takes_frames (as_mapper sp) taken (as_mapper sp')"

lemma remapped_none: "remapped view sp {} X [] sp"
  by (simp add: remapped_def removed_none takes_frames_def)

lemma removed_untouched:
  assumes "\<And>v. v \<in> P \<Longrightarrow> w v = None"
  shows "removed w g P w g"
proof -
  have e: "{v \<in> P. w v \<noteq> None} = {}" using assms by auto
  show ?thesis unfolding removed_def e using assms by (auto simp: fun_eq_iff)
qed

section \<open>Inserting a new area\<close>

text \<open>The frames of a shared anonymous area, allocated in advance.\<close>

lemma alloc_one_zeroed_facts:
  assumes wf: "vma_wf a" and r: "alloc_one_zeroed_unmapped env a m v = (r, a', m')"
  shows "\<exists>s taken. a' = a\<lparr>vma_inner := s\<rparr> \<and> vma_wf a' \<and> vm_start a' = vm_start a \<and> vm_end a' = vm_end a \<and>
    takes_frames m taken m' \<and> um_page_table m' = um_page_table m \<and> um_gather m' = um_gather m \<and>
    (\<forall>w. page_frame s w = page_frame (vma_inner a) w \<or> (\<exists>p \<in> set taken. page_frame s w = InMemory p)) \<and>
    (\<forall>w. w \<noteq> v \<longrightarrow> page_frame s w = page_frame (vma_inner a) w) \<and>
    (\<forall>p. r = Inr p \<longrightarrow> page_frame s v = InMemory p \<and> p \<in> set taken)"
proof -
  have sw: "store_wf (vma_inner a)" using wf by (simp add: vma_wf_def)
  obtain f m1 where f: "frame_alloc m = (f, m1)" by fastforce
  show ?thesis
  proof (cases f)
    case None
    then have "r = Inl OutOfMemory" "a' = a" "m' = m"
      using r f frame_alloc_takes(1) [of m m1] by (simp_all add: alloc_one_zeroed_unmapped_def)
    with wf show ?thesis by (intro exI [of _ "vma_inner a"] exI [of _ "[]"]) (simp add: same_supply_takes [symmetric])
  next
    case (Some p)
    obtain r1 s where s: "alloc_in_memory env (vma_inner a) v p = (r1, s)" by fastforce
    note A = alloc_in_memory_facts [OF sw s]
    have eq: "a' = a\<lparr>vma_inner := s\<rparr>" "m' = m1" "r = (case r1 of Inl e \<Rightarrow> Inl e | Inr _ \<Rightarrow> Inr p)"
      using r f Some s by (auto simp: alloc_one_zeroed_unmapped_def split: sum.splits)
    have rng: "vm_start a' = vm_start a" "vm_end a' = vm_end a"
      using A(2) by (simp_all add: eq vm_start_def vm_end_def st_start_def st_end_def)
    have w: "vma_wf a'" using wf A(1) rng by (simp add: vma_wf_def) (simp add: eq)
    have frm: "page_frame s = (if r1 = Inr () then (page_frame (vma_inner a))(v := InMemory p) else page_frame (vma_inner a))"
      by (rule A(3))
    have "takes_frames m [p] m'" "um_page_table m' = um_page_table m" "um_gather m' = um_gather m"
      using frame_alloc_takes(2) [of m p m1] f Some by (simp_all add: eq(2))
    moreover have "r = Inr q \<Longrightarrow> page_frame s v = InMemory q \<and> q = p" for q
      unfolding frm eq(3) by (simp split: sum.splits)
    moreover have "page_frame s w = page_frame (vma_inner a) w \<or> page_frame s w = InMemory p"
      "w \<noteq> v \<Longrightarrow> page_frame s w = page_frame (vma_inner a) w" for w
      unfolding frm by (simp_all split: if_splits)
    ultimately show ?thesis using eq(1) w rng by (intro exI [of _ s] exI [of _ "[p]"]) auto
  qed
qed

lemma mmap_prealloc_facts:
  assumes "vma_wf a" and "mmap_prealloc env a m vs = (r, a', m')"
  shows "\<exists>s taken. a' = a\<lparr>vma_inner := s\<rparr> \<and> vma_wf a' \<and> vm_start a' = vm_start a \<and> vm_end a' = vm_end a \<and>
    takes_frames m taken m' \<and> um_page_table m' = um_page_table m \<and> um_gather m' = um_gather m \<and>
    (\<forall>w. page_frame s w = page_frame (vma_inner a) w \<or> (\<exists>p \<in> set taken. page_frame s w = InMemory p)) \<and>
    (r = Inr () \<longrightarrow> (\<forall>w \<in> set vs. \<exists>p. page_frame s w = InMemory p)) \<and>
    (\<forall>w. w \<notin> set vs \<longrightarrow> page_frame s w = page_frame (vma_inner a) w)"
  using assms
proof (induction vs arbitrary: a m)
  case Nil
  then show ?case by (intro exI [of _ "vma_inner a"] exI [of _ "[]"]) (simp add: same_supply_takes [symmetric])
next
  case (Cons v vs)
  obtain r1 a1 m1 where 1: "alloc_one_zeroed_unmapped env a m v = (r1, a1, m1)" by (metis prod_cases3)
  from alloc_one_zeroed_facts [OF Cons.prems(1) 1] obtain s1 t1 where
    s1: "a1 = a\<lparr>vma_inner := s1\<rparr>" "vma_wf a1" "vm_start a1 = vm_start a" "vm_end a1 = vm_end a"
    "takes_frames m t1 m1" "um_page_table m1 = um_page_table m" "um_gather m1 = um_gather m"
    "\<forall>w. page_frame s1 w = page_frame (vma_inner a) w \<or> (\<exists>p \<in> set t1. page_frame s1 w = InMemory p)"
    "\<forall>w. w \<noteq> v \<longrightarrow> page_frame s1 w = page_frame (vma_inner a) w"
    "\<forall>p. r1 = Inr p \<longrightarrow> page_frame s1 v = InMemory p \<and> p \<in> set t1" by blast
  show ?case
  proof (cases r1)
    case (Inl e)
    then have "a' = a1" "m' = m1" "r = Inl (if e = OutOfMemory then ENOMEM else EINVAL)"
      using 1 Cons.prems(2) by simp_all
    with s1 show ?thesis by (intro exI [of _ s1] exI [of _ t1]) auto
  next
    case (Inr p)
    then have "mmap_prealloc env a1 m1 vs = (r, a', m')" using 1 Cons.prems(2) by simp
    from Cons.IH [OF s1(2) this] obtain s t where
      t: "a' = a1\<lparr>vma_inner := s\<rparr>" "vma_wf a'" "vm_start a' = vm_start a1" "vm_end a' = vm_end a1"
      "takes_frames m1 t m'" "um_page_table m' = um_page_table m1" "um_gather m' = um_gather m1"
      "\<forall>w. page_frame s w = page_frame (vma_inner a1) w \<or> (\<exists>p \<in> set t. page_frame s w = InMemory p)"
      "r = Inr () \<longrightarrow> (\<forall>w \<in> set vs. \<exists>p. page_frame s w = InMemory p)"
      "\<forall>w. w \<notin> set vs \<longrightarrow> page_frame s w = page_frame (vma_inner a1) w" by blast
    have in1: "vma_inner a1 = s1" by (simp add: s1(1))
    have "takes_frames m (t1 @ t) m'" by (rule takes_frames_trans [OF s1(5) t(5)])
    moreover have "\<forall>w. page_frame s w = page_frame (vma_inner a) w \<or> (\<exists>p \<in> set (t1 @ t). page_frame s w = InMemory p)"
      using s1(8) t(8) unfolding in1 set_append by (metis Un_iff)
    moreover have "r = Inr () \<longrightarrow> (\<forall>w \<in> set (v # vs). \<exists>p. page_frame s w = InMemory p)"
      using s1(10) t(9,10) Inr unfolding in1 by (cases "v \<in> set vs") auto
    moreover have "\<forall>w. w \<notin> set (v # vs) \<longrightarrow> page_frame s w = page_frame (vma_inner a) w"
      using s1(9) t(10) unfolding in1 by simp
    moreover have "a' = a\<lparr>vma_inner := s\<rparr>" using t(1) s1(1) by simp
    ultimately show ?thesis using t(2-4,6,7) s1(3,4,6,7) by (intro exI [of _ s] exI [of _ "t1 @ t"]) simp
  qed
qed

lemma frames_ok_takes:
  assumes "frames_ok frame_ok vs m" and "takes_frames m taken m'"
    and "\<And>v x p. page_view (vs_vmas vs') v = Some x \<Longrightarrow> pa_frame x = InMemory p \<Longrightarrow>
      p \<in> set taken \<or> (\<exists>w y. page_view (vs_vmas vs) w = Some y \<and> pa_frame y = InMemory p)"
  shows "frames_ok frame_ok vs' m'"
proof -
  let ?f = "um_free_frames m" and ?f' = "um_free_frames m'"
  have f: "set ?f = set taken \<union> set ?f'" and d: "distinct ?f'" "set taken \<inter> set ?f' = {}"
    using assms(1,2) by (auto simp: frames_ok_def takes_frames_def)
  have ok: "\<forall>p \<in> set ?f. frame_ok p"
    and old: "\<And>v x p. page_view (vs_vmas vs) v = Some x \<Longrightarrow> pa_frame x = InMemory p \<Longrightarrow> frame_ok p \<and> p \<notin> set ?f"
    using assms(1) unfolding frames_ok_def by blast+
  have "frame_ok p \<and> p \<notin> set ?f'" if "page_view (vs_vmas vs') v = Some x" "pa_frame x = InMemory p" for v x p
    using assms(3) [OF that] old ok f d(2) by blast
  with d(1) ok f show ?thesis unfolding frames_ok_def by blast
qed

text \<open>The attributes a page of a new mapping gets.\<close>

definition mmap_page ::
  "MapPermission \<Rightarrow> MapFlags \<Rightarrow> usize \<Rightarrow> nat option \<Rightarrow> addr \<Rightarrow> ppn list \<Rightarrow> vpn \<Rightarrow> page_attrs \<Rightarrow> bool" where
  "mmap_page prot flags offset file a taken v x \<longleftrightarrow>
     pa_perm x = prot \<and>
     (pa_flags x = flags \<and> pa_elf x = None \<or>
      flags_contains flags (MAP_PRIVATE OR MAP_ANONYMOUS) \<and> flags_contains (pa_flags x) (MAP_PRIVATE OR MAP_ANONYMOUS)) \<and>
     pa_file x = (if flags_contains flags MAP_ANONYMOUS then None
                  else map_option (\<lambda>f. (f, offset + (v - va_floor a) * PAGE_SIZE)) file) \<and>
     \<not> pa_wipe_on_fork x \<and> \<not> pa_dont_fork x \<and> \<not> pa_fork_inherited x \<and>
     (pa_frame x = Unallocated \<or> (\<exists>p \<in> set taken. pa_frame x = InMemory p))"

text \<open>The area that \<open>do_mmap\<close> builds before it allocates frames.\<close>

definition mmap_area ::
  "addr \<Rightarrow> addr \<Rightarrow> MapPermission \<Rightarrow> MapFlags \<Rightarrow> usize \<Rightarrow> nat option \<Rightarrow> bool \<Rightarrow> bool \<Rightarrow> Vma" where
  "mmap_area s e prot flags offset file may_write write_sealed =
     (let a = \<lparr>vma_inner = store_try_new (va_floor s, va_ceil e), vma_map_perm = prot, vma_map_file = None,
               vma_elf_lazy = None, vma_map_file_offset = 0, vma_may_write = may_write,
               vma_write_sealed = write_sealed, vma_flags = flags, vma_wipe_on_fork = False,
               vma_dont_fork = False, vma_fork_inherited = False, vma_user_address_space = None\<rparr>
      in if flags_contains flags MAP_ANONYMOUS then a else a\<lparr>vma_map_file := file, vma_map_file_offset := offset\<rparr>)"

lemma mmap_area_range: "vm_start (mmap_area s e prot flags offset file mw ws) = va_floor s"
  "vm_end (mmap_area s e prot flags offset file mw ws) = va_ceil e"
  by (simp_all add: mmap_area_def Let_def vm_start_def vm_end_def st_start_def st_end_def store_try_new_def)

lemma mmap_area_wf:
  assumes len: "0 < len" and bound: "s + len \<le> USER_VA_END"
    and off: "flags_contains flags MAP_ANONYMOUS \<or> offset \<le> ISIZE_MAX"
  shows "vma_wf (mmap_area s (s + len) prot flags offset file mw ws)"
proof -
  let ?a = "mmap_area s (s + len) prot flags offset file mw ws"
  have ne: "va_floor s < va_ceil (s + len)" by (rule byte_pages_nonempty [OF len])
  have e: "va_ceil (s + len) \<le> va_floor USER_VA_END" by (rule user_range_ceil [OF bound])
  have "store_wf (vma_inner ?a)"
    using store_wf_new [of "va_floor s" "va_ceil (s + len)"] ne by (simp add: mmap_area_def Let_def)
  moreover have "offset + (va_ceil (s + len) - va_floor s) * PAGE_SIZE \<le> USIZE_MAX" if "offset \<le> ISIZE_MAX"
    using that e by (simp add: ISIZE_MAX_def USIZE_MAX_def PAGE_SIZE_def va_floor_def USER_VA_END_def TASK_SIZE_def)
  ultimately show ?thesis
    using ne e user_end_small(1) off by (simp add: vma_wf_def mmap_area_range) (auto simp: mmap_area_def Let_def)
qed

lemma mmap_area_view:
  assumes "page_frame s v = Unallocated \<or> (\<exists>p \<in> set taken. page_frame s v = InMemory p)"
    and "st_start s = va_floor a"
  shows "mmap_page prot flags offset file a taken v
    (area_view ((mmap_area a e prot flags offset file mw ws)\<lparr>vma_inner := s\<rparr>) v)"
  using assms by (simp add: mmap_page_def area_view_def mmap_area_def Let_def vm_start_def)

lemma mmap_insert_eq:
  assumes c: "start_va + len \<le> USIZE_MAX"
    and a: "a = mmap_area start_va (start_va + len) prot flags offset map_file may_write write_sealed"
    and eager: "eager \<longleftrightarrow> flags_contains flags MAP_SHARED \<and> vma_map_file a = None \<and> flags_contains prot PERM_W"
  shows "mmap_insert env sp start_va len prot flags offset map_file may_write write_sealed =
     (if has_overlap (as_vmas sp) (vm_start a) (vm_end a) then Some (Inl EINVAL, sp)
      else if \<not> map_room env (as_vmas sp) 1 then Some (Inl ENOMEM, sp)
      else if \<not> flags_contains flags MAP_ANONYMOUS \<and> (offset mod PAGE_SIZE \<noteq> 0 \<or> offset > ISIZE_MAX) then Some (Inl EINVAL, sp)
      else if \<not> flags_contains flags MAP_ANONYMOUS \<and> map_file = None then Some (Inl EBADF, sp)
      else if eager \<and> len > MAX_EAGER_MMAP_SIZE then Some (Inl ENOMEM, sp)
      else let (r, sp') = mmap_finish env sp a eager (flags_contains flags MAP_LOCKED)
           in Some (map_sum id (\<lambda>_. start_va) r, sp'))"
proof -
  have r: "vpn_range_new (va_floor start_va) (va_ceil (start_va + len)) =
      Some (va_floor start_va, va_ceil (start_va + len))"
    using va_floor_le_ceil [of start_va] va_ceil_least [of "start_va + len" "va_ceil (start_va + len)"]
      va_ceil_least [of start_va "va_ceil (start_va + len)"] by (simp add: vpn_range_new_def)
  obtain a0 where a0: "vma_try_new start_va (start_va + len) prot None 0 = Some a0" "vma_map_perm a0 = prot"
    and A: "a = (if flags_contains flags MAP_ANONYMOUS
       then a0\<lparr>vma_flags := flags, vma_may_write := may_write, vma_write_sealed := write_sealed\<rparr>
       else a0\<lparr>vma_flags := flags, vma_may_write := may_write, vma_write_sealed := write_sealed,
              vma_map_file := map_file, vma_map_file_offset := offset\<rparr>)"
    unfolding vma_try_new_def r a by (simp add: mmap_area_def Let_def)
  have rng: "vm_start a = va_floor start_va" "vm_end a = va_ceil (start_va + len)" by (simp_all add: a mmap_area_range)
  have p: "vma_map_perm a = prot" using a0(2) by (simp add: A)
  show ?thesis
    unfolding mmap_insert_def ensure_can_add_eq checked_add_def if_P [OF c] option.case a0(1) Let_def A [symmetric]
      rng p eager by simp
qed

lemma mmap_finish_facts:
  assumes ok: "space_ok pt_inv user_vpn frame_ok view sp" and low: "\<forall>v < va_floor USER_VA_END. user_vpn v"
    and wf: "vma_wf a" and top: "vm_end a \<le> va_floor USER_VA_END" and free: "area_pages a \<inter> vma_pages (vs_vmas (as_vmas sp)) = {}"
    and un: "\<And>v. page_frame (vma_inner a) v = Unallocated" and r: "mmap_finish env sp a eager lock = (r, sp')"
  shows "space_ok pt_inv user_vpn frame_ok view sp' \<and>
    (case r of
       Inl err \<Rightarrow> \<exists>taken. remapped view sp {} (\<lambda>_. None) taken sp'
     | Inr _ \<Rightarrow> \<exists>s taken. st_start s = vm_start a \<and>
         (\<forall>v. page_frame s v = Unallocated \<or> (\<exists>p \<in> set taken. page_frame s v = InMemory p)) \<and>
         remapped view sp (area_pages a) (\<lambda>v. Some (area_view (a\<lparr>vma_inner := s\<rparr>) v)) taken sp')"
proof -
  let ?w = "view (um_page_table (as_mapper sp))" and ?vs = "as_vmas sp"
  have inv: "vs_inv ?vs" and pt: "pt_inv (um_page_table (as_mapper sp))"
    and u: "\<forall>v \<in> vma_pages (vs_vmas ?vs). user_vpn v" and con: "mm_consistent ?w (vs_vmas ?vs)"
    and st: "no_strays ?w (vs_vmas ?vs)" and fr: "frames_ok frame_ok ?vs (as_mapper sp)"
    using ok by (simp_all add: space_ok_def mm_ok_def)
  obtain r3 a3 m3 where p: "(if eager then mmap_prealloc env a (as_mapper sp) [vm_start a..<vm_end a]
      else (Inr (), a, as_mapper sp)) = (r3, a3, m3)" by (metis prod_cases3)
  have "\<exists>s taken. a3 = a\<lparr>vma_inner := s\<rparr> \<and> vma_wf a3 \<and> vm_start a3 = vm_start a \<and> vm_end a3 = vm_end a \<and>
      takes_frames (as_mapper sp) taken m3 \<and> um_page_table m3 = um_page_table (as_mapper sp) \<and>
      um_gather m3 = um_gather (as_mapper sp) \<and>
      (\<forall>w. page_frame s w = page_frame (vma_inner a) w \<or> (\<exists>p \<in> set taken. page_frame s w = InMemory p))"
  proof (cases eager)
    case True
    with p mmap_prealloc_facts [OF wf, of env "as_mapper sp" "[vm_start a..<vm_end a]" r3 a3 m3] show ?thesis
      by simp blast
  next
    case False
    with p wf show ?thesis
      by (intro exI [of _ "vma_inner a"] exI [of _ "[]"]) (auto simp: same_supply_takes [symmetric])
  qed
  then obtain s taken where a3: "a3 = a\<lparr>vma_inner := s\<rparr>" "vma_wf a3" "vm_start a3 = vm_start a" "vm_end a3 = vm_end a"
    and tk: "takes_frames (as_mapper sp) taken m3" and same: "um_page_table m3 = um_page_table (as_mapper sp)"
      "um_gather m3 = um_gather (as_mapper sp)"
    and frm: "\<And>w. page_frame s w = Unallocated \<or> (\<exists>p \<in> set taken. page_frame s w = InMemory p)"
    using un by auto
  define sp3 where "sp3 = sp\<lparr>as_mapper := m3\<rparr>"
  have fr3: "frames_ok frame_ok ?vs m3" by (rule frames_ok_takes [OF fr tk]) blast
  have ok3: "space_ok pt_inv user_vpn frame_ok view sp3"
    using ok fr3 same by (simp add: sp3_def space_ok_def mm_ok_def)
  have re3: "remapped view sp {} (\<lambda>_. None) taken sp3"
    using tk same by (simp add: remapped_def sp3_def removed_none)
  show ?thesis
  proof (cases "\<exists>x vs4. r3 = Inr x \<and> insert_vma env ?vs a3 = (Inr (), vs4)")
    case False
    then have "\<exists>err. r = Inl err \<and> sp' = sp3"
      using r p by (auto simp: mmap_finish_def sp3_def Let_def split: sum.splits prod.splits)
    with ok3 re3 show ?thesis by auto
  next
    case True
    then obtain x vs4 where i: "r3 = Inr x" "insert_vma env ?vs a3 = (Inr (), vs4)" by blast
    define sp4 where "sp4 = sp3\<lparr>as_vmas := vs4, as_locked := as_locked sp \<union> (if lock then area_pages a else {})\<rparr>"
    have "r = Inr ()" "sp' = sp4"
      using r p i by (auto simp: mmap_finish_def sp3_def sp4_def set_locked_pages_def area_pages_def Let_def)
    have ap: "area_pages a3 = area_pages a" using a3 by (simp add: area_pages_def)
    from insert_vma_facts [OF inv a3(2) i(2)] ap have inv4: "vs_inv vs4"
      and pv: "page_view (vs_vmas vs4) v = (if v \<in> area_pages a then Some (area_view a3 v) else page_view (vs_vmas ?vs) v)" for v
      by auto
    have pg: "vma_pages (vs_vmas vs4) = area_pages a \<union> vma_pages (vs_vmas ?vs)"
      unfolding vma_pages_view by (auto simp: pv)
    have low': "v < va_floor USER_VA_END" if "v \<in> area_pages a" for v using that top by (simp add: area_pages_def)
    have none: "?w v = None" if "v \<in> area_pages a" for v
      using st low' [OF that] free that unfolding no_strays_def by blast
    have con4: "mm_consistent ?w (vs_vmas vs4)"
      unfolding mm_consistent_def
    proof (intro allI impI)
      fix v x q perm assume h: "page_view (vs_vmas vs4) v = Some x" "?w v = Some (q, perm)"
      then have "v \<notin> area_pages a" using none by auto
      with h con show "pa_frame x = InMemory q \<and> flags_contains (pa_perm x) perm"
        unfolding mm_consistent_def by (simp add: pv)
    qed
    have "frames_ok frame_ok vs4 m3"
    proof (rule frames_ok_takes [OF fr tk])
      fix v x q assume h: "page_view (vs_vmas vs4) v = Some x" "pa_frame x = InMemory q"
      show "q \<in> set taken \<or> (\<exists>w y. page_view (vs_vmas ?vs) w = Some y \<and> pa_frame y = InMemory q)"
      proof (cases "v \<in> area_pages a")
        case True
        then have "x = area_view a3 v" using h(1) pv [of v] by simp
        then have "page_frame s v = InMemory q" using h(2) by (simp add: area_view_def a3(1))
        with frm [of v] show ?thesis by auto
      next
        case False
        with h pv [of v] show ?thesis by auto
      qed
    qed
    then have "space_ok pt_inv user_vpn frame_ok view sp4"
      using inv4 pt con4 st u low low' same pg by (auto simp: sp4_def sp3_def space_ok_def mm_ok_def no_strays_def)
    moreover have "remapped view sp (area_pages a) (\<lambda>v. Some (area_view (a\<lparr>vma_inner := s\<rparr>) v)) taken sp4"
      using tk same pv removed_untouched [of "area_pages a" ?w] none a3(1)
      by (auto simp: remapped_def sp4_def sp3_def)
    moreover have "st_start s = vm_start a" using a3 by (simp add: vm_start_def)
    ultimately show ?thesis using frm \<open>r = Inr ()\<close> \<open>sp' = sp4\<close> by (simp only: sum.case) blast
  qed
qed

text \<open>The pages of \<open>[a, a + len)\<close> belong to a new mapping.\<close>

definition mmap_added ::
  "('pt \<Rightarrow> vpn \<Rightarrow> (ppn \<times> MapPermission) option) \<Rightarrow> 'pt AddressSpaceInner \<Rightarrow> addr \<Rightarrow> usize \<Rightarrow> MapPermission \<Rightarrow>
     MapFlags \<Rightarrow> usize \<Rightarrow> nat option \<Rightarrow> 'pt AddressSpaceInner \<Rightarrow> bool" where
  "mmap_added view sp a len prot flags offset file sp' \<longleftrightarrow>
     (\<exists>X taken. remapped view sp (byte_pages a len) X taken sp' \<and>
        (\<forall>v \<in> byte_pages a len. \<exists>x. X v = Some x \<and> mmap_page prot flags offset file a taken v x))"

lemma area_view_frame [simp]: "pa_frame (area_view a v) = page_frame (vma_inner a) v"
  by (simp add: area_view_def)

lemma mmap_insert_facts:
  assumes ok: "space_ok pt_inv user_vpn frame_ok view sp" and low: "\<forall>v < va_floor USER_VA_END. user_vpn v"
    and len: "0 < len" and bound: "start_va + len \<le> USER_VA_END"
  shows "\<exists>r sp'. mmap_insert env sp start_va len prot flags offset file mw ws = Some (r, sp') \<and>
    space_ok pt_inv user_vpn frame_ok view sp' \<and>
    (case r of
       Inl err \<Rightarrow> \<exists>taken. remapped view sp {} (\<lambda>_. None) taken sp'
     | Inr a \<Rightarrow> a = start_va \<and> byte_pages start_va len \<inter> vma_pages (vs_vmas (as_vmas sp)) = {} \<and>
         mmap_added view sp start_va len prot flags offset file sp')"
proof -
  define a where "a = mmap_area start_va (start_va + len) prot flags offset file mw ws"
  define eager where "eager \<longleftrightarrow> flags_contains flags MAP_SHARED \<and> vma_map_file a = None \<and> flags_contains prot PERM_W"
  have c: "start_va + len \<le> USIZE_MAX" using bound user_end_small(2) by simp
  note eq = mmap_insert_eq [OF c a_def eager_def, of env sp]
  have ap: "area_pages a = byte_pages start_va len" by (simp add: a_def area_pages_def byte_pages_def mmap_area_range)
  have aw: "areas_wf (vs_vmas (as_vmas sp))" using ok by (simp add: space_ok_def mm_ok_def vs_inv_def)
  have ne: "vm_start a < vm_end a" using byte_pages_nonempty [OF len] by (simp add: a_def mmap_area_range)
  show ?thesis
  proof (cases "\<not> has_overlap (as_vmas sp) (vm_start a) (vm_end a) \<and> map_room env (as_vmas sp) 1 \<and>
      (flags_contains flags MAP_ANONYMOUS \<or> offset mod PAGE_SIZE = 0 \<and> offset \<le> ISIZE_MAX \<and> file \<noteq> None) \<and>
      \<not> (eager \<and> len > MAX_EAGER_MMAP_SIZE)")
    case False
    then have "\<exists>err. mmap_insert env sp start_va len prot flags offset file mw ws = Some (Inl err, sp)"
      unfolding eq by auto
    then obtain err where e: "mmap_insert env sp start_va len prot flags offset file mw ws = Some (Inl err, sp)" ..
    show ?thesis
      by (intro exI [of _ "Inl err"] exI [of _ sp]) (use e ok remapped_none [of view sp "\<lambda>_. None"] in auto)
  next
    case True
    then have wf: "vma_wf a" unfolding a_def by (intro mmap_area_wf [OF len bound]) auto
    have free: "area_pages a \<inter> vma_pages (vs_vmas (as_vmas sp)) = {}"
      using True has_overlap_iff [OF aw ne] by (auto simp: area_pages_def)
    have top: "vm_end a \<le> va_floor USER_VA_END" using user_range_ceil [OF bound] by (simp add: a_def mmap_area_range)
    have un: "page_frame (vma_inner a) v = Unallocated" for v
      by (simp add: a_def mmap_area_def Let_def store_try_new_def page_frame_def bt_get_def)
    obtain r sp' where f: "mmap_finish env sp a eager (flags_contains flags MAP_LOCKED) = (r, sp')" by fastforce
    note F = mmap_finish_facts [OF ok low wf top free un f]
    have res: "mmap_insert env sp start_va len prot flags offset file mw ws = Some (map_sum id (\<lambda>_. start_va) r, sp')"
      using True unfolding eq f by auto
    show ?thesis
    proof (cases r)
      case (Inl err)
      then show ?thesis using res F by (intro exI [of _ "Inl err"] exI [of _ sp']) simp
    next
      case (Inr x)
      then obtain s taken where s: "st_start s = vm_start a"
        "\<forall>v. page_frame s v = Unallocated \<or> (\<exists>p \<in> set taken. page_frame s v = InMemory p)"
        "remapped view sp (area_pages a) (\<lambda>v. Some (area_view (a\<lparr>vma_inner := s\<rparr>) v)) taken sp'" using F by auto
      have "mmap_page prot flags offset file start_va taken v (area_view (a\<lparr>vma_inner := s\<rparr>) v)" for v
        unfolding a_def by (rule mmap_area_view) (use s(1,2) in \<open>simp_all add: a_def mmap_area_range\<close>)
      then have "mmap_added view sp start_va len prot flags offset file sp'"
        using s(3) unfolding mmap_added_def ap by blast
      then show ?thesis using res F free Inr by (intro exI [of _ "Inr start_va"] exI [of _ sp']) (simp add: ap)
    qed
  qed
qed

section \<open>Unmapping and then mapping again\<close>

lemma removed_widen:
  assumes "removed w g R w1 g1" and "R \<subseteq> P" and "\<forall>v \<in> P - R. w v = None"
  shows "removed w g P w1 g1"
proof -
  have q: "v \<in> P \<and> w v \<noteq> None \<longleftrightarrow> v \<in> R \<and> w v \<noteq> None" for v using assms(2,3) by (cases "v \<in> R") auto
  have e: "{v \<in> P. w v \<noteq> None} = {v \<in> R. w v \<noteq> None}" unfolding q ..
  have "(if v \<in> R then None else w v) = (if v \<in> P then None else w v)" for v using assms(2,3) by auto
  then have f: "(\<lambda>v. if v \<in> R then None else w v) = (\<lambda>v. if v \<in> P then None else w v)" by simp
  have "\<forall>v \<in> P. w v \<noteq> None \<longrightarrow> covers_vpn (mg_range g1) v" using assms(1) q unfolding removed_def by meson
  then show ?thesis using assms(1) unfolding removed_def e f by simp
qed

lemma removed_again:
  assumes "removed w g P w1 g1" and "removed w1 g1 P w2 g2"
  shows "removed w g P w2 g2"
proof -
  have n: "w1 v = None" if "v \<in> P" for v using assms(1) that by (simp add: removed_def)
  then have e: "{v \<in> P. w1 v \<noteq> None} = {}" by auto
  have r2: "mset (mg_retired g2) = mset (mg_retired g1)" using assms(2) unfolding removed_def e by simp
  have w: "w2 = w1" using assms(2) n by (auto simp: removed_def fun_eq_iff)
  show ?thesis using assms r2 unfolding removed_def w by auto
qed

lemma remapped_again:
  assumes "remapped view sp P X [] sp1" and "remapped view sp1 P Y taken sp2"
  shows "remapped view sp P Y taken sp2"
  using assms removed_again [of "view (um_page_table (as_mapper sp))" "um_gather (as_mapper sp)" P]
    takes_frames_trans [of "as_mapper sp" "[]" "as_mapper sp1" taken "as_mapper sp2"]
  unfolding remapped_def by auto

lemma remapped_after:
  assumes "remapped view sp P X [] sp1" and "remapped view sp1 {} Y taken sp2"
  shows "remapped view sp P X taken sp2"
proof -
  let ?w = "\<lambda>sp. view (um_page_table (as_mapper sp))" and ?g = "\<lambda>sp. um_gather (as_mapper sp)"
  have "removed (?w sp1) (?g sp1) P (?w sp2) (?g sp2)"
    by (rule removed_widen [of _ _ "{}"]) (use assms in \<open>auto simp: remapped_def removed_def\<close>)
  then have "removed (?w sp) (?g sp) P (?w sp2) (?g sp2)"
    using removed_again assms(1) by (auto simp: remapped_def)
  then show ?thesis
    using assms takes_frames_trans [of "as_mapper sp" "[]" "as_mapper sp1" taken "as_mapper sp2"]
    unfolding remapped_def by auto
qed

lemma remapped_locks:
  assumes "remapped view sp R X taken sp1" and "R \<subseteq> {s..<e}" and "\<And>v. v \<in> {s..<e} - R \<Longrightarrow> X v = as_page sp v"
    and "\<forall>v \<in> {s..<e} - R. view (um_page_table (as_mapper sp)) v = None"
  shows "remapped view sp {s..<e} X taken (snd (set_locked_pages sp1 s e False))"
proof -
  note r = assms(1) [unfolded remapped_def]
  have "removed (view (um_page_table (as_mapper sp))) (um_gather (as_mapper sp)) {s..<e}
       (view (um_page_table (as_mapper sp1))) (um_gather (as_mapper sp1))"
    using r by (intro removed_widen [OF _ assms(2,4)]) blast
  moreover have "as_page sp1 v = (if v \<in> {s..<e} then X v else as_page sp v)" for v
    using r assms(2) assms(3) [of v] by auto
  ultimately show ?thesis using r assms(2) unfolding remapped_def set_locked_pages_def by auto
qed

lemma byte_pages_top: "a + len \<le> USER_VA_END \<Longrightarrow> v \<in> byte_pages a len \<Longrightarrow> v < va_floor USER_VA_END"
  using user_range_ceil [of "a + len"] by (simp add: byte_pages_def)

text \<open>The request may replace existing mappings only under MAP_FIXED without MAP_FIXED_NOREPLACE.\<close>

definition mmap_replaces :: "MapFlags \<Rightarrow> bool" where
  "mmap_replaces flags \<longleftrightarrow> flags_contains flags MAP_FIXED \<and> \<not> flags_contains flags MAP_FIXED_NOREPLACE"

lemma flags_contains_or: "flags_contains x (a OR b) \<longleftrightarrow> flags_contains x a \<and> flags_contains x b"
  by (auto simp: flags_contains_bits bit_or_iff)

definition mmap_fixed :: "MapFlags \<Rightarrow> bool" where
  "mmap_fixed flags \<longleftrightarrow> flags_contains flags MAP_FIXED \<or> flags_contains flags MAP_FIXED_NOREPLACE"

lemma mmap_chosen_start_facts:
  assumes inv: "vs_inv (as_vmas sp)" and al: "start mod PAGE_SIZE = 0" and len: "0 < len"
    and bound: "start + len \<le> USER_VA_END" and c: "mmap_chosen_start sp start len start (start + len) = Inr a"
  shows "a mod PAGE_SIZE = 0 \<and> a + len \<le> USER_VA_END \<and> byte_pages a len \<inter> vma_pages (vs_vmas (as_vmas sp)) = {}"
proof -
  have hw: "holes_wf (vs_holes (as_vmas sp))"
    and hp: "hole_pages (vs_holes (as_vmas sp)) = arena - vma_pages (vs_vmas (as_vmas sp))"
    using inv by (simp_all add: vs_inv_def)
  have p12: "PAGE_SIZE = 2 ^ 12" by (simp add: PAGE_SIZE_def)
  have "a mod PAGE_SIZE = 0 \<and> is_mmap_range_free (as_vmas sp) (va_floor a) (va_ceil (a + len))"
    using c al find_free_mmap_range_facts [OF hw len, of 12]
    by (auto simp: mmap_chosen_start_def p12 split: if_splits sum.splits)
  then have a: "a mod PAGE_SIZE = 0" "byte_pages a len \<subseteq> arena - vma_pages (vs_vmas (as_vmas sp))"
    using is_mmap_range_free_iff [OF hw] hp by (auto simp: byte_pages_def)
  have "byte_pages a len \<subseteq> {arena_lo..<arena_hi}" using a(2) by (auto simp: arena_def)
  then have "a + len \<le> arena_hi * PAGE_SIZE" using byte_pages_in_range [OF len] by blast
  also have "\<dots> \<le> USER_VA_END"
    by (simp add: arena_hi_def mmap_bounds_def va_floor_def MMAP_END_def PAGE_SIZE_def USER_VA_END_def TASK_SIZE_def)
  finally show ?thesis using a by blast
qed

lemma merged_added:
  assumes ok: "space_ok pt_inv user_vpn frame_ok view sp" and bound: "a + len \<le> USER_VA_END"
    and m: "merged_into (as_vmas sp) (byte_pages a len) prot flags x vs'"
  shows "mmap_added view sp a len prot flags offset file (sp\<lparr>as_vmas := vs'\<rparr>)"
proof -
  have free: "byte_pages a len \<inter> vma_pages (vs_vmas (as_vmas sp)) = {}" using m by (simp add: merged_into_def)
  have "view (um_page_table (as_mapper sp)) v = None" if "v \<in> byte_pages a len" for v
    using ok free that byte_pages_top [OF bound that] unfolding space_ok_def no_strays_def by blast
  from removed_untouched [of "byte_pages a len", OF this]
  have "remapped view sp (byte_pages a len) (\<lambda>_. Some x) [] (sp\<lparr>as_vmas := vs'\<rparr>)"
    using m unfolding remapped_def merged_into_def by (simp add: takes_frames_def)
  moreover have "mmap_page prot flags offset file a [] v x" for v
  proof -
    have "flags_contains flags MAP_ANONYMOUS"
      using m by (simp add: merged_into_def flags_contains_or)
    then show ?thesis using m by (simp add: merged_into_def mmap_page_def)
  qed
  ultimately show ?thesis unfolding mmap_added_def by blast
qed

lemma merged_ok:
  assumes ok: "space_ok pt_inv user_vpn frame_ok view sp" and low: "\<forall>v < va_floor USER_VA_END. user_vpn v"
    and bound: "a + len \<le> USER_VA_END" and m: "merged_into (as_vmas sp) (byte_pages a len) prot flags x vs'"
  shows "space_ok pt_inv user_vpn frame_ok view (sp\<lparr>as_vmas := vs'\<rparr>)"
proof -
  let ?w = "view (um_page_table (as_mapper sp))" and ?P = "byte_pages a len"
  have pv: "page_view (vs_vmas vs') v = (if v \<in> ?P then Some x else as_page sp v)" for v
    using m by (simp add: merged_into_def)
  have pg: "vma_pages (vs_vmas vs') = ?P \<union> vma_pages (vs_vmas (as_vmas sp))"
    unfolding vma_pages_view by (auto simp: pv)
  have none: "?w v = None" if "v \<in> ?P" for v
    using ok m that byte_pages_top [OF bound that] unfolding space_ok_def no_strays_def merged_into_def by blast
  have "mm_consistent ?w (vs_vmas vs')"
    unfolding mm_consistent_def
  proof (intro allI impI)
    fix v y q perm assume h: "page_view (vs_vmas vs') v = Some y" "?w v = Some (q, perm)"
    then have "v \<notin> ?P" using none by auto
    with h ok show "pa_frame y = InMemory q \<and> flags_contains (pa_perm y) perm"
      unfolding space_ok_def mm_ok_def mm_consistent_def by (simp add: pv)
  qed
  moreover have "frames_ok frame_ok vs' (as_mapper sp)"
    by (rule frames_ok_takes [of _ "as_vmas sp" "as_mapper sp" "[]"])
      (use ok m pv in \<open>auto simp: space_ok_def merged_into_def takes_frames_def split: if_splits\<close>)
  moreover have "\<forall>v \<in> ?P. user_vpn v" using low byte_pages_top [OF bound] by blast
  ultimately show ?thesis using ok m pg
    unfolding space_ok_def mm_ok_def no_strays_def merged_into_def by (simp add: ball_Un)
qed

context page_table
begin

abbreviation ok :: "'pt AddressSpaceInner \<Rightarrow> bool" where
  "ok \<equiv> space_ok pt_inv user_vpn frame_ok view"

lemma unmap_user_range_facts:
  assumes k: "ok sp" and res: "\<forall>n. env_reserve env n" and se: "s < e"
  shows "\<exists>r sp' R. unmap_user_range env ops sp s e allow_empty = Some (r, sp') \<and> ok sp' \<and>
    R \<subseteq> vma_pages (vs_vmas (as_vmas sp)) \<inter> {s..<e} \<and> remapped view sp R (\<lambda>_. None) [] sp' \<and>
    (case r of
       Inr found \<Rightarrow> R = vma_pages (vs_vmas (as_vmas sp)) \<inter> {s..<e}
     | Inl err \<Rightarrow> unmap_failed env (as_vmas sp) s e err \<or>
         err = EINVAL \<and> \<not> allow_empty \<and> vma_pages (vs_vmas (as_vmas sp)) \<inter> {s..<e} = {})"
proof -
  let ?vs = "as_vmas sp" and ?m = "as_mapper sp"
  have mm: "mm_ok pt_inv user_vpn view ?vs ?m" and st: "no_strays (view (um_page_table ?m)) (vs_vmas ?vs)"
    and fr: "frames_ok frame_ok ?vs ?m" using k by (simp_all add: space_ok_def)
  from unmap_range_facts [OF mm res se, of allow_empty] obtain r vs' m' R where
    u: "unmap_range env ops ?vs ?m s e allow_empty = Some (r, vs', m')" and ok': "mm_ok pt_inv user_vpn view vs' m'"
    and R: "R \<subseteq> vma_pages (vs_vmas ?vs) \<inter> {s..<e}"
    and un: "unmapped (view (um_page_table ?m)) (um_gather ?m) ?vs R (view (um_page_table m')) (um_gather m') vs'"
    and c: "case r of
       Inr found \<Rightarrow> R = vma_pages (vs_vmas ?vs) \<inter> {s..<e} \<and> found = (R \<noteq> {}) \<and> (found \<or> allow_empty)
     | Inl err \<Rightarrow> unmap_failed env ?vs s e err \<or> err = EINVAL \<and> \<not> allow_empty \<and> vma_pages (vs_vmas ?vs) \<inter> {s..<e} = {}"
    by blast
  have sup: "takes_frames ?m [] m'" using unmap_range_supply [OF u] by (simp add: same_supply_takes)
  have pv: "page_view (vs_vmas vs') v = (if v \<in> R then None else page_view (vs_vmas ?vs) v)" for v
    using un by (simp add: unmapped_def)
  have rem: "removed (view (um_page_table ?m)) (um_gather ?m) R (view (um_page_table m')) (um_gather m')"
    using un by (simp add: unmapped_def)
  define sp' where "sp' = sp\<lparr>as_vmas := vs', as_mapper := m'\<rparr>"
  have "frames_ok frame_ok vs' m'" by (rule frames_ok_takes [OF fr sup]) (auto simp: pv split: if_splits)
  moreover have "no_strays (view (um_page_table m')) (vs_vmas vs')"
    using st rem unfolding no_strays_def unmapped_pages [OF un] by (auto simp: removed_def split: if_splits)
  ultimately have "ok sp'" using ok' by (simp add: space_ok_def sp'_def)
  moreover have "remapped view sp R (\<lambda>_. None) [] sp'"
    using rem sup pv by (simp add: remapped_def sp'_def)
  moreover have "unmap_user_range env ops sp s e allow_empty = Some (r, sp')"
    using u by (simp add: unmap_user_range_def sp'_def)
  ultimately show ?thesis using R c
    by (intro exI [of _ r] exI [of _ sp'] exI [of _ R]) (simp split: sum.splits)
qed

lemma ok_locks [simp]: "ok (snd (set_locked_pages sp s e b)) = ok sp"
  by (simp add: set_locked_pages_def space_ok_def)

lemma mmap_fixed_start_facts:
  assumes k: "ok sp" and res: "\<forall>n. env_reserve env n" and len: "0 < len" and bound: "start + len \<le> USER_VA_END"
  shows "\<exists>r sp1. mmap_fixed_start env ops sp start (start + len) flags = Some (r, sp1) \<and> ok sp1 \<and>
    (case r of
       Inr a \<Rightarrow> a = start \<and> remapped view sp (byte_pages start len) (\<lambda>_. None) [] sp1 \<and>
         (flags_contains flags MAP_FIXED_NOREPLACE \<longrightarrow> byte_pages start len \<inter> vma_pages (vs_vmas (as_vmas sp)) = {})
     | Inl err \<Rightarrow> \<exists>R \<subseteq> byte_pages start len. remapped view sp R (\<lambda>_. None) [] sp1 \<and>
         (flags_contains flags MAP_FIXED_NOREPLACE \<longrightarrow> R \<inter> vma_pages (vs_vmas (as_vmas sp)) = {}))"
proof -
  let ?s = "va_floor start" and ?e = "va_ceil (start + len)" and ?V = "vma_pages (vs_vmas (as_vmas sp))"
  have se: "?s < ?e" by (rule byte_pages_nonempty [OF len])
  have P: "byte_pages start len = {?s..<?e}" by (simp add: byte_pages_def)
  have aw: "areas_wf (vs_vmas (as_vmas sp))" using k by (simp add: space_ok_def mm_ok_def vs_inv_def)
  note ov = has_overlap_iff [OF aw se]
  show ?thesis
  proof (cases "flags_contains flags MAP_FIXED_NOREPLACE \<and> has_overlap (as_vmas sp) ?s ?e")
    case True
    then have "mmap_fixed_start env ops sp start (start + len) flags = Some (Inl EEXIST, sp)"
      by (simp add: mmap_fixed_start_def Let_def)
    moreover have "\<exists>R \<subseteq> byte_pages start len. remapped view sp R (\<lambda>_. None) [] sp \<and> R \<inter> ?V = {}"
      by (intro exI [of _ "{}"]) (simp add: remapped_none)
    ultimately show ?thesis using k by (intro exI [of _ "Inl EEXIST"] exI [of _ sp]) auto
  next
    case False
    from unmap_user_range_facts [OF k res se, of True] obtain r sp1 R where
      u: "unmap_user_range env ops sp ?s ?e True = Some (r, sp1)" "ok sp1" "R \<subseteq> ?V \<inter> {?s..<?e}"
      "remapped view sp R (\<lambda>_. None) [] sp1" and c: "\<And>f. r = Inr f \<Longrightarrow> R = ?V \<inter> {?s..<?e}"
      by (fastforce split: sum.splits)
    have nr: "flags_contains flags MAP_FIXED_NOREPLACE \<Longrightarrow> {?s..<?e} \<inter> ?V = {}" using False ov by blast
    show ?thesis
    proof (cases r)
      case (Inl err)
      then have "mmap_fixed_start env ops sp start (start + len) flags = Some (Inl err, sp1)"
        using u(1) False by (auto simp: mmap_fixed_start_def Let_def)
      moreover have "R \<subseteq> byte_pages start len" "flags_contains flags MAP_FIXED_NOREPLACE \<longrightarrow> R \<inter> ?V = {}"
        using u(3) nr unfolding P by blast+
      ultimately show ?thesis using u(2,4) by (intro exI [of _ "Inl err"] exI [of _ sp1]) auto
    next
      case (Inr f)
      let ?sp = "snd (set_locked_pages sp1 ?s ?e False)"
      have f: "mmap_fixed_start env ops sp start (start + len) flags = Some (Inr start, ?sp)"
        using u(1) False Inr by (auto simp: mmap_fixed_start_def Let_def)
      have st: "no_strays (view (um_page_table (as_mapper sp))) (vs_vmas (as_vmas sp))" using k by (simp add: space_ok_def)
      have "remapped view sp {?s..<?e} (\<lambda>_. None) [] ?sp"
      proof (rule remapped_locks [OF u(4)])
        show "R \<subseteq> {?s..<?e}" using u(3) by blast
        show "None = as_page sp v" if "v \<in> {?s..<?e} - R" for v
          using that c [OF Inr] page_view_None_iff [of "vs_vmas (as_vmas sp)" v] by auto
        show "\<forall>v \<in> {?s..<?e} - R. view (um_page_table (as_mapper sp)) v = None"
          using st byte_pages_top [OF bound] c [OF Inr] unfolding no_strays_def P by blast
      qed
      then show ?thesis using f u(2) nr unfolding P by (intro exI [of _ "Inr start"] exI [of _ ?sp]) simp
    qed
  qed
qed

lemma do_mmap_facts:
  assumes k: "ok sp" and res: "\<forall>n. env_reserve env n" and low: "\<forall>v < va_floor USER_VA_END. user_vpn v"
  shows "\<exists>r sp'. do_mmap env tun ops sp start len prot flags offset file mw ws = Some (r, sp') \<and> ok sp' \<and>
    (case r of
       Inr a \<Rightarrow> a mod PAGE_SIZE = 0 \<and> 0 < len \<and> a + len \<le> USER_VA_END \<and>
         (mmap_fixed flags \<longrightarrow> a = start) \<and>
         (mmap_replaces flags \<or> byte_pages a len \<inter> vma_pages (vs_vmas (as_vmas sp)) = {}) \<and>
         mmap_added view sp a len prot flags offset file sp'
     | Inl err \<Rightarrow> \<exists>R taken. R \<subseteq> byte_pages start len \<and> (mmap_replaces flags \<or> R \<inter> vma_pages (vs_vmas (as_vmas sp)) = {}) \<and>
         remapped view sp R (\<lambda>_. None) taken sp')" (is "\<exists>r sp'. ?call = Some (r, sp') \<and> ok sp' \<and> ?post r sp'")
proof -
  let ?V = "vma_pages (vs_vmas (as_vmas sp))"
  have same: "?post (Inl err) sp" for err
    using remapped_none [of view sp "\<lambda>_. None"] by auto
  show ?thesis
  proof (cases "start mod PAGE_SIZE = 0 \<and> 0 < len \<and> start + len \<le> USER_VA_END \<and> start < USER_VA_END \<and>
      (charges_overcommit prot flags \<longrightarrow> overcommit_allows tun (committed_bytes sp) len)")
    case False
    then have "\<exists>err. ?call = Some (Inl err, sp)"
      using user_end_small(2) by (auto simp: do_mmap_def checked_user_range_def checked_add_def split: if_splits)
    with same k show ?thesis by (elim exE) (intro exI conjI)
  next
    case True
    then have al: "start mod PAGE_SIZE = 0" and len: "0 < len" and bound: "start + len \<le> USER_VA_END" by simp_all
    have cr: "checked_user_range start len = Inr (start, start + len)"
      using True user_end_small(2) by (simp add: checked_user_range_def checked_add_def)
    show ?thesis
    proof (cases "mmap_fixed flags")
      case fx: True
      from mmap_fixed_start_facts [OF k res len bound, of flags] obtain r1 sp1 where
        f: "mmap_fixed_start env ops sp start (start + len) flags = Some (r1, sp1)" "ok sp1" and
        p: "case r1 of
         Inr a \<Rightarrow> a = start \<and> remapped view sp (byte_pages start len) (\<lambda>_. None) [] sp1 \<and>
           (flags_contains flags MAP_FIXED_NOREPLACE \<longrightarrow> byte_pages start len \<inter> ?V = {})
       | Inl err \<Rightarrow> \<exists>R \<subseteq> byte_pages start len. remapped view sp R (\<lambda>_. None) [] sp1 \<and>
           (flags_contains flags MAP_FIXED_NOREPLACE \<longrightarrow> R \<inter> ?V = {})" by blast
      have rep: "mmap_replaces flags \<or> flags_contains flags MAP_FIXED_NOREPLACE"
        using fx by (auto simp: mmap_replaces_def mmap_fixed_def)
      show ?thesis
      proof (cases r1)
        case (Inl err)
        then have "?call = Some (Inl err, sp1)" using True cr f(1) fx by (auto simp: do_mmap_def mmap_fixed_def)
        moreover have "?post (Inl err) sp1" using p Inl rep by auto
        ultimately show ?thesis using f(2) by blast
      next
        case (Inr a)
        then have a: "a = start" and re: "remapped view sp (byte_pages start len) (\<lambda>_. None) [] sp1"
          and dis: "mmap_replaces flags \<or> byte_pages start len \<inter> ?V = {}" using p rep by auto
        have call: "?call = mmap_insert env sp1 start len prot flags offset file mw ws"
          using True cr f(1) fx Inr a by (auto simp: do_mmap_def mmap_fixed_def)
        from mmap_insert_facts [OF f(2) low len bound, of env prot flags offset "file" mw ws] obtain r sp2 where
          i: "mmap_insert env sp1 start len prot flags offset file mw ws = Some (r, sp2)" "ok sp2"
          "case r of Inl err \<Rightarrow> \<exists>taken. remapped view sp1 {} (\<lambda>_. None) taken sp2
           | Inr a \<Rightarrow> a = start \<and> byte_pages start len \<inter> vma_pages (vs_vmas (as_vmas sp1)) = {} \<and>
               mmap_added view sp1 start len prot flags offset file sp2" by blast
        have "?post r sp2"
        proof (cases r)
          case (Inl err)
          then obtain taken where "remapped view sp1 {} (\<lambda>_. None) taken sp2" using i(3) by auto
          from remapped_after [OF re this] show ?thesis using Inl dis by auto
        next
          case (Inr b)
          then have "mmap_added view sp start len prot flags offset file sp2"
            using i(3) remapped_again [OF re] unfolding mmap_added_def by fastforce
          then show ?thesis using Inr i(3) al len bound dis by simp
        qed
        then show ?thesis using call i(1,2) by auto
      qed
    next
      case nf: False
      obtain c where c: "mmap_chosen_start sp start len start (start + len) = c" by blast
      show ?thesis
      proof (cases c)
        case (Inl err)
        then have "?call = Some (Inl err, sp)" using True cr c nf by (auto simp: do_mmap_def mmap_fixed_def)
        with same k show ?thesis by blast
      next
        case (Inr a)
        have inv: "vs_inv (as_vmas sp)" using k by (simp add: space_ok_def mm_ok_def)
        from mmap_chosen_start_facts [OF inv al len bound c [unfolded Inr]]
        have A: "a mod PAGE_SIZE = 0" "a + len \<le> USER_VA_END" "byte_pages a len \<inter> ?V = {}" by blast+
        from mmap_insert_facts [OF k low len A(2), of env prot flags offset "file" mw ws] obtain r sp2 where
          i: "mmap_insert env sp a len prot flags offset file mw ws = Some (r, sp2)" "ok sp2"
          "case r of Inl err \<Rightarrow> \<exists>taken. remapped view sp {} (\<lambda>_. None) taken sp2
           | Inr b \<Rightarrow> b = a \<and> byte_pages a len \<inter> ?V = {} \<and> mmap_added view sp a len prot flags offset file sp2" by blast
        have ins: "?post r sp2" using i(3) A len nf by (cases r) (auto simp: mmap_fixed_def)
        show ?thesis
        proof (cases "flags_contains flags MAP_LOCKED \<or> try_merge_lazy_private_mmap (as_vmas sp) a len prot flags = (Inr None, as_vmas sp)")
          case True': True
          then have "?call = Some (r, sp2)" using True cr c Inr nf i(1) by (auto simp: do_mmap_def mmap_fixed_def)
          then show ?thesis using ins i(2) by blast
        next
          case mg: False
          with try_merge_facts [OF inv len A(2), of prot flags] obtain x vs' where
            t: "try_merge_lazy_private_mmap (as_vmas sp) a len prot flags = (Inr (Some a), vs')"
            and m: "merged_into (as_vmas sp) (byte_pages a len) prot flags x vs'" by blast
          have call: "?call = Some (Inr a, sp\<lparr>as_vmas := vs'\<rparr>)"
            using True cr c Inr nf t mg by (auto simp: do_mmap_def mmap_fixed_def)
          have "?post (Inr a) (sp\<lparr>as_vmas := vs'\<rparr>)"
            using merged_added [OF k A(2) m] A len nf by (simp add: mmap_fixed_def)
          then show ?thesis using call merged_ok [OF k low A(2) m] by blast
        qed
      qed
    qed
  qed
qed

lemma unmap_bytes_facts:
  assumes k: "ok sp" and res: "\<forall>n. env_reserve env n" and len: "0 < len" and bound: "start + len \<le> USER_VA_END"
  shows "\<exists>r sp'. unmap_user_range env ops sp (va_floor start) (va_ceil (start + len)) True = Some (r, sp') \<and> ok sp' \<and>
    (case r of Inr _ \<Rightarrow> remapped view sp (byte_pages start len) (\<lambda>_. None) [] sp'
     | Inl err \<Rightarrow> \<exists>R \<subseteq> byte_pages start len. remapped view sp R (\<lambda>_. None) [] sp')"
proof -
  let ?s = "va_floor start" and ?e = "va_ceil (start + len)" and ?V = "vma_pages (vs_vmas (as_vmas sp))"
  have se: "?s < ?e" by (rule byte_pages_nonempty [OF len])
  have P: "byte_pages start len = {?s..<?e}" by (simp add: byte_pages_def)
  from unmap_user_range_facts [OF k res se, of True] obtain r sp1 R where
    u: "unmap_user_range env ops sp ?s ?e True = Some (r, sp1)" "ok sp1" "R \<subseteq> ?V \<inter> {?s..<?e}"
    "remapped view sp R (\<lambda>_. None) [] sp1" and c: "\<And>f. r = Inr f \<Longrightarrow> R = ?V \<inter> {?s..<?e}"
    by (fastforce split: sum.splits)
  have st: "no_strays (view (um_page_table (as_mapper sp))) (vs_vmas (as_vmas sp))" using k by (simp add: space_ok_def)
  have "remapped view sp {?s..<?e} (\<lambda>_. None) [] sp1" if "r = Inr f" for f
  proof -
    have s: "\<forall>v \<in> {?s..<?e} - R. view (um_page_table (as_mapper sp)) v = None"
      using st byte_pages_top [OF bound] c [OF that] unfolding no_strays_def P by blast
    have pn: "as_page sp v = None" if "v \<in> {?s..<?e} - R" for v
      using that c [OF \<open>r = Inr f\<close>] page_view_None_iff [of "vs_vmas (as_vmas sp)" v] by auto
    note r = u(4) [unfolded remapped_def]
    have "removed (view (um_page_table (as_mapper sp))) (um_gather (as_mapper sp)) {?s..<?e}
       (view (um_page_table (as_mapper sp1))) (um_gather (as_mapper sp1))"
      using r u(3) by (intro removed_widen [OF _ _ s]) blast+
    moreover have "as_page sp1 v = (if v \<in> {?s..<?e} then None else as_page sp v)" for v
      using r u(3) pn [of v] by auto
    ultimately show ?thesis using r u(3) unfolding remapped_def by auto
  qed
  moreover have "\<exists>R \<subseteq> byte_pages start len. remapped view sp R (\<lambda>_. None) [] sp1" using u(3,4) unfolding P by blast
  ultimately show ?thesis using u(1,2) unfolding P
    by (intro exI [of _ r] exI [of _ sp1]) (simp split: sum.splits)
qed

lemma do_munmap_facts:
  assumes k: "ok sp" and res: "\<forall>n. env_reserve env n"
  shows "\<exists>r sp'. do_munmap env ops sp start len = Some (r, sp') \<and> ok sp' \<and>
    (case r of
       Inr _ \<Rightarrow> 0 < len \<and> start + len \<le> USER_VA_END \<and> start mod PAGE_SIZE = 0 \<and>
         remapped view sp (byte_pages start len) (\<lambda>_. None) [] sp'
     | Inl err \<Rightarrow> \<exists>R \<subseteq> byte_pages start len. remapped view sp R (\<lambda>_. None) [] sp')"
proof -
  have al: "va_aligned start \<longleftrightarrow> start mod PAGE_SIZE = 0" if "start + len \<le> USER_VA_END"
    using that user_end_small(2) page_offset_mod [of start] by (simp add: va_aligned_def)
  show ?thesis
  proof (cases "0 < len \<and> start + len \<le> USER_VA_END \<and> va_aligned start")
    case False
    then have "\<exists>err. do_munmap env ops sp start len = Some (Inl err, sp)"
      using user_end_small(2) by (auto simp: do_munmap_def checked_user_range_def checked_add_def)
    then obtain err where e: "do_munmap env ops sp start len = Some (Inl err, sp)" ..
    have "\<exists>R \<subseteq> byte_pages start len. remapped view sp R (\<lambda>_. None) [] sp"
      by (rule exI [of _ "{}"]) (simp add: remapped_none)
    with e k show ?thesis by (intro exI [of _ "Inl err"] exI [of _ sp]) simp
  next
    case True
    then have len: "0 < len" and bound: "start + len \<le> USER_VA_END" by auto
    have cr: "checked_user_range start len = Inr (start, start + len)"
      using True user_end_small(2) by (simp add: checked_user_range_def checked_add_def)
    from unmap_bytes_facts [OF k res len bound] obtain r sp' where
      u: "unmap_user_range env ops sp (va_floor start) (va_ceil (start + len)) True = Some (r, sp')" "ok sp'"
      "case r of Inr _ \<Rightarrow> remapped view sp (byte_pages start len) (\<lambda>_. None) [] sp'
       | Inl err \<Rightarrow> \<exists>R \<subseteq> byte_pages start len. remapped view sp R (\<lambda>_. None) [] sp'" by blast
    have "do_munmap env ops sp start len = Some (map_sum id (\<lambda>_. ()) r, sp')"
      using True cr u(1) by (simp add: do_munmap_def)
    then show ?thesis using u(2,3) True al [OF bound]
      by (intro exI [of _ "map_sum id (\<lambda>_. ()) r"] exI [of _ sp']) (auto split: sum.splits)
  qed
qed

end

end
