(* ===== verification/Brk.thy ===== *)
theory Brk
  imports MmapSpace
begin

text \<open>
  The program break: what \<open>do_sbrk\<close> does to the break, to the pages between the old and the new
  break, and to the rest of the address space.
\<close>

section \<open>Page arithmetic\<close>

lemma va_ceil_eq: "va_ceil a = (a + (PAGE_SIZE - 1)) div PAGE_SIZE"
  by (cases a) (simp_all add: va_ceil_def PAGE_SIZE_def)

lemma page_round_up_addr_eq:
  "page_round_up_addr a = (if a + (PAGE_SIZE - 1) \<le> USIZE_MAX then Some (va_ceil a * PAGE_SIZE) else None)"
  unfolding page_round_up_addr_def checked_add_def va_ceil_eq
  by (simp add: minus_mod_eq_div_mult)

lemma va_floor_page [simp]: "va_floor (n * PAGE_SIZE) = n"
  by (simp add: va_floor_def PAGE_SIZE_def)

lemma va_ceil_page [simp]: "va_ceil (n * PAGE_SIZE) = n"
  unfolding va_ceil_eq by (simp add: PAGE_SIZE_def)

lemma byte_pages_pages: "m \<le> n \<Longrightarrow> byte_pages (m * PAGE_SIZE) (n * PAGE_SIZE - m * PAGE_SIZE) = {m..<n}"
  by (simp add: byte_pages_def)

section \<open>What sbrk does\<close>

abbreviation BRK_PERM :: MapPermission where
  "BRK_PERM \<equiv> PERM_R OR PERM_W OR PERM_U"

abbreviation BRK_FLAGS :: MapFlags where
  "BRK_FLAGS \<equiv> MAP_ANONYMOUS OR MAP_FIXED OR MAP_PRIVATE"

text \<open>
  The new break \<open>t\<close>. Growing gives the new heap pages to a private writable mapping, shrinking
  takes the pages away, and a refused request leaves the break, losing at most pages of the range.
\<close>

definition brk_moved ::
  "('pt \<Rightarrow> vpn \<Rightarrow> (ppn \<times> MapPermission) option) \<Rightarrow> 'pt AddressSpaceInner \<Rightarrow> addr \<Rightarrow> addr \<Rightarrow> 'pt AddressSpaceInner \<Rightarrow> bool" where
  "brk_moved view sp t ret sp' \<longleftrightarrow>
     (let old = as_heap_pt sp in
      as_heap_pt sp' = ret \<and>
      (\<exists>P X taken. remapped view sp P X taken (sp'\<lparr>as_heap_pt := old\<rparr>) \<and>
         (if ret = old then (\<forall>v \<in> P. X v = None) \<and> P \<subseteq> {va_ceil (min old t)..<va_ceil (max old t)}
          else ret = t \<and>
            (if old < t
             then P = {va_ceil old..<va_ceil t} \<and>
               (\<forall>v \<in> P. \<exists>x. X v = Some x \<and> mmap_page BRK_PERM BRK_FLAGS 0 None (va_ceil old * PAGE_SIZE) taken v x)
             else P = {va_ceil t..<va_ceil old} \<and> (\<forall>v. X v = None)))))"

lemma brk_unmoved: "brk_moved view sp t (as_heap_pt sp) sp"
  unfolding brk_moved_def Let_def
  by (intro conjI refl exI [of _ "{}"] exI [of _ "\<lambda>_. None"] exI [of _ "[]"]) (simp_all add: remapped_none)

lemma remapped_set_brk: "remapped view sp P X taken sp' \<Longrightarrow> remapped view sp P X taken (sp'\<lparr>as_heap_pt := as_heap_pt sp\<rparr>)"
  by (simp add: remapped_def)

lemma space_ok_brk [simp]: "space_ok pt_inv user_vpn frame_ok view (sp\<lparr>as_heap_pt := n\<rparr>) = space_ok pt_inv user_vpn frame_ok view sp"
  by (simp add: space_ok_def)

definition brk_blocked :: "vm_tunables \<Rightarrow> 'pt AddressSpaceInner \<Rightarrow> addr \<Rightarrow> bool" where
  "brk_blocked tun sp t \<longleftrightarrow>
     list_ex (\<lambda>a. vm_overlaps a (va_ceil (as_heap_pt sp)) (va_ceil t) \<and> brk_overlap_blocks a) (map snd (vs_vmas (as_vmas sp))) \<or>
     \<not> overcommit_allows tun (committed_bytes sp) (va_ceil t * PAGE_SIZE - va_ceil (as_heap_pt sp) * PAGE_SIZE)"

definition brk_accepts :: "'pt AddressSpaceInner \<Rightarrow> int \<Rightarrow> addr \<Rightarrow> bool" where
  "brk_accepts sp increment t \<longleftrightarrow>
     sbrk_target sp increment = Some t \<and> as_heap_bottom sp \<le> t \<and> t \<le> as_heap_bottom sp + USER_HEAP_SIZE \<and>
     as_heap_bottom sp + USER_HEAP_SIZE \<le> USIZE_MAX \<and>
     as_heap_pt sp + (PAGE_SIZE - 1) \<le> USIZE_MAX \<and> t + (PAGE_SIZE - 1) \<le> USIZE_MAX"

lemma do_sbrk_refused: "\<nexists>t. brk_accepts sp increment t \<Longrightarrow> do_sbrk env tun ops sp increment = Some (as_heap_pt sp, sp)"
  by (auto simp: do_sbrk_def brk_accepts_def Let_def page_round_up_addr_eq checked_add_def not_less split: option.splits)

lemma va_ceil_mono: "a \<le> b \<Longrightarrow> va_ceil a \<le> va_ceil b"
  unfolding va_ceil_eq by (intro div_le_mono) simp

lemma do_sbrk_accepted:
  assumes "brk_accepts sp increment t"
  shows "do_sbrk env tun ops sp increment =
    (let old = as_heap_pt sp in
     if va_ceil old < va_ceil t
     then if brk_blocked tun sp t then Some (old, sp)
          else (case do_mmap env tun ops sp (va_ceil old * PAGE_SIZE) (va_ceil t * PAGE_SIZE - va_ceil old * PAGE_SIZE)
                       BRK_PERM BRK_FLAGS 0 None True False of
                  None \<Rightarrow> None | Some (Inl _, sp') \<Rightarrow> Some (old, sp') | Some (Inr _, sp') \<Rightarrow> Some (t, sp'\<lparr>as_heap_pt := t\<rparr>))
     else if va_ceil t < va_ceil old
     then (case do_munmap env ops sp (va_ceil t * PAGE_SIZE) (va_ceil old * PAGE_SIZE - va_ceil t * PAGE_SIZE) of
             None \<Rightarrow> None | Some (Inl _, sp') \<Rightarrow> Some (old, sp') | Some (Inr _, sp') \<Rightarrow> Some (t, sp'\<lparr>as_heap_pt := t\<rparr>))
     else Some (t, sp\<lparr>as_heap_pt := t\<rparr>))"
proof -
  let ?o = "as_heap_pt sp"
  have ps: "a * PAGE_SIZE < b * PAGE_SIZE \<longleftrightarrow> a < b" for a b by (simp add: PAGE_SIZE_def)
  have "\<not> va_ceil ?o < va_ceil t" if "t \<le> ?o" using va_ceil_mono [OF that] by simp
  moreover have "\<not> va_ceil t < va_ceil ?o" if "?o < t" using va_ceil_mono [of ?o t] that by simp
  moreover have "0 < PAGE_SIZE" by (simp add: PAGE_SIZE_def)
  ultimately show ?thesis
    using assms
    by (auto simp: do_sbrk_def brk_accepts_def brk_blocked_def Let_def page_round_up_addr_eq checked_add_def not_less ps)
qed

context page_table
begin

lemma sbrk_grow:
  assumes k: "ok sp" and res: "\<forall>n. env_reserve env n" and low: "\<forall>v < va_floor USER_VA_END. user_vpn v"
    and lt: "as_heap_pt sp < t" and ends: "va_ceil (as_heap_pt sp) < va_ceil t"
  shows "\<exists>r sp'. do_mmap env tun ops sp (va_ceil (as_heap_pt sp) * PAGE_SIZE)
      (va_ceil t * PAGE_SIZE - va_ceil (as_heap_pt sp) * PAGE_SIZE) BRK_PERM BRK_FLAGS 0 None True False = Some (r, sp') \<and> ok sp' \<and>
    (case r of Inl _ \<Rightarrow> brk_moved view sp t (as_heap_pt sp) sp' | Inr _ \<Rightarrow> brk_moved view sp t t (sp'\<lparr>as_heap_pt := t\<rparr>))"
proof -
  let ?o = "as_heap_pt sp" and ?P = "{va_ceil (as_heap_pt sp)..<va_ceil t}"
  let ?a = "va_ceil ?o * PAGE_SIZE" and ?l = "va_ceil t * PAGE_SIZE - va_ceil ?o * PAGE_SIZE"
  have bp: "byte_pages ?a ?l = ?P" using ends by (simp add: byte_pages_pages)
  have fx: "mmap_fixed BRK_FLAGS" "mmap_replaces BRK_FLAGS"
    by (simp_all add: mmap_fixed_def mmap_replaces_def flags_contains_def MAP_FIXED_def MAP_FIXED_NOREPLACE_def
        MAP_ANONYMOUS_def MAP_PRIVATE_def)
  from do_mmap_facts [OF k res low, of tun ?a ?l BRK_PERM BRK_FLAGS 0 None True False] obtain r sp' where
    m: "do_mmap env tun ops sp ?a ?l BRK_PERM BRK_FLAGS 0 None True False = Some (r, sp')" "ok sp'"
    and p: "case r of
       Inr a \<Rightarrow> a mod PAGE_SIZE = 0 \<and> 0 < ?l \<and> a + ?l \<le> USER_VA_END \<and> (mmap_fixed BRK_FLAGS \<longrightarrow> a = ?a) \<and>
         (mmap_replaces BRK_FLAGS \<or> byte_pages a ?l \<inter> vma_pages (vs_vmas (as_vmas sp)) = {}) \<and>
         mmap_added view sp a ?l BRK_PERM BRK_FLAGS 0 None sp'
     | Inl err \<Rightarrow> \<exists>R taken. R \<subseteq> byte_pages ?a ?l \<and> (mmap_replaces BRK_FLAGS \<or> R \<inter> vma_pages (vs_vmas (as_vmas sp)) = {}) \<and>
         remapped view sp R (\<lambda>_. None) taken sp'" by blast
  have "case r of Inl _ \<Rightarrow> brk_moved view sp t ?o sp' | Inr _ \<Rightarrow> brk_moved view sp t t (sp'\<lparr>as_heap_pt := t\<rparr>)"
  proof (cases r)
    case (Inl err)
    then obtain R taken where R: "R \<subseteq> ?P" "remapped view sp R (\<lambda>_. None) taken sp'" using p bp by auto
    moreover have "as_heap_pt sp' = ?o" using R(2) by (simp add: remapped_def)
    ultimately have "brk_moved view sp t ?o sp'"
      unfolding brk_moved_def Let_def using lt
      by (intro conjI exI [of _ R] exI [of _ "\<lambda>_. None"] exI [of _ taken]) (simp_all add: remapped_set_brk)
    then show ?thesis using Inl by simp
  next
    case (Inr a)
    then have "a = ?a" and "mmap_added view sp a ?l BRK_PERM BRK_FLAGS 0 None sp'" using p fx by auto
    then obtain X taken where X: "remapped view sp ?P X taken sp'"
      "\<forall>v \<in> ?P. \<exists>x. X v = Some x \<and> mmap_page BRK_PERM BRK_FLAGS 0 None ?a taken v x"
      unfolding mmap_added_def by (auto simp: bp)
    have "brk_moved view sp t t (sp'\<lparr>as_heap_pt := t\<rparr>)"
      unfolding brk_moved_def Let_def using lt X(2) remapped_set_brk [OF X(1)]
      by (intro conjI exI [of _ ?P] exI [of _ X] exI [of _ taken]) simp_all
    then show ?thesis using Inr by simp
  qed
  with m show ?thesis by blast
qed

lemma sbrk_shrink:
  assumes k: "ok sp" and res: "\<forall>n. env_reserve env n" and lt: "t < as_heap_pt sp" and ends: "va_ceil t < va_ceil (as_heap_pt sp)"
  shows "\<exists>r sp'. do_munmap env ops sp (va_ceil t * PAGE_SIZE)
      (va_ceil (as_heap_pt sp) * PAGE_SIZE - va_ceil t * PAGE_SIZE) = Some (r, sp') \<and> ok sp' \<and>
    (case r of Inl _ \<Rightarrow> brk_moved view sp t (as_heap_pt sp) sp' | Inr _ \<Rightarrow> brk_moved view sp t t (sp'\<lparr>as_heap_pt := t\<rparr>))"
proof -
  let ?o = "as_heap_pt sp" and ?P = "{va_ceil t..<va_ceil (as_heap_pt sp)}"
  let ?a = "va_ceil t * PAGE_SIZE" and ?l = "va_ceil ?o * PAGE_SIZE - va_ceil t * PAGE_SIZE"
  have bp: "byte_pages ?a ?l = ?P" using ends by (simp add: byte_pages_pages)
  from do_munmap_facts [OF k res, of ?a ?l] obtain r sp' where m: "do_munmap env ops sp ?a ?l = Some (r, sp')" "ok sp'"
    and p: "case r of
       Inr _ \<Rightarrow> 0 < ?l \<and> ?a + ?l \<le> USER_VA_END \<and> ?a mod PAGE_SIZE = 0 \<and> remapped view sp (byte_pages ?a ?l) (\<lambda>_. None) [] sp'
     | Inl err \<Rightarrow> \<exists>R \<subseteq> byte_pages ?a ?l. remapped view sp R (\<lambda>_. None) [] sp'" by blast
  have "case r of Inl _ \<Rightarrow> brk_moved view sp t ?o sp' | Inr _ \<Rightarrow> brk_moved view sp t t (sp'\<lparr>as_heap_pt := t\<rparr>)"
  proof (cases r)
    case (Inl err)
    then obtain R where R: "R \<subseteq> ?P" "remapped view sp R (\<lambda>_. None) [] sp'" using p bp by auto
    moreover have "as_heap_pt sp' = ?o" using R(2) by (simp add: remapped_def)
    ultimately have "brk_moved view sp t ?o sp'"
      unfolding brk_moved_def Let_def using lt
      by (intro conjI exI [of _ R] exI [of _ "\<lambda>_. None"] exI [of _ "[]"]) (simp_all add: remapped_set_brk min_def max_def)
    then show ?thesis using Inl by simp
  next
    case (Inr x)
    then have X: "remapped view sp ?P (\<lambda>_. None) [] sp'" using p bp by auto
    have "brk_moved view sp t t (sp'\<lparr>as_heap_pt := t\<rparr>)"
      unfolding brk_moved_def Let_def using lt remapped_set_brk [OF X]
      by (intro conjI exI [of _ ?P] exI [of _ "\<lambda>_. None"] exI [of _ "[]"]) simp_all
    then show ?thesis using Inr by simp
  qed
  with m show ?thesis by blast
qed

lemma do_sbrk_facts:
  assumes k: "ok sp" and res: "\<forall>n. env_reserve env n" and low: "\<forall>v < va_floor USER_VA_END. user_vpn v"
  shows "\<exists>ret sp'. do_sbrk env tun ops sp increment = Some (ret, sp') \<and> ok sp' \<and> as_heap_pt sp' = ret \<and>
    as_heap_bottom sp' = as_heap_bottom sp \<and>
    (ret = as_heap_pt sp \<and> sp' = sp \<or> (\<exists>t. brk_accepts sp increment t \<and> brk_moved view sp t ret sp'))"
proof (cases "\<exists>t. brk_accepts sp increment t")
  case False
  then show ?thesis using k by (simp add: do_sbrk_refused)
next
  case True
  then obtain t where t: "brk_accepts sp increment t" ..
  let ?o = "as_heap_pt sp"
  have moved: "as_heap_pt sp' = ret \<and> as_heap_bottom sp' = as_heap_bottom sp" if "brk_moved view sp t ret sp'" for ret sp'
    using that by (auto simp: brk_moved_def remapped_def Let_def)
  consider "va_ceil ?o < va_ceil t" "brk_blocked tun sp t" | (grow) "va_ceil ?o < va_ceil t" "\<not> brk_blocked tun sp t"
    | (shrink) "va_ceil t < va_ceil ?o" | (same) "va_ceil t = va_ceil ?o" by linarith
  then show ?thesis
  proof cases
    case 1
    then have "do_sbrk env tun ops sp increment = Some (?o, sp)" by (simp add: do_sbrk_accepted [OF t])
    then show ?thesis using k by simp
  next
    case grow
    then have lt: "?o < t" using va_ceil_mono [of t ?o] by linarith
    from sbrk_grow [OF k res low lt grow(1), of tun] obtain r sp' where
      m: "do_mmap env tun ops sp (va_ceil ?o * PAGE_SIZE) (va_ceil t * PAGE_SIZE - va_ceil ?o * PAGE_SIZE)
          BRK_PERM BRK_FLAGS 0 None True False = Some (r, sp')" "ok sp'"
      "case r of Inl _ \<Rightarrow> brk_moved view sp t ?o sp' | Inr _ \<Rightarrow> brk_moved view sp t t (sp'\<lparr>as_heap_pt := t\<rparr>)" by blast
    show ?thesis
      using m t grow moved [of ?o sp'] moved [of t "sp'\<lparr>as_heap_pt := t\<rparr>"]
      by (cases r) (auto simp: do_sbrk_accepted [OF t])
  next
    case shrink
    then have lt: "t < ?o" using va_ceil_mono [of ?o t] by linarith
    from sbrk_shrink [OF k res lt shrink] obtain r sp' where
      m: "do_munmap env ops sp (va_ceil t * PAGE_SIZE) (va_ceil ?o * PAGE_SIZE - va_ceil t * PAGE_SIZE) = Some (r, sp')" "ok sp'"
      "case r of Inl _ \<Rightarrow> brk_moved view sp t ?o sp' | Inr _ \<Rightarrow> brk_moved view sp t t (sp'\<lparr>as_heap_pt := t\<rparr>)" by blast
    show ?thesis
      using m t shrink moved [of ?o sp'] moved [of t "sp'\<lparr>as_heap_pt := t\<rparr>"]
      by (cases r) (auto simp: do_sbrk_accepted [OF t])
  next
    case same
    have "brk_moved view sp t t (sp\<lparr>as_heap_pt := t\<rparr>)"
      unfolding brk_moved_def Let_def using same remapped_set_brk [OF remapped_none]
      by (intro conjI exI [of _ "{}"] exI [of _ "\<lambda>_. None"] exI [of _ "[]"]) (simp_all add: remapped_none)
    then show ?thesis using same k t by (auto simp: do_sbrk_accepted [OF t])
  qed
qed

end

end
