(* ===== verification/Sv39.thy ===== *)
theory Sv39
  imports UserMapper
begin

text \<open>
  \<open>os/src/hal/arch/riscv/sv39.rs\<close>: page table entries and the three-level page table. The
  nodes live in physical memory, \<open>sv_mem t p i\<close> being entry \<open>i\<close> of the node in frame \<open>p\<close>. The
  frames the allocator hands out next for nodes are part of the state, and such a frame is
  cleared when it is handed out; whether a vector can grow is asked of the environment. The
  flushing variants of the operations are their \<open>_no_flush\<close> part followed by a TLB
  invalidation, which changes no state here.

  Every position of an entry is reached by a path of indices from the root. A user table is
  well formed when different user paths reach different nodes, no user path ends early in a
  large page, and the frames still to be handed out are not nodes. Such a table keeps the
  laws of the locale \<open>page_table\<close>.
\<close>

section \<open>Entries\<close>

type_synonym Sv39PageTableEntry = u64
type_synonym PTEFlags = u8

definition PTE_V :: PTEFlags where "PTE_V = 1"
definition PTE_R :: PTEFlags where "PTE_R = 2"
definition PTE_W :: PTEFlags where "PTE_W = 4"
definition PTE_X :: PTEFlags where "PTE_X = 8"
definition PTE_U :: PTEFlags where "PTE_U = 16"
definition PTE_G :: PTEFlags where "PTE_G = 32"
definition PTE_A :: PTEFlags where "PTE_A = 64"
definition PTE_D :: PTEFlags where "PTE_D = 128"

lemmas pte_flag_defs = PTE_V_def PTE_R_def PTE_W_def PTE_X_def PTE_U_def PTE_G_def PTE_A_def PTE_D_def

definition PPN_MASK :: u64 where "PPN_MASK = push_bit 10 (push_bit 44 1 - 1)"

definition pte_new :: "ppn \<Rightarrow> PTEFlags \<Rightarrow> Sv39PageTableEntry" where
  "pte_new p flags = push_bit 10 (word_of_nat p) OR ucast flags"

definition pte_empty :: Sv39PageTableEntry where "pte_empty = 0"

definition pte_ppn :: "Sv39PageTableEntry \<Rightarrow> ppn" where
  "pte_ppn e = unat (drop_bit 10 (e AND PPN_MASK))"

definition pte_flags :: "Sv39PageTableEntry \<Rightarrow> PTEFlags" where
  "pte_flags e = ucast e"

definition pte_is_valid :: "Sv39PageTableEntry \<Rightarrow> bool" where
  "pte_is_valid e \<longleftrightarrow> pte_flags e AND PTE_V \<noteq> 0"

definition pte_is_dirty :: "Sv39PageTableEntry \<Rightarrow> bool" where
  "pte_is_dirty e \<longleftrightarrow> pte_flags e AND PTE_D \<noteq> 0"

definition pte_readable :: "Sv39PageTableEntry \<Rightarrow> bool" where
  "pte_readable e \<longleftrightarrow> pte_flags e AND PTE_R \<noteq> 0"

definition pte_writable :: "Sv39PageTableEntry \<Rightarrow> bool" where
  "pte_writable e \<longleftrightarrow> pte_flags e AND PTE_W \<noteq> 0"

definition pte_executable :: "Sv39PageTableEntry \<Rightarrow> bool" where
  "pte_executable e \<longleftrightarrow> pte_flags e AND PTE_X \<noteq> 0"

definition pte_is_leaf :: "Sv39PageTableEntry \<Rightarrow> bool" where
  "pte_is_leaf e \<longleftrightarrow> pte_readable e \<or> pte_writable e \<or> pte_executable e"

definition pte_clear :: "PTEFlags \<Rightarrow> Sv39PageTableEntry \<Rightarrow> Sv39PageTableEntry" where
  "pte_clear flag e = e AND NOT (ucast flag)"

definition pte_clear_access :: "Sv39PageTableEntry \<Rightarrow> Sv39PageTableEntry" where
  "pte_clear_access e = pte_clear PTE_A e"

definition pte_clear_dirty :: "Sv39PageTableEntry \<Rightarrow> Sv39PageTableEntry" where
  "pte_clear_dirty e = pte_clear PTE_D e"

definition pte_revoke_read :: "Sv39PageTableEntry \<Rightarrow> Sv39PageTableEntry" where
  "pte_revoke_read e = pte_clear PTE_R e"

definition pte_revoke_write :: "Sv39PageTableEntry \<Rightarrow> Sv39PageTableEntry" where
  "pte_revoke_write e = pte_clear PTE_W e"

definition pte_revoke_execute :: "Sv39PageTableEntry \<Rightarrow> Sv39PageTableEntry" where
  "pte_revoke_execute e = pte_clear PTE_X e"

definition pte_set_permission :: "MapPermission \<Rightarrow> Sv39PageTableEntry \<Rightarrow> Sv39PageTableEntry" where
  "pte_set_permission flags e = (e AND 0xffffffffffffffe1) OR ucast flags"

definition pte_set_ppn :: "ppn \<Rightarrow> Sv39PageTableEntry \<Rightarrow> Sv39PageTableEntry" where
  "pte_set_ppn p e = (e AND NOT PPN_MASK) OR (push_bit 10 (word_of_nat p) AND PPN_MASK)"

definition pte_set_dirty :: "Sv39PageTableEntry \<Rightarrow> Sv39PageTableEntry" where
  "pte_set_dirty e = e OR ucast PTE_D"

section \<open>Tables\<close>

datatype PageTableRole = KernelOwned | UserOwned | Borrowed

record Sv39PageTable =
  sv_root_ppn :: ppn
  sv_frames :: "ppn list"
  sv_role :: PageTableRole
  sv_mem :: "ppn \<Rightarrow> nat \<Rightarrow> Sv39PageTableEntry"
  sv_free :: "ppn list"

definition SHARED_KERNEL_ROOT_START :: nat where "SHARED_KERNEL_ROOT_START = 256"
definition SHARED_KERNEL_ROOT_END :: nat where "SHARED_KERNEL_ROOT_END = 511"

definition sv_idxs :: "vpn \<Rightarrow> nat list" where
  "sv_idxs v = vpn_indexes 3 (word_of_nat v)"

text \<open>The guard of the mutating walks.\<close>

definition sv_banned :: "Sv39PageTable \<Rightarrow> nat \<Rightarrow> bool" where
  "sv_banned t i \<longleftrightarrow> sv_role t = Borrowed \<or>
     (sv_role t = UserOwned \<and> SHARED_KERNEL_ROOT_START \<le> i \<and> i < SHARED_KERNEL_ROOT_END)"

definition sv_write :: "ppn \<Rightarrow> nat \<Rightarrow> Sv39PageTableEntry \<Rightarrow> Sv39PageTable \<Rightarrow> Sv39PageTable" where
  "sv_write p i e t = t\<lparr>sv_mem := (sv_mem t)(p := (sv_mem t p)(i := e))\<rparr>"

text \<open>
  A frame for a new node, entered at entry \<open>i\<close> of node \<open>p\<close>: \<open>None\<close> when the vector cannot grow
  or no frame is left.
\<close>

definition sv_new_node :: "mm_env \<Rightarrow> ppn \<Rightarrow> nat \<Rightarrow> Sv39PageTable \<Rightarrow> (Sv39PageTableEntry \<times> Sv39PageTable) option" where
  "sv_new_node env p i t =
     (if \<not> env_reserve env (length (sv_frames t)) then None
      else case sv_free t of
        [] \<Rightarrow> None
      | f # fs \<Rightarrow>
          (let e = pte_new f PTE_V;
               t1 = t\<lparr>sv_free := fs, sv_mem := (sv_mem t)(f := (\<lambda>_. 0))\<rparr>;
               t2 = sv_write p i e t1
           in Some (e, t2\<lparr>sv_frames := sv_frames t2 @ [f]\<rparr>)))"

text \<open>The loop of \<open>find_pte_create\<close> over the remaining indices; the result is the place of the entry.\<close>

fun find_create_loop ::
  "mm_env \<Rightarrow> nat list \<Rightarrow> ppn \<Rightarrow> Sv39PageTable \<Rightarrow> (MemoryError + (ppn \<times> nat)) \<times> Sv39PageTable" where
  "find_create_loop env [] p t = (Inl BadAddress, t)"
| "find_create_loop env [i] p t = (Inr (p, i), t)"
| "find_create_loop env (i # j # is) p t =
     (let e = sv_mem t p i in
      if \<not> pte_is_valid e
      then (case sv_new_node env p i t of
              None \<Rightarrow> (Inl OutOfMemory, t)
            | Some (e', t') \<Rightarrow> find_create_loop env (j # is) (pte_ppn e') t')
      else if pte_is_leaf e then (Inl AlreadyMapped, t)
      else find_create_loop env (j # is) (pte_ppn e) t)"

definition find_pte_create ::
  "mm_env \<Rightarrow> Sv39PageTable \<Rightarrow> vpn \<Rightarrow> (MemoryError + (ppn \<times> nat)) \<times> Sv39PageTable" where
  "find_pte_create env t v =
     (if sv_banned t (sv_idxs v ! 0) then (Inl BadAddress, t)
      else find_create_loop env (sv_idxs v) (sv_root_ppn t) t)"

text \<open>The loop of \<open>find_pte_with_level\<close> and of \<open>find_pte_refmut\<close>, from level \<open>l\<close> on.\<close>

fun find_loop :: "nat list \<Rightarrow> nat \<Rightarrow> ppn \<Rightarrow> Sv39PageTable \<Rightarrow> (ppn \<times> nat \<times> nat) option" where
  "find_loop [] l p t = None"
| "find_loop (i # is) l p t =
     (let e = sv_mem t p i in
      if \<not> pte_is_valid e then None
      else if is = [] \<or> pte_is_leaf e then Some (p, i, l)
      else find_loop is (l + 1) (pte_ppn e) t)"

definition find_pte_with_level :: "Sv39PageTable \<Rightarrow> vpn \<Rightarrow> (Sv39PageTableEntry \<times> nat) option" where
  "find_pte_with_level t v =
     map_option (\<lambda>(p, i, l). (sv_mem t p i, l)) (find_loop (sv_idxs v) 0 (sv_root_ppn t) t)"

definition find_pte :: "Sv39PageTable \<Rightarrow> vpn \<Rightarrow> Sv39PageTableEntry option" where
  "find_pte t v = map_option fst (find_pte_with_level t v)"

definition find_pte_refmut :: "Sv39PageTable \<Rightarrow> vpn \<Rightarrow> (ppn \<times> nat) option" where
  "find_pte_refmut t v =
     (if sv_banned t (sv_idxs v ! 0) then None
      else map_option (\<lambda>(p, i, l). (p, i)) (find_loop (sv_idxs v) 0 (sv_root_ppn t) t))"

section \<open>Creating tables\<close>

text \<open>\<open>None\<close> is the panic of \<open>frame_alloc().unwrap()\<close>.\<close>

definition sv_new :: "(ppn \<Rightarrow> nat \<Rightarrow> Sv39PageTableEntry) \<Rightarrow> ppn list \<Rightarrow> Sv39PageTable option" where
  "sv_new mem free =
     (case free of
        [] \<Rightarrow> None
      | f # fs \<Rightarrow> Some \<lparr>sv_root_ppn = f, sv_frames = [f], sv_role = KernelOwned,
                        sv_mem = mem(f := (\<lambda>_. 0)), sv_free = fs\<rparr>)"

definition token_root :: "u64 \<Rightarrow> ppn" where
  "token_root token = unat (token AND (push_bit 44 1 - 1))"

definition new_user_space ::
  "(ppn \<Rightarrow> nat \<Rightarrow> Sv39PageTableEntry) \<Rightarrow> ppn list \<Rightarrow> u64 \<Rightarrow> Sv39PageTable option" where
  "new_user_space mem free kernel_token =
     map_option (\<lambda>t.
       let src = sv_mem t (token_root kernel_token); dst = sv_mem t (sv_root_ppn t);
           row = (\<lambda>i. if SHARED_KERNEL_ROOT_START \<le> i \<and> i < SHARED_KERNEL_ROOT_END then src i else dst i)
       in t\<lparr>sv_mem := (sv_mem t)(sv_root_ppn t := row), sv_role := UserOwned\<rparr>) (sv_new mem free)"

definition from_token :: "(ppn \<Rightarrow> nat \<Rightarrow> Sv39PageTableEntry) \<Rightarrow> u64 \<Rightarrow> Sv39PageTable" where
  "from_token mem satp =
     \<lparr>sv_root_ppn = token_root satp, sv_frames = [], sv_role = Borrowed, sv_mem = mem, sv_free = []\<rparr>"

definition sv_token :: "Sv39PageTable \<Rightarrow> u64" where
  "sv_token t = push_bit 60 8 OR word_of_nat (sv_root_ppn t)"

fun prepare_loop :: "mm_env \<Rightarrow> nat list \<Rightarrow> Sv39PageTable \<Rightarrow> (MemoryError + unit) \<times> Sv39PageTable" where
  "prepare_loop env [] t = (Inr (), t)"
| "prepare_loop env (i # is) t =
     (let e = sv_mem t (sv_root_ppn t) i in
      if pte_is_valid e
      then (if pte_is_leaf e then (Inl AlreadyMapped, t) else prepare_loop env is t)
      else case sv_new_node env (sv_root_ppn t) i t of
             None \<Rightarrow> (Inl OutOfMemory, t)
           | Some (_, t') \<Rightarrow> prepare_loop env is t')"

definition prepare_shared_kernel_range ::
  "mm_env \<Rightarrow> Sv39PageTable \<Rightarrow> addr \<Rightarrow> addr \<Rightarrow> (MemoryError + unit) \<times> Sv39PageTable" where
  "prepare_shared_kernel_range env t s e =
     (if sv_role t \<noteq> KernelOwned \<or> e \<le> s then (Inl BadAddress, t)
      else
        let first = sv_idxs (va_floor s) ! 0; last = sv_idxs (va_floor (e - 1)) ! 0
        in if first < SHARED_KERNEL_ROOT_START \<or> SHARED_KERNEL_ROOT_END \<le> last \<or> last < first
           then (Inl BadAddress, t) else prepare_loop env [first..<last + 1] t)"

section \<open>The operations of the trait\<close>

definition sv_is_mapped :: "Sv39PageTable \<Rightarrow> vpn \<Rightarrow> bool" where
  "sv_is_mapped t v = (case find_pte t v of None \<Rightarrow> False | Some e \<Rightarrow> pte_is_valid e)"

definition map_flags :: "MapPermission \<Rightarrow> PTEFlags" where
  "map_flags flags =
     (let f = flags OR PTE_V OR PTE_A OR PTE_D
      in if flags_contains flags PERM_G then f OR PTE_G else f)"

definition sv_try_map_no_flush ::
  "mm_env \<Rightarrow> Sv39PageTable \<Rightarrow> vpn \<Rightarrow> ppn \<Rightarrow> MapPermission \<Rightarrow> (MemoryError + unit) \<times> Sv39PageTable" where
  "sv_try_map_no_flush env t v p flags =
     (case find_pte_create env t v of
        (Inl e, t') \<Rightarrow> (Inl e, t')
      | (Inr (n, i), t') \<Rightarrow>
          if pte_is_valid (sv_mem t' n i) then (Inl AlreadyMapped, t')
          else (Inr (), sv_write n i (pte_new p (map_flags flags)) t'))"

definition PAGES_PER_2M :: nat where "PAGES_PER_2M = 512"

definition sv_try_map_2m ::
  "mm_env \<Rightarrow> Sv39PageTable \<Rightarrow> vpn \<Rightarrow> ppn \<Rightarrow> MapPermission \<Rightarrow> (MemoryError + unit) \<times> Sv39PageTable" where
  "sv_try_map_2m env t v p flags =
     (if v mod PAGES_PER_2M \<noteq> 0 \<or> p mod PAGES_PER_2M \<noteq> 0 then (Inl BadAddress, t)
      else if sv_banned t (sv_idxs v ! 0) then (Inl BadAddress, t)
      else
        let i0 = sv_idxs v ! 0; i1 = sv_idxs v ! 1; root = sv_mem t (sv_root_ppn t) i0;
            finish = (\<lambda>(e, t').
              if pte_is_valid (sv_mem t' (pte_ppn e) i1) then (Inl AlreadyMapped, t')
              else (Inr (), sv_write (pte_ppn e) i1 (pte_new p (map_flags flags)) t'))
        in if \<not> pte_is_valid root
           then (case sv_new_node env (sv_root_ppn t) i0 t of
                   None \<Rightarrow> (Inl OutOfMemory, t)
                 | Some x \<Rightarrow> finish x)
           else if pte_is_leaf root then (Inl AlreadyMapped, t)
           else finish (root, t))"

text \<open>\<open>None\<close>: no entry, or an invalid one; both panic.\<close>

definition sv_unmap_no_flush :: "Sv39PageTable \<Rightarrow> vpn \<Rightarrow> Sv39PageTable option" where
  "sv_unmap_no_flush t v =
     (case find_pte_refmut t v of
        None \<Rightarrow> None
      | Some (n, i) \<Rightarrow> if pte_is_valid (sv_mem t n i) then Some (sv_write n i pte_empty t) else None)"

definition level_ppn :: "vpn \<Rightarrow> Sv39PageTableEntry \<times> nat \<Rightarrow> ppn" where
  "level_ppn v = (\<lambda>(e, level).
     unat ((word_of_nat (pte_ppn e) :: u64) OR (word_of_nat v AND (push_bit ((2 - level) * 9) 1 - 1))))"

definition sv_translate :: "Sv39PageTable \<Rightarrow> vpn \<Rightarrow> ppn option" where
  "sv_translate t v = map_option (level_ppn v) (find_pte_with_level t v)"

text \<open>\<open>translate_va\<close>: the inner \<open>None\<close> is the panic when the physical address overflows.\<close>

definition sv_translate_va :: "Sv39PageTable \<Rightarrow> addr \<Rightarrow> addr option option" where
  "sv_translate_va t a =
     map_option (\<lambda>x. checked_add (vpn_addr (level_ppn (va_floor a) x)) (page_offset a))
       (find_pte_with_level t (va_floor a))"

text \<open>An operation on the entry of a page; the \<open>None\<close> is \<open>Err(())\<close>.\<close>

definition sv_update :: "(Sv39PageTableEntry \<Rightarrow> Sv39PageTableEntry) \<Rightarrow> Sv39PageTable \<Rightarrow> vpn \<Rightarrow> Sv39PageTable option" where
  "sv_update f t v =
     (case find_pte_refmut t v of
        None \<Rightarrow> None
      | Some (n, i) \<Rightarrow> Some (sv_write n i (f (sv_mem t n i)) t))"

definition sv_block_and_ret_mut_no_flush :: "Sv39PageTable \<Rightarrow> vpn \<Rightarrow> ppn option \<times> Sv39PageTable" where
  "sv_block_and_ret_mut_no_flush t v =
     (case find_pte_refmut t v of
        None \<Rightarrow> (None, t)
      | Some (n, i) \<Rightarrow>
          (let e = pte_revoke_write (sv_mem t n i) in (Some (pte_ppn e), sv_write n i e t)))"

definition sv_revoke_read :: "Sv39PageTable \<Rightarrow> vpn \<Rightarrow> Sv39PageTable option" where
  "sv_revoke_read t v = sv_update pte_revoke_read t v"

definition sv_revoke_write :: "Sv39PageTable \<Rightarrow> vpn \<Rightarrow> Sv39PageTable option" where
  "sv_revoke_write t v = sv_update pte_revoke_write t v"

definition sv_revoke_execute :: "Sv39PageTable \<Rightarrow> vpn \<Rightarrow> Sv39PageTable option" where
  "sv_revoke_execute t v = sv_update pte_revoke_execute t v"

definition sv_set_ppn_no_flush :: "Sv39PageTable \<Rightarrow> vpn \<Rightarrow> ppn \<Rightarrow> Sv39PageTable option" where
  "sv_set_ppn_no_flush t v p = sv_update (pte_set_ppn p) t v"

definition sv_set_pte_flags_no_flush :: "Sv39PageTable \<Rightarrow> vpn \<Rightarrow> MapPermission \<Rightarrow> Sv39PageTable option" where
  "sv_set_pte_flags_no_flush t v flags = sv_update (pte_set_permission flags) t v"

definition sv_set_dirty_bit_no_flush :: "Sv39PageTable \<Rightarrow> vpn \<Rightarrow> Sv39PageTable option" where
  "sv_set_dirty_bit_no_flush t v = sv_update pte_set_dirty t v"

definition sv_clear_access_bit :: "Sv39PageTable \<Rightarrow> vpn \<Rightarrow> Sv39PageTable option" where
  "sv_clear_access_bit t v = sv_update pte_clear_access t v"

definition sv_clear_dirty_bit :: "Sv39PageTable \<Rightarrow> vpn \<Rightarrow> Sv39PageTable option" where
  "sv_clear_dirty_bit t v = sv_update pte_clear_dirty t v"

text \<open>The queries on the entry of a page, \<open>None\<close> when there is none.\<close>

definition sv_is_valid :: "Sv39PageTable \<Rightarrow> vpn \<Rightarrow> bool option" where
  "sv_is_valid t v = map_option pte_is_valid (find_pte t v)"

definition sv_is_dirty :: "Sv39PageTable \<Rightarrow> vpn \<Rightarrow> bool option" where
  "sv_is_dirty t v = map_option pte_is_dirty (find_pte t v)"

definition sv_readable :: "Sv39PageTable \<Rightarrow> vpn \<Rightarrow> bool option" where
  "sv_readable t v = map_option pte_readable (find_pte t v)"

definition sv_writable :: "Sv39PageTable \<Rightarrow> vpn \<Rightarrow> bool option" where
  "sv_writable t v = map_option pte_writable (find_pte t v)"

definition sv_executable :: "Sv39PageTable \<Rightarrow> vpn \<Rightarrow> bool option" where
  "sv_executable t v = map_option pte_executable (find_pte t v)"

datatype UserAccess = UaRead | UaWrite | UaReadWrite

definition needs_read :: "UserAccess \<Rightarrow> bool" where "needs_read a \<longleftrightarrow> a = UaRead \<or> a = UaReadWrite"
definition needs_write :: "UserAccess \<Rightarrow> bool" where "needs_write a \<longleftrightarrow> a = UaWrite \<or> a = UaReadWrite"

definition user_access_ok :: "Sv39PageTable \<Rightarrow> vpn \<Rightarrow> UserAccess \<Rightarrow> bool option" where
  "user_access_ok t v access =
     map_option (\<lambda>e.
       if \<not> pte_is_valid e \<or> \<not> flags_contains (pte_flags e) PTE_U then False
       else (\<not> needs_read access \<or> pte_readable e) \<and> (\<not> needs_write access \<or> pte_writable e))
       (find_pte t v)"

definition sv39_ops :: "mm_env \<Rightarrow> Sv39PageTable page_table_ops" where
  "sv39_ops env =
     \<lparr>pt_is_mapped = sv_is_mapped, pt_translate = sv_translate,
      pt_try_map_no_flush = sv_try_map_no_flush env, pt_unmap_no_flush = sv_unmap_no_flush,
      pt_block_and_ret_mut_no_flush = sv_block_and_ret_mut_no_flush,
      pt_set_ppn_no_flush = sv_set_ppn_no_flush, pt_set_pte_flags_no_flush = sv_set_pte_flags_no_flush,
      pt_set_dirty_bit_no_flush = sv_set_dirty_bit_no_flush, pt_clear_dirty_bit = sv_clear_dirty_bit\<rparr>"

section \<open>Facts on entries\<close>

named_theorems pte_simps

lemma bit_PPN_MASK: "bit PPN_MASK n \<longleftrightarrow> 10 \<le> n \<and> n < 54"
proof -
  have "PPN_MASK = push_bit 10 (mask 44)" by (simp add: PPN_MASK_def mask_eq_decr_exp push_bit_eq_mult)
  then show ?thesis unfolding \<open>PPN_MASK = _\<close> by (auto simp: bit_push_bit_iff bit_mask_iff possible_bit_word)
qed

lemma bit_pte_new:
  "p < 2 ^ 44 \<Longrightarrow> bit (pte_new p f) n \<longleftrightarrow> (10 \<le> n \<and> n < 64 \<and> bit p (n - 10)) \<or> (n < 8 \<and> bit f n)"
  by (auto simp: pte_new_def bit_or_iff bit_push_bit_iff bit_unsigned_iff bit_of_nat_iff possible_bit_word
      dest: bit_imp_le_length)

lemma pte_ppn_bit: "pte_ppn e = p \<longleftrightarrow> (\<forall>n. bit p n \<longleftrightarrow> n < 44 \<and> bit e (n + 10))"
proof -
  have "bit (pte_ppn e) n \<longleftrightarrow> n < 44 \<and> bit e (n + 10)" for n
    by (auto simp: pte_ppn_def bit_unsigned_iff bit_drop_bit_eq bit_and_iff bit_PPN_MASK add.commute
        dest: bit_imp_le_length)
  then show ?thesis by (auto simp: bit_eq_iff)
qed

lemma bit_pte_ppn: "bit (pte_ppn e) n \<longleftrightarrow> n < 44 \<and> bit e (n + 10)"
  using pte_ppn_bit [of e "pte_ppn e"] by blast

lemma nat_bit_bound: "bit (p::nat) n \<Longrightarrow> p < 17592186044416 \<Longrightarrow> n < 44"
  using take_bit_nat_eq_self [of p 44] bit_take_bit_iff [of 44 p n] by simp

lemma pte_new_ppn [pte_simps]: "p < 2 ^ 44 \<Longrightarrow> pte_ppn (pte_new p f) = p"
  by (auto simp: pte_ppn_bit bit_pte_new dest: nat_bit_bound)

lemma bit_pte_flags: "bit (pte_flags e) n \<longleftrightarrow> n < 8 \<and> bit e n"
  by (auto simp: pte_flags_def bit_unsigned_iff possible_bit_word)

lemma pte_new_flags [pte_simps]: "p < 2 ^ 44 \<Longrightarrow> pte_flags (pte_new p f) = f"
  by (rule bit_word_eqI) (auto simp: bit_pte_flags bit_pte_new)

lemma bit_ucast_u8: "bit (ucast (f :: u8) :: u64) n \<longleftrightarrow> n < 8 \<and> bit f n"
  by (auto simp: bit_unsigned_iff possible_bit_word dest: bit_imp_le_length)

lemma pte_clear_flags [pte_simps]: "pte_flags (pte_clear fl e) = pte_flags e AND NOT fl"
  by (rule bit_word_eqI) (auto simp: bit_pte_flags pte_clear_def bit_and_iff bit_not_iff bit_ucast_u8 possible_bit_word)

lemma pte_clear_ppn [pte_simps]: "pte_ppn (pte_clear fl e) = pte_ppn e"
  unfolding pte_ppn_bit bit_pte_ppn by (auto simp: pte_clear_def bit_and_iff bit_not_iff bit_ucast_u8 possible_bit_word)

lemma pte_set_dirty_flags [pte_simps]: "pte_flags (pte_set_dirty e) = pte_flags e OR PTE_D"
  by (rule bit_word_eqI) (auto simp: bit_pte_flags pte_set_dirty_def bit_or_iff bit_ucast_u8)

lemma pte_set_dirty_ppn [pte_simps]: "pte_ppn (pte_set_dirty e) = pte_ppn e"
  unfolding pte_ppn_bit bit_pte_ppn by (auto simp: pte_set_dirty_def bit_or_iff bit_ucast_u8)

lemma pte_set_ppn_ppn [pte_simps]: "p < 2 ^ 44 \<Longrightarrow> pte_ppn (pte_set_ppn p e) = p"
  unfolding pte_ppn_bit
  by (auto simp: pte_set_ppn_def bit_or_iff bit_and_iff bit_not_iff bit_PPN_MASK bit_push_bit_iff
      bit_of_nat_iff possible_bit_word dest: nat_bit_bound)

lemma pte_set_ppn_flags [pte_simps]: "pte_flags (pte_set_ppn p e) = pte_flags e"
  by (rule bit_word_eqI) (auto simp: bit_pte_flags pte_set_ppn_def bit_or_iff bit_and_iff bit_not_iff bit_PPN_MASK
      possible_bit_word)

lemma perm_mask_eq: "(0xffffffffffffffe1 :: u64) = NOT (push_bit 1 (mask 4))"
  by (simp add: mask_eq_exp_minus_1 push_bit_eq_mult)

lemma perm_bits_eq: "perm_bits f = f AND push_bit 1 (mask 4)"
  by (simp add: perm_bits_def mask_eq_exp_minus_1 push_bit_eq_mult)

lemma bit_perm_bits: "bit (perm_bits f) n \<longleftrightarrow> bit f n \<and> 1 \<le> n \<and> n < 5"
  unfolding perm_bits_eq bit_and_iff bit_push_bit_iff bit_mask_iff
  by (auto simp: possible_bit_word dest: bit_imp_le_length)

lemma bit_set_permission:
  "bit (pte_set_permission f e) n \<longleftrightarrow> (bit e n \<and> \<not> (1 \<le> n \<and> n < 5)) \<or> (n < 8 \<and> bit f n)"
  unfolding pte_set_permission_def perm_mask_eq bit_or_iff bit_and_iff bit_not_iff bit_push_bit_iff bit_mask_iff
    bit_ucast_u8
  by (auto simp: possible_bit_word dest: bit_imp_le_length)

lemma pte_set_permission_ppn [pte_simps]: "pte_ppn (pte_set_permission f e) = pte_ppn e"
  unfolding pte_ppn_bit bit_pte_ppn by (auto simp: bit_set_permission)

lemma pte_set_permission_perm [pte_simps]: "perm_bits (pte_flags (pte_set_permission f e)) = perm_bits f"
  by (rule bit_word_eqI) (auto simp: bit_perm_bits bit_pte_flags bit_set_permission)

lemma pte_valid_bit: "pte_is_valid e \<longleftrightarrow> bit e 0"
  using and_exp_eq_0_iff_not_bit [of "pte_flags e" 0] by (simp add: pte_is_valid_def PTE_V_def bit_pte_flags)

lemma pte_valid_flags: "pte_is_valid e \<longleftrightarrow> bit (pte_flags e) 0"
  by (simp add: pte_valid_bit bit_pte_flags)

lemma pte_leaf_perm: "pte_is_leaf e \<longleftrightarrow> bit (pte_flags e) 1 \<or> bit (pte_flags e) 2 \<or> bit (pte_flags e) 3"
proof -
  have f: "f AND 2 \<noteq> 0 \<longleftrightarrow> bit f 1" "f AND 4 \<noteq> 0 \<longleftrightarrow> bit f 2" "f AND 8 \<noteq> 0 \<longleftrightarrow> bit f 3" for f :: u8
    using and_exp_eq_0_iff_not_bit [of f 1] and_exp_eq_0_iff_not_bit [of f 2] and_exp_eq_0_iff_not_bit [of f 3]
    by simp_all
  show ?thesis by (simp only: pte_is_leaf_def pte_readable_def pte_writable_def pte_executable_def PTE_R_def PTE_W_def PTE_X_def f)
qed

section \<open>Paths\<close>

text \<open>
  The pages a user table can hold: the lower half of the 39-bit address space, and the top
  gigabyte (root index 511), which is not shared with the kernel.
\<close>

definition sv_user_vpn :: "vpn \<Rightarrow> bool" where
  "sv_user_vpn v \<longleftrightarrow> v < 67108864 \<or> (4503599627108352 \<le> v \<and> v < MAX_VPN)"

definition vpath :: "vpn \<Rightarrow> nat list" where
  "vpath v = [(v div 512) mod 512, (v div 262144) mod 512]"

definition vslot :: "vpn \<Rightarrow> nat" where
  "vslot v = v mod 512"

lemma sv_idxs_eq:
  assumes "v \<le> USIZE_MAX"
  shows "sv_idxs v = [vpath v ! 1, vpath v ! 0, vslot v]"
proof -
  have idx: "unat (w AND 511) = unat w mod 512" for w :: u64
  proof -
    have "w AND 511 = take_bit 9 w" by (simp add: take_bit_eq_mask mask_eq_exp_minus_1)
    then have "unat (w AND 511) = take_bit 9 (unat w)" by (simp only: unsigned_take_bit_eq)
    then show ?thesis by (simp add: take_bit_eq_mod)
  qed
  have dr: "unat (drop_bit n w) = unat w div 2 ^ n" for n and w :: u64
    unfolding unat_drop_bit_eq by (rule drop_bit_eq_div)
  have "sv_idxs v = [unat (drop_bit 9 (drop_bit 9 (word_of_nat v :: u64)) AND 511),
      unat (drop_bit 9 (word_of_nat v :: u64) AND 511), unat ((word_of_nat v :: u64) AND 511)]"
    unfolding sv_idxs_def numeral_3_eq_3 vpn_indexes.simps by (simp only: append_Nil append_Cons)
  also have "\<dots> = [v div 2 ^ 9 div 2 ^ 9 mod 512, v div 2 ^ 9 mod 512, v mod 512]"
    by (simp only: idx dr unat_u64_small [OF assms])
  finally show ?thesis using div_mult2_eq [of v 512 512] by (simp add: vpath_def vslot_def)
qed

lemma user_vpn_small: "sv_user_vpn v \<Longrightarrow> v \<le> USIZE_MAX"
  by (auto simp: sv_user_vpn_def MAX_VPN_def USIZE_MAX_def)

lemma user_vpn_root:
  assumes "sv_user_vpn v"
  shows "vpath v ! 1 < 256 \<or> vpath v ! 1 = 511"
proof (cases "v < 67108864")
  case True
  then have "v div 262144 < 256" by (simp add: div_less_iff_less_mult)
  then show ?thesis by (simp add: vpath_def)
next
  case False
  then have "17179869183 * 262144 \<le> v" "v < (17179869183 + 1) * 262144"
    using assms by (simp_all add: sv_user_vpn_def MAX_VPN_def)
  then have "v div 262144 = 17179869183" by (intro div_nat_eqI) (simp_all add: mult.commute)
  then show ?thesis by (simp add: vpath_def)
qed

lemma vpath_mod: "v mod 134217728 = 512 * (512 * (vpath v ! 1) + vpath v ! 0) + vslot v"
proof -
  have "v mod (512 * 262144) = 512 * (v div 512 mod 262144) + v mod 512" by (rule mod_mult2_eq)
  moreover have "v div 512 mod (512 * 512) = 512 * (v div 512 div 512 mod 512) + v div 512 mod 512"
    by (rule mod_mult2_eq)
  moreover have "v div 512 div 512 = v div 262144" using div_mult2_eq [of v 512 512] by simp
  ultimately show ?thesis by (simp add: vpath_def vslot_def)
qed

lemma user_vpn_mod:
  assumes "sv_user_vpn v"
  shows "v mod 134217728 = (if v < 67108864 then v else v - 4503599493152768)"
proof (cases "v < 67108864")
  case False
  then have b: "4503599627108352 \<le> v" "v < 4503599627370496" using assms by (simp_all add: sv_user_vpn_def MAX_VPN_def)
  define d where "d = v - 4503599493152768"
  have "v = d + 33554431 * 134217728" "d < 134217728" using b by (simp_all add: d_def)
  then have "v mod 134217728 = d" by (metis mod_mult_self1 mod_less)
  then show ?thesis using False by (simp add: d_def)
qed simp

lemma vpath_inj:
  assumes "sv_user_vpn v" and "sv_user_vpn v'" and "vpath v = vpath v'" and "vslot v = vslot v'"
  shows "v = v'"
proof -
  have "v mod 134217728 = v' mod 134217728" using assms(3,4) by (simp add: vpath_mod)
  then show ?thesis
    using assms(1,2) unfolding user_vpn_mod [OF assms(1)] user_vpn_mod [OF assms(2)] sv_user_vpn_def
    by (auto simp: MAX_VPN_def split: if_splits)
qed

text \<open>The node at the end of a path, the index of the root coming last.\<close>

fun node :: "Sv39PageTable \<Rightarrow> nat list \<Rightarrow> ppn option" where
  "node t [] = Some (sv_root_ppn t)"
| "node t (i # \<pi>) =
     (case node t \<pi> of
        None \<Rightarrow> None
      | Some n \<Rightarrow>
          (let e = sv_mem t n i in if pte_is_valid e \<and> \<not> pte_is_leaf e then Some (pte_ppn e) else None))"

definition upath :: "nat list \<Rightarrow> bool" where
  "upath \<pi> \<longleftrightarrow> length \<pi> \<le> 2 \<and> (\<pi> \<noteq> [] \<longrightarrow> last \<pi> < 256 \<or> last \<pi> = 511)"

lemma upath_Cons: "upath (i # \<pi>) \<Longrightarrow> upath \<pi>"
  by (auto simp: upath_def)

lemma upath_vpath: "sv_user_vpn v \<Longrightarrow> upath (vpath v)"
  using user_vpn_root [of v] by (auto simp: upath_def vpath_def)

definition sv_inv :: "Sv39PageTable \<Rightarrow> bool" where
  "sv_inv t \<longleftrightarrow> sv_role t = UserOwned \<and>
     (\<forall>\<pi> \<pi>' n. upath \<pi> \<longrightarrow> upath \<pi>' \<longrightarrow> node t \<pi> = Some n \<longrightarrow> node t \<pi>' = Some n \<longrightarrow> \<pi> = \<pi>') \<and>
     (\<forall>\<pi> i n. upath (i # \<pi>) \<longrightarrow> node t \<pi> = Some n \<longrightarrow> pte_is_valid (sv_mem t n i) \<longrightarrow> \<not> pte_is_leaf (sv_mem t n i)) \<and>
     (\<forall>\<pi> n. upath \<pi> \<longrightarrow> node t \<pi> = Some n \<longrightarrow> n \<notin> set (sv_free t)) \<and>
     distinct (sv_free t) \<and> (\<forall>f \<in> set (sv_free t). f < 2 ^ 44)"

lemma sv_inv_noleaf:
  "sv_inv t \<Longrightarrow> upath (i # \<pi>) \<Longrightarrow> node t \<pi> = Some n \<Longrightarrow> pte_is_valid (sv_mem t n i) \<Longrightarrow> \<not> pte_is_leaf (sv_mem t n i)"
  unfolding sv_inv_def by blast

lemma sv_inv_inj:
  "sv_inv t \<Longrightarrow> upath \<pi> \<Longrightarrow> upath \<pi>' \<Longrightarrow> node t \<pi> = Some n \<Longrightarrow> node t \<pi>' = Some n \<Longrightarrow> \<pi> = \<pi>'"
  unfolding sv_inv_def by blast

lemma sv_inv_free:
  assumes "sv_inv t"
  shows "upath \<pi> \<Longrightarrow> node t \<pi> = Some n \<Longrightarrow> n \<notin> set (sv_free t)" and "distinct (sv_free t)"
    and "f \<in> set (sv_free t) \<Longrightarrow> f < 2 ^ 44" and "sv_role t = UserOwned"
  using assms unfolding sv_inv_def by blast+

definition sv_view :: "Sv39PageTable \<Rightarrow> vpn \<Rightarrow> (ppn \<times> MapPermission) option" where
  "sv_view t v =
     (if sv_user_vpn v
      then (case node t (vpath v) of
              None \<Rightarrow> None
            | Some n \<Rightarrow>
                (let e = sv_mem t n (vslot v)
                 in if pte_is_valid e then Some (pte_ppn e, perm_bits (pte_flags e)) else None))
      else None)"

text \<open>The read-only walk finds the entry of the page.\<close>

lemma find_loop_user:
  assumes inv: "sv_inv t" and u: "sv_user_vpn v"
  shows "find_loop (sv_idxs v) 0 (sv_root_ppn t) t =
    (case node t (vpath v) of
       None \<Rightarrow> None
     | Some n \<Rightarrow> if pte_is_valid (sv_mem t n (vslot v)) then Some (n, vslot v, 2) else None)"
proof -
  obtain i0 i1 where p: "vpath v = [i1, i0]" by (simp add: vpath_def)
  have "upath (i0 # [])" "upath (i1 # [i0])" using user_vpn_root [OF u] p by (auto simp: upath_def)
  note nl = sv_inv_noleaf [OF inv this(1) node.simps(1)] sv_inv_noleaf [OF inv this(2)]
  then show ?thesis
    by (auto simp: sv_idxs_eq [OF user_vpn_small [OF u]] p Let_def numeral_2_eq_2 split: option.splits if_splits)
qed

section \<open>Writing the entry of a page\<close>

lemma sv_write_simps [simp]:
  "sv_root_ppn (sv_write n i e t) = sv_root_ppn t" "sv_frames (sv_write n i e t) = sv_frames t"
  "sv_role (sv_write n i e t) = sv_role t" "sv_free (sv_write n i e t) = sv_free t"
  "sv_mem (sv_write n i e t) m j = (if m = n \<and> j = i then e else sv_mem t m j)"
  by (simp_all add: sv_write_def)

lemma node_write:
  assumes inv: "sv_inv t" and p: "upath \<pi>" "length \<pi> = 2" "node t \<pi> = Some n" and p': "upath \<pi>'"
  shows "node (sv_write n i e t) \<pi>' = node t \<pi>'"
  using p'
proof (induction \<pi>')
  case (Cons j \<pi>')
  have u: "upath \<pi>'" using Cons.prems by (rule upath_Cons)
  have "m \<noteq> n" if "node t \<pi>' = Some m" for m
    using sv_inv_inj [OF inv u p(1) that] p Cons.prems that by (auto simp: upath_def)
  with Cons.IH [OF u] show ?case by (auto simp: Let_def split: option.splits)
qed simp

lemma sv_write_inv:
  assumes inv: "sv_inv t" and p: "upath \<pi>" "length \<pi> = 2" "node t \<pi> = Some n"
  shows "sv_inv (sv_write n i e t)"
proof -
  note nw = node_write [OF inv p]
  have noleaf: "\<not> pte_is_leaf (sv_mem (sv_write n i e t) m j)"
    if "upath (j # \<pi>')" "node t \<pi>' = Some m" "pte_is_valid (sv_mem (sv_write n i e t) m j)" for \<pi>' j m
  proof -
    have u: "upath \<pi>'" using that(1) by (rule upath_Cons)
    have "m \<noteq> n" using sv_inv_inj [OF inv u p(1) that(2)] p that by (auto simp: upath_def)
    then show ?thesis using that sv_inv_noleaf [OF inv that(1,2)] by simp
  qed
  show ?thesis
    unfolding sv_inv_def using sv_inv_free [OF inv] nw upath_Cons noleaf
    by (simp add: sv_inv_inj [OF inv])
qed

definition entry_view :: "Sv39PageTableEntry \<Rightarrow> (ppn \<times> MapPermission) option" where
  "entry_view e = (if pte_is_valid e then Some (pte_ppn e, perm_bits (pte_flags e)) else None)"

lemma sv_view_alt:
  "sv_view t v = (if sv_user_vpn v then Option.bind (node t (vpath v)) (\<lambda>n. entry_view (sv_mem t n (vslot v))) else None)"
  by (simp add: sv_view_def entry_view_def Let_def split: option.splits)

lemma sv_view_write:
  assumes inv: "sv_inv t" and u: "sv_user_vpn v" and n: "node t (vpath v) = Some n"
  shows "sv_view (sv_write n (vslot v) e t) = (sv_view t)(v := entry_view e)"
proof
  fix v'
  have l: "length (vpath w) = 2" for w by (simp add: vpath_def)
  note nw = node_write [OF inv upath_vpath [OF u] l n]
  show "sv_view (sv_write n (vslot v) e t) v' = ((sv_view t)(v := entry_view e)) v'"
  proof (cases "v' = v")
    case True
    then show ?thesis using u n nw [OF upath_vpath [OF u]] by (simp add: sv_view_alt)
  next
    case False
    have "\<not> (m = n \<and> vslot v' = vslot v)" if "sv_user_vpn v'" "node t (vpath v') = Some m" for m
      using sv_inv_inj [OF inv upath_vpath [OF that(1)] upath_vpath [OF u] that(2)] n vpath_inj [OF that(1) u] False by blast
    then show ?thesis
      using False nw [OF upath_vpath, of v'] by (cases "node t (vpath v')") (auto simp: sv_view_alt)
  qed
qed

text \<open>The place \<open>find_pte_refmut\<close> returns for a user page.\<close>

lemma user_not_banned: "sv_inv t \<Longrightarrow> sv_user_vpn v \<Longrightarrow> \<not> sv_banned t (sv_idxs v ! 0)"
  using user_vpn_root [of v] sv_inv_free(4) [of t]
  by (auto simp: sv_banned_def sv_idxs_eq user_vpn_small SHARED_KERNEL_ROOT_START_def SHARED_KERNEL_ROOT_END_def)

lemma find_pte_refmut_user:
  assumes "sv_inv t" and "sv_user_vpn v"
  shows "find_pte_refmut t v =
    (case node t (vpath v) of
       None \<Rightarrow> None
     | Some n \<Rightarrow> if pte_is_valid (sv_mem t n (vslot v)) then Some (n, vslot v) else None)"
  using user_not_banned [OF assms] by (simp add: find_pte_refmut_def find_loop_user [OF assms] split: option.splits)

lemma find_pte_refmut_Some:
  assumes "sv_inv t" and "sv_user_vpn v" and "find_pte_refmut t v = Some (n, i)"
  shows "node t (vpath v) = Some n" and "i = vslot v" and "pte_is_valid (sv_mem t n i)"
    and "sv_view t v = entry_view (sv_mem t n i)"
  using assms by (auto simp: find_pte_refmut_user sv_view_alt split: option.splits if_splits)

lemma find_pte_refmut_None:
  assumes "sv_inv t" and "sv_user_vpn v"
  shows "find_pte_refmut t v = None \<longleftrightarrow> sv_view t v = None"
  using assms by (auto simp: find_pte_refmut_user sv_view_alt entry_view_def split: option.splits)

lemma find_pte_with_level_user:
  assumes "sv_inv t" and "sv_user_vpn v"
  shows "find_pte_with_level t v =
    map_option (\<lambda>(n, i). (sv_mem t n i, 2)) (find_pte_refmut t v)"
  by (simp add: find_pte_with_level_def find_loop_user [OF assms] find_pte_refmut_user [OF assms] split: option.splits)

lemma sv_update_facts:
  assumes inv: "sv_inv t" and u: "sv_user_vpn v" and f: "\<And>e. pte_is_valid e \<Longrightarrow> pte_is_valid (f e)"
  shows "(case sv_update f t v of
     None \<Rightarrow> sv_view t v = None
   | Some t' \<Rightarrow> \<exists>e. pte_is_valid e \<and> sv_view t v = entry_view e \<and> sv_inv t' \<and> sv_view t' = (sv_view t)(v := entry_view (f e)))"
proof (cases "find_pte_refmut t v")
  case None
  then show ?thesis using find_pte_refmut_None [OF inv u] by (simp add: sv_update_def)
next
  case (Some x)
  then obtain n i where r: "find_pte_refmut t v = Some (n, i)" by (cases x) auto
  note ff = find_pte_refmut_Some [OF inv u r]
  have l: "length (vpath v) = 2" by (simp add: vpath_def)
  from sv_write_inv [OF inv upath_vpath [OF u] l ff(1)] sv_view_write [OF inv u ff(1)] ff r
  show ?thesis by (auto simp: sv_update_def)
qed

section \<open>Creating nodes\<close>

lemma valid_zero [simp]: "\<not> pte_is_valid 0" "entry_view 0 = None" "entry_view pte_empty = None"
  by (simp_all add: pte_valid_bit entry_view_def pte_empty_def)

lemma node_entry_new:
  assumes "f < 2 ^ 44"
  shows "pte_is_valid (pte_new f PTE_V)" and "\<not> pte_is_leaf (pte_new f PTE_V)"
  using assms by (simp_all add: pte_valid_flags pte_leaf_perm pte_new_flags PTE_V_def bit_1_iff)

text \<open>The nodes of a table and the new node \<open>f\<close> share no memory.\<close>

lemma sv_new_node_mem:
  assumes inv: "sv_inv t" and p: "upath \<pi>" "node t \<pi> = Some n" and r: "sv_new_node env n i t = Some (e, t')"
  obtains f where "sv_free t = f # sv_free t'" and "pte_ppn e = f"
    and "pte_is_valid e" and "\<not> pte_is_leaf e"
    and "sv_root_ppn t' = sv_root_ppn t" and "sv_role t' = sv_role t" and "\<And>j. sv_mem t' f j = 0"
    and "\<And>\<rho> m j. upath \<rho> \<Longrightarrow> node t \<rho> = Some m \<Longrightarrow>
           m \<noteq> f \<and> sv_mem t' m j = (if m = n \<and> j = i then e else sv_mem t m j)"
proof -
  from r obtain f fs where fs: "sv_free t = f # fs" "e = pte_new f PTE_V"
    "t' = (sv_write n i e (t\<lparr>sv_free := fs, sv_mem := (sv_mem t)(f := (\<lambda>_. 0))\<rparr>))\<lparr>sv_frames := sv_frames t @ [f]\<rparr>"
    by (auto simp: sv_new_node_def Let_def split: if_splits list.splits)
  have f44: "f < 2 ^ 44" using sv_inv_free(3) [OF inv] fs(1) by simp
  have used: "m \<noteq> f" if "upath \<rho>" "node t \<rho> = Some m" for \<rho> m
    using sv_inv_free(1) [OF inv that] fs(1) by auto
  show thesis
    using fs f44 used used [OF p] by (intro that [of f]) (simp_all add: pte_new_ppn node_entry_new)
qed

lemma sv_new_node_nodes:
  assumes inv: "sv_inv t" and p: "upath (i # \<pi>)" "node t \<pi> = Some n" and nv: "\<not> pte_is_valid (sv_mem t n i)"
    and r: "sv_new_node env n i t = Some (e, t')" and u: "upath \<rho>"
  shows "node t' \<rho> = (if \<rho> = i # \<pi> then Some (pte_ppn e) else node t \<rho>)"
proof -
  note up = upath_Cons [OF p(1)]
  obtain f where f: "pte_ppn e = f" "pte_is_valid e" "\<not> pte_is_leaf e" "sv_root_ppn t' = sv_root_ppn t"
    "\<And>j. sv_mem t' f j = 0" "\<And>\<rho> m j. upath \<rho> \<Longrightarrow> node t \<rho> = Some m \<Longrightarrow>
           m \<noteq> f \<and> sv_mem t' m j = (if m = n \<and> j = i then e else sv_mem t m j)"
    by (rule sv_new_node_mem [OF inv up p(2) r]) blast
  show ?thesis
    using u
  proof (induction \<rho>)
    case (Cons j \<rho>)
    have u: "upath \<rho>" using Cons.prems by (rule upath_Cons)
    note IH = Cons.IH [OF u]
    show ?case
    proof (cases "\<rho> = i # \<pi>")
      case True
      then show ?thesis using IH f(1,5) p(2) nv by simp
    next
      case False
      show ?thesis
      proof (cases "node t \<rho>")
        case None
        then show ?thesis using IH False p(2) by auto
      next
        case (Some m)
        then have "m = n \<longleftrightarrow> \<rho> = \<pi>" using sv_inv_inj [OF inv u up] p(2) by auto
        then show ?thesis using IH False Some f(1-3) f(6) [OF u Some, of j] by auto
      qed
    qed
  qed (simp add: f(4))
qed

lemma sv_new_node_inv:
  assumes inv: "sv_inv t" and p: "upath (i # \<pi>)" "node t \<pi> = Some n" and nv: "\<not> pte_is_valid (sv_mem t n i)"
    and r: "sv_new_node env n i t = Some (e, t')"
  shows "sv_inv t'"
proof -
  obtain f where f: "sv_free t = f # sv_free t'" "pte_ppn e = f" "\<not> pte_is_leaf e" "sv_role t' = sv_role t"
    "\<And>j. sv_mem t' f j = 0" "\<And>\<rho> m j. upath \<rho> \<Longrightarrow> node t \<rho> = Some m \<Longrightarrow>
           m \<noteq> f \<and> sv_mem t' m j = (if m = n \<and> j = i then e else sv_mem t m j)"
    by (rule sv_new_node_mem [OF inv upath_Cons [OF p(1)] p(2) r]) blast
  note nd = sv_new_node_nodes [OF inv p nv r, unfolded f(2)]
  show ?thesis
    unfolding sv_inv_def
  proof (intro conjI allI impI ballI)
    show "sv_role t' = UserOwned" using f(4) sv_inv_free(4) [OF inv] by simp
    show "distinct (sv_free t')" "\<And>g. g \<in> set (sv_free t') \<Longrightarrow> g < 2 ^ 44"
      using sv_inv_free(2,3) [OF inv] f(1) by auto
    show "\<rho> = \<rho>'" if "upath \<rho>" "upath \<rho>'" "node t' \<rho> = Some m" "node t' \<rho>' = Some m" for \<rho> \<rho>' m
      using that nd [OF that(1)] nd [OF that(2)] f(6) [OF that(1), of m] f(6) [OF that(2), of m]
        sv_inv_inj [OF inv that(1,2), of m] by (auto split: if_splits)
    show "m \<notin> set (sv_free t')" if "upath \<rho>" "node t' \<rho> = Some m" for \<rho> m
      using that nd [OF that(1)] sv_inv_free(1) [OF inv that(1), of m] sv_inv_free(2) [OF inv] f(1)
      by (auto split: if_splits)
    show "\<not> pte_is_leaf (sv_mem t' m j)"
      if "upath (j # \<rho>)" "node t' \<rho> = Some m" "pte_is_valid (sv_mem t' m j)" for \<rho> j m
    proof (cases "\<rho> = i # \<pi>")
      case True
      then show ?thesis using that nd [OF p(1)] f(5) by simp
    next
      case False
      have u: "upath \<rho>" using that(1) by (rule upath_Cons)
      then have tm: "node t \<rho> = Some m" using nd [OF u] False that(2) by simp
      show ?thesis
        using f(6) [OF u tm, of j] tm that(3) sv_inv_noleaf [OF inv that(1)] f(3) by auto
    qed
  qed
qed

lemma sv_new_node_view:
  assumes inv: "sv_inv t" and p: "upath (i # \<pi>)" "node t \<pi> = Some n" and nv: "\<not> pte_is_valid (sv_mem t n i)"
    and r: "sv_new_node env n i t = Some (e, t')"
  shows "sv_view t' = sv_view t"
proof
  fix v
  obtain f where f: "pte_ppn e = f" "\<And>j. sv_mem t' f j = 0" "\<And>\<rho> m j. upath \<rho> \<Longrightarrow> node t \<rho> = Some m \<Longrightarrow>
           m \<noteq> f \<and> sv_mem t' m j = (if m = n \<and> j = i then e else sv_mem t m j)"
    by (rule sv_new_node_mem [OF inv upath_Cons [OF p(1)] p(2) r]) blast
  note nd = sv_new_node_nodes [OF inv p nv r, unfolded f(1)]
  show "sv_view t' v = sv_view t v"
  proof (cases "sv_user_vpn v")
    case True
    note u = upath_vpath [OF True]
    have "m \<noteq> n" if "node t (vpath v) = Some m" for m
      using sv_inv_inj [OF inv u upath_Cons [OF p(1)] that] p that by (auto simp: upath_def vpath_def)
    then show ?thesis using nd [OF u] p(2) nv f(2) f(3) [OF u] True
      by (cases "vpath v = i # \<pi>"; cases "node t (vpath v)") (auto simp: sv_view_alt)
  qed (simp add: sv_view_alt)
qed

text \<open>One step of the creating walk, and the walk.\<close>

lemma find_create_step:
  assumes inv: "sv_inv t" and p: "upath (i # \<pi>)" "node t \<pi> = Some n"
  shows "find_create_loop env (i # j # is) n t = (Inl OutOfMemory, t) \<and> node t (i # \<pi>) = None \<or>
    (\<exists>n' t'. find_create_loop env (i # j # is) n t = find_create_loop env (j # is) n' t' \<and>
       sv_inv t' \<and> sv_view t' = sv_view t \<and> node t' (i # \<pi>) = Some n' \<and>
       (node t (i # \<pi>) \<noteq> None \<longrightarrow> t' = t))"
proof (cases "pte_is_valid (sv_mem t n i)")
  case True
  with sv_inv_noleaf [OF inv p True] p(2) inv show ?thesis by simp
next
  case False
  show ?thesis
  proof (cases "sv_new_node env n i t")
    case None
    with False p(2) show ?thesis by simp
  next
    case (Some x)
    then obtain e t' where r: "sv_new_node env n i t = Some (e, t')" by (cases x) auto
    with False p sv_new_node_inv [OF inv p False r] sv_new_node_view [OF inv p False r]
      sv_new_node_nodes [OF inv p False r p(1)]
    show ?thesis by (intro disjI2 exI [of _ "pte_ppn e"] exI [of _ t']) simp
  qed
qed

lemma find_pte_create_user:
  assumes inv: "sv_inv t" and u: "sv_user_vpn v" and r: "find_pte_create env t v = (r, t')"
  shows "sv_inv t' \<and> sv_view t' = sv_view t \<and>
    (r = Inl OutOfMemory \<and> sv_view t v = None \<or> (\<exists>n. r = Inr (n, vslot v) \<and> node t' (vpath v) = Some n))"
proof -
  obtain i0 i1 where p: "vpath v = [i1, i0]" by (simp add: vpath_def)
  have up: "upath (i0 # [])" "upath (i1 # [i0])" using upath_vpath [OF u] p by (auto simp: upath_def)
  have ids: "sv_idxs v = [i0, i1, vslot v]" using sv_idxs_eq [OF user_vpn_small [OF u]] p by simp
  have lp: "find_create_loop env [i0, i1, vslot v] (sv_root_ppn t) t = (r, t')"
    using r user_not_banned [OF inv u] by (simp add: find_pte_create_def ids)
  have none: "sv_view t v = None" if "node t [i1, i0] = None" using that p by (simp add: sv_view_alt)
  from find_create_step [OF inv up(1) node.simps(1), of env i1 "[vslot v]"] show ?thesis
  proof (elim disjE exE conjE)
    assume "find_create_loop env [i0, i1, vslot v] (sv_root_ppn t) t = (Inl OutOfMemory, t)" "node t [i0] = None"
    then show ?thesis using lp inv none by auto
  next
    fix n1 t1
    assume s1: "find_create_loop env [i0, i1, vslot v] (sv_root_ppn t) t = find_create_loop env [i1, vslot v] n1 t1"
      and t1: "sv_inv t1" "sv_view t1 = sv_view t" "node t1 [i0] = Some n1"
    have none1: "sv_view t1 v = None" if "node t1 [i1, i0] = None" using that p by (simp add: sv_view_alt)
    from find_create_step [OF t1(1) up(2) t1(3), of env "vslot v" "[]"] show ?thesis
      using s1 t1 lp none1 p by auto
  qed
qed

section \<open>The laws of the trait\<close>

definition sv_frame_ok :: "ppn \<Rightarrow> bool" where
  "sv_frame_ok p \<longleftrightarrow> p < 2 ^ 44"

lemma length_vpath: "length (vpath v) = 2"
  by (simp add: vpath_def)

lemma map_flags_valid: "bit (map_flags f) 0"
  by (auto simp: map_flags_def Let_def bit_or_iff PTE_V_def)

lemma map_flags_perm: "perm_bits (map_flags f) = perm_bits f"
proof -
  have "perm_bits (f OR g) = perm_bits f" if "g AND 0x1E = 0" for f g :: u8
    using that by (simp add: perm_bits_def bit.conj_disj_distrib2)
  then have e: "perm_bits (f OR 0xC1) = perm_bits f" "perm_bits ((f OR 0xC1) OR 0x20) = perm_bits f" by simp_all
  have "f OR PTE_V OR PTE_A OR PTE_D = f OR 0xC1" by (simp add: pte_flag_defs or.assoc)
  then show ?thesis using e by (simp add: map_flags_def Let_def PTE_G_def)
qed

lemma entry_view_new:
  "p < 2 ^ 44 \<Longrightarrow> entry_view (pte_new p (map_flags perm)) = Some (p, perm_bits perm)"
  by (simp add: entry_view_def pte_valid_flags pte_new_flags pte_new_ppn map_flags_valid map_flags_perm)

lemma sv_try_map_facts:
  assumes inv: "sv_inv t" and u: "sv_user_vpn v" and p: "sv_frame_ok p"
    and r: "sv_try_map_no_flush env t v p perm = (r, t')"
  shows "sv_inv t'"
    and "r = Inr () \<Longrightarrow> sv_view t v = None \<and> sv_view t' = (sv_view t)(v \<mapsto> (p, perm_bits perm))"
    and "r = Inl err \<Longrightarrow> sv_view t' = sv_view t"
    and "sv_view t v \<noteq> None \<Longrightarrow> r = Inl AlreadyMapped"
proof -
  obtain q t1 where q: "find_pte_create env t v = (q, t1)" by fastforce
  from find_pte_create_user [OF inv u q] have t1: "sv_inv t1" "sv_view t1 = sv_view t"
    and cs: "q = Inl OutOfMemory \<and> sv_view t v = None \<or> (\<exists>n. q = Inr (n, vslot v) \<and> node t1 (vpath v) = Some n)"
    by blast+
  have "sv_inv t' \<and> (r = Inr () \<longrightarrow> sv_view t v = None \<and> sv_view t' = (sv_view t)(v \<mapsto> (p, perm_bits perm))) \<and>
    (r \<noteq> Inr () \<longrightarrow> sv_view t' = sv_view t) \<and> (sv_view t v \<noteq> None \<longrightarrow> r = Inl AlreadyMapped)"
    using cs
  proof (elim disjE exE conjE)
    assume "q = Inl OutOfMemory" "sv_view t v = None"
    then show ?thesis using r q t1 by (auto simp: sv_try_map_no_flush_def)
  next
    fix n assume n: "q = Inr (n, vslot v)" "node t1 (vpath v) = Some n"
    have sv: "sv_view t v = entry_view (sv_mem t1 n (vslot v))"
      using n(2) u t1(2) [symmetric] by (simp add: sv_view_alt)
    show ?thesis
    proof (cases "pte_is_valid (sv_mem t1 n (vslot v))")
      case True
      then show ?thesis using r q n t1 by (auto simp: sv_try_map_no_flush_def)
    next
      case False
      then show ?thesis
        using r q n t1 sv sv_write_inv [OF t1(1) upath_vpath [OF u] length_vpath n(2)]
          sv_view_write [OF t1(1) u n(2)] p entry_view_new [of p perm]
        by (auto simp: sv_try_map_no_flush_def entry_view_def sv_frame_ok_def)
    qed
  qed
  then show "sv_inv t'" "r = Inr () \<Longrightarrow> sv_view t v = None \<and> sv_view t' = (sv_view t)(v \<mapsto> (p, perm_bits perm))"
    "r = Inl err \<Longrightarrow> sv_view t' = sv_view t" "sv_view t v \<noteq> None \<Longrightarrow> r = Inl AlreadyMapped"
    by (simp_all only: sum.distinct not_False_eq_True simp_thms)
qed

lemma level_ppn_2: "level_ppn v (e, 2) = pte_ppn e"
proof -
  have "unat w < 2 ^ LENGTH(64)" for w :: u64 by (rule unsigned_less)
  from this [of "drop_bit 10 (e AND PPN_MASK)"] have "pte_ppn e \<le> USIZE_MAX"
    unfolding pte_ppn_def USIZE_MAX_def by simp
  then show ?thesis by (simp add: level_ppn_def unat_u64_small)
qed

lemma sv_lookup:
  assumes "sv_inv t" and "sv_user_vpn v"
  shows "sv_is_mapped t v \<longleftrightarrow> sv_view t v \<noteq> None" and "sv_translate t v = map_option fst (sv_view t v)"
proof -
  show "sv_is_mapped t v \<longleftrightarrow> sv_view t v \<noteq> None"
    using find_pte_refmut_None [OF assms] find_pte_refmut_Some(3) [OF assms]
    by (cases "find_pte_refmut t v")
      (auto simp: sv_is_mapped_def find_pte_def find_pte_with_level_user [OF assms])
  show "sv_translate t v = map_option fst (sv_view t v)"
    using find_pte_refmut_None [OF assms] find_pte_refmut_Some(3,4) [OF assms]
    by (cases "find_pte_refmut t v")
      (auto simp: sv_translate_def find_pte_with_level_user [OF assms] level_ppn_2 entry_view_def)
qed

lemma sv_unmap_facts:
  assumes inv: "sv_inv t" and u: "sv_user_vpn v" and m: "sv_view t v \<noteq> None"
  shows "\<exists>t'. sv_unmap_no_flush t v = Some t' \<and> sv_inv t' \<and> sv_view t' = (sv_view t)(v := None)"
proof -
  obtain n i where r: "find_pte_refmut t v = Some (n, i)"
    using find_pte_refmut_None [OF inv u] m by auto
  note f = find_pte_refmut_Some [OF inv u r]
  from sv_write_inv [OF inv upath_vpath [OF u] length_vpath f(1)] sv_view_write [OF inv u f(1)] f r
  show ?thesis by (simp add: sv_unmap_no_flush_def)
qed

lemma revoke_write_valid: "pte_is_valid (pte_clear PTE_W e) = pte_is_valid e"
  unfolding pte_valid_flags by (auto simp: pte_simps bit_and_iff bit_not_iff PTE_W_def possible_bit_word)

lemma revoke_write_perm: "perm_bits (f AND NOT PTE_W) = flags_difference (perm_bits f) PERM_W"
  unfolding perm_bits_def flags_difference_def PTE_W_def PERM_W_def
  by (rule bit_word_eqI) (auto simp only: bit_and_iff)

lemma sv_block_facts:
  assumes inv: "sv_inv t" and u: "sv_user_vpn v" and r: "sv_block_and_ret_mut_no_flush t v = (old, t')"
  shows "sv_inv t' \<and> old = map_option fst (sv_view t v) \<and>
    sv_view t' = (sv_view t)(v := map_option (\<lambda>(p, perm). (p, flags_difference perm PERM_W)) (sv_view t v))"
proof (cases "find_pte_refmut t v")
  case None
  then show ?thesis using r inv find_pte_refmut_None [OF inv u]
    by (auto simp: sv_block_and_ret_mut_no_flush_def fun_upd_idem)
next
  case (Some x)
  then obtain n i where ni: "find_pte_refmut t v = Some (n, i)" by (cases x) auto
  note f = find_pte_refmut_Some [OF inv u ni]
  have ev: "entry_view (pte_revoke_write (sv_mem t n i)) =
      map_option (\<lambda>(p, perm). (p, flags_difference perm PERM_W)) (entry_view (sv_mem t n i))"
    by (simp add: entry_view_def pte_revoke_write_def pte_simps revoke_write_perm revoke_write_valid)
  from sv_write_inv [OF inv upath_vpath [OF u] length_vpath f(1)] sv_view_write [OF inv u f(1)] f ni r ev
  show ?thesis by (auto simp: sv_block_and_ret_mut_no_flush_def Let_def pte_revoke_write_def pte_simps entry_view_def)
qed

lemma entry_view_set_ppn:
  "pte_is_valid e \<Longrightarrow> p < 2 ^ 44 \<Longrightarrow> entry_view (pte_set_ppn p e) = Some (p, perm_bits (pte_flags e))"
  by (simp add: entry_view_def pte_valid_flags pte_simps)

lemma set_permission_valid: "pte_is_valid e \<Longrightarrow> pte_is_valid (pte_set_permission f e)"
  by (simp add: pte_valid_bit bit_set_permission)

lemma set_dirty_valid: "pte_is_valid e \<Longrightarrow> pte_is_valid (pte_set_dirty e)"
  by (simp add: pte_valid_flags pte_simps bit_or_iff)

lemma clear_dirty_valid: "pte_is_valid e \<Longrightarrow> pte_is_valid (pte_clear_dirty e)"
  unfolding pte_valid_flags pte_clear_dirty_def
  by (auto simp: pte_simps bit_and_iff bit_not_iff PTE_D_def possible_bit_word)

lemma dirty_perm: "perm_bits (f OR PTE_D) = perm_bits f" "perm_bits (f AND NOT PTE_D) = perm_bits f"
  unfolding perm_bits_def PTE_D_def
  by (rule bit_word_eqI, auto simp: bit_simps numeral_eq_Suc less_Suc_eq)+

lemma entry_view_dirty:
  "pte_is_valid e \<Longrightarrow> entry_view (pte_set_dirty e) = entry_view e"
  "pte_is_valid e \<Longrightarrow> entry_view (pte_clear_dirty e) = entry_view e"
  using set_dirty_valid [of e] clear_dirty_valid [of e]
  by (simp_all add: entry_view_def pte_clear_dirty_def pte_simps dirty_perm)

lemma sv39_page_table: "page_table (sv39_ops env) sv_inv sv_user_vpn sv_frame_ok sv_view"
proof (unfold_locales, unfold sv39_ops_def page_table_ops.simps)
  fix t v
  assume t: "sv_inv t" "sv_user_vpn v"
  show "sv_is_mapped t v \<longleftrightarrow> sv_view t v \<noteq> None" "sv_translate t v = map_option fst (sv_view t v)"
    using sv_lookup [OF t] by blast+
  show "\<exists>t'. sv_unmap_no_flush t v = Some t' \<and> sv_inv t' \<and> sv_view t' = (sv_view t)(v := None)"
    if "sv_view t v \<noteq> None" using sv_unmap_facts [OF t that] .
  show "case sv_clear_dirty_bit t v of None \<Rightarrow> sv_view t v = None
    | Some t' \<Rightarrow> sv_view t v \<noteq> None \<and> sv_inv t' \<and> sv_view t' = sv_view t"
    using sv_update_facts [OF t, of pte_clear_dirty, OF clear_dirty_valid]
    by (auto simp: sv_clear_dirty_bit_def entry_view_dirty fun_upd_idem split: option.splits) (simp add: entry_view_def)
  show "case sv_set_dirty_bit_no_flush t v of None \<Rightarrow> sv_view t v = None
    | Some t' \<Rightarrow> sv_view t v \<noteq> None \<and> sv_inv t' \<and> sv_view t' = sv_view t"
    using sv_update_facts [OF t, of pte_set_dirty, OF set_dirty_valid]
    by (auto simp: sv_set_dirty_bit_no_flush_def entry_view_dirty fun_upd_idem split: option.splits) (simp add: entry_view_def)
  fix perm :: MapPermission
  show "case sv_set_pte_flags_no_flush t v perm of None \<Rightarrow> sv_view t v = None
    | Some t' \<Rightarrow> \<exists>q perm0. sv_view t v = Some (q, perm0) \<and> sv_inv t' \<and> sv_view t' = (sv_view t)(v \<mapsto> (q, perm_bits perm))"
    using sv_update_facts [OF t, of "pte_set_permission perm", OF set_permission_valid]
    by (auto simp: sv_set_pte_flags_no_flush_def entry_view_def set_permission_valid pte_simps split: option.splits)
  fix old t'
  show "sv_block_and_ret_mut_no_flush t v = (old, t') \<Longrightarrow>
    sv_inv t' \<and> old = map_option fst (sv_view t v) \<and>
    sv_view t' = (sv_view t)(v := map_option (\<lambda>(p, perm). (p, flags_difference perm PERM_W)) (sv_view t v))"
    by (rule sv_block_facts [OF t])
  fix p
  assume p: "sv_frame_ok p"
  show "case sv_set_ppn_no_flush t v p of None \<Rightarrow> sv_view t v = None
    | Some t' \<Rightarrow> \<exists>q perm. sv_view t v = Some (q, perm) \<and> sv_inv t' \<and> sv_view t' = (sv_view t)(v \<mapsto> (p, perm))"
    using sv_update_facts [OF t, of "pte_set_ppn p"] p
    by (auto simp: sv_set_ppn_no_flush_def entry_view_def pte_valid_flags pte_simps sv_frame_ok_def split: option.splits)
  fix r perm
  show "sv_try_map_no_flush env t v p perm = (r, t') \<Longrightarrow> sv_inv t'"
    by (rule sv_try_map_facts(1) [OF t p])
  show "sv_try_map_no_flush env t v p perm = (Inr (), t') \<Longrightarrow>
    sv_view t v = None \<and> sv_view t' = (sv_view t)(v \<mapsto> (p, perm_bits perm))"
    by (rule sv_try_map_facts(2) [OF t p _ refl])
  show "sv_try_map_no_flush env t v p perm = (Inl e, t') \<Longrightarrow> sv_view t' = sv_view t" for e
    by (rule sv_try_map_facts(3) [OF t p _ refl])
  show "fst (sv_try_map_no_flush env t v p perm) = Inl AlreadyMapped" if "sv_view t v \<noteq> None"
    using sv_try_map_facts(4) [OF t p _ that, of env perm] by (cases "sv_try_map_no_flush env t v p perm") simp
qed

text \<open>A new user table is well formed and maps nothing.\<close>

lemma new_user_space_facts:
  assumes "distinct free" and "\<forall>f \<in> set free. f < 2 ^ 44" and "new_user_space mem free token = Some t"
  shows "sv_inv t" and "sv_view t = (\<lambda>_. None)"
proof -
  obtain f fs where fr: "free = f # fs"
    using assms(3) by (cases free) (auto simp: new_user_space_def sv_new_def)
  from assms(3) have f: "free = f # fs" "sv_root_ppn t = f" "sv_role t = UserOwned" "sv_free t = fs"
    "\<And>i. \<not> (256 \<le> i \<and> i < 511) \<Longrightarrow> sv_mem t f i = 0"
    by (auto simp: fr new_user_space_def sv_new_def Let_def SHARED_KERNEL_ROOT_START_def SHARED_KERNEL_ROOT_END_def)
  have n1: "node t [i] = None" if "upath [i]" for i using that f(2) f(5) [of i] by (auto simp: upath_def)
  have nd: "node t \<pi> = (if \<pi> = [] then Some f else None)" if "upath \<pi>" for \<pi>
  proof (cases \<pi>)
    case (Cons i \<rho>)
    then show ?thesis using that n1 by (cases \<rho>) (auto simp: upath_def)
  qed (simp add: f)
  show "sv_inv t"
    using assms(1,2) f nd upath_Cons unfolding sv_inv_def
    by (auto simp: upath_def split: if_splits)
  show "sv_view t = (\<lambda>_. None)"
    using nd [OF upath_vpath] by (auto simp: sv_view_alt vpath_def)
qed

end
