(* ===== verification/Sv39Props.thy ===== *)
theory Sv39Props
  imports Sv39
begin

text \<open>
  What a client of the Sv39 page table sees: a map followed by a translation, the frame
  condition for the other pages, and when a map can fail.
\<close>

lemma find_create_room:
  assumes inv: "sv_inv t" and p: "upath (i # \<pi>)" "node t \<pi> = Some n"
    and room: "\<forall>k. env_reserve env k" "k < length (sv_free t)"
  obtains n' t' where "find_create_loop env (i # j # is) n t = find_create_loop env (j # is) n' t'"
    and "sv_inv t'" and "node t' (i # \<pi>) = Some n'" and "k \<le> length (sv_free t')"
proof (cases "pte_is_valid (sv_mem t n i)")
  case True
  with sv_inv_noleaf [OF inv p True] p(2) inv show thesis using room(2) by (intro that [of "pte_ppn (sv_mem t n i)" t]) simp_all
next
  case False
  from room obtain e t' where r: "sv_new_node env n i t = Some (e, t')"
    by (cases "sv_free t") (auto simp: sv_new_node_def Let_def)
  obtain f where "sv_free t = f # sv_free t'"
    by (rule sv_new_node_mem [OF inv upath_Cons [OF p(1)] p(2) r]) blast
  with False p sv_new_node_inv [OF inv p False r] sv_new_node_nodes [OF inv p False r p(1)] room(2) r
  show thesis by (intro that [of "pte_ppn e" t']) simp_all
qed

lemma find_pte_create_room:
  assumes inv: "sv_inv t" and u: "sv_user_vpn v" and room: "\<forall>k. env_reserve env k" "2 \<le> length (sv_free t)"
  shows "fst (find_pte_create env t v) \<noteq> Inl OutOfMemory"
proof -
  obtain i0 i1 where p: "vpath v = [i1, i0]" by (simp add: vpath_def)
  have up: "upath (i0 # [])" "upath (i1 # [i0])" using upath_vpath [OF u] p by (auto simp: upath_def)
  have ids: "sv_idxs v = [i0, i1, vslot v]" using sv_idxs_eq [OF user_vpn_small [OF u]] p by simp
  have fr: "1 < length (sv_free t)" using room(2) by simp
  obtain n1 t1 where s1: "find_create_loop env [i0, i1, vslot v] (sv_root_ppn t) t = find_create_loop env [i1, vslot v] n1 t1"
    "sv_inv t1" "node t1 [i0] = Some n1" "1 \<le> length (sv_free t1)"
    by (rule find_create_room [OF inv up(1) node.simps(1) room(1) fr, of i1 "[vslot v]"])
  have fr1: "0 < length (sv_free t1)" using s1(4) by linarith
  obtain n2 t2 where "find_create_loop env [i1, vslot v] n1 t1 = find_create_loop env [vslot v] n2 t2"
    by (rule find_create_room [OF s1(2) up(2) s1(3) room(1) fr1, of "vslot v" "[]"])
  then show ?thesis using s1(1) user_not_banned [OF inv u] by (simp add: find_pte_create_def ids)
qed

lemma sv_try_map_room:
  assumes inv: "sv_inv t" and u: "sv_user_vpn v" and v: "sv_view t v = None"
    and room: "\<forall>k. env_reserve env k" "2 \<le> length (sv_free t)"
  obtains t' where "sv_try_map_no_flush env t v p perm = (Inr (), t')"
proof -
  obtain q t1 where q: "find_pte_create env t v = (q, t1)" by fastforce
  from find_pte_create_user [OF inv u q] find_pte_create_room [OF inv u room] q
  obtain n where n: "sv_inv t1" "sv_view t1 = sv_view t" "q = Inr (n, vslot v)" "node t1 (vpath v) = Some n" by auto
  have "entry_view (sv_mem t1 n (vslot v)) = None"
    using n(4) u v n(2) [symmetric] by (simp add: sv_view_alt)
  then have "\<not> pte_is_valid (sv_mem t1 n (vslot v))" by (simp add: entry_view_def split: if_splits)
  then show thesis using q n(3) that by (simp add: sv_try_map_no_flush_def)
qed

text \<open>
  C7. On a well-formed user table, mapping a user page that has no translation succeeds as soon
  as two frames for tables are left; the page then translates to the frame and every other user
  page as before, mapping it again is refused with AlreadyMapped, and unmapping it gives
  back the translations of before.
\<close>

theorem sv39_map_translate_unmap:
  assumes "sv_inv t" and "sv_user_vpn v" and "p < 2 ^ 44" and "sv_translate t v = None"
    and "\<forall>k. env_reserve env k" and "2 \<le> length (sv_free t)"
  shows "\<exists>t'. sv_try_map_no_flush env t v p perm = (Inr (), t') \<and> sv_inv t' \<and>
    (\<forall>w. sv_user_vpn w \<longrightarrow> sv_translate t' w = (if w = v then Some p else sv_translate t w)) \<and>
    (\<forall>perm'. fst (sv_try_map_no_flush env t' v p perm') = Inl AlreadyMapped) \<and>
    (\<exists>t''. sv_unmap_no_flush t' v = Some t'' \<and> sv_inv t'' \<and>
       (\<forall>w. sv_user_vpn w \<longrightarrow> sv_translate t'' w = sv_translate t w))"
proof -
  have v: "sv_view t v = None" using sv_lookup [OF assms(1,2)] assms(4) by simp
  have p: "sv_frame_ok p" using assms(3) by (simp add: sv_frame_ok_def)
  obtain t' where r: "sv_try_map_no_flush env t v p perm = (Inr (), t')"
    by (rule sv_try_map_room [OF assms(1,2) v assms(5,6)])
  note f = sv_try_map_facts(1,2) [OF assms(1,2) p r, simplified]
  have m: "sv_view t' v \<noteq> None" using f(2) by simp
  from sv_unmap_facts [OF f(1) assms(2) m] obtain t'' where
    t'': "sv_unmap_no_flush t' v = Some t''" "sv_inv t''" "sv_view t'' = (sv_view t')(v := None)" by blast
  have "fst (sv_try_map_no_flush env t' v p perm') = Inl AlreadyMapped" for perm'
    using sv_try_map_facts(4) [OF f(1) assms(2) p _ m, of env perm']
    by (cases "sv_try_map_no_flush env t' v p perm'") simp
  moreover have "sv_translate t' w = (if w = v then Some p else sv_translate t w)"
    "sv_translate t'' w = sv_translate t w" if "sv_user_vpn w" for w
    using sv_lookup(2) [OF assms(1) that] sv_lookup(2) [OF f(1) that] sv_lookup(2) [OF t''(2) that] f(2) t''(3) v
    by auto
  ultimately show ?thesis using r f(1) t''(1,2) by blast
qed

text \<open>A small machine: the answers of the environment and a fresh user table.\<close>

definition sample_env :: mm_env where
  "sample_env = \<lparr>env_refs = (\<lambda>_. 1), env_reserve = (\<lambda>_. True), env_zram_write = (\<lambda>_. None),
     env_zram_read = (\<lambda>_ _. False), env_swap_write = (\<lambda>_. Inl OutOfMemory), env_swap_read = (\<lambda>_ _. Inl OutOfMemory),
     env_cpu_id = 0, env_fresh_map_no_flush = False, env_max_map_count = 65530,
     env_page_cache = (\<lambda>_. False), env_cached_page = (\<lambda>_ _. False)\<rparr>"

definition sample_table :: Sv39PageTable where
  "sample_table = the (new_user_space (\<lambda>_ _. 0) [10, 11, 12, 13] 0)"

lemma sample_table_facts:
  "sv_inv sample_table" "sv_view sample_table = (\<lambda>_. None)" "sv_free sample_table = [11, 12, 13]"
proof -
  have n: "new_user_space (\<lambda>_ _. 0) [10, 11, 12, 13] 0 = Some sample_table"
    by (simp add: sample_table_def new_user_space_def sv_new_def)
  have f: "distinct [10, 11, 12, 13 :: ppn]" "\<forall>f \<in> set [10, 11, 12, 13 :: ppn]. f < 2 ^ 44" by simp_all
  show "sv_inv sample_table" "sv_view sample_table = (\<lambda>_. None)" by (rule new_user_space_facts [OF f n])+
  show "sv_free sample_table = [11, 12, 13]"
    by (simp add: sample_table_def new_user_space_def sv_new_def Let_def)
qed

theorem sv39_map_translate_unmap_witness:
  "\<exists>t'. sv_try_map_no_flush sample_env sample_table 131072 50 PERM_U = (Inr (), t') \<and>
     sv_translate t' 131072 = Some 50 \<and> sv_translate t' 131073 = None \<and>
     (\<exists>t''. sv_unmap_no_flush t' 131072 = Some t'' \<and> sv_translate t'' 131072 = None)"
proof -
  have u: "sv_user_vpn 131072" "sv_user_vpn 131073" by (simp_all add: sv_user_vpn_def)
  have tr: "sv_translate sample_table 131072 = None" "sv_translate sample_table 131073 = None"
    using sv_lookup(2) [OF sample_table_facts(1)] u by (simp_all add: sample_table_facts(2))
  show ?thesis
    using sv39_map_translate_unmap [OF sample_table_facts(1) u(1) _ tr(1), of 50 sample_env PERM_U] u tr
    by (auto simp: sample_env_def sample_table_facts(3))
qed

end
