(* ===== verification/AddressSpace.thy ===== *)
theory AddressSpace
  imports Brk Sv39Props
begin

text \<open>
  The contract of the set of areas over its abstract view, page by page: lookup, insertion and
  splitting; and munmap over the Sv39 page table.
\<close>

section \<open>An address space with one area and one resident page\<close>

definition sample_area :: Vma where
  "sample_area = \<lparr>vma_inner = \<lparr>st_range = (131072, 131076), st_frames = [(131072, InMemory 50)],
       st_active = [131072], st_compressed = 0, st_swapped = 0\<rparr>,
     vma_map_perm = 22, vma_map_file = None, vma_elf_lazy = None, vma_map_file_offset = 0,
     vma_may_write = True, vma_write_sealed = False, vma_flags = 34, vma_wipe_on_fork = False,
     vma_dont_fork = False, vma_fork_inherited = False, vma_user_address_space = None\<rparr>"

lemma sample_area_wf: "vma_wf sample_area"
  by (simp add: vma_wf_def store_wf_def sample_area_def vm_start_def vm_end_def st_start_def st_end_def
      bt_wf_def MAX_VPN_def count_compressed_def count_swapped_def)

lemma sample_area_range: "vm_start sample_area = 131072" "vm_end sample_area = 131076" "vm_is_user sample_area"
  by (simp_all add: sample_area_def vm_start_def vm_end_def st_start_def st_end_def vm_is_user_def flags_contains_def PERM_U_def)

definition sample_vs :: VmaSet where
  "sample_vs = snd (insert_vma sample_env vs_new sample_area)"

lemma sample_insert: "insert_vma sample_env vs_new sample_area = (Inr (), sample_vs)"
proof -
  have "fst (insert_vma sample_env vs_new sample_area) = Inr ()"
    using insert_vma_ok_iff [OF vs_new_inv sample_area_wf, of sample_env]
    by (simp add: vs_new_def USIZE_MAX_def sample_env_def saturating_add_def vma_pages_def)
  then show ?thesis unfolding sample_vs_def by (metis prod.collapse)
qed

lemma adopt_sample: "vs_owner vs = None \<Longrightarrow> adopt vs sample_area = sample_area" "rmap_from_vma sample_area = None"
  by (simp_all add: adopt_def sample_area_def rmap_from_vma_def)

lemma sample_vs_facts:
  "vs_inv sample_vs" "vma_pages (vs_vmas sample_vs) = {131072..<131076}"
  "page_view (vs_vmas sample_vs) = (\<lambda>p. if 131072 \<le> p \<and> p < 131076 then Some (area_view sample_area p) else None)"
  "vs_vmas sample_vs = [(131072, sample_area)]"
  "vs_user_area_count sample_vs = 1"
proof -
  have sv: "sample_vs = (reserve_mmap_range vs_new 131072 131076)\<lparr>vs_vmas := [(131072, sample_area)],
      vs_user_area_count := 1, vs_user_page_count := area_page_count sample_area\<rparr>"
    using sample_insert
    by (auto simp: insert_vma_def sample_area_range put_vma_def adopt_sample vs_new_def Let_def split: if_splits sum.splits)
  have e: "page_view (vs_vmas vs_new) p = None" for p by (simp add: vs_new_def page_view_def)
  note f = insert_vma_facts [OF vs_new_inv sample_area_wf sample_insert]
  show "vs_inv sample_vs" using f by blast
  show pv: "page_view (vs_vmas sample_vs) = (\<lambda>p. if 131072 \<le> p \<and> p < 131076 then Some (area_view sample_area p) else None)"
    using f by (simp add: e area_pages_def sample_area_range cong: if_cong)
  show "vma_pages (vs_vmas sample_vs) = {131072..<131076}"
    unfolding vma_pages_view pv by auto
  show "vs_vmas sample_vs = [(131072, sample_area)]" "vs_user_area_count sample_vs = 1"
    unfolding sv by (simp_all add: vs_new_def bt_get_def)
qed

section \<open>The contract of the set of areas\<close>

text \<open>
  C21. Looking up a page in a well-formed set finds the one area that contains it, whose attributes
  are those of the page, and finds nothing exactly for the pages outside every area; and
  the overlap test of a non-empty range is true exactly when some page of the range is mapped.
\<close>

theorem lookup_spec:
  assumes "vs_inv vs"
  shows "(case find_vma_key vs v of
      None \<Rightarrow> page_view (vs_vmas vs) v = None
    | Some k \<Rightarrow> (\<exists>a. bt_get (vs_vmas vs) k = Some a \<and> vm_start a \<le> v \<and> v < vm_end a \<and>
        page_view (vs_vmas vs) v = Some (area_view a v))) \<and>
    (s < e \<longrightarrow> (has_overlap vs s e \<longleftrightarrow> (\<exists>p. s \<le> p \<and> p < e \<and> page_view (vs_vmas vs) p \<noteq> None)))"
proof (intro conjI impI)
  have wf: "areas_wf (vs_vmas vs)" using assms by (simp add: vs_inv_def)
  show "case find_vma_key vs v of
      None \<Rightarrow> page_view (vs_vmas vs) v = None
    | Some k \<Rightarrow> (\<exists>a. bt_get (vs_vmas vs) k = Some a \<and> vm_start a \<le> v \<and> v < vm_end a \<and>
        page_view (vs_vmas vs) v = Some (area_view a v))"
  proof (cases "find_vma_key vs v")
    case None
    then show ?thesis using find_vma_key_view [OF wf, of v] by simp
  next
    case (Some k)
    from find_vma_key_Some [OF wf Some] obtain a where "bt_get (vs_vmas vs) k = Some a" "v \<in> area_pages a" by blast
    then show ?thesis using Some find_vma_key_view [OF wf, of v] by (simp add: area_pages_def)
  qed
  assume "s < e"
  then show "has_overlap vs s e \<longleftrightarrow> (\<exists>p. s \<le> p \<and> p < e \<and> page_view (vs_vmas vs) p \<noteq> None)"
    unfolding has_overlap_iff [OF wf \<open>s < e\<close>] vma_pages_view by (simp add: disjoint_iff) blast
qed

theorem lookup_spec_witness:
  "find_vma_key sample_vs 131074 = Some 131072 \<and> find_vma_key sample_vs 131076 = None \<and>
   has_overlap sample_vs 131075 131080 \<and> \<not> has_overlap sample_vs 131076 131080"
proof -
  note l = lookup_spec [OF sample_vs_facts(1)]
  have "bt_get (vs_vmas sample_vs) k = Some a \<Longrightarrow> k = 131072" for k a
    unfolding sample_vs_facts(4) by (simp add: bt_get_def split: if_splits)
  then have "find_vma_key sample_vs 131074 = Some 131072"
    using l [of 131074 0 0] by (auto simp: sample_vs_facts(3) split: option.splits)
  moreover have "find_vma_key sample_vs 131076 = None"
    using l [of 131076 0 0] by (auto simp: sample_vs_facts(3) split: option.splits)
  moreover have "has_overlap sample_vs 131075 131080 \<and> \<not> has_overlap sample_vs 131076 131080"
    using l [of 0 131075 131080] l [of 0 131076 131080] unfolding sample_vs_facts(3)
    by (simp split: if_splits) (rule exI [of _ 131075], simp)
  ultimately show ?thesis by blast
qed

text \<open>
  C17. Inserting an area succeeds exactly when its pages are free and the limit on areas allows one
  more. Then the invariant of the set holds again, the pages of the area have its attributes and
  all other pages are as before. Otherwise nothing changes, and the error is EINVAL for an
  overlap and ENOMEM for the limit.
\<close>

theorem insert_vma_spec:
  assumes "vs_inv vs" and "vma_wf a"
  shows "case insert_vma env vs a of
      (Inr _, vs') \<Rightarrow> area_pages a \<inter> vma_pages (vs_vmas vs) = {} \<and> map_room env vs 1 \<and> vs_inv vs' \<and>
        (\<forall>p. page_view (vs_vmas vs') p =
           (if vm_start a \<le> p \<and> p < vm_end a then Some (area_view a p) else page_view (vs_vmas vs) p))
    | (Inl err, vs') \<Rightarrow> vs' = vs \<and>
        (if area_pages a \<inter> vma_pages (vs_vmas vs) \<noteq> {} then err = EINVAL else err = ENOMEM \<and> \<not> map_room env vs 1)"
proof -
  have lt: "vm_start a < vm_end a" using assms(2) by (simp add: vma_wf_def)
  have aw: "areas_wf (vs_vmas vs)" using assms(1) by (simp add: vs_inv_def)
  have ov: "has_overlap vs (vm_start a) (vm_end a) \<longleftrightarrow> area_pages a \<inter> vma_pages (vs_vmas vs) \<noteq> {}"
    using has_overlap_iff [OF aw lt] by (auto simp: area_pages_def)
  obtain r vs' where r: "insert_vma env vs a = (r, vs')" by fastforce
  show ?thesis
  proof (cases r)
    case (Inl err)
    with r insert_vma_error [of env vs a err vs'] lt ov show ?thesis
      by (auto simp: insert_vma_def Let_def ensure_can_add_eq split: if_splits)
  next
    case (Inr x)
    have room: "map_room env vs 1"
      using r Inr by (auto simp: insert_vma_def Let_def ensure_can_add_eq split: if_splits)
    have "insert_vma env vs a = (Inr (), vs')" using r Inr by simp
    from insert_vma_facts [OF assms this] room show ?thesis unfolding r Inr by (simp add: area_pages_def)
  qed
qed

theorem insert_vma_spec_witness:
  "insert_vma sample_env vs_new sample_area = (Inr (), sample_vs) \<and>
   page_view (vs_vmas sample_vs) 131073 = Some (area_view sample_area 131073) \<and>
   insert_vma sample_env sample_vs sample_area = (Inl EINVAL, sample_vs)"
proof -
  have "page_view (vs_vmas sample_vs) 131073 = Some (area_view sample_area 131073)"
    using insert_vma_spec [OF vs_new_inv sample_area_wf, of sample_env] unfolding sample_insert
    by (simp add: sample_area_range)
  moreover have "insert_vma sample_env sample_vs sample_area = (Inl EINVAL, sample_vs)"
    using insert_vma_spec [OF sample_vs_facts(1) sample_area_wf, of sample_env]
    by (auto simp: sample_vs_facts(2) area_pages_def sample_area_range split: prod.splits sum.splits if_splits)
  ultimately show ?thesis using sample_insert by blast
qed

section \<open>munmap over the Sv39 page table\<close>

abbreviation sv_mm_ok :: "VmaSet \<Rightarrow> Sv39PageTable UserMapper \<Rightarrow> bool" where
  "sv_mm_ok \<equiv> mm_ok sv_inv sv_user_vpn sv_view"

interpretation sv39: page_table "sv39_ops env" sv_inv sv_user_vpn sv_frame_ok sv_view
  by (rule sv39_page_table)

text \<open>
  C3. On a consistent address space, unmap_range always returns. When it succeeds, exactly the mapped
  pages of the range are gone from the areas and from the page table, every frame that was
  mapped there is queued for release and every such page is in the range to flush; all other
  pages, areas and translations are untouched. It fails only when the range holds a page that is
  not a user page (EINVAL), when splitting would exceed the limit on areas (ENOMEM), or when
  nothing is mapped and that was not allowed (EINVAL); then the pages already removed were
  removed completely. In every case the address space is consistent again.
\<close>

theorem unmap_range_sv39:
  assumes ok: "sv_mm_ok vs m" and res: "\<forall>n. env_reserve env n" and se: "s < e"
  shows "\<exists>r vs' m' R. unmap_range env (sv39_ops env) vs m s e allow_empty = Some (r, vs', m') \<and>
    sv_mm_ok vs' m' \<and> R \<subseteq> vma_pages (vs_vmas vs) \<inter> {s..<e} \<and>
    unmapped (sv_view (um_page_table m)) (um_gather m) vs R (sv_view (um_page_table m')) (um_gather m') vs' \<and>
    (case r of
       Inr found \<Rightarrow> R = vma_pages (vs_vmas vs) \<inter> {s..<e} \<and> found = (R \<noteq> {}) \<and> (found \<or> allow_empty)
     | Inl err \<Rightarrow> unmap_failed env vs s e err \<or>
         err = EINVAL \<and> \<not> allow_empty \<and> vma_pages (vs_vmas vs) \<inter> {s..<e} = {})"
  by (rule sv39.unmap_range_facts [OF assms])

definition sample_mapper :: "Sv39PageTable UserMapper" where
  "sample_mapper = \<lparr>um_page_table = snd (sv_try_map_no_flush sample_env sample_table 131072 50 22),
     um_gather = gather_new, um_free_frames = [60, 61, 62], um_mem = (\<lambda>_ _. 0), um_cache_calls = []\<rparr>"

lemma sample_mapper_facts:
  "sv_inv (um_page_table sample_mapper)"
  "sv_view (um_page_table sample_mapper) = (\<lambda>_. None)(131072 \<mapsto> (50, 22))"
proof -
  have u: "sv_user_vpn 131072" by (simp add: sv_user_vpn_def)
  have p: "sv_frame_ok 50" by (simp add: sv_frame_ok_def)
  have room: "\<forall>k. env_reserve sample_env k" "2 \<le> length (sv_free sample_table)"
    by (simp_all add: sample_env_def sample_table_facts)
  obtain t where t: "sv_try_map_no_flush sample_env sample_table 131072 50 22 = (Inr (), t)"
    by (rule sv_try_map_room [OF sample_table_facts(1) u _ room]) (simp add: sample_table_facts(2))
  note f = sv_try_map_facts(1,2) [OF sample_table_facts(1) u p t]
  show "sv_inv (um_page_table sample_mapper)"
    "sv_view (um_page_table sample_mapper) = (\<lambda>_. None)(131072 \<mapsto> (50, 22))"
    using f by (simp_all add: sample_mapper_def t sample_table_facts(2) perm_bits_def)
qed

lemma sample_mm_ok: "sv_mm_ok sample_vs sample_mapper"
proof -
  have "page_frame (vma_inner sample_area) 131072 = InMemory 50" "vma_map_perm sample_area = 22"
    by (simp_all add: sample_area_def page_frame_def bt_get_def)
  then have "mm_consistent (sv_view (um_page_table sample_mapper)) (vs_vmas sample_vs)"
    unfolding mm_consistent_def sample_mapper_facts sample_vs_facts(3)
    by (auto simp: area_view_def flags_contains_def split: if_splits)
  moreover have "\<forall>v \<in> vma_pages (vs_vmas sample_vs). sv_user_vpn v"
    unfolding sample_vs_facts(2) by (auto simp: sv_user_vpn_def)
  ultimately show ?thesis using sample_vs_facts(1) sample_mapper_facts(1) by (simp add: mm_ok_def)
qed

lemma sample_perm: "page_view (vs_vmas sample_vs) v = Some x \<Longrightarrow> pa_perm x = 22"
  unfolding sample_vs_facts(3) by (auto simp: area_view_def sample_area_def split: if_splits)

lemma sample_not_failed: "\<not> unmap_failed sample_env sample_vs s e err"
  using sample_perm
  by (auto simp: unmap_failed_def map_room_def sample_vs_facts(5) sample_env_def saturating_add_def
      USIZE_MAX_def flags_contains_def PERM_U_def)

theorem unmap_range_sv39_witness:
  "\<exists>vs' m'. unmap_range sample_env (sv39_ops sample_env) sample_vs sample_mapper 131072 131074 False =
       Some (Inr True, vs', m') \<and>
     vma_pages (vs_vmas vs') = {131074..<131076} \<and> sv_view (um_page_table m') 131072 = None \<and>
     mset (mg_retired (um_gather m')) = {#50#} \<and> covers_vpn (mg_range (um_gather m')) 131072"
proof -
  have res: "\<forall>n. env_reserve sample_env n" by (simp add: sample_env_def)
  have I: "vma_pages (vs_vmas sample_vs) \<inter> {131072..<131074} = {131072, 131073}"
    unfolding sample_vs_facts(2) by auto
  have lt: "(131072::vpn) < 131074" by simp
  from unmap_range_sv39 [OF sample_mm_ok res lt, of False] obtain r vs' m' R
    where u: "unmap_range sample_env (sv39_ops sample_env) sample_vs sample_mapper 131072 131074 False = Some (r, vs', m')"
    and un: "unmapped (sv_view (um_page_table sample_mapper)) (um_gather sample_mapper) sample_vs R
      (sv_view (um_page_table m')) (um_gather m') vs'"
    and c: "case r of Inr found \<Rightarrow> R = {131072, 131073} \<and> found = (R \<noteq> {}) \<and> (found \<or> False)
      | Inl err \<Rightarrow> unmap_failed sample_env sample_vs 131072 131074 err \<or>
          err = EINVAL \<and> \<not> False \<and> {131072, 131073::vpn} = {}"
    unfolding I by blast
  have r: "r = Inr True" "R = {131072, 131073}" using c sample_not_failed by (simp_all split: sum.splits)
  have "{v \<in> R. sv_view (um_page_table sample_mapper) v \<noteq> None} = {131072}"
    unfolding r sample_mapper_facts by auto
  then have "mset (mg_retired (um_gather m')) = {#50#} \<and> covers_vpn (mg_range (um_gather m')) 131072 \<and>
      sv_view (um_page_table m') 131072 = None"
    using un unfolding unmapped_def removed_def r(2)
    by (simp add: sample_mapper_facts(2)) (simp add: sample_mapper_def gather_new_def)
  moreover have "vma_pages (vs_vmas vs') = {131074..<131076}"
  proof -
    have "{a..<a + 4} - {a, a + 1} = {a + 2..<a + 4}" for a :: nat by auto
    from this [of 131072] show ?thesis using unmapped_pages [OF un] unfolding sample_vs_facts(2) r(2) by simp
  qed
  ultimately show ?thesis using u r by blast
qed

section \<open>mprotect and madvise over the Sv39 page table\<close>

text \<open>
  C4. On a consistent address space and for a permission that includes user access, protect_range
  always returns. It changes nothing when some page of the range is not a user page or may not
  get write access (ENOMEM, EPERM or EACCES). Otherwise it gives the pages of the range the
  new permission, page by page from the start: all of them when it succeeds, and a prefix
  when splitting an area would exceed the limit on areas (ENOMEM). Every translation of a
  protected page keeps its frame, loses write access, never grants more than the new
  permission, and is in the range to flush; other pages and translations are untouched.
\<close>

theorem protect_range_sv39:
  assumes ok: "sv_mm_ok vs m" and prot: "flags_contains prot PERM_U" and se: "s \<le> e"
  shows "\<exists>r vs' m' d. protect_range env (sv39_ops env) vs m s e prot = Some (r, vs', m') \<and>
    sv_mm_ok vs' m' \<and> s \<le> d \<and> d \<le> e \<and>
    protected (sv_view (um_page_table m)) (um_gather m) vs {s..<d} prot
      (sv_view (um_page_table m')) (um_gather m') vs' \<and>
    (case r of
       Inr _ \<Rightarrow> d = e \<and> (\<forall>v. s \<le> v \<and> v < e \<longrightarrow>
         user_page vs v \<and> may_protect prot (the (page_view (vs_vmas vs) v)))
     | Inl err \<Rightarrow> (d = s \<and> vs' = vs \<and> m' = m \<and> protect_refused vs prot {s..<e} err) \<or>
         (err = ENOMEM \<and> \<not> map_room env vs (cut vs s + 1)))"
  by (rule sv39.protect_range_facts [OF assms])

theorem protect_range_sv39_witness:
  "\<exists>vs' m'. protect_range sample_env (sv39_ops sample_env) sample_vs sample_mapper 131072 131074 18 = Some (Inr (), vs', m') \<and>
     map_option pa_perm (page_view (vs_vmas vs') 131073) = Some 18 \<and>
     map_option pa_perm (page_view (vs_vmas vs') 131074) = Some 22 \<and>
     sv_view (um_page_table m') 131072 = Some (50, 18) \<and> covers_vpn (mg_range (um_gather m')) 131072"
proof -
  have U: "flags_contains 18 PERM_U" by (simp add: flags_contains_def PERM_U_def)
  have lt: "(131072::vpn) \<le> 131074" by simp
  from protect_range_sv39 [OF sample_mm_ok U lt, of sample_env] obtain r vs' m' d where
    p: "protect_range sample_env (sv39_ops sample_env) sample_vs sample_mapper 131072 131074 18 = Some (r, vs', m')"
    and pr: "protected (sv_view (um_page_table sample_mapper)) (um_gather sample_mapper) sample_vs {131072..<d} 18
      (sv_view (um_page_table m')) (um_gather m') vs'"
    and c: "case r of
       Inr _ \<Rightarrow> d = 131074 \<and> (\<forall>v. 131072 \<le> v \<and> v < 131074 \<longrightarrow>
         user_page sample_vs v \<and> may_protect 18 (the (page_view (vs_vmas sample_vs) v)))
     | Inl err \<Rightarrow> (d = 131072 \<and> vs' = sample_vs \<and> m' = sample_mapper \<and> protect_refused sample_vs 18 {131072..<131074} err) \<or>
         (err = ENOMEM \<and> \<not> map_room sample_env sample_vs (cut sample_vs 131072 + 1))" by blast
  have up: "user_page sample_vs v" if "v \<in> {131072..<131074}" for v
    using that sample_perm [of v] unfolding user_page_def sample_vs_facts(3)
    by (simp add: area_view_def sample_area_def flags_contains_def PERM_U_def)
  have nW: "\<not> flags_contains 18 PERM_W" by (simp add: flags_contains_def PERM_W_def)
  have "\<not> protect_refused sample_vs 18 {131072..<131074} err" for err
    using up nW unfolding protect_refused_def may_protect_def by blast
  moreover have "map_room sample_env sample_vs (cut sample_vs 131072 + 1)"
    by (simp add: map_room_def sample_vs_facts(5) sample_env_def saturating_add_def USIZE_MAX_def cut_def)
  ultimately have d: "r = Inr ()" "d = 131074" using c by (simp_all split: sum.splits)
  have "map_option pa_perm (page_view (vs_vmas vs') 131073) = Some 18"
    "map_option pa_perm (page_view (vs_vmas vs') 131074) = Some 22"
    using pr unfolding d(2) protected_def
    by (simp_all add: sample_vs_facts(3)) (simp add: area_view_def sample_area_def)
  moreover have "sv_view (um_page_table m') 131072 = Some (50, 18) \<and> covers_vpn (mg_range (um_gather m')) 131072"
    using pr unfolding d(2) protected_def regranted_def
    by (simp add: sample_mapper_facts(2) flags_difference_def perm_bits_def PERM_W_def)
  ultimately show ?thesis using p d by blast
qed

text \<open>
  C5. On a consistent address space, advise_range always returns. It works page by page from the start and
  stops at the first page that is not a user page, does not accept the advice, or whose area
  cannot be split; every page before it is a user page and has exactly the effect of the
  advice. For MADV_DONTNEED the private anonymous pages lose their frame and their translation,
  each frame that was mapped is queued for release and the page is in the range to flush; the
  fork advices set one attribute; all other pages are untouched.
\<close>

theorem advise_range_sv39:
  assumes ok: "sv_mm_ok vs m" and res: "\<forall>n. env_reserve env n" and se: "s \<le> e"
  shows "\<exists>r vs' m' d. advise_range env (sv39_ops env) advice e vs m s = Some (r, vs', m') \<and>
    sv_mm_ok vs' m' \<and> s \<le> d \<and> d \<le> e \<and> (\<forall>v. s \<le> v \<and> v < d \<longrightarrow> user_page vs v) \<and>
    advised (sv_view (um_page_table m)) (um_gather m) vs {s..<d} advice
      (sv_view (um_page_table m')) (um_gather m') vs' \<and>
    (case r of Inr _ \<Rightarrow> d = e | Inl err \<Rightarrow> d < e \<and> advise_refused env advice vs' {d} err)"
  by (rule sv39.advise_range_ok [OF assms])

theorem advise_range_sv39_witness:
  "\<exists>vs' m'. advise_range sample_env (sv39_ops sample_env) MADV_DONTNEED 131073 sample_vs sample_mapper 131072 =
       Some (Inr (), vs', m') \<and>
     map_option pa_frame (page_view (vs_vmas vs') 131072) = Some Unallocated \<and>
     sv_view (um_page_table m') 131072 = None \<and> mset (mg_retired (um_gather m')) = {#50#}"
proof -
  have res: "\<forall>n. env_reserve sample_env n" by (simp add: sample_env_def)
  have lt: "(131072::vpn) \<le> 131073" by simp
  from advise_range_sv39 [OF sample_mm_ok res lt, of MADV_DONTNEED] obtain r vs' m' d where
    a: "advise_range sample_env (sv39_ops sample_env) MADV_DONTNEED 131073 sample_vs sample_mapper 131072 = Some (r, vs', m')"
    and d: "131072 \<le> d" "d \<le> 131073"
    and adv: "advised (sv_view (um_page_table sample_mapper)) (um_gather sample_mapper) sample_vs {131072..<d} MADV_DONTNEED
      (sv_view (um_page_table m')) (um_gather m') vs'"
    and r: "case r of Inr _ \<Rightarrow> d = 131073 | Inl err \<Rightarrow> d < 131073 \<and> advise_refused sample_env MADV_DONTNEED vs' {d} err" by blast
  have pv: "page_view (vs_vmas sample_vs) 131072 = Some (area_view sample_area 131072)" by (simp add: sample_vs_facts(3))
  have fr: "page_frame (vma_inner sample_area) 131072 = InMemory 50" by (simp add: sample_area_def page_frame_def bt_get_def)
  have ap: "anon_private (area_view sample_area 131072)"
    by (simp add: anon_private_area sample_area_def flags_contains_def MAP_PRIVATE_def)
  have pv': "page_view (vs_vmas vs') v = (if v \<in> {131072..<d} then map_option (advised_page MADV_DONTNEED) (page_view (vs_vmas sample_vs) v)
      else page_view (vs_vmas sample_vs) v)" for v using adv unfolding advised_def by meson
  have ok: "advice_ok MADV_DONTNEED x" for x by (simp add: advice_ok_def madv_defs)
  have "user_page vs' 131072"
    unfolding advised_user_page [OF adv] using pv sample_perm [OF pv]
    by (simp add: user_page_def flags_contains_def PERM_U_def)
  then have "\<not> advise_refused sample_env MADV_DONTNEED vs' {131072} err" for err
    using ok unfolding advise_refused_def by (simp add: split_advice_def madv_defs)
  moreover have "d = 131072" if "d < 131073" using that d by simp
  ultimately have d: "r = Inr ()" "d = 131073" using r by (auto split: sum.splits)
  have P: "{131072..<d} = {131072}" using d(2) by auto
  have D: "discarded sample_vs MADV_DONTNEED {131072} = {131072}" using pv ap by (auto simp: discarded_def)
  have "map_option pa_frame (page_view (vs_vmas vs') 131072) = Some Unallocated"
    unfolding pv' P using pv ap fr by (simp add: advised_page_def)
  moreover have "{v. v = 131072 \<and> sv_view (um_page_table sample_mapper) v \<noteq> None} = {131072}"
    unfolding sample_mapper_facts by auto
  then have "sv_view (um_page_table m') 131072 = None \<and> mset (mg_retired (um_gather m')) = {#50#}"
    using adv unfolding advised_def P D removed_def
    by (simp add: sample_mapper_facts(2)) (simp add: sample_mapper_def gather_new_def)
  ultimately show ?thesis using a d by blast
qed

end
