(* ===== verification/UserMemory.thy ===== *)
theory UserMemory
  imports AddressSpace
begin

text \<open>
  The memory system calls of a process over the Sv39 page table: \<open>mmap\<close>, \<open>brk\<close>, and what every
  sequence of them keeps.
\<close>

abbreviation sv_space_ok :: "Sv39PageTable AddressSpaceInner \<Rightarrow> bool" where
  "sv_space_ok \<equiv> space_ok sv_inv sv_user_vpn sv_frame_ok sv_view"

lemma sv_user_low: "\<forall>v < va_floor USER_VA_END. sv_user_vpn v"
  by (simp add: sv_user_vpn_def va_floor_def USER_VA_END_def TASK_SIZE_def PAGE_SIZE_def)

section \<open>A process with one mapping\<close>

definition sample_space :: "Sv39PageTable AddressSpaceInner" where
  "sample_space = \<lparr>as_mapper = sample_mapper, as_vmas = sample_vs, as_heap_bottom = 268435456,
     as_heap_pt = 268435556, as_locked = {}\<rparr>"

definition sample_tun :: vm_tunables where
  "sample_tun = \<lparr>vt_overcommit_memory = 0, vt_overcommit_ratio = 50, vt_max_map_count = 65530,
     vt_min_free_kbytes = 1024, vt_panic_on_oom = 0, vt_usable_memory = 134217728\<rparr>"

lemma sample_space_ok: "sv_space_ok sample_space"
proof -
  have "no_strays (sv_view (um_page_table sample_mapper)) (vs_vmas sample_vs)"
    unfolding no_strays_def sample_mapper_facts sample_vs_facts(2) by auto
  moreover have "pa_frame x = InMemory p \<Longrightarrow> p = 50" if "page_view (vs_vmas sample_vs) v = Some x" for v x p
    using that unfolding sample_vs_facts(3)
    by (auto simp: area_view_def sample_area_def page_frame_def bt_get_def split: if_splits)
  then have "frames_ok sv_frame_ok sample_vs sample_mapper"
    by (fastforce simp: frames_ok_def sample_mapper_def sv_frame_ok_def)
  ultimately show ?thesis using sample_mm_ok by (simp add: space_ok_def sample_space_def)
qed

section \<open>mmap\<close>


section \<open>Requests that cannot fail\<close>

lemma insert_vma_succeeds:
  assumes "vs_inv vs" and "vma_wf a" and "area_pages a \<inter> vma_pages (vs_vmas vs) = {}" and "map_room env vs 1"
  shows "fst (insert_vma env vs a) = Inr ()"
proof -
  have lt: "vm_start a < vm_end a" using assms(2) by (simp add: vma_wf_def)
  have aw: "areas_wf (vs_vmas vs)" using assms(1) by (simp add: vs_inv_def)
  have "\<not> has_overlap vs (vm_start a) (vm_end a)"
    using has_overlap_iff [OF aw lt] assms(3) by (auto simp: area_pages_def)
  then show ?thesis using lt assms(4) by (simp add: insert_vma_def ensure_can_add_eq Let_def)
qed

lemma mmap_insert_anon:
  assumes inv: "vs_inv (as_vmas sp)" and len: "0 < len" and bound: "start + len \<le> USER_VA_END"
    and free: "byte_pages start len \<inter> vma_pages (vs_vmas (as_vmas sp)) = {}" and room: "map_room env (as_vmas sp) 1"
    and anon: "flags_contains flags MAP_ANONYMOUS" and priv: "\<not> flags_contains flags MAP_SHARED"
  shows "\<exists>sp'. mmap_insert env sp start len prot flags offset map_file mw ws = Some (Inr start, sp')"
proof -
  define a where "a = mmap_area start (start + len) prot flags offset map_file mw ws"
  have e: "False \<longleftrightarrow> flags_contains flags MAP_SHARED \<and> vma_map_file a = None \<and> flags_contains prot PERM_W" using priv by simp
  have c: "start + len \<le> USIZE_MAX" using bound user_end_small(2) by simp
  have ap: "area_pages a = byte_pages start len" by (simp add: a_def area_pages_def byte_pages_def mmap_area_range)
  have wf: "vma_wf a" unfolding a_def using anon by (intro mmap_area_wf [OF len bound]) simp
  have lt: "vm_start a < vm_end a" using wf by (simp add: vma_wf_def)
  have aw: "areas_wf (vs_vmas (as_vmas sp))" using inv by (simp add: vs_inv_def)
  have no: "\<not> has_overlap (as_vmas sp) (vm_start a) (vm_end a)"
    using has_overlap_iff [OF aw lt] free ap by (auto simp: area_pages_def)
  obtain vs4 where i: "insert_vma env (as_vmas sp) a = (Inr (), vs4)"
    using insert_vma_succeeds [OF inv wf _ room] free ap by (metis prod.collapse)
  obtain sp' where "mmap_finish env sp a False (flags_contains flags MAP_LOCKED) = (Inr (), sp')"
    by (simp add: mmap_finish_def i Let_def)
  then show ?thesis
    using mmap_insert_eq [OF c a_def e, of env sp] anon room no by simp
qed

lemma mmap_fixed_start_free:
  assumes inv: "vs_inv (as_vmas sp)" and len: "0 < len" and free: "byte_pages start len \<inter> vma_pages (vs_vmas (as_vmas sp)) = {}"
  shows "mmap_fixed_start env ops sp start (start + len) flags =
    Some (Inr start, snd (set_locked_pages sp (va_floor start) (va_ceil (start + len)) False))"
proof -
  let ?s = "va_floor start" and ?e = "va_ceil (start + len)"
  have se: "?s < ?e" by (rule byte_pages_nonempty [OF len])
  have aw: "areas_wf (vs_vmas (as_vmas sp))" using inv by (simp add: vs_inv_def)
  have n: "vma_pages (vs_vmas (as_vmas sp)) \<inter> {?s..<?e} = {}" using free by (auto simp: byte_pages_def)
  have "unmap_range env ops (as_vmas sp) (as_mapper sp) ?s ?e True = Some (Inr False, as_vmas sp, as_mapper sp)"
    by (simp add: unmap_range_def unmap_loop_nothing [OF inv se n])
  then show ?thesis
    using has_overlap_iff [OF aw se] n by (simp add: mmap_fixed_start_def unmap_user_range_def Let_def)
qed

lemma do_mmap_anon_fixed:
  assumes inv: "vs_inv (as_vmas sp)" and al: "start mod PAGE_SIZE = 0" and len: "0 < len" and bound: "start + len \<le> USER_VA_END"
    and anon: "flags_contains flags MAP_ANONYMOUS" and priv: "\<not> flags_contains flags MAP_SHARED"
    and commit: "overcommit_allows tun (committed_bytes sp) len" and room: "map_room env (as_vmas sp) 1"
    and fx: "mmap_fixed flags" and free: "byte_pages start len \<inter> vma_pages (vs_vmas (as_vmas sp)) = {}"
  shows "\<exists>sp'. do_mmap env tun ops sp start len prot flags offset map_file mw ws = Some (Inr start, sp')"
proof -
  have cr: "checked_user_range start len = Inr (start, start + len)"
    using len bound user_end_small(2) by (simp add: checked_user_range_def checked_add_def)
  let ?sp = "snd (set_locked_pages sp (va_floor start) (va_ceil (start + len)) False)"
  have vs: "as_vmas ?sp = as_vmas sp" by (simp add: set_locked_pages_def)
  have "\<exists>sp'. mmap_insert env ?sp start len prot flags offset map_file mw ws = Some (Inr start, sp')"
    by (rule mmap_insert_anon) (use inv len bound free room anon priv in \<open>simp_all add: vs\<close>)
  then show ?thesis
    using fx al cr commit mmap_fixed_start_free [OF inv len free, of env ops flags]
    by (auto simp: do_mmap_def mmap_fixed_def)
qed

text \<open>
  C12. A page-aligned request for a private anonymous mapping inside user space succeeds whenever the
  commit limit and the limit on areas allow it and there is room: at the requested address when
  the address is fixed or a usable hint and its pages are free, and otherwise somewhere as soon
  as one free range of the mapping arena is long enough.
\<close>

theorem mmap_anonymous_succeeds:
  assumes ok: "sv_space_ok sp" and al: "start mod PAGE_SIZE = 0" and len: "0 < len" and bound: "start + len \<le> USER_VA_END"
    and anon: "flags_contains flags MAP_ANONYMOUS" and priv: "\<not> flags_contains flags MAP_SHARED"
    and commit: "overcommit_allows tun (committed_bytes sp) len" and room: "map_room env (as_vmas sp) 1"
    and fixed: "mmap_fixed flags \<Longrightarrow> byte_pages start len \<inter> vma_pages (vs_vmas (as_vmas sp)) = {}"
    and search: "\<not> mmap_fixed flags \<Longrightarrow> \<exists>b. b mod PAGE_SIZE = 0 \<and> b + len \<le> USIZE_MAX \<and>
      is_mmap_range_free (as_vmas sp) (va_floor b) (va_ceil (b + len))"
  shows "\<exists>a sp'. do_mmap env tun (sv39_ops env) sp start len prot flags offset map_file mw ws = Some (Inr a, sp') \<and>
    (mmap_fixed flags \<or> start \<noteq> 0 \<and> is_mmap_range_free (as_vmas sp) (va_floor start) (va_ceil (start + len)) \<longrightarrow> a = start)"
proof -
  have inv: "vs_inv (as_vmas sp)" using ok by (simp add: space_ok_def mm_ok_def)
  have cr: "checked_user_range start len = Inr (start, start + len)"
    using len bound user_end_small(2) by (simp add: checked_user_range_def checked_add_def)
  show ?thesis
  proof (cases "mmap_fixed flags")
    case True
    from do_mmap_anon_fixed [OF inv al len bound anon priv commit room True fixed [OF True]] show ?thesis by blast
  next
    case False
    have hw: "holes_wf (vs_holes (as_vmas sp))" using inv by (simp add: vs_inv_def)
    have p12: "PAGE_SIZE = 2 ^ 12" by (simp add: PAGE_SIZE_def)
    obtain b where "find_free_mmap_range (as_vmas sp) len PAGE_SIZE = Inr b"
      using find_free_mmap_range_facts [OF hw len, of 12] search [OF False] unfolding p12 by (auto split: sum.splits)
    then have "\<exists>a. mmap_chosen_start sp start len start (start + len) = Inr a \<and>
        (start \<noteq> 0 \<and> is_mmap_range_free (as_vmas sp) (va_floor start) (va_ceil (start + len)) \<longrightarrow> a = start)"
      by (simp add: mmap_chosen_start_def)
    then obtain a where c: "mmap_chosen_start sp start len start (start + len) = Inr a"
      and hint: "start \<noteq> 0 \<and> is_mmap_range_free (as_vmas sp) (va_floor start) (va_ceil (start + len)) \<longrightarrow> a = start" by blast
    from mmap_chosen_start_facts [OF inv al len bound c]
    have A: "a + len \<le> USER_VA_END" "byte_pages a len \<inter> vma_pages (vs_vmas (as_vmas sp)) = {}" by blast+
    obtain sp2 where i: "mmap_insert env sp a len prot flags offset map_file mw ws = Some (Inr a, sp2)"
      using mmap_insert_anon [OF inv len A room anon priv] by blast
    from try_merge_facts [OF inv len A(1), of prot flags] show ?thesis
      using False al cr commit c i hint by (auto simp: do_mmap_def mmap_fixed_def)
  qed
qed

lemma sample_room: "map_room sample_env sample_vs n \<longleftrightarrow> n \<le> 65530" if "n \<le> 65530"
  using that by (simp add: map_room_def sample_vs_facts(5) sample_env_def saturating_add_def USIZE_MAX_def)

lemma sample_commit: "n \<le> 134217728 \<Longrightarrow> overcommit_allows sample_tun c n"
  by (simp add: overcommit_allows_def sample_tun_def reported_memory_bytes_def total_memory_kbytes_def saturating_mul_def USIZE_MAX_def)

theorem mmap_anonymous_succeeds_witness:
  "\<exists>sp'. do_mmap sample_env sample_tun (sv39_ops sample_env) sample_space 536887296 8192 22 34 0 None True False =
     Some (Inr 536887296, sp')"
proof -
  have vs: "as_vmas sample_space = sample_vs" by (simp add: sample_space_def)
  have hw: "holes_wf (vs_holes sample_vs)" and hp: "hole_pages (vs_holes sample_vs) = arena - {131072..<131076}"
    using sample_vs_facts(1,2) by (simp_all add: vs_inv_def)
  have free: "is_mmap_range_free sample_vs (va_floor 536887296) (va_ceil (536887296 + 8192))"
    unfolding is_mmap_range_free_iff [OF hw] hp
    by (auto simp: va_floor_def va_ceil_def PAGE_SIZE_def arena_def arena_lo_def arena_hi_def mmap_bounds_def MMAP_BASE_def MMAP_END_def)
  have fl: "flags_contains 34 MAP_ANONYMOUS" "\<not> flags_contains 34 MAP_SHARED" "\<not> mmap_fixed 34"
    by (simp_all add: flags_contains_def MAP_ANONYMOUS_def MAP_SHARED_def mmap_fixed_def MAP_FIXED_def MAP_FIXED_NOREPLACE_def)
  have "\<exists>a sp'. do_mmap sample_env sample_tun (sv39_ops sample_env) sample_space 536887296 8192 22 34 0 None True False = Some (Inr a, sp') \<and>
    (mmap_fixed 34 \<or> (536887296::addr) \<noteq> 0 \<and> is_mmap_range_free (as_vmas sample_space) (va_floor 536887296) (va_ceil (536887296 + 8192)) \<longrightarrow> a = 536887296)"
  proof (rule mmap_anonymous_succeeds [OF sample_space_ok])
    show "\<exists>b. b mod PAGE_SIZE = 0 \<and> b + 8192 \<le> USIZE_MAX \<and> is_mmap_range_free (as_vmas sample_space) (va_floor b) (va_ceil (b + 8192))"
      using free by (intro exI [of _ 536887296]) (simp add: vs PAGE_SIZE_def USIZE_MAX_def)
  qed (use fl sample_room [of 1] sample_commit [of 8192] in \<open>simp_all add: vs PAGE_SIZE_def USER_VA_END_def TASK_SIZE_def\<close>)
  then show ?thesis using free by (auto simp: vs)
qed


section \<open>brk\<close>

text \<open>
  C13. On a consistent address space do_sbrk always returns the break it leaves, the address space is
  consistent again and the bottom of the heap has not moved. Either nothing at all has changed, or
  the requested break lies between the bottom of the heap and the heap limit, and: when the break
  has moved up, exactly the pages between the two breaks belong to a private read-write mapping
  with no frame or a cleared one; when it has moved down, exactly those pages are unmapped; when it
  is still the old one, at most pages between the two breaks have been removed; every other page,
  translation and lock is as before.
\<close>

theorem do_sbrk_sv39:
  assumes ok: "sv_space_ok sp" and res: "\<forall>n. env_reserve env n"
  shows "\<exists>ret sp'. do_sbrk env tun (sv39_ops env) sp increment = Some (ret, sp') \<and> sv_space_ok sp' \<and>
    as_heap_pt sp' = ret \<and> as_heap_bottom sp' = as_heap_bottom sp \<and>
    (ret = as_heap_pt sp \<and> sp' = sp \<or> (\<exists>t. brk_accepts sp increment t \<and> brk_moved sv_view sp t ret sp'))"
  by (rule sv39.do_sbrk_facts [OF ok res sv_user_low])

theorem do_sbrk_sv39_witness:
  "do_sbrk sample_env sample_tun (sv39_ops sample_env) sample_space 300 =
     Some (268435856, sample_space\<lparr>as_heap_pt := 268435856\<rparr>) \<and>
   sv_space_ok (sample_space\<lparr>as_heap_pt := 268435856\<rparr>) \<and>
   brk_moved sv_view sample_space 268435856 268435856 (sample_space\<lparr>as_heap_pt := 268435856\<rparr>)"
proof -
  have res: "\<forall>n. env_reserve sample_env n" by (simp add: sample_env_def)
  have acc: "brk_accepts sample_space 300 t \<longleftrightarrow> t = 268435856" for t
    by (auto simp: brk_accepts_def sbrk_target_def sample_space_def checked_add_def USIZE_MAX_def
      USER_HEAP_SIZE_def PAGE_SIZE_def)
  have run: "do_sbrk sample_env sample_tun (sv39_ops sample_env) sample_space 300 =
     Some (268435856, sample_space\<lparr>as_heap_pt := 268435856\<rparr>)"
    by (simp add: do_sbrk_accepted [OF iffD2 [OF acc refl]])
      (simp add: sample_space_def va_ceil_def PAGE_SIZE_def)
  show ?thesis
    using do_sbrk_sv39 [OF sample_space_ok res, of sample_tun 300] unfolding run acc
    by (auto simp: sample_space_def)
qed

end
