(* ===== verification/PageEntry.thy ===== *)
theory PageEntry
  imports MmTypes
begin

text \<open>
  \<open>os/src/fs/page_cache.rs\<close>, part one: the entry of one cached page. State, write lease and
  reference bits live in one atomic word, so every operation below is one atomic step on it.

  The second half is the protocol of the threads that share a page: writers take a lease and
  publish, the writeback worker claims, cleans the mappings, writes and completes, and
  shared mappings are dirtied by page faults under the address-space lock. The invariant says
  that bytes the backend does not have are never forgotten.
\<close>

section \<open>Copying between buffers\<close>

text \<open>A buffer is a map from offsets to bytes. \<open>dst[doff..doff + len]\<close> gets \<open>src[soff..]\<close>.\<close>

type_synonym bytes = "nat \<Rightarrow> u8"

definition copy_slice :: "bytes \<Rightarrow> nat \<Rightarrow> nat \<Rightarrow> bytes \<Rightarrow> nat \<Rightarrow> bytes" where
  "copy_slice dst doff len src soff = (\<lambda>i. if doff \<le> i \<and> i < doff + len then src (soff + (i - doff)) else dst i)"

definition zero_from :: "nat \<Rightarrow> bytes \<Rightarrow> bytes" where
  "zero_from start b = (\<lambda>i. if start \<le> i \<and> i < PAGE_SIZE then 0 else b i)"

section \<open>Flags and states\<close>

datatype PageState = Loading | UpToDate | Dirty | Writeback | PsError

definition PG_LOCKED :: u32 where "PG_LOCKED = 1"
definition PG_UPTODATE :: u32 where "PG_UPTODATE = 2"
definition PG_DIRTY :: u32 where "PG_DIRTY = 4"
definition PG_WRITEBACK :: u32 where "PG_WRITEBACK = 8"
definition PG_ERROR :: u32 where "PG_ERROR = 16"
definition PG_REFERENCED :: u32 where "PG_REFERENCED = 32"
definition PG_REDIRTIED :: u32 where "PG_REDIRTIED = 64"
definition PG_FILEMAP_READAHEAD :: u32 where "PG_FILEMAP_READAHEAD = 128"
definition PG_ORTHOGONAL :: u32 where
  "PG_ORTHOGONAL = PG_REFERENCED OR PG_REDIRTIED OR PG_FILEMAP_READAHEAD"

definition VALID_SEG_SHIFT :: nat where "VALID_SEG_SHIFT = 9"
definition VALID_SEG_COUNT :: nat where "VALID_SEG_COUNT = PAGE_SIZE div 2 ^ VALID_SEG_SHIFT"
definition VALID_ALL :: u32 where "VALID_ALL = 0xFF"

definition mask_for_range :: "usize \<Rightarrow> usize \<Rightarrow> u32" where
  "mask_for_range po len =
     (if len = 0 then 0
      else
        let seg_start = po div 2 ^ VALID_SEG_SHIFT;
            seg_end = min (wrapping_sub (wrapping_add (wrapping_add po len) (2 ^ VALID_SEG_SHIFT)) 1 div 2 ^ VALID_SEG_SHIFT) VALID_SEG_COUNT
        in if seg_start \<ge> VALID_SEG_COUNT then 0
           else push_bit seg_start (push_bit (seg_end - seg_start) 1 - 1))"

definition initial_valid_mask :: "usize \<Rightarrow> usize \<Rightarrow> u32" where
  "initial_valid_mask page_index old_file_size =
     (let page_start = wrapping_mul page_index PAGE_SIZE in
      if page_start \<ge> old_file_size then VALID_ALL
      else
        let page_end = wrapping_add page_start PAGE_SIZE in
        if old_file_size < page_end
        then let zero_start = old_file_size - page_start in mask_for_range zero_start (PAGE_SIZE - zero_start)
        else 0)"

record PageEntry =
  pe_page :: ppn
  pe_flags :: u32
  pe_valid_mask :: u32
  pe_map_count :: usize

definition flags_for_state :: "PageState \<Rightarrow> u32" where
  "flags_for_state st =
     (case st of
        Loading \<Rightarrow> PG_LOCKED
      | UpToDate \<Rightarrow> PG_UPTODATE
      | Dirty \<Rightarrow> PG_UPTODATE OR PG_DIRTY
      | Writeback \<Rightarrow> PG_UPTODATE OR PG_WRITEBACK OR PG_LOCKED
      | PsError \<Rightarrow> PG_ERROR)"

definition decode_state :: "u32 \<Rightarrow> PageState" where
  "decode_state f =
     (if f AND PG_ERROR \<noteq> 0 then PsError
      else if f AND PG_LOCKED \<noteq> 0 \<and> f AND PG_UPTODATE = 0 then Loading
      else if f AND PG_WRITEBACK \<noteq> 0 then Writeback
      else if f AND PG_DIRTY \<noteq> 0 then Dirty
      else UpToDate)"

definition entry_new :: "ppn \<Rightarrow> PageState \<Rightarrow> PageEntry" where
  "entry_new p st = \<lparr>pe_page = p, pe_flags = flags_for_state st, pe_valid_mask = VALID_ALL, pe_map_count = 0\<rparr>"

definition new_with_valid_mask :: "ppn \<Rightarrow> u32 \<Rightarrow> PageEntry" where
  "new_with_valid_mask p vmask = \<lparr>pe_page = p, pe_flags = PG_UPTODATE, pe_valid_mask = vmask, pe_map_count = 0\<rparr>"

definition pe_state :: "PageEntry \<Rightarrow> PageState" where
  "pe_state e = decode_state (pe_flags e)"

definition set_state :: "PageState \<Rightarrow> u32 \<Rightarrow> u32" where
  "set_state st f = flags_for_state st OR (f AND PG_ORTHOGONAL)"

text \<open>\<open>Ok\<close> when the word decodes to the expected state; the new word is the second component.\<close>

definition compare_exchange_state :: "PageState \<Rightarrow> PageState \<Rightarrow> u32 \<Rightarrow> bool \<times> u32" where
  "compare_exchange_state old new f =
     (if decode_state f \<noteq> old then (False, f)
      else (True, flags_for_state new OR (f AND PG_ORTHOGONAL)))"

definition set_flag :: "u32 \<Rightarrow> u32 \<Rightarrow> u32" where
  "set_flag flag f = f OR flag"

definition clear_flag :: "u32 \<Rightarrow> u32 \<Rightarrow> u32" where
  "clear_flag flag f = f AND NOT flag"

definition test_flag :: "u32 \<Rightarrow> u32 \<Rightarrow> bool" where
  "test_flag flag f \<longleftrightarrow> f AND flag \<noteq> 0"

definition test_and_clear_flag :: "u32 \<Rightarrow> u32 \<Rightarrow> bool \<times> u32" where
  "test_and_clear_flag flag f = (f AND flag \<noteq> 0, f AND NOT flag)"

section \<open>Lease and writeback\<close>

text \<open>\<open>Inr None\<close>: the page is busy.\<close>

definition try_lock_for_write :: "u32 \<Rightarrow> (errno + bool option) \<times> u32" where
  "try_lock_for_write old =
     (case decode_state old of
        PsError \<Rightarrow> (Inl EIO, old)
      | Loading \<Rightarrow> (Inr None, old)
      | Writeback \<Rightarrow> (Inr None, old)
      | _ \<Rightarrow>
          if old AND PG_LOCKED = 0
          then (Inr (Some (old AND PG_DIRTY \<noteq> 0)), old OR PG_LOCKED OR PG_REFERENCED)
          else (Inr None, old))"

definition write_lease_ready :: "u32 \<Rightarrow> bool" where
  "write_lease_ready f \<longleftrightarrow>
     decode_state f \<in> {UpToDate, Dirty, PsError} \<and> (f AND PG_LOCKED = 0 \<or> f AND PG_ERROR \<noteq> 0)"

definition commit_write :: "u32 \<Rightarrow> bool \<times> u32" where
  "commit_write old = (old AND PG_DIRTY = 0, (old OR PG_UPTODATE OR PG_DIRTY OR PG_REFERENCED) AND NOT PG_LOCKED)"

definition abort_write :: "u32 \<Rightarrow> u32" where
  "abort_write f = clear_flag PG_LOCKED f"

definition claim_writeback :: "u32 \<Rightarrow> bool \<times> u32" where
  "claim_writeback old =
     (if old AND (PG_DIRTY OR PG_LOCKED) \<noteq> PG_DIRTY then (False, old)
      else (True, (old AND NOT PG_DIRTY) OR PG_WRITEBACK OR PG_LOCKED))"

text \<open>
  \<open>complete_writeback\<close> is two atomic operations: it tests and clears the redirtied bit, then
  releases the page.
\<close>

definition finish_writeback :: "bool \<Rightarrow> u32 \<Rightarrow> u32" where
  "finish_writeback redirtied old =
     (old OR (if redirtied then PG_DIRTY else PG_UPTODATE OR PG_REFERENCED))
       AND NOT (PG_WRITEBACK OR PG_LOCKED OR PG_REDIRTIED)"

definition complete_writeback :: "u32 \<Rightarrow> bool \<times> u32" where
  "complete_writeback f =
     (let (redirtied, f') = test_and_clear_flag PG_REDIRTIED f in (redirtied, finish_writeback redirtied f'))"

definition restore_dirty_after_writeback :: "u32 \<Rightarrow> u32" where
  "restore_dirty_after_writeback old = (old OR PG_DIRTY) AND NOT (PG_WRITEBACK OR PG_LOCKED OR PG_REDIRTIED)"

text \<open>\<open>mark_dirty_after_copy\<close>; the result says whether the global count of dirty pages goes up.\<close>

definition mark_dirty_after_copy :: "u32 \<Rightarrow> bool \<times> u32" where
  "mark_dirty_after_copy f =
     (case decode_state f of
        Dirty \<Rightarrow> (False, f)
      | UpToDate \<Rightarrow> compare_exchange_state UpToDate Dirty f
      | Writeback \<Rightarrow> (False, set_flag PG_REDIRTIED f)
      | _ \<Rightarrow> (False, f))"

section \<open>Validity and reference bits\<close>

definition is_fully_valid :: "PageEntry \<Rightarrow> bool" where
  "is_fully_valid e \<longleftrightarrow> pe_valid_mask e = VALID_ALL"

definition mark_valid :: "usize \<Rightarrow> usize \<Rightarrow> PageEntry \<Rightarrow> PageEntry" where
  "mark_valid po len e = e\<lparr>pe_valid_mask := pe_valid_mask e OR mask_for_range po len\<rparr>"

definition mark_valid_and_check_full :: "usize \<Rightarrow> usize \<Rightarrow> PageEntry \<Rightarrow> bool \<times> PageEntry" where
  "mark_valid_and_check_full po len e =
     (let vmask = mask_for_range po len; old = pe_valid_mask e in
      if vmask = 0 then (is_fully_valid e, e)
      else if old AND vmask = vmask then (False, e)
      else (old OR vmask = VALID_ALL, e\<lparr>pe_valid_mask := old OR vmask\<rparr>))"

definition mark_fully_valid :: "PageEntry \<Rightarrow> PageEntry" where
  "mark_fully_valid e = e\<lparr>pe_valid_mask := VALID_ALL\<rparr>"

definition on_flags :: "(u32 \<Rightarrow> u32) \<Rightarrow> PageEntry \<Rightarrow> PageEntry" where
  "on_flags g e = e\<lparr>pe_flags := g (pe_flags e)\<rparr>"

definition mark_referenced :: "PageEntry \<Rightarrow> PageEntry" where
  "mark_referenced e = on_flags (set_flag PG_REFERENCED) e"

definition mark_filemap_readahead :: "PageEntry \<Rightarrow> PageEntry" where
  "mark_filemap_readahead e = on_flags (set_flag PG_FILEMAP_READAHEAD) e"

definition consume_filemap_readahead :: "PageEntry \<Rightarrow> PageEntry" where
  "consume_filemap_readahead e = on_flags (clear_flag PG_FILEMAP_READAHEAD) e"

definition discard_filemap_readahead :: "PageEntry \<Rightarrow> PageEntry" where
  "discard_filemap_readahead e = on_flags (clear_flag PG_FILEMAP_READAHEAD) e"

section \<open>Facts on the flags\<close>

lemma pg_flags_exp:
  "PG_LOCKED = 2 ^ 0" "PG_UPTODATE = 2 ^ 1" "PG_DIRTY = 2 ^ 2" "PG_WRITEBACK = 2 ^ 3" "PG_ERROR = 2 ^ 4"
  "PG_REFERENCED = 2 ^ 5" "PG_REDIRTIED = 2 ^ 6" "PG_FILEMAP_READAHEAD = 2 ^ 7"
  by (simp_all add: PG_LOCKED_def PG_UPTODATE_def PG_DIRTY_def PG_WRITEBACK_def PG_ERROR_def
      PG_REFERENCED_def PG_REDIRTIED_def PG_FILEMAP_READAHEAD_def)

lemma pg_test [simp]:
  "f AND PG_LOCKED = 0 \<longleftrightarrow> \<not> bit f 0" "f AND PG_UPTODATE = 0 \<longleftrightarrow> \<not> bit f 1" "f AND PG_DIRTY = 0 \<longleftrightarrow> \<not> bit f 2"
  "f AND PG_WRITEBACK = 0 \<longleftrightarrow> \<not> bit f 3" "f AND PG_ERROR = 0 \<longleftrightarrow> \<not> bit f 4"
  "f AND PG_REDIRTIED = 0 \<longleftrightarrow> \<not> bit f 6"
  unfolding pg_flags_exp by (simp_all only: and_exp_eq_0_iff_not_bit)

lemma exp_bit_u32: "m < 32 \<Longrightarrow> bit (2 ^ m :: u32) n \<longleftrightarrow> n = m"
  by (auto simp: bit_exp_iff)

lemma pg_bit [simp]:
  "bit PG_LOCKED n \<longleftrightarrow> n = 0" "bit PG_UPTODATE n \<longleftrightarrow> n = 1" "bit PG_DIRTY n \<longleftrightarrow> n = 2"
  "bit PG_WRITEBACK n \<longleftrightarrow> n = 3" "bit PG_ERROR n \<longleftrightarrow> n = 4" "bit PG_REFERENCED n \<longleftrightarrow> n = 5"
  "bit PG_REDIRTIED n \<longleftrightarrow> n = 6" "bit PG_FILEMAP_READAHEAD n \<longleftrightarrow> n = 7"
  "bit PG_ORTHOGONAL n \<longleftrightarrow> n \<in> {5, 6, 7}"
  unfolding PG_ORTHOGONAL_def bit_or_iff pg_flags_exp
  using exp_bit_u32 [of 0 n] exp_bit_u32 [of 1 n] exp_bit_u32 [of 2 n] exp_bit_u32 [of 3 n] exp_bit_u32 [of 4 n]
    exp_bit_u32 [of 5 n] exp_bit_u32 [of 6 n] exp_bit_u32 [of 7 n] by simp_all

lemma decode_state_bits:
  "decode_state f = (if bit f 4 then PsError else if bit f 0 \<and> \<not> bit f 1 then Loading
     else if bit f 3 then Writeback else if bit f 2 then Dirty else UpToDate)"
  by (simp add: decode_state_def)

lemma claim_writeback_iff: "fst (claim_writeback f) \<longleftrightarrow> bit f 2 \<and> \<not> bit f 0"
proof -
  have "f AND (PG_DIRTY OR PG_LOCKED) = PG_DIRTY \<longleftrightarrow> (\<forall>n < 32. bit (f AND (PG_DIRTY OR PG_LOCKED)) n = bit PG_DIRTY n)"
    by (simp add: bit_eq_iff)
  also have "\<dots> \<longleftrightarrow> bit f 2 \<and> \<not> bit f 0"
  proof
    assume "\<forall>n < 32. bit (f AND (PG_DIRTY OR PG_LOCKED)) n = bit PG_DIRTY n"
    from spec [OF this, of 2] spec [OF this, of 0] show "bit f 2 \<and> \<not> bit f 0" by (simp add: bit_simps)
  qed (auto simp: bit_simps intro: gr0I)
  finally show ?thesis by (simp add: claim_writeback_def)
qed

lemmas page_flag_ops = set_flag_def clear_flag_def test_and_clear_flag_def commit_write_def abort_write_def
  finish_writeback_def restore_dirty_after_writeback_def mark_dirty_after_copy_def compare_exchange_state_def
  flags_for_state_def try_lock_for_write_def

section \<open>The threads that share a page\<close>

text \<open>
  Where a thread is: a writer between lease and publication; the writeback worker between
  claim and completion; a shared-write fault between its check of the state and the end of
  its hold on the address-space lock, and after it, with a writable mapping.
\<close>

datatype thread_pc = Idle | Leased | Copied | Claimed | Cleaned | Written | Tested bool | Checked | Mapped

record page_sync =
  ps_flags :: u32
  ps_pc :: "nat \<Rightarrow> thread_pc"
  ps_unsaved :: bool

definition go :: "nat \<Rightarrow> thread_pc \<Rightarrow> u32 \<Rightarrow> page_sync \<Rightarrow> page_sync" where
  "go t pc f s = s\<lparr>ps_flags := f, ps_pc := (ps_pc s)(t := pc)\<rparr>"

text \<open>
  One atomic step of one thread. \<open>ps_unsaved\<close> is not part of the code: it says that the page
  holds bytes the backend has not been given. The worker changes the mappings of the page
  under the address-space lock, so not while a fault is between its check and its mapping.
\<close>

inductive page_step :: "page_sync \<Rightarrow> page_sync \<Rightarrow> bool" where
  lock: "\<lbrakk>ps_pc s t = Idle; try_lock_for_write (ps_flags s) = (Inr (Some d), f)\<rbrakk> \<Longrightarrow> page_step s (go t Leased f s)"
| copy: "ps_pc s t = Leased \<Longrightarrow> page_step s (go t Copied (ps_flags s) (s\<lparr>ps_unsaved := True\<rparr>))"
| abort: "ps_pc s t = Leased \<Longrightarrow> page_step s (go t Idle (abort_write (ps_flags s)) s)"
| commit: "ps_pc s t = Copied \<Longrightarrow> page_step s (go t Idle (snd (commit_write (ps_flags s))) s)"
| claim: "\<lbrakk>ps_pc s t = Idle; claim_writeback (ps_flags s) = (True, f)\<rbrakk> \<Longrightarrow> page_step s (go t Claimed f s)"
| clean: "\<lbrakk>ps_pc s t = Claimed; \<forall>u. ps_pc s u \<noteq> Checked\<rbrakk> \<Longrightarrow>
    page_step s (go t Cleaned (ps_flags s) (s\<lparr>ps_pc := (\<lambda>u. if ps_pc s u = Mapped then Idle else ps_pc s u)\<rparr>))"
| backend: "ps_pc s t = Cleaned \<Longrightarrow> page_step s (go t Written (ps_flags s) (s\<lparr>ps_unsaved := False\<rparr>))"
| fail: "ps_pc s t \<in> {Claimed, Cleaned} \<Longrightarrow> page_step s (go t Idle (restore_dirty_after_writeback (ps_flags s)) s)"
| test: "\<lbrakk>ps_pc s t = Written; test_and_clear_flag PG_REDIRTIED (ps_flags s) = (r, f)\<rbrakk> \<Longrightarrow> page_step s (go t (Tested r) f s)"
| finish: "ps_pc s t = Tested r \<Longrightarrow> page_step s (go t Idle (finish_writeback r (ps_flags s)) s)"
| check: "\<lbrakk>ps_pc s t = Idle; decode_state (ps_flags s) \<in> {UpToDate, Dirty}\<rbrakk> \<Longrightarrow> page_step s (go t Checked (ps_flags s) s)"
| mark: "ps_pc s t = Checked \<Longrightarrow> page_step s (go t Mapped (snd (mark_dirty_after_copy (ps_flags s))) s)"
| store: "ps_pc s t = Mapped \<Longrightarrow> page_step s (s\<lparr>ps_unsaved := True\<rparr>)"
| unmap: "ps_pc s t = Mapped \<Longrightarrow> page_step s (go t Idle (ps_flags s) s)"
| touch: "\<lbrakk>ps_pc s t = Idle; flag \<in> {PG_REFERENCED, PG_FILEMAP_READAHEAD}; f \<in> {set_flag flag (ps_flags s), clear_flag flag (ps_flags s)}\<rbrakk> \<Longrightarrow>
    page_step s (go t Idle f s)"

definition page_initial :: "page_sync \<Rightarrow> bool" where
  "page_initial s \<longleftrightarrow> ps_flags s = flags_for_state UpToDate \<and> (\<forall>t. ps_pc s t = Idle) \<and> \<not> ps_unsaved s"

fun owns_page :: "thread_pc \<Rightarrow> bool" where
  "owns_page Idle = False"
| "owns_page Checked = False"
| "owns_page Mapped = False"
| "owns_page _ = True"

text \<open>
  Unsaved bytes are marked dirty, or a thread will mark or write them; a writable mapping
  exists only while the page is dirty or about to be cleaned; a fault that has checked the
  page sees writeback only before the cleaning; the lease bit has an owner.
\<close>

definition page_inv :: "page_sync \<Rightarrow> bool" where
  "page_inv s \<longleftrightarrow>
     bit (ps_flags s) 1 \<and> \<not> bit (ps_flags s) 4 \<and>
     (ps_unsaved s \<longrightarrow> bit (ps_flags s) 2 \<or> (\<exists>t. ps_pc s t \<in> {Copied, Claimed, Cleaned})) \<and>
     (Mapped \<in> range (ps_pc s) \<longrightarrow> bit (ps_flags s) 2 \<or> Claimed \<in> range (ps_pc s)) \<and>
     (Checked \<in> range (ps_pc s) \<and> bit (ps_flags s) 3 \<longrightarrow> Claimed \<in> range (ps_pc s)) \<and>
     (bit (ps_flags s) 0 \<longrightarrow> (\<exists>t. owns_page (ps_pc s t)))"

lemma go_fields [simp]:
  "ps_flags (go t pc f s) = f" "ps_pc (go t pc f s) = (ps_pc s)(t := pc)" "ps_unsaved (go t pc f s) = ps_unsaved s"
  by (simp_all add: go_def)

text \<open>A thread moves from one place to another: what the others do stays.\<close>

lemma page_inv_go:
  assumes inv: "page_inv s" and from0: "ps_pc s t = p0"
    and bits: "bit f 1" "\<not> bit f 4"
    and saved: "ps_unsaved s' \<Longrightarrow> bit f 2 \<or> pc \<in> {Copied, Claimed, Cleaned} \<or>
      ps_unsaved s \<and> p0 \<notin> {Copied, Claimed, Cleaned} \<and> (bit (ps_flags s) 2 \<longrightarrow> bit f 2)"
    and mapped: "bit f 2 \<or> pc = Claimed \<or> pc \<noteq> Mapped \<and> p0 \<noteq> Claimed \<and> (bit (ps_flags s) 2 \<longrightarrow> bit f 2)
      \<or> Mapped \<notin> range (ps_pc s) \<and> pc \<noteq> Mapped \<or> pc = Mapped \<and> p0 \<noteq> Claimed \<and> Claimed \<in> range (ps_pc s)"
    and checked: "bit f 3 \<Longrightarrow> pc = Claimed \<or> (bit (ps_flags s) 3 \<and> pc \<noteq> Checked \<and> p0 \<noteq> Claimed)
      \<or> Checked \<notin> range (ps_pc s) \<and> pc \<noteq> Checked"
    and locked: "bit f 0 \<Longrightarrow> owns_page pc \<or> (bit (ps_flags s) 0 \<and> \<not> owns_page p0)"
    and s': "ps_flags s' = f" "ps_pc s' = (ps_pc s)(t := pc)"
  shows "page_inv s'"
proof -
  have keep: "x \<in> range (ps_pc s) \<Longrightarrow> x \<noteq> p0 \<Longrightarrow> x \<in> range (ps_pc s')" for x using from0 s' by force
  have prev: "x \<in> range (ps_pc s') \<Longrightarrow> x \<noteq> pc \<Longrightarrow> x \<in> range (ps_pc s)" for x using s' by (auto split: if_splits)
  have here: "pc \<in> range (ps_pc s')" using s' by (metis fun_upd_same rangeI)
  have "ps_unsaved s' \<longrightarrow> bit f 2 \<or> (\<exists>t. ps_pc s' t \<in> {Copied, Claimed, Cleaned})"
  proof (intro impI)
    assume u: "ps_unsaved s'"
    show "bit f 2 \<or> (\<exists>t. ps_pc s' t \<in> {Copied, Claimed, Cleaned})"
    proof (cases "bit f 2 \<or> pc \<in> {Copied, Claimed, Cleaned}")
      case False
      with saved [OF u] have o: "ps_unsaved s" "p0 \<notin> {Copied, Claimed, Cleaned}" "\<not> bit (ps_flags s) 2" by auto
      then obtain v where "ps_pc s v \<in> {Copied, Claimed, Cleaned}" using inv unfolding page_inv_def by blast
      with o(2) from0 s' have "ps_pc s' v \<in> {Copied, Claimed, Cleaned}" by auto
      then show ?thesis by blast
    qed (use here in auto)
  qed
  moreover have "Mapped \<in> range (ps_pc s') \<longrightarrow> bit f 2 \<or> Claimed \<in> range (ps_pc s')"
    using mapped inv keep prev here unfolding page_inv_def by metis
  moreover have "Checked \<in> range (ps_pc s') \<and> bit f 3 \<longrightarrow> Claimed \<in> range (ps_pc s')"
    using checked inv keep prev here unfolding page_inv_def by metis
  moreover have "bit f 0 \<longrightarrow> (\<exists>t. owns_page (ps_pc s' t))"
    using locked inv keep here unfolding page_inv_def by (metis rangeE rangeI)
  ultimately show ?thesis using bits s' unfolding page_inv_def by blast
qed

lemma page_inv_bits: "page_inv s \<Longrightarrow> bit (ps_flags s) 1" "page_inv s \<Longrightarrow> \<not> bit (ps_flags s) 4"
  by (simp_all add: page_inv_def)

lemma page_inv_clean:
  assumes inv: "page_inv s" and t: "ps_pc s t = Claimed" and no: "\<forall>u. ps_pc s u \<noteq> Checked"
    and s': "ps_flags s' = ps_flags s" "ps_unsaved s' = ps_unsaved s"
      "ps_pc s' = (\<lambda>u. if ps_pc s u = Mapped then Idle else ps_pc s u)(t := Cleaned)"
  shows "page_inv s'"
proof -
  have "ps_pc s' t = Cleaned" using s' by simp
  moreover have "Mapped \<notin> range (ps_pc s')" "Checked \<notin> range (ps_pc s')" using s' no by (auto simp: image_iff split: if_splits) metis+
  moreover have "owns_page (ps_pc s' t)" using s' by simp
  moreover have "\<exists>t. ps_pc s' t \<in> {Copied, Claimed, Cleaned}" using calculation(1) by blast
  moreover have "bit (ps_flags s') 1" "\<not> bit (ps_flags s') 4" using page_inv_bits [OF inv] s'(1) by simp_all
  ultimately show ?thesis unfolding page_inv_def by blast
qed

lemma page_step_inv:
  assumes "page_step s s'" and inv: "page_inv s"
  shows "page_inv s'"
  using assms(1)
proof (cases rule: page_step.cases)
  case (lock t d f)
  then have "f = ps_flags s OR PG_LOCKED OR PG_REFERENCED"
    by (auto simp: try_lock_for_write_def split: PageState.splits if_splits)
  then show ?thesis using lock page_inv_bits [OF inv] by (intro page_inv_go [OF inv lock(2)]) (auto simp: bit_simps)
next
  case (copy t)
  show ?thesis using page_inv_bits [OF inv] copy by (intro page_inv_go [OF inv copy(2)]) (auto simp: copy(1))
next
  case (abort t)
  show ?thesis using page_inv_bits [OF inv]
    by (intro page_inv_go [OF inv abort(2)]) (auto simp: abort(1) abort_write_def clear_flag_def bit_simps)
next
  case (commit t)
  show ?thesis using page_inv_bits [OF inv]
    by (intro page_inv_go [OF inv commit(2)]) (auto simp: commit(1) commit_write_def bit_simps)
next
  case (claim t f)
  then have "f = (ps_flags s AND NOT PG_DIRTY) OR PG_WRITEBACK OR PG_LOCKED"
    by (auto simp: claim_writeback_def split: if_splits)
  then show ?thesis using claim page_inv_bits [OF inv] by (intro page_inv_go [OF inv claim(2)]) (auto simp: bit_simps)
next
  case (clean t)
  then show ?thesis by (intro page_inv_clean [OF inv clean(2,3)]) simp_all
next
  case (backend t)
  show ?thesis using page_inv_bits [OF inv] by (intro page_inv_go [OF inv backend(2)]) (auto simp: backend(1))
next
  case (fail t)
  show ?thesis using page_inv_bits [OF inv]
    by (intro page_inv_go [OF inv refl]) (auto simp: fail(1) restore_dirty_after_writeback_def bit_simps)
next
  case (test t r f)
  then have "f = ps_flags s AND NOT PG_REDIRTIED" by (simp add: test_and_clear_flag_def)
  then show ?thesis using test page_inv_bits [OF inv] by (intro page_inv_go [OF inv test(2)]) (auto simp: bit_simps)
next
  case (finish t r)
  show ?thesis using page_inv_bits [OF inv]
    by (intro page_inv_go [OF inv finish(2)]) (auto simp: finish(1) finish_writeback_def bit_simps)
next
  case (check t)
  show ?thesis using page_inv_bits [OF inv] check(3)
    by (intro page_inv_go [OF inv check(2)]) (auto simp: check(1) decode_state_bits split: if_splits)
next
  case (mark t)
  have c: "bit (ps_flags s) 3 \<longrightarrow> Claimed \<in> range (ps_pc s)"
    using inv mark(2) unfolding page_inv_def by (metis rangeI)
  show ?thesis using page_inv_bits [OF inv] c
    by (intro page_inv_go [OF inv mark(2)])
      (auto simp: mark(1) mark_dirty_after_copy_def compare_exchange_state_def set_flag_def flags_for_state_def
        decode_state_bits bit_simps split: PageState.splits if_splits)
next
  case (store t)
  have "bit (ps_flags s) 2 \<or> Claimed \<in> range (ps_pc s)" using inv store(2) unfolding page_inv_def by (metis rangeI)
  then have "bit (ps_flags s) 2 \<or> (\<exists>t. ps_pc s t \<in> {Copied, Claimed, Cleaned})" by (auto simp: image_iff) metis
  then show ?thesis using inv unfolding store(1) page_inv_def by simp
next
  case (unmap t)
  show ?thesis using page_inv_bits [OF inv] by (intro page_inv_go [OF inv unmap(2)]) (auto simp: unmap(1))
next
  case (touch t flag f)
  show ?thesis using page_inv_bits [OF inv] touch(3,4)
    by (intro page_inv_go [OF inv touch(2)]) (auto simp: touch(1) set_flag_def clear_flag_def bit_simps)
qed

lemma page_reachable_inv:
  assumes "page_step\<^sup>*\<^sup>* s0 s" and "page_initial s0"
  shows "page_inv s"
  using assms
proof (induction rule: rtranclp_induct)
  case base
  then have pc: "ps_pc s0 = (\<lambda>_. Idle)" by (auto simp: page_initial_def)
  have "ps_flags s0 = PG_UPTODATE" "\<not> ps_unsaved s0" using base by (simp_all add: page_initial_def flags_for_state_def)
  then show ?case unfolding page_inv_def pc by simp
qed (rule page_step_inv)

definition fresh_page :: page_sync where
  "fresh_page = \<lparr>ps_flags = flags_for_state UpToDate, ps_pc = (\<lambda>_. Idle), ps_unsaved = False\<rparr>"

text \<open>
  C10. Writers, the writeback worker and shared-mapping faults never lose bytes of a cached page,
  in any interleaving of their atomic steps: in every reachable state, bytes the backend has not
  been given are marked dirty, or a writer is about to publish them, or the worker has claimed
  the page and not yet written it. Once every writer and worker is done, such a page can be
  claimed for writeback.
\<close>

theorem unsaved_bytes_kept:
  assumes "page_step\<^sup>*\<^sup>* fresh_page s" and "ps_unsaved s"
  shows "(test_flag PG_DIRTY (ps_flags s) \<or> (\<exists>t. ps_pc s t \<in> {Copied, Claimed, Cleaned})) \<and>
    ((\<forall>t. \<not> owns_page (ps_pc s t)) \<longrightarrow> fst (claim_writeback (ps_flags s)))"
proof -
  have inv: "page_inv s" using assms(1) by (rule page_reachable_inv) (simp add: page_initial_def fresh_page_def)
  have "bit (ps_flags s) 2 \<or> (\<exists>t. ps_pc s t \<in> {Copied, Claimed, Cleaned})" using inv assms(2) by (simp add: page_inv_def)
  moreover have "bit (ps_flags s) 2 \<and> \<not> bit (ps_flags s) 0" if "\<forall>t. \<not> owns_page (ps_pc s t)"
  proof -
    have "ps_pc s t \<notin> {Copied, Claimed, Cleaned}" for t using spec [OF that, of t] by auto
    with calculation that inv show ?thesis by (auto simp: page_inv_def)
  qed
  ultimately show ?thesis by (auto simp: test_flag_def claim_writeback_iff)
qed

theorem unsaved_bytes_kept_witness:
  "\<exists>s. page_step\<^sup>*\<^sup>* fresh_page s \<and> ps_unsaved s \<and> fst (claim_writeback (ps_flags s))"
proof -
  define s1 where "s1 = go 0 Leased (PG_UPTODATE OR PG_LOCKED OR PG_REFERENCED) fresh_page"
  define s2 where "s2 = go 0 Copied (ps_flags s1) (s1\<lparr>ps_unsaved := True\<rparr>)"
  define s3 where "s3 = go 0 Idle (snd (commit_write (ps_flags s2))) s2"
  have "try_lock_for_write (ps_flags fresh_page) = (Inr (Some False), PG_UPTODATE OR PG_LOCKED OR PG_REFERENCED)"
    by (simp add: try_lock_for_write_def decode_state_bits fresh_page_def flags_for_state_def)
  then have "page_step fresh_page s1"
    unfolding s1_def by (intro page_step.lock [of _ _ False]) (simp_all add: fresh_page_def)
  moreover have "page_step s1 s2" unfolding s2_def by (rule page_step.copy) (simp add: s1_def)
  moreover have "page_step s2 s3" unfolding s3_def by (rule page_step.commit) (simp add: s2_def)
  ultimately have r: "page_step\<^sup>*\<^sup>* fresh_page s3" by (meson converse_rtranclp_into_rtranclp rtranclp.rtrancl_refl)
  have u: "ps_unsaved s3" by (simp add: s3_def s2_def)
  have "ps_pc s3 = (\<lambda>_. Idle)" by (auto simp: s3_def s2_def s1_def fresh_page_def)
  then have "\<forall>t. \<not> owns_page (ps_pc s3 t)" by simp
  with unsaved_bytes_kept [OF r u] r u show ?thesis by blast
qed

text \<open>
  C26. A write fault of a shared mapping takes the write lease away from a writer that holds it:
  marking the page dirty rewrites the state bits without the lease bit, so writeback claims the
  page while the writer is still between its lease and its copy.
\<close>

theorem shared_fault_drops_lease:
  "\<exists>s. page_step\<^sup>*\<^sup>* fresh_page s \<and> ps_pc s 0 = Leased \<and> ps_pc s 2 = Claimed"
proof -
  define s1 where "s1 = go 0 Leased 35 fresh_page"
  define s2 where "s2 = go 1 Checked 35 s1"
  define s3 where "s3 = go 1 Mapped 38 s2"
  define s4 where "s4 = go 2 Claimed 43 s3"
  have "try_lock_for_write (ps_flags fresh_page) = (Inr (Some False), 35)"
    by (simp add: try_lock_for_write_def decode_state_def fresh_page_def flags_for_state_def PG_LOCKED_def PG_UPTODATE_def
        PG_DIRTY_def PG_WRITEBACK_def PG_ERROR_def PG_REFERENCED_def)
  then have "page_step fresh_page s1" unfolding s1_def by (intro page_step.lock [of _ _ False]) (simp_all add: fresh_page_def)
  moreover have d: "decode_state 35 = UpToDate"
    by (simp add: decode_state_def PG_LOCKED_def PG_UPTODATE_def PG_DIRTY_def PG_WRITEBACK_def PG_ERROR_def)
  have "page_step s1 s2" using page_step.check [of s1 1] unfolding s2_def by (simp add: s1_def fresh_page_def d)
  moreover have "page_step s2 s3" using page_step.mark [of s2 1] unfolding s3_def
    by (simp add: s2_def s1_def fresh_page_def mark_dirty_after_copy_def d compare_exchange_state_def flags_for_state_def
        PG_ORTHOGONAL_def PG_UPTODATE_def PG_DIRTY_def PG_REFERENCED_def PG_REDIRTIED_def PG_FILEMAP_READAHEAD_def)
  moreover have "page_step s3 s4" using page_step.claim [of s3 2 43] unfolding s4_def
    by (simp add: s3_def s2_def s1_def fresh_page_def claim_writeback_def PG_DIRTY_def PG_LOCKED_def PG_WRITEBACK_def)
  ultimately have "page_step\<^sup>*\<^sup>* fresh_page s4" by (meson converse_rtranclp_into_rtranclp rtranclp.rtrancl_refl)
  moreover have "ps_pc s4 0 = Leased" "ps_pc s4 2 = Claimed" by (simp_all add: s4_def s3_def s2_def s1_def)
  ultimately show ?thesis by blast
qed

end
