(* ===== verification/PageCache.thy ===== *)
theory PageCache
  imports PageEntry "HOL-Library.Monad_Syntax"
begin

text \<open>
  \<open>os/src/fs/page_cache.rs\<close>, part two: the cache of one inode, run by one thread at a time.
  The state a cache reaches outside itself is \<open>pc_world\<close>: its backend, the frames of the
  allocator and their bytes, the two global page counters, and the calls of \<open>mkclean_page\<close>
  into the mappings of the file (latest first). The backend is a record of the trait's
  operations over a state; the trait's default methods are written out. Locks, wait queues
  and performance counters are left out; where the code waits for other threads, the answer
  is an argument. The hook \<open>on_page_dirty\<close> keeps inodes alive and changes nothing here.

  File offsets stay far below \<open>2 ^ 64\<close>: arithmetic on them is written without wrap-around.
\<close>

section \<open>Backend and state\<close>

record 'b backend_ops =
  be_read_page :: "'b \<Rightarrow> usize \<Rightarrow> bytes \<Rightarrow> errno + bytes"
  be_write_page :: "'b \<Rightarrow> usize \<Rightarrow> bytes \<Rightarrow> (errno + usize) \<times> 'b"
  be_write_pages :: "'b \<Rightarrow> usize \<Rightarrow> bytes list \<Rightarrow> (errno + usize) \<times> 'b"
  be_read_pages :: "'b \<Rightarrow> usize \<Rightarrow> bytes list \<Rightarrow> errno + bytes list"
  be_read_contiguous :: "'b \<Rightarrow> usize \<Rightarrow> bytes list \<Rightarrow> errno + bytes list"
  be_npages :: "'b \<Rightarrow> usize"

text \<open>The default methods of the trait, over its \<open>read_page\<close> and \<open>write_page\<close>.\<close>

fun default_write_pages ::
  "('b \<Rightarrow> usize \<Rightarrow> bytes \<Rightarrow> (errno + usize) \<times> 'b) \<Rightarrow> usize \<Rightarrow> 'b \<Rightarrow> usize \<Rightarrow> bytes list \<Rightarrow> (errno + usize) \<times> 'b" where
  "default_write_pages wp written b i [] = (Inr written, b)"
| "default_write_pages wp written b i (p # ps) =
     (case wp b i p of
        (Inl e, b') \<Rightarrow> (Inl e, b')
      | (Inr n, b') \<Rightarrow> default_write_pages wp (written + n) b' (i + 1) ps)"

fun default_read_pages ::
  "('b \<Rightarrow> usize \<Rightarrow> bytes \<Rightarrow> errno + bytes) \<Rightarrow> 'b \<Rightarrow> usize \<Rightarrow> bytes list \<Rightarrow> errno + bytes list" where
  "default_read_pages rp b i [] = Inr []"
| "default_read_pages rp b i (p # ps) =
     (case rp b i p of
        Inl e \<Rightarrow> Inl e
      | Inr q \<Rightarrow> (case default_read_pages rp b (i + 1) ps of Inl e \<Rightarrow> Inl e | Inr qs \<Rightarrow> Inr (q # qs)))"

text \<open>The default \<open>read_contiguous\<close> walks its buffer page by page in the same way.\<close>

definition default_read_contiguous ::
  "('b \<Rightarrow> usize \<Rightarrow> bytes \<Rightarrow> errno + bytes) \<Rightarrow> 'b \<Rightarrow> usize \<Rightarrow> bytes list \<Rightarrow> errno + bytes list" where
  "default_read_contiguous rp b i buffer = default_read_pages rp b i buffer"

record PageCache =
  pc_entries :: "PageEntry option list"
  pc_pages :: "usize set"
  pc_unevictable :: bool
  pc_clock_hand :: usize
  pc_async_writeback :: bool
  pc_mutation_generation :: usize
  pc_state_generation :: usize
  pc_claims :: "usize set"

definition page_cache_new :: PageCache where
  "page_cache_new = \<lparr>pc_entries = [], pc_pages = {}, pc_unevictable = False, pc_clock_hand = 0,
     pc_async_writeback = False, pc_mutation_generation = 0, pc_state_generation = 0, pc_claims = {}\<rparr>"

record 'b pc_world =
  pw_cache :: PageCache
  pw_backend :: "'b option"
  pw_mem :: "ppn \<Rightarrow> bytes"
  pw_free :: "ppn list"
  pw_dirty :: usize
  pw_writeback :: usize
  pw_mkclean :: "(usize \<times> bool) list"

text \<open>Heap growth and reference counts are answers of the environment.\<close>

record pc_env =
  ce_reserve :: "usize \<Rightarrow> bool"
  ce_entry_refs :: "usize \<Rightarrow> nat"
  ce_frame_refs :: "ppn \<Rightarrow> nat"

definition zero_page :: bytes where "zero_page = (\<lambda>_. 0)"

definition cache_entry :: "PageCache \<Rightarrow> usize \<Rightarrow> PageEntry option" where
  "cache_entry pc i = (if i < length (pc_entries pc) then pc_entries pc ! i else None)"

definition cache_put :: "PageCache \<Rightarrow> usize \<Rightarrow> PageEntry \<Rightarrow> PageCache" where
  "cache_put pc i e = pc\<lparr>pc_entries := (pc_entries pc)[i := Some e]\<rparr>"

abbreviation pw_entry :: "'b pc_world \<Rightarrow> usize \<Rightarrow> PageEntry option" where
  "pw_entry w \<equiv> cache_entry (pw_cache w)"

definition pw_put :: "'b pc_world \<Rightarrow> usize \<Rightarrow> PageEntry \<Rightarrow> 'b pc_world" where
  "pw_put w i e = w\<lparr>pw_cache := cache_put (pw_cache w) i e\<rparr>"

definition pw_fill :: "'b pc_world \<Rightarrow> ppn \<Rightarrow> bytes \<Rightarrow> 'b pc_world" where
  "pw_fill w p b = w\<lparr>pw_mem := (pw_mem w)(p := b)\<rparr>"

definition count_dirty :: "'b pc_world \<Rightarrow> 'b pc_world" where
  "count_dirty w = w\<lparr>pw_dirty := wrapping_add (pw_dirty w) 1\<rparr>"

definition uncount_dirty :: "'b pc_world \<Rightarrow> 'b pc_world" where
  "uncount_dirty w = w\<lparr>pw_dirty := wrapping_sub (pw_dirty w) 1\<rparr>"

definition count_writeback :: "'b pc_world \<Rightarrow> 'b pc_world" where
  "count_writeback w = w\<lparr>pw_writeback := wrapping_add (pw_writeback w) 1\<rparr>"

definition uncount_writeback :: "'b pc_world \<Rightarrow> 'b pc_world" where
  "uncount_writeback w = w\<lparr>pw_writeback := wrapping_sub (pw_writeback w) 1\<rparr>"

definition pw_frame_alloc :: "'b pc_world \<Rightarrow> ppn option \<times> 'b pc_world" where
  "pw_frame_alloc w =
     (case pw_free w of
        [] \<Rightarrow> (None, w)
      | p # ps \<Rightarrow> (Some p, pw_fill (w\<lparr>pw_free := ps\<rparr>) p zero_page))"

definition notify_state_progress :: "'b pc_world \<Rightarrow> 'b pc_world" where
  "notify_state_progress w =
     w\<lparr>pw_cache := (pw_cache w)\<lparr>pc_state_generation := wrapping_add (pc_state_generation (pw_cache w)) 1\<rparr>\<rparr>"

definition mkclean_page :: "'b pc_world \<Rightarrow> usize \<Rightarrow> bool \<Rightarrow> 'b pc_world" where
  "mkclean_page w i unmap = w\<lparr>pw_mkclean := (i, unmap) # pw_mkclean w\<rparr>"

section \<open>Queries\<close>

definition cache_contains_page :: "PageCache \<Rightarrow> usize \<Rightarrow> bool" where
  "cache_contains_page pc i \<longleftrightarrow> i < length (pc_entries pc) \<and> pc_entries pc ! i \<noteq> None"

definition page_is_dirty :: "PageCache \<Rightarrow> usize \<Rightarrow> bool" where
  "page_is_dirty pc i \<longleftrightarrow> (case cache_entry pc i of None \<Rightarrow> False | Some e \<Rightarrow> test_flag PG_DIRTY (pe_flags e))"

definition entry_dirty :: "PageEntry option \<Rightarrow> bool" where
  "entry_dirty e \<longleftrightarrow> (case e of None \<Rightarrow> False | Some x \<Rightarrow> test_flag PG_DIRTY (pe_flags x))"

definition dirty_count :: "PageCache \<Rightarrow> usize" where
  "dirty_count pc = length (filter entry_dirty (pc_entries pc))"

definition cached_page_count :: "PageCache \<Rightarrow> usize" where
  "cached_page_count pc = length (filter (\<lambda>e. e \<noteq> None) (pc_entries pc))"

definition state_of :: "PageCache \<Rightarrow> usize \<Rightarrow> PageState option" where
  "state_of pc i = (if i \<ge> length (pc_entries pc) then None else map_option pe_state (pc_entries pc ! i))"

definition find_dirty_pages :: "PageCache \<Rightarrow> usize list" where
  "find_dirty_pages pc = filter (\<lambda>i. entry_dirty (pc_entries pc ! i)) [0..<length (pc_entries pc)]"

definition has_transient_pages :: "PageCache \<Rightarrow> usize \<Rightarrow> usize \<Rightarrow> bool" where
  "has_transient_pages pc start end0 =
     (let n = length (pc_entries pc); e = min end0 (n - 1) in
      if n = 0 \<or> start \<ge> n \<or> start > e then False
      else \<exists>i \<in> set [start..<Suc e].
        (case pc_entries pc ! i of None \<Rightarrow> False | Some x \<Rightarrow> pe_state x = Loading \<or> pe_state x = Writeback))"

definition cache_map_page :: "PageCache \<Rightarrow> usize \<Rightarrow> PageCache" where
  "cache_map_page pc i =
     (case cache_entry pc i of
        None \<Rightarrow> pc
      | Some e \<Rightarrow> cache_put pc i (e\<lparr>pe_map_count := wrapping_add (pe_map_count e) 1\<rparr>))"

definition cache_unmap_page :: "PageCache \<Rightarrow> usize \<Rightarrow> PageCache" where
  "cache_unmap_page pc i =
     (case cache_entry pc i of
        None \<Rightarrow> pc
      | Some e \<Rightarrow>
          (case checked_sub (pe_map_count e) 1 of
             None \<Rightarrow> pc
           | Some n \<Rightarrow> cache_put pc i (e\<lparr>pe_map_count := n\<rparr>)))"

definition cache_map_count :: "PageCache \<Rightarrow> usize \<Rightarrow> usize" where
  "cache_map_count pc i = (case cache_entry pc i of None \<Rightarrow> 0 | Some e \<Rightarrow> pe_map_count e)"

section \<open>Creating entries\<close>

text \<open>The directory grows to reach the index; an entry another creator published first stays.\<close>

definition publish :: "'b pc_world \<Rightarrow> usize \<Rightarrow> PageEntry \<Rightarrow> 'b pc_world" where
  "publish w i e =
     (let pc = pw_cache w;
          es = pc_entries pc @ replicate (Suc i - length (pc_entries pc)) None
      in if es ! i \<noteq> None then w\<lparr>pw_cache := pc\<lparr>pc_entries := es\<rparr>\<rparr>
         else w\<lparr>pw_cache := pc\<lparr>pc_entries := es[i := Some e], pc_pages := insert i (pc_pages pc)\<rparr>\<rparr>)"

definition pw_touch :: "'b pc_world \<Rightarrow> usize \<Rightarrow> (PageEntry \<Rightarrow> PageEntry) \<Rightarrow> 'b pc_world" where
  "pw_touch w i g = (case pw_entry w i of None \<Rightarrow> w | Some e \<Rightarrow> pw_put w i (g e))"

definition get_or_create_entry ::
  "'b backend_ops \<Rightarrow> 'b pc_world \<Rightarrow> usize \<Rightarrow> bool \<Rightarrow> usize option \<Rightarrow> (errno + unit) \<times> 'b pc_world" where
  "get_or_create_entry ops w i populate old_file_size =
     (let init_mask = (case old_file_size of None \<Rightarrow> 0 | Some s \<Rightarrow> initial_valid_mask i s);
          beyond_eof = (init_mask = VALID_ALL)
      in case pw_entry w i of
           Some e \<Rightarrow> (Inr (), pw_put w i (mark_referenced e))
         | None \<Rightarrow>
             (case pw_frame_alloc w of
                (None, w1) \<Rightarrow> (Inl ENOMEM, w1)
              | (Some p, w1) \<Rightarrow>
                  if populate \<and> \<not> beyond_eof
                  then (let e = entry_new p UpToDate;
                            e' = e\<lparr>pe_valid_mask := pe_valid_mask e OR init_mask\<rparr>
                        in case pw_backend w1 of
                             None \<Rightarrow> (Inr (), pw_touch (publish w1 i e') i mark_referenced)
                           | Some b \<Rightarrow>
                               (case be_read_page ops b i (pw_mem w1 p) of
                                  Inl err \<Rightarrow> (Inl err, w1)
                                | Inr buf \<Rightarrow> (Inr (), pw_touch (publish (pw_fill w1 p buf) i e') i mark_referenced)))
                  else if beyond_eof
                  then (Inr (), pw_touch (publish w1 i (new_with_valid_mask p VALID_ALL)) i mark_referenced)
                  else (Inr (), pw_touch (publish w1 i (entry_new p UpToDate)) i mark_referenced)))"

definition get_page_for_read ::
  "'b backend_ops \<Rightarrow> 'b pc_world \<Rightarrow> usize \<Rightarrow> (errno + unit) \<times> 'b pc_world" where
  "get_page_for_read ops w i =
     (case get_or_create_entry ops w i True None of
        (Inl e, w1) \<Rightarrow> (Inl e, w1)
      | (Inr _, w1) \<Rightarrow> (Inr (), pw_touch w1 i consume_filemap_readahead))"

definition get_page_for_write_populate ::
  "'b backend_ops \<Rightarrow> 'b pc_world \<Rightarrow> usize \<Rightarrow> usize option \<Rightarrow> bool \<Rightarrow> (errno + unit) \<times> 'b pc_world" where
  "get_page_for_write_populate ops w i old_file_size full_overwrite =
     (let beyond_eof = (case old_file_size of None \<Rightarrow> False | Some s \<Rightarrow> i * PAGE_SIZE \<ge> s);
          populate = (\<not> full_overwrite \<and> \<not> beyond_eof)
      in case get_or_create_entry ops w i populate old_file_size of
           (Inl e, w1) \<Rightarrow> (Inl e, w1)
         | (Inr _, w1) \<Rightarrow> (Inr (), pw_touch w1 i consume_filemap_readahead))"

definition ensure_fully_valid ::
  "'b backend_ops \<Rightarrow> 'b pc_world \<Rightarrow> usize \<Rightarrow> (errno + unit) \<times> 'b pc_world" where
  "ensure_fully_valid ops w i =
     (case pw_entry w i of
        None \<Rightarrow> (Inr (), w)
      | Some e \<Rightarrow>
          if is_fully_valid e then (Inr (), w)
          else case pw_backend w of
            None \<Rightarrow> (Inr (), pw_put w i (mark_fully_valid e))
          | Some b \<Rightarrow>
              (case be_read_page ops b i zero_page of
                 Inl err \<Rightarrow> (Inl err, w)
               | Inr temp \<Rightarrow>
                   (let old = pw_mem w (pe_page e);
                        merged = (\<lambda>j. if j < PAGE_SIZE \<and> \<not> bit (pe_valid_mask e) (j div 2 ^ VALID_SEG_SHIFT) then temp j else old j)
                    in (Inr (), pw_put (pw_fill w (pe_page e) merged) i (mark_fully_valid e)))))"

section \<open>Reading\<close>

record read_copy =
  rc_page :: usize
  rc_dst_offset :: usize
  rc_page_offset :: usize
  rc_len :: usize

record ReadPlan =
  rp_copies :: "read_copy list"
  rp_miss_runs :: "(usize \<times> usize) list"
  rp_needs_valid_fill :: "usize list"

definition add_miss :: "(usize \<times> usize) list \<Rightarrow> usize \<Rightarrow> (usize \<times> usize) list" where
  "add_miss runs i =
     (if runs = [] then [(i, 1)]
      else let (s, n) = last runs in if s + n = i then butlast runs @ [(s, n + 1)] else runs @ [(i, 1)])"

definition plan_page :: "usize \<Rightarrow> usize \<Rightarrow> 'b pc_world \<times> ReadPlan \<Rightarrow> usize \<Rightarrow> 'b pc_world \<times> ReadPlan" where
  "plan_page offset len = (\<lambda>(w, plan) i.
     let page_start = i * PAGE_SIZE;
         read_start = max offset page_start;
         read_end = min (offset + len) (page_start + PAGE_SIZE)
     in if read_end \<le> read_start then (w, plan)
        else case pw_entry w i of
          Some e \<Rightarrow>
            let w1 = pw_put w i (mark_referenced e) in
            if is_fully_valid e
            then (w1, plan\<lparr>rp_copies := rp_copies plan @
                   [\<lparr>rc_page = i, rc_dst_offset = read_start - offset, rc_page_offset = read_start - page_start,
                     rc_len = read_end - read_start\<rparr>]\<rparr>)
            else (w1, plan\<lparr>rp_needs_valid_fill := rp_needs_valid_fill plan @ [i]\<rparr>)
        | None \<Rightarrow> (w, plan\<lparr>rp_miss_runs := add_miss (rp_miss_runs plan) i\<rparr>))"

definition lookup_read_range_fast ::
  "'b pc_world \<Rightarrow> usize \<Rightarrow> usize \<Rightarrow> usize \<Rightarrow> usize \<Rightarrow> 'b pc_world \<times> ReadPlan" where
  "lookup_read_range_fast w offset len start_page end_page =
     foldl (plan_page offset len) (w, \<lparr>rp_copies = [], rp_miss_runs = [], rp_needs_valid_fill = []\<rparr>)
       [start_page..<Suc end_page]"

definition MAX_DEMAND_READ_PAGES :: usize where "MAX_DEMAND_READ_PAGES = 32"
definition MAX_BATCH_READ_PAGES :: usize where "MAX_BATCH_READ_PAGES = 256"

fun alloc_frames :: "nat \<Rightarrow> 'b pc_world \<Rightarrow> ppn list option \<times> 'b pc_world" where
  "alloc_frames 0 w = (Some [], w)"
| "alloc_frames (Suc n) w =
     (case pw_frame_alloc w of
        (None, w1) \<Rightarrow> (None, w1)
      | (Some p, w1) \<Rightarrow>
          (case alloc_frames n w1 of
             (None, w2) \<Rightarrow> (None, w2)
           | (Some ps, w2) \<Rightarrow> (Some (p # ps), w2)))"

text \<open>The pages of a run, read in bounded pieces; pages past the backend's end are zero.\<close>

function read_run ::
  "pc_env \<Rightarrow> 'b backend_ops \<Rightarrow> 'b \<Rightarrow> usize \<Rightarrow> usize \<Rightarrow> usize \<Rightarrow> errno + bytes list" where
  "read_run env ops b npages first count =
     (if count = 0 then Inr []
      else
        let chunk = min count MAX_DEMAND_READ_PAGES;
            readable = (if first < npages then min chunk (npages - first) else 0)
        in if \<not> ce_reserve env (chunk * PAGE_SIZE) then Inl ENOMEM
           else case (if readable \<noteq> 0 then be_read_contiguous ops b first (replicate readable zero_page) else Inr []) of
             Inl e \<Rightarrow> Inl e
           | Inr pages \<Rightarrow>
               (case read_run env ops b npages (first + chunk) (count - chunk) of
                  Inl e \<Rightarrow> Inl e
                | Inr rest \<Rightarrow> Inr (pages @ replicate (chunk - readable) zero_page @ rest)))"
  by pat_completeness auto
termination
  by (relation "measure (\<lambda>(_, _, _, _, _, count). count)") (auto simp: MAX_DEMAND_READ_PAGES_def)

fun publish_run :: "'b pc_world \<Rightarrow> usize \<Rightarrow> ppn list \<Rightarrow> 'b pc_world" where
  "publish_run w i [] = w"
| "publish_run w i (p # ps) = publish_run (publish w i (entry_new p UpToDate)) (i + 1) ps"

fun fill_frames :: "'b pc_world \<Rightarrow> ppn list \<Rightarrow> bytes list \<Rightarrow> 'b pc_world" where
  "fill_frames w (p # ps) (b # bs) = fill_frames (pw_fill w p b) ps bs"
| "fill_frames w _ _ = w"

fun fill_miss_runs_loop ::
  "pc_env \<Rightarrow> 'b backend_ops \<Rightarrow> usize \<Rightarrow> 'b \<Rightarrow> 'b pc_world \<Rightarrow> (usize \<times> usize) list \<Rightarrow> (errno + unit) \<times> 'b pc_world" where
  "fill_miss_runs_loop env ops generation b w [] = (Inr (), w)"
| "fill_miss_runs_loop env ops generation b w ((start, count) # runs) =
     (case alloc_frames count w of
        (None, w1) \<Rightarrow> (Inl ENOMEM, w1)
      | (Some ps, w1) \<Rightarrow>
          (case read_run env ops b (be_npages ops b) start count of
             Inl e \<Rightarrow> (Inl e, w1)
           | Inr pages \<Rightarrow>
               (let w2 = fill_frames w1 ps pages in
                if generation \<noteq> pc_mutation_generation (pw_cache w2) then (Inl EAGAIN, w2)
                else fill_miss_runs_loop env ops generation b (publish_run w2 start ps) runs)))"

definition fill_miss_runs ::
  "pc_env \<Rightarrow> 'b backend_ops \<Rightarrow> 'b pc_world \<Rightarrow> (usize \<times> usize) list \<Rightarrow> (errno + unit) \<times> 'b pc_world" where
  "fill_miss_runs env ops w runs =
     (case pw_backend w of
        None \<Rightarrow> (Inl EIO, w)
      | Some b \<Rightarrow> fill_miss_runs_loop env ops (pc_mutation_generation (pw_cache w)) b w runs)"

definition entry_bytes :: "'b pc_world \<Rightarrow> usize \<Rightarrow> bytes" where
  "entry_bytes w i = (case pw_entry w i of None \<Rightarrow> zero_page | Some e \<Rightarrow> pw_mem w (pe_page e))"

definition run_copies :: "'b pc_world \<Rightarrow> read_copy list \<Rightarrow> bytes \<Rightarrow> bytes" where
  "run_copies w copies buf =
     foldl (\<lambda>b c. copy_slice b (rc_dst_offset c) (rc_len c) (entry_bytes w (rc_page c)) (rc_page_offset c)) buf copies"

fun ensure_each :: "'b backend_ops \<Rightarrow> 'b pc_world \<Rightarrow> usize list \<Rightarrow> (errno + unit) \<times> 'b pc_world" where
  "ensure_each ops w [] = (Inr (), w)"
| "ensure_each ops w (i # is) =
     (case ensure_fully_valid ops w i of
        (Inl e, w1) \<Rightarrow> (Inl e, w1)
      | (Inr _, w1) \<Rightarrow> ensure_each ops w1 is)"

text \<open>The page-by-page fallback: first collect every page, then copy.\<close>

fun collect_pages ::
  "'b backend_ops \<Rightarrow> usize \<Rightarrow> usize \<Rightarrow> 'b pc_world \<Rightarrow> usize list \<Rightarrow> (errno + read_copy list) \<times> 'b pc_world" where
  "collect_pages ops offset len w [] = (Inr [], w)"
| "collect_pages ops offset len w (i # is) =
     (let page_start = i * PAGE_SIZE;
          read_start = max offset page_start;
          read_end = min (offset + len) (page_start + PAGE_SIZE);
          sub_len = saturating_sub read_end read_start
      in if sub_len = 0 then collect_pages ops offset len w is
         else case get_page_for_read ops w i of
           (Inl e, w1) \<Rightarrow> (Inl e, w1)
         | (Inr _, w1) \<Rightarrow>
             (case ensure_fully_valid ops w1 i of
                (Inl e, w2) \<Rightarrow> (Inl e, w2)
              | (Inr _, w2) \<Rightarrow>
                  (case collect_pages ops offset len w2 is of
                     (Inl e, w3) \<Rightarrow> (Inl e, w3)
                   | (Inr cs, w3) \<Rightarrow>
                       (Inr (\<lparr>rc_page = i, rc_dst_offset = 0, rc_page_offset = read_start - page_start, rc_len = sub_len\<rparr> # cs), w3))))"

fun copy_collected :: "'b pc_world \<Rightarrow> usize \<Rightarrow> read_copy list \<Rightarrow> bytes \<Rightarrow> usize \<times> bytes" where
  "copy_collected w dst_offset [] buf = (dst_offset, buf)"
| "copy_collected w dst_offset (c # cs) buf =
     copy_collected w (dst_offset + rc_len c) cs
       (copy_slice buf dst_offset (rc_len c) (entry_bytes w (rc_page c)) (rc_page_offset c))"

definition read_single ::
  "'b backend_ops \<Rightarrow> 'b pc_world \<Rightarrow> usize \<Rightarrow> usize \<Rightarrow> bytes \<Rightarrow> (errno + usize) \<times> bytes \<times> 'b pc_world" where
  "read_single ops w offset len buf =
     (let i = offset div PAGE_SIZE;
          po = offset - i * PAGE_SIZE;
          sub_len = min len (PAGE_SIZE - po)
      in case get_page_for_read ops w i of
           (Inl e, w1) \<Rightarrow> (Inl e, buf, w1)
         | (Inr _, w1) \<Rightarrow>
             (case ensure_fully_valid ops w1 i of
                (Inl e, w2) \<Rightarrow> (Inl e, buf, w2)
              | (Inr _, w2) \<Rightarrow> (Inr sub_len, copy_slice buf 0 sub_len (entry_bytes w2 i) po, w2)))"

function read_multi ::
  "pc_env \<Rightarrow> 'b backend_ops \<Rightarrow> bool \<Rightarrow> 'b pc_world \<Rightarrow> usize \<Rightarrow> usize \<Rightarrow> bytes \<Rightarrow> (errno + usize) \<times> bytes \<times> 'b pc_world" where
  "read_multi env ops retried w offset len buf =
     (let start_page = offset div PAGE_SIZE;
          end_page = (offset + len - 1) div PAGE_SIZE;
          (w1, plan) = lookup_read_range_fast w offset len start_page end_page
      in if rp_miss_runs plan = [] \<and> rp_needs_valid_fill plan = []
         then (Inr len, run_copies w1 (rp_copies plan) buf, w1)
         else if retried
         then (case collect_pages ops offset len w1 [start_page..<Suc end_page] of
                 (Inl e, w2) \<Rightarrow> (Inl e, buf, w2)
               | (Inr cs, w2) \<Rightarrow>
                   (let (total, buf') = copy_collected w2 0 cs buf in (Inr total, buf', w2)))
         else case ensure_each ops w1 (rp_needs_valid_fill plan) of
           (Inl e, w2) \<Rightarrow> (Inl e, buf, w2)
         | (Inr _, w2) \<Rightarrow>
             (case (if rp_miss_runs plan \<noteq> [] then fill_miss_runs env ops w2 (rp_miss_runs plan) else (Inr (), w2)) of
                (Inl e, w3) \<Rightarrow> (Inl e, buf, w3)
              | (Inr _, w3) \<Rightarrow> read_multi env ops True w3 offset len buf))"
  by pat_completeness auto
termination
  by (relation "measure (\<lambda>(_, _, retried, _). if retried then 0 else 1)") auto

definition read_kernel ::
  "pc_env \<Rightarrow> 'b backend_ops \<Rightarrow> 'b pc_world \<Rightarrow> usize \<Rightarrow> usize \<Rightarrow> bytes \<Rightarrow> (errno + usize) \<times> bytes \<times> 'b pc_world" where
  "read_kernel env ops w offset len buf =
     (if len = 0 then (Inr 0, buf, w)
      else if offset div PAGE_SIZE = (offset + len - 1) div PAGE_SIZE then read_single ops w offset len buf
      else read_multi env ops False w offset len buf)"

end
