(* ===== verification/PageCacheOps.thy ===== *)
theory PageCacheOps
  imports PageCache
begin

text \<open>
  \<open>os/src/fs/page_cache.rs\<close>, part three: writing, writeback, truncation, eviction, read-ahead
  and the admission of pages to file mappings that never starts I/O.
\<close>

section \<open>Writing\<close>

datatype WriteAttemptError = WaBusy usize | WaError errno

record copy_item =
  ci_page :: usize
  ci_page_offset :: usize
  ci_len :: usize
  ci_was_dirty :: bool

definition lock_entry :: "'b pc_world \<Rightarrow> usize \<Rightarrow> (errno + bool option) \<times> 'b pc_world" where
  "lock_entry w i =
     (case pw_entry w i of
        None \<Rightarrow> (Inr None, w)
      | Some e \<Rightarrow> (let (r, f) = try_lock_for_write (pe_flags e) in (r, pw_put w i (e\<lparr>pe_flags := f\<rparr>))))"

definition abort_items :: "'b pc_world \<Rightarrow> copy_item list \<Rightarrow> 'b pc_world" where
  "abort_items w items = foldl (\<lambda>w c. pw_touch w (ci_page c) (on_flags abort_write)) w items"

text \<open>
  Copy into the leased page, mark the range valid and publish it as dirty. The variant the
  user copy calls, \<open>mark_valid\<close>, leaves the same mask.
\<close>

definition commit_item :: "'b pc_world \<Rightarrow> copy_item \<Rightarrow> bytes \<Rightarrow> nat \<Rightarrow> 'b pc_world" where
  "commit_item w c src src_offset =
     (case pw_entry w (ci_page c) of
        None \<Rightarrow> w
      | Some e \<Rightarrow>
          (let w1 = pw_fill w (pe_page e)
                      (copy_slice (pw_mem w (pe_page e)) (ci_page_offset c) (ci_len c) src src_offset);
               (_, e1) = mark_valid_and_check_full (ci_page_offset c) (ci_len c) e;
               (became, f) = commit_write (pe_flags e1);
               w2 = pw_put w1 (ci_page c) (e1\<lparr>pe_flags := f\<rparr>)
           in if became \<and> \<not> ci_was_dirty c then count_dirty w2 else w2))"

definition write_single ::
  "'b backend_ops \<Rightarrow> (usize \<Rightarrow> errno + unit) \<Rightarrow> 'b pc_world \<Rightarrow> usize \<Rightarrow> usize \<Rightarrow> bytes \<Rightarrow> usize option \<Rightarrow>
     (WriteAttemptError + usize) \<times> 'b pc_world" where
  "write_single ops before_copy w offset len src old_file_size =
     (let i = offset div PAGE_SIZE;
          po = offset - i * PAGE_SIZE;
          sub_len = min len (PAGE_SIZE - po);
          full = (po = 0 \<and> sub_len = PAGE_SIZE)
      in case get_page_for_write_populate ops w i old_file_size full of
           (Inl e, w1) \<Rightarrow> (Inl (WaError e), w1)
         | (Inr _, w1) \<Rightarrow>
             (case lock_entry w1 i of
                (Inl e, w2) \<Rightarrow> (Inl (WaError e), w2)
              | (Inr None, w2) \<Rightarrow> (Inl (WaBusy i), w2)
              | (Inr (Some was_dirty), w2) \<Rightarrow>
                  (let c = \<lparr>ci_page = i, ci_page_offset = po, ci_len = sub_len, ci_was_dirty = was_dirty\<rparr>
                   in case before_copy sub_len of
                        Inl e \<Rightarrow> (Inl (WaError e), abort_items w2 [c])
                      | Inr _ \<Rightarrow> (Inr sub_len, commit_item w2 c src 0))))"

fun lease_pages ::
  "'b backend_ops \<Rightarrow> usize \<Rightarrow> usize \<Rightarrow> usize option \<Rightarrow> copy_item list \<Rightarrow> 'b pc_world \<Rightarrow> usize list \<Rightarrow>
     (WriteAttemptError + copy_item list) \<times> 'b pc_world" where
  "lease_pages ops offset len old_file_size copies w [] = (Inr copies, w)"
| "lease_pages ops offset len old_file_size copies w (i # is) =
     (let page_start = i * PAGE_SIZE;
          write_start = max offset page_start;
          write_end = min (offset + len) (page_start + PAGE_SIZE);
          sub_len = saturating_sub write_end write_start;
          po = write_start - page_start;
          full = (po = 0 \<and> sub_len = PAGE_SIZE)
      in if sub_len = 0 then lease_pages ops offset len old_file_size copies w is
         else case get_page_for_write_populate ops w i old_file_size full of
           (Inl e, w1) \<Rightarrow> (Inl (WaError e), abort_items w1 copies)
         | (Inr _, w1) \<Rightarrow>
             (case lock_entry w1 i of
                (Inl e, w2) \<Rightarrow> (Inl (WaError e), abort_items w2 copies)
              | (Inr None, w2) \<Rightarrow> (Inl (WaBusy i), abort_items w2 copies)
              | (Inr (Some was_dirty), w2) \<Rightarrow>
                  lease_pages ops offset len old_file_size
                    (copies @ [\<lparr>ci_page = i, ci_page_offset = po, ci_len = sub_len, ci_was_dirty = was_dirty\<rparr>]) w2 is))"

fun commit_items :: "'b pc_world \<Rightarrow> copy_item list \<Rightarrow> bytes \<Rightarrow> nat \<Rightarrow> 'b pc_world" where
  "commit_items w [] src src_offset = w"
| "commit_items w (c # cs) src src_offset =
     commit_items (commit_item w c src src_offset) cs src (src_offset + ci_len c)"

definition write_multi ::
  "'b backend_ops \<Rightarrow> (usize \<Rightarrow> errno + unit) \<Rightarrow> 'b pc_world \<Rightarrow> usize \<Rightarrow> usize \<Rightarrow> bytes \<Rightarrow> usize option \<Rightarrow>
     (WriteAttemptError + usize) \<times> 'b pc_world" where
  "write_multi ops before_copy w offset len src old_file_size =
     (case lease_pages ops offset len old_file_size [] w
             [offset div PAGE_SIZE..<Suc ((offset + len - 1) div PAGE_SIZE)] of
        (Inl e, w1) \<Rightarrow> (Inl e, w1)
      | (Inr copies, w1) \<Rightarrow>
          (let written = sum_list (map ci_len copies) in
           case before_copy written of
             Inl e \<Rightarrow> (Inl (WaError e), abort_items w1 copies)
           | Inr _ \<Rightarrow> (Inr written, commit_items w1 copies src 0)))"

definition write_kernel_body ::
  "'b backend_ops \<Rightarrow> (usize \<Rightarrow> errno + unit) \<Rightarrow> 'b pc_world \<Rightarrow> usize \<Rightarrow> usize \<Rightarrow> bytes \<Rightarrow> usize option \<Rightarrow>
     (WriteAttemptError + usize) \<times> 'b pc_world" where
  "write_kernel_body ops before_copy w offset len src old_file_size =
     (if len = 0 then (Inr 0, w)
      else if offset div PAGE_SIZE = (offset + len - 1) div PAGE_SIZE
      then write_single ops before_copy w offset len src old_file_size
      else write_multi ops before_copy w offset len src old_file_size)"

text \<open>
  The direct copy from user memory. \<open>copyin off n\<close> is the answer of the copy that may not
  fault: the bytes it could copy (at most \<open>n\<close>), or an error after copying none.
\<close>

fun user_commit ::
  "(usize \<Rightarrow> usize \<Rightarrow> unit + u8 list) \<Rightarrow> usize \<Rightarrow> usize \<Rightarrow> 'b pc_world \<Rightarrow> copy_item list \<Rightarrow>
     (WriteAttemptError + usize) \<times> 'b pc_world" where
  "user_commit copyin user_offset written w [] = (Inr written, w)"
| "user_commit copyin user_offset written w (c # cs) =
     (case copyin user_offset (ci_len c) of
        Inl _ \<Rightarrow>
          ((if written = 0 then Inl (WaError EFAULT) else Inr written), abort_items w (c # cs))
      | Inr got \<Rightarrow>
          (let n = length got;
               c' = c\<lparr>ci_len := n\<rparr>;
               w1 = (if n \<noteq> 0 then commit_item w c' (\<lambda>k. got ! k) 0 else w);
               written' = written + n
           in if n \<noteq> ci_len c
              then ((if written' = 0 then Inl (WaError EFAULT) else Inr written'),
                    abort_items (if n = 0 then abort_items w1 [c] else w1) cs)
              else user_commit copyin (user_offset + ci_len c) written' w1 cs))"

definition write_at_user_body ::
  "'b backend_ops \<Rightarrow> (usize \<Rightarrow> usize \<Rightarrow> unit + u8 list) \<Rightarrow> 'b pc_world \<Rightarrow> usize \<Rightarrow> usize \<Rightarrow> usize \<Rightarrow>
     (WriteAttemptError + usize) \<times> 'b pc_world" where
  "write_at_user_body ops copyin w offset len old_size =
     (case checked_add offset len of
        None \<Rightarrow> (Inl (WaError EFBIG), w)
      | Some end0 \<Rightarrow>
          (case lease_pages ops offset len (Some old_size) [] w
                  [offset div PAGE_SIZE..<Suc ((end0 - 1) div PAGE_SIZE)] of
             (Inl e, w1) \<Rightarrow> (Inl e, w1)
           | (Inr copies, w1) \<Rightarrow> user_commit copyin 0 0 w1 copies))"

section \<open>Writeback\<close>

definition claim_entry :: "'b pc_world \<Rightarrow> usize \<Rightarrow> bool \<times> 'b pc_world" where
  "claim_entry w i =
     (case pw_entry w i of
        None \<Rightarrow> (False, w)
      | Some e \<Rightarrow>
          (let (ok, f) = claim_writeback (pe_flags e) in
           if ok then (True, count_writeback (uncount_dirty (pw_put w i (e\<lparr>pe_flags := f\<rparr>)))) else (False, w)))"

definition restore_entry :: "'b pc_world \<Rightarrow> usize \<Rightarrow> 'b pc_world" where
  "restore_entry w i =
     uncount_writeback (count_dirty (pw_touch w i (on_flags restore_dirty_after_writeback)))"

definition complete_entry :: "'b pc_world \<Rightarrow> usize \<Rightarrow> 'b pc_world" where
  "complete_entry w i =
     (case pw_entry w i of
        None \<Rightarrow> w
      | Some e \<Rightarrow>
          (let (redirtied, f) = complete_writeback (pe_flags e);
               w1 = pw_put w i (e\<lparr>pe_flags := f\<rparr>)
           in uncount_writeback (if redirtied then count_dirty w1 else w1)))"

definition writeback_page :: "'b backend_ops \<Rightarrow> 'b pc_world \<Rightarrow> usize \<Rightarrow> (errno + unit) \<times> 'b pc_world" where
  "writeback_page ops w i =
     (case claim_entry w i of
        (False, w1) \<Rightarrow> (Inr (), w1)
      | (True, w1) \<Rightarrow>
          (case pw_backend w1 of
             None \<Rightarrow> (Inr (), notify_state_progress (complete_entry w1 i))
           | Some b \<Rightarrow>
               (case ensure_fully_valid ops w1 i of
                  (Inl e, w2) \<Rightarrow> (Inl e, notify_state_progress (restore_entry w2 i))
                | (Inr _, w2) \<Rightarrow>
                    (let w3 = mkclean_page w2 i False in
                     case be_write_page ops b i (entry_bytes w3 i) of
                       (Inr _, b') \<Rightarrow> (Inr (), notify_state_progress (complete_entry (w3\<lparr>pw_backend := Some b'\<rparr>) i))
                     | (Inl e, b') \<Rightarrow> (Inl e, notify_state_progress (restore_entry (w3\<lparr>pw_backend := Some b'\<rparr>) i))))))"

fun claim_each :: "'b pc_world \<Rightarrow> usize list \<Rightarrow> usize list \<times> 'b pc_world" where
  "claim_each w [] = ([], w)"
| "claim_each w (i # is) =
     (let (ok, w1) = claim_entry w i; (got, w2) = claim_each w1 is in (if ok then i # got else got, w2))"

definition restore_dirty :: "'b pc_world \<Rightarrow> usize list \<Rightarrow> 'b pc_world" where
  "restore_dirty w is = notify_state_progress (foldl restore_entry w is)"

definition complete_run :: "'b pc_world \<Rightarrow> usize list \<Rightarrow> 'b pc_world" where
  "complete_run w is = notify_state_progress (foldl complete_entry w is)"

text \<open>The longest prefix of consecutive page numbers, at most \<open>n\<close> long.\<close>

fun take_run :: "nat \<Rightarrow> usize list \<Rightarrow> usize list" where
  "take_run n [] = []"
| "take_run n [i] = [i]"
| "take_run n (i # j # is) = (if 1 < n \<and> j = i + 1 then i # take_run (n - 1) (j # is) else [i])"

lemma take_run_length: "is \<noteq> [] \<Longrightarrow> 0 < length (take_run n is) \<and> length (take_run n is) \<le> length is"
  by (induction n "is" rule: take_run.induct) auto

function write_runs :: "'b backend_ops \<Rightarrow> 'b pc_world \<Rightarrow> usize list \<Rightarrow> (errno + unit) \<times> 'b pc_world" where
  "write_runs ops w is =
     (if is = [] then (Inr (), w)
      else case pw_backend w of
        None \<Rightarrow> (Inr (), complete_run w is)
      | Some b \<Rightarrow>
          (let run = take_run (length is) is in
           case be_write_pages ops b (hd run) (map (entry_bytes w) run) of
             (Inr _, b') \<Rightarrow> write_runs ops (complete_run (w\<lparr>pw_backend := Some b'\<rparr>) run) (drop (length run) is)
           | (Inl e, b') \<Rightarrow> (Inl e, restore_dirty (w\<lparr>pw_backend := Some b'\<rparr>) is)))"
  by pat_completeness auto
termination
proof (relation "measure (\<lambda>(_, _, is). length is)")
  fix ops :: "'b backend_ops" and w :: "'b pc_world" and "is" :: "usize list" and b run x y xa
  assume "is \<noteq> []" and "run = take_run (length is) is"
  then show "((ops, complete_run (w\<lparr>pw_backend := Some y\<rparr>) run, drop (length run) is), ops, w, is)
      \<in> measure (\<lambda>(_, _, is). length is)"
    using take_run_length [of "is" "length is"] by (cases "is") auto
qed simp

definition writeback_pages_run ::
  "'b backend_ops \<Rightarrow> 'b pc_world \<Rightarrow> usize \<Rightarrow> usize \<Rightarrow> (errno + unit) \<times> 'b pc_world" where
  "writeback_pages_run ops w start count =
     (let (got, w1) = claim_each w [start..<min (start + count) (length (pc_entries (pw_cache w)))] in
      if got = [] then (Inr (), w1)
      else case ensure_each ops w1 got of
        (Inl e, w2) \<Rightarrow> (Inl e, restore_dirty w2 got)
      | (Inr _, w2) \<Rightarrow> write_runs ops (foldl (\<lambda>w i. mkclean_page w i False) w2 got) got)"

definition MAX_WRITEBACK_PAGES :: usize where "MAX_WRITEBACK_PAGES = 256"

function writeback_list :: "'b backend_ops \<Rightarrow> 'b pc_world \<Rightarrow> usize list \<Rightarrow> (errno + unit) \<times> 'b pc_world" where
  "writeback_list ops w is =
     (if is = [] then (Inr (), w)
      else
        let run = take_run MAX_WRITEBACK_PAGES is in
        case writeback_pages_run ops w (hd run) (length run) of
          (Inl e, w1) \<Rightarrow> (Inl e, w1)
        | (Inr _, w1) \<Rightarrow> writeback_list ops w1 (drop (length run) is))"
  by pat_completeness auto
termination
proof (relation "measure (\<lambda>(_, _, is). length is)")
  fix ops :: "'b backend_ops" and w :: "'b pc_world" and "is" :: "usize list" and run xa y x
  assume "is \<noteq> []" and "run = take_run MAX_WRITEBACK_PAGES is"
  then show "((ops, y, drop (length run) is), ops, w, is) \<in> measure (\<lambda>(_, _, is). length is)"
    using take_run_length [of "is" MAX_WRITEBACK_PAGES] by (cases "is") auto
qed simp

text \<open>
  \<open>writeback_range\<close> (and \<open>writeback_all\<close>, over every page) repeats until nothing in the range
  is dirty; it waits while pages are loading or being written by others. \<open>wait\<close> is what the
  world looks like after the wait, or the error of an interrupted one.
\<close>

partial_function (option) writeback_range ::
  "'b backend_ops \<Rightarrow> ('b pc_world \<Rightarrow> errno + 'b pc_world) \<Rightarrow> usize \<Rightarrow> usize \<Rightarrow> 'b pc_world \<Rightarrow>
     ((errno + unit) \<times> 'b pc_world) option" where
  "writeback_range ops wait start_index end_index w =
     (let dirty = filter (\<lambda>i. start_index \<le> i \<and> i \<le> end_index) (find_dirty_pages (pw_cache w)) in
      if dirty = []
      then if \<not> has_transient_pages (pw_cache w) start_index end_index then Some (Inr (), w)
           else (case wait w of
                   Inl e \<Rightarrow> Some (Inl e, w)
                 | Inr w1 \<Rightarrow> writeback_range ops wait start_index end_index w1)
      else case writeback_list ops w dirty of
        (Inl e, w1) \<Rightarrow> Some (Inl e, w1)
      | (Inr _, w1) \<Rightarrow> writeback_range ops wait start_index end_index w1)"

definition writeback_all ::
  "'b backend_ops \<Rightarrow> ('b pc_world \<Rightarrow> errno + 'b pc_world) \<Rightarrow> 'b pc_world \<Rightarrow> ((errno + unit) \<times> 'b pc_world) option" where
  "writeback_all ops wait w = writeback_range ops wait 0 USIZE_MAX w"

function writeback_some_loop ::
  "'b backend_ops \<Rightarrow> usize \<Rightarrow> usize \<Rightarrow> 'b pc_world \<Rightarrow> usize list \<Rightarrow> (errno + usize) \<times> 'b pc_world" where
  "writeback_some_loop ops budget written w is =
     (if is = [] \<or> written \<ge> budget then (Inr written, w)
      else
        let run = take_run (min (budget - written) MAX_WRITEBACK_PAGES) is in
        case writeback_pages_run ops w (hd run) (length run) of
          (Inl e, w1) \<Rightarrow> (Inl e, w1)
        | (Inr _, w1) \<Rightarrow> writeback_some_loop ops budget (written + length run) w1 (drop (length run) is))"
  by pat_completeness auto
termination
proof (relation "measure (\<lambda>(_, _, _, _, is). length is)")
  fix ops :: "'b backend_ops" and budget written :: usize and w :: "'b pc_world" and "is" :: "usize list" and run xa y x
  assume "\<not> (is = [] \<or> budget \<le> written)" and "run = take_run (min (budget - written) MAX_WRITEBACK_PAGES) is"
  then show "((ops, budget, written + length run, y, drop (length run) is), ops, budget, written, w, is)
      \<in> measure (\<lambda>(_, _, _, _, is). length is)"
    using take_run_length [of "is" "min (budget - written) MAX_WRITEBACK_PAGES"] by (cases "is") auto
qed simp

definition writeback_some_pages :: "'b backend_ops \<Rightarrow> 'b pc_world \<Rightarrow> usize \<Rightarrow> (errno + usize) \<times> 'b pc_world" where
  "writeback_some_pages ops w budget =
     (if budget = 0 then (Inr 0, w)
      else let dirty = find_dirty_pages (pw_cache w) in
        if dirty = [] then (Inr 0, w) else writeback_some_loop ops budget 0 w dirty)"

definition queue_writeback :: "PageCache \<Rightarrow> PageCache" where
  "queue_writeback pc = pc\<lparr>pc_async_writeback := True\<rparr>"

section \<open>Throttling\<close>

definition DIRTY_BACKGROUND :: usize where "DIRTY_BACKGROUND = 8192"
definition DIRTY_THROTTLE :: usize where "DIRTY_THROTTLE = 16384"
definition WB_BATCH_PAGES :: usize where "WB_BATCH_PAGES = 256"

text \<open>With this cache as the only one registered and no other flusher active.\<close>

definition maybe_background_writeback :: "'b backend_ops \<Rightarrow> 'b pc_world \<Rightarrow> 'b pc_world" where
  "maybe_background_writeback ops w =
     (if pw_dirty w < DIRTY_BACKGROUND \<and> \<not> pc_async_writeback (pw_cache w) then w
      else snd (writeback_some_pages ops (w\<lparr>pw_cache := (pw_cache w)\<lparr>pc_async_writeback := False\<rparr>\<rparr>) WB_BATCH_PAGES))"

definition balance_dirty_pages :: "'b backend_ops \<Rightarrow> 'b pc_world \<Rightarrow> 'b pc_world" where
  "balance_dirty_pages ops w =
     (let written = saturating_add (pw_dirty w) (pw_writeback w) in
      if written < DIRTY_BACKGROUND then w
      else if written < DIRTY_THROTTLE then maybe_background_writeback ops w
      else snd (writeback_some_pages ops w WB_BATCH_PAGES))"

text \<open>
  The outer loops of the writes: a busy page is waited for. \<open>wait\<close> is the world after the
  wait, or the error of an interrupted one.
\<close>

partial_function (option) write_with_copy_callbacks ::
  "'b backend_ops \<Rightarrow> ('b pc_world \<Rightarrow> usize \<Rightarrow> errno + 'b pc_world) \<Rightarrow> (usize \<Rightarrow> errno + unit) \<Rightarrow> usize \<Rightarrow> usize \<Rightarrow>
     bytes \<Rightarrow> usize option \<Rightarrow> 'b pc_world \<Rightarrow> ((errno + usize) \<times> 'b pc_world) option" where
  "write_with_copy_callbacks ops wait before_copy offset len src old_file_size w =
     (case write_kernel_body ops before_copy w offset len src old_file_size of
        (Inr written, w1) \<Rightarrow>
          Some (Inr written, balance_dirty_pages ops (if written \<noteq> 0 then notify_state_progress w1 else w1))
      | (Inl (WaError e), w1) \<Rightarrow> Some (Inl e, notify_state_progress w1)
      | (Inl (WaBusy i), w1) \<Rightarrow>
          (case wait (notify_state_progress w1) i of
             Inl e \<Rightarrow> Some (Inl e, notify_state_progress w1)
           | Inr w2 \<Rightarrow> write_with_copy_callbacks ops wait before_copy offset len src old_file_size w2))"

definition write_kernel ::
  "'b backend_ops \<Rightarrow> ('b pc_world \<Rightarrow> usize \<Rightarrow> errno + 'b pc_world) \<Rightarrow> usize \<Rightarrow> usize \<Rightarrow> bytes \<Rightarrow> usize \<Rightarrow>
     'b pc_world \<Rightarrow> ((errno + usize) \<times> 'b pc_world) option" where
  "write_kernel ops wait offset len src old_size w =
     write_with_copy_callbacks ops wait (\<lambda>_. Inr ()) offset len src (Some old_size) w"

partial_function (option) write_at_user_loop ::
  "'b backend_ops \<Rightarrow> ('b pc_world \<Rightarrow> usize \<Rightarrow> errno + 'b pc_world) \<Rightarrow> (usize \<Rightarrow> usize \<Rightarrow> unit + u8 list) \<Rightarrow>
     usize \<Rightarrow> usize \<Rightarrow> usize \<Rightarrow> 'b pc_world \<Rightarrow> ((errno + usize) \<times> 'b pc_world) option" where
  "write_at_user_loop ops wait copyin offset len old_size w =
     (case write_at_user_body ops copyin w offset len old_size of
        (Inr written, w1) \<Rightarrow>
          Some (Inr written, balance_dirty_pages ops (if written \<noteq> 0 then notify_state_progress w1 else w1))
      | (Inl (WaError e), w1) \<Rightarrow> Some (Inl e, notify_state_progress w1)
      | (Inl (WaBusy i), w1) \<Rightarrow>
          (case wait (notify_state_progress w1) i of
             Inl e \<Rightarrow> Some (Inl e, notify_state_progress w1)
           | Inr w2 \<Rightarrow> write_at_user_loop ops wait copyin offset len old_size w2))"

definition write_at_user ::
  "'b backend_ops \<Rightarrow> ('b pc_world \<Rightarrow> usize \<Rightarrow> errno + 'b pc_world) \<Rightarrow> (usize \<Rightarrow> usize \<Rightarrow> unit + u8 list) \<Rightarrow> usize \<Rightarrow>
     usize \<Rightarrow> usize \<Rightarrow> usize \<Rightarrow> 'b pc_world \<Rightarrow> ((errno + usize) \<times> 'b pc_world) option" where
  "write_at_user ops wait copyin user_len offset len old_size w =
     (if len > user_len then Some (Inl EFAULT, w)
      else if len = 0 then Some (Inr 0, w)
      else write_at_user_loop ops wait copyin offset len old_size w)"

section \<open>Truncation and invalidation\<close>

definition tail_indices :: "PageCache \<Rightarrow> usize \<Rightarrow> usize list" where
  "tail_indices pc hole =
     filter (\<lambda>i. case pc_entries pc ! i of None \<Rightarrow> False | Some e \<Rightarrow> pe_map_count e \<noteq> 0) [hole..<length (pc_entries pc)]"

text \<open>Take the entry at an index out of the cache; a dirty one leaves the global count.\<close>

definition drop_entry :: "bool \<Rightarrow> 'b pc_world \<Rightarrow> usize \<Rightarrow> 'b pc_world" where
  "drop_entry keep_writeback w i =
     (case pw_entry w i of
        None \<Rightarrow> w
      | Some e \<Rightarrow>
          if keep_writeback \<and> pe_state e = Writeback then w
          else
            let pc = pw_cache w;
                w1 = w\<lparr>pw_cache := pc\<lparr>pc_entries := (pc_entries pc)[i := None], pc_pages := pc_pages pc - {i}\<rparr>\<rparr>
            in if pe_state (discard_filemap_readahead e) = Dirty then uncount_dirty w1 else w1)"

definition bump_generation :: "'b pc_world \<Rightarrow> 'b pc_world" where
  "bump_generation w =
     w\<lparr>pw_cache := (pw_cache w)\<lparr>pc_mutation_generation := wrapping_add (pc_mutation_generation (pw_cache w)) 1\<rparr>\<rparr>"

text \<open>\<open>persistent\<close> is the caller's truncation of the backend.\<close>

definition truncate_with_backend_locked ::
  "('b option \<Rightarrow> (errno + unit) \<times> 'b option) \<Rightarrow> 'b pc_world \<Rightarrow> usize \<Rightarrow> (errno + unit) \<times> 'b pc_world" where
  "truncate_with_backend_locked persistent w new_size =
     (let w1 = bump_generation w;
          hole_start = (new_size + PAGE_SIZE - 1) div PAGE_SIZE;
          w2 = foldl (\<lambda>w i. mkclean_page w i True) w1 (tail_indices (pw_cache w1) hole_start)
      in case persistent (pw_backend w2) of
           (Inl e, b) \<Rightarrow> (Inl e, w2\<lparr>pw_backend := b\<rparr>)
         | (Inr _, b) \<Rightarrow>
             (let w3 = foldl (drop_entry False) (w2\<lparr>pw_backend := b\<rparr>) [hole_start..<length (pc_entries (pw_cache w2))];
                  in_page = new_size mod PAGE_SIZE
              in if in_page = 0 then (Inr (), w3)
                 else case pw_entry w3 (new_size div PAGE_SIZE) of
                   None \<Rightarrow> (Inr (), w3)
                 | Some e \<Rightarrow> (Inr (), pw_fill w3 (pe_page e) (zero_from in_page (pw_mem w3 (pe_page e))))))"

partial_function (option) writeback_all_before_io_gate ::
  "'b backend_ops \<Rightarrow> ('b pc_world \<Rightarrow> errno + 'b pc_world) \<Rightarrow> 'b pc_world \<Rightarrow> ((errno + unit) \<times> 'b pc_world) option" where
  "writeback_all_before_io_gate ops wait w =
     (case writeback_all ops wait w of
        None \<Rightarrow> None
      | Some (Inl e, w1) \<Rightarrow> Some (Inl e, w1)
      | Some (Inr _, w1) \<Rightarrow>
          (let dirty = (find_dirty_pages (pw_cache w1) \<noteq> []) in
           if \<not> dirty \<and> \<not> has_transient_pages (pw_cache w1) 0 USIZE_MAX then Some (Inr (), w1)
           else if dirty then writeback_all_before_io_gate ops wait w1
           else case wait w1 of
             Inl e \<Rightarrow> Some (Inl e, w1)
           | Inr w2 \<Rightarrow> writeback_all_before_io_gate ops wait w2))"

definition truncate_with_backend ::
  "'b backend_ops \<Rightarrow> ('b pc_world \<Rightarrow> errno + 'b pc_world) \<Rightarrow> ('b option \<Rightarrow> (errno + unit) \<times> 'b option) \<Rightarrow>
     usize \<Rightarrow> 'b pc_world \<Rightarrow> ((errno + unit) \<times> 'b pc_world) option" where
  "truncate_with_backend ops wait persistent new_size w =
     (case writeback_all_before_io_gate ops wait w of
        None \<Rightarrow> None
      | Some (Inl e, w1) \<Rightarrow> Some (Inl e, w1)
      | Some (Inr _, w1) \<Rightarrow> Some (truncate_with_backend_locked persistent w1 new_size))"

definition rollback_failed_extension :: "'b pc_world \<Rightarrow> usize \<Rightarrow> 'b pc_world" where
  "rollback_failed_extension w restored_size =
     foldl (drop_entry True) w [(restored_size + PAGE_SIZE - 1) div PAGE_SIZE..<length (pc_entries (pw_cache w))]"

definition invalidate_range :: "'b pc_world \<Rightarrow> usize \<Rightarrow> usize \<Rightarrow> (errno + usize) \<times> 'b pc_world" where
  "invalidate_range w start_index end_index =
     (let w1 = bump_generation w; pc = pw_cache w1 in
      if \<exists>i \<in> set [start_index..<end_index]. page_is_dirty pc i then (Inl EBUSY, w1)
      else
        let is = filter (\<lambda>i. pc_entries pc ! i \<noteq> None) [start_index..<min end_index (length (pc_entries pc))]
        in (Inr (length is),
            w1\<lparr>pw_cache := pc\<lparr>pc_entries := foldl (\<lambda>es i. es[i := None]) (pc_entries pc) is, pc_pages := pc_pages pc - set is\<rparr>\<rparr>))"

section \<open>Eviction\<close>

definition evictable :: "pc_env \<Rightarrow> usize \<Rightarrow> PageEntry \<Rightarrow> bool" where
  "evictable env i e \<longleftrightarrow> pe_state e = UpToDate \<and> ce_entry_refs env i = 1 \<and> ce_frame_refs env (pe_page e) = 1"

text \<open>One turn of the clock at an index: what is left there, and whether a page was freed.\<close>

definition clock_visit :: "pc_env \<Rightarrow> PageCache \<Rightarrow> usize \<Rightarrow> bool \<times> PageCache" where
  "clock_visit env pc i =
     (case pc_entries pc ! i of
        None \<Rightarrow> (False, pc)
      | Some e \<Rightarrow>
          if \<not> evictable env i e then (False, pc)
          else if test_flag PG_REFERENCED (pe_flags e)
          then (False, cache_put pc i (on_flags (clear_flag PG_REFERENCED) e))
          else (True, pc\<lparr>pc_entries := (pc_entries pc)[i := None], pc_pages := pc_pages pc - {i}\<rparr>))"

function clock_sweep ::
  "pc_env \<Rightarrow> nat \<Rightarrow> usize \<Rightarrow> usize \<Rightarrow> usize \<Rightarrow> usize \<Rightarrow> usize \<Rightarrow> PageCache \<Rightarrow> usize \<times> usize \<times> PageCache" where
  "clock_sweep env len target max_scan evicted scanned hand pc =
     (if evicted < target \<and> scanned < max_scan
      then let (freed, pc1) = clock_visit env pc hand
           in clock_sweep env len target max_scan (if freed then evicted + 1 else evicted) (scanned + 1)
                ((hand + 1) mod len) pc1
      else (evicted, hand, pc))"
  by pat_completeness auto
termination
  by (relation "measure (\<lambda>(_, _, _, max_scan, _, scanned, _, _). max_scan - scanned)") auto

definition drop_trailing :: "'a option list \<Rightarrow> 'a option list" where
  "drop_trailing es = rev (dropWhile (\<lambda>e. e = None) (rev es))"

definition evict_clean_pages_clock :: "pc_env \<Rightarrow> PageCache \<Rightarrow> usize \<Rightarrow> usize \<times> PageCache" where
  "evict_clean_pages_clock env pc target =
     (let len = length (pc_entries pc) in
      if pc_unevictable pc \<or> len = 0 then (0, pc)
      else
        let max_scan = min (len * 2) (saturating_add (saturating_mul target 16) 64);
            (evicted, hand, pc1) = clock_sweep env len target max_scan 0 0 (pc_clock_hand pc mod len) pc
        in (evicted, pc1\<lparr>pc_clock_hand := hand, pc_entries := drop_trailing (pc_entries pc1)\<rparr>))"

section \<open>Marking\<close>

definition mark_page_dirty :: "'b pc_world \<Rightarrow> usize \<Rightarrow> 'b pc_world" where
  "mark_page_dirty w i =
     (case pw_entry w i of
        None \<Rightarrow> w
      | Some e \<Rightarrow>
          if test_flag PG_DIRTY (pe_flags e) then w
          else count_dirty (pw_put w i (e\<lparr>pe_flags := pe_flags e OR PG_UPTODATE OR PG_DIRTY\<rparr>)))"

definition mark_page_writeback :: "'b pc_world \<Rightarrow> usize \<Rightarrow> 'b pc_world" where
  "mark_page_writeback w i =
     (case pw_entry w i of
        None \<Rightarrow> w
      | Some e \<Rightarrow>
          (let (was, f) = test_and_clear_flag PG_DIRTY (pe_flags e);
               w1 = pw_put w i (e\<lparr>pe_flags := f\<rparr>)
           in if was then uncount_dirty w1 else w1))"

section \<open>Read-ahead\<close>

record RaState =
  ra_prev_page :: usize
  ra_size :: usize

definition MIN_RA_PAGES :: usize where "MIN_RA_PAGES = 4"
definition MAX_RA_PAGES :: usize where "MAX_RA_PAGES = 128"

text \<open>The contents of the claimed pages: one \<open>read_pages\<close> per run of consecutive pages below the backend's end.\<close>

function read_claimed :: "pc_env \<Rightarrow> 'b backend_ops \<Rightarrow> 'b \<Rightarrow> usize list \<Rightarrow> errno + bytes list" where
  "read_claimed env ops b is =
     (if is = [] then Inr []
      else if hd is \<ge> be_npages ops b
      then (case read_claimed env ops b (tl is) of Inl e \<Rightarrow> Inl e | Inr rest \<Rightarrow> Inr (zero_page # rest))
      else
        let run = takeWhile (\<lambda>i. i < be_npages ops b) (take_run (length is) is) in
        if \<not> ce_reserve env (length run * PAGE_SIZE) then Inl ENOMEM
        else case be_read_pages ops b (hd is) (replicate (length run) zero_page) of
          Inl e \<Rightarrow> Inl e
        | Inr pages \<Rightarrow>
            (case read_claimed env ops b (drop (length run) is) of
               Inl e \<Rightarrow> Inl e
             | Inr rest \<Rightarrow> Inr (pages @ rest)))"
  by pat_completeness auto
termination
proof (relation "measure (\<lambda>(_, _, _, is). length is)")
  fix env and ops :: "'b backend_ops" and b :: 'b and "is" :: "usize list" and run x
  assume n: "is \<noteq> []" and "\<not> be_npages ops b \<le> hd is"
    and run: "run = takeWhile (\<lambda>i. i < be_npages ops b) (take_run (length is) is)"
  moreover have "hd (take_run (length is) is) = hd is" using n by (cases "is"; cases "tl is") auto
  ultimately have "run \<noteq> []" using take_run_length [OF n, of "length is"] by (cases "take_run (length is) is") auto
  with n show "((env, ops, b, drop (length run) is), env, ops, b, is) \<in> measure (\<lambda>(_, _, _, is). length is)"
    by (cases "is") auto
qed auto

fun publish_pending ::
  "bool \<Rightarrow> usize option \<Rightarrow> 'b pc_world \<Rightarrow> (usize \<times> ppn) list \<Rightarrow> 'b pc_world" where
  "publish_pending track demand w [] = w"
| "publish_pending track demand w ((i, p) # ps) =
     (let e = entry_new p Loading;
          e1 = e\<lparr>pe_flags := set_state UpToDate (pe_flags e)\<rparr>;
          e2 = (if track \<and> demand \<noteq> Some i then mark_filemap_readahead e1 else e1)
      in publish_pending track demand (publish w i e2) ps)"

text \<open>\<open>track\<close>: whether the statistics that use the read-ahead mark are switched on.\<close>

definition sync_batch_read_pages_inner ::
  "pc_env \<Rightarrow> 'b backend_ops \<Rightarrow> bool \<Rightarrow> 'b pc_world \<Rightarrow> usize \<Rightarrow> usize \<Rightarrow> usize option \<Rightarrow> (errno + usize) \<times> 'b pc_world" where
  "sync_batch_read_pages_inner env ops track w start_page count demand =
     (case checked_add start_page count of
        None \<Rightarrow> (Inl EFBIG, w)
      | Some end_page \<Rightarrow>
          (case pw_backend w of
             None \<Rightarrow> (Inr 0, w)
           | Some b \<Rightarrow>
               (let pc = pw_cache w;
                    claimed = filter (\<lambda>i. \<not> cache_contains_page pc i \<and> i \<notin> pc_claims pc) [start_page..<end_page]
                in if claimed = [] then (Inr 0, w)
                   else if \<not> ce_reserve env (length claimed) then (Inl ENOMEM, notify_state_progress w)
                   else case alloc_frames (length claimed) w of
                     (None, w1) \<Rightarrow> (Inl ENOMEM, notify_state_progress w1)
                   | (Some ps, w1) \<Rightarrow>
                       (case read_claimed env ops b claimed of
                          Inl e \<Rightarrow> (Inl e, notify_state_progress w1)
                        | Inr pages \<Rightarrow>
                            (let w2 = fill_frames w1 ps pages;
                                 w3 = publish_pending (track \<and> demand \<noteq> None) demand w2 (zip claimed ps)
                             in (Inr (count * PAGE_SIZE), notify_state_progress w3))))))"

function sync_batch_read_pages ::
  "pc_env \<Rightarrow> 'b backend_ops \<Rightarrow> 'b pc_world \<Rightarrow> usize \<Rightarrow> usize \<Rightarrow> (errno + usize) \<times> 'b pc_world" where
  "sync_batch_read_pages env ops w start_page count =
     (if count = 0 then (Inr 0, w)
      else if count > MAX_BATCH_READ_PAGES
      then (case checked_add start_page count of
              None \<Rightarrow> (Inl EFBIG, w)
            | Some _ \<Rightarrow>
                (case sync_batch_read_pages_inner env ops False w start_page MAX_BATCH_READ_PAGES None of
                   (Inl e, w1) \<Rightarrow> (Inl e, w1)
                 | (Inr n, w1) \<Rightarrow>
                     (case sync_batch_read_pages env ops w1 (start_page + MAX_BATCH_READ_PAGES) (count - MAX_BATCH_READ_PAGES) of
                        (Inl e, w2) \<Rightarrow> (Inl e, w2)
                      | (Inr m, w2) \<Rightarrow> (Inr (n + m), w2))))
      else sync_batch_read_pages_inner env ops False w start_page count None)"
  by pat_completeness auto
termination
  by (relation "measure (\<lambda>(_, _, _, _, count). count)") (auto simp: MAX_BATCH_READ_PAGES_def)

definition maybe_readahead ::
  "pc_env \<Rightarrow> 'b backend_ops \<Rightarrow> 'b pc_world \<Rightarrow> usize \<Rightarrow> RaState \<Rightarrow> usize \<Rightarrow> RaState \<times> 'b pc_world" where
  "maybe_readahead env ops w page_index ra req_pages =
     (let sequential = (page_index = ra_prev_page ra + 1 \<or> page_index = ra_prev_page ra);
          size1 = (if \<not> sequential then MIN_RA_PAGES else min (ra_size ra * 2) MAX_RA_PAGES);
          ra1 = \<lparr>ra_prev_page = page_index + saturating_sub req_pages 1, ra_size = size1\<rparr>;
          ahead_start = page_index + req_pages;
          npages = (case pw_backend w of None \<Rightarrow> 0 | Some b \<Rightarrow> be_npages ops b);
          ahead_end = min (ahead_start + size1) npages
      in (ra1, if ahead_end > ahead_start
               then snd (sync_batch_read_pages env ops w ahead_start (ahead_end - ahead_start)) else w))"

section \<open>Admission to file mappings\<close>

text \<open>
  The variants called under the address-space lock. \<open>gate\<close> says whether the operation gate is
  free. They read and change only resident pages: \<open>PcRetry\<close> asks the caller to wait outside
  the lock.
\<close>

datatype PageCacheFault = PcRetry | PcError errno

definition resident_entry :: "bool \<Rightarrow> PageCache \<Rightarrow> usize \<Rightarrow> PageCacheFault + PageEntry" where
  "resident_entry gate pc i =
     (if \<not> gate then Inl PcRetry
      else case cache_entry pc i of
        None \<Rightarrow> Inl PcRetry
      | Some e \<Rightarrow>
          if \<not> is_fully_valid e \<or> pe_state e = Loading \<or> pe_state e = Writeback then Inl PcRetry
          else if pe_state e = PsError then Inl (PcError EIO)
          else Inr e)"

definition eof_tail_start :: "usize \<Rightarrow> usize \<Rightarrow> usize option" where
  "eof_tail_start i eof =
     (let page_start = saturating_mul i PAGE_SIZE in
      if eof < saturating_add page_start PAGE_SIZE then Some (min (saturating_sub eof page_start) PAGE_SIZE) else None)"

definition zero_tail :: "usize \<Rightarrow> usize \<Rightarrow> bytes \<Rightarrow> bytes" where
  "zero_tail i eof b = (case eof_tail_start i eof of None \<Rightarrow> b | Some start \<Rightarrow> zero_from start b)"

definition try_frame_for_filemap_read_ahead ::
  "bool \<Rightarrow> PageCache \<Rightarrow> (ppn \<Rightarrow> bytes) \<Rightarrow> usize \<Rightarrow> usize \<Rightarrow>
     (PageCacheFault + ppn) \<times> PageCache \<times> (ppn \<Rightarrow> bytes)" where
  "try_frame_for_filemap_read_ahead gate pc mem i eof =
     (case resident_entry gate pc i of
        Inl f \<Rightarrow> (Inl f, pc, mem)
      | Inr e \<Rightarrow>
          (Inr (pe_page e), cache_put pc i (consume_filemap_readahead e),
           mem(pe_page e := zero_tail i eof (mem (pe_page e)))))"

definition try_resident_frame_for_filemap_map ::
  "bool \<Rightarrow> PageCache \<Rightarrow> (ppn \<Rightarrow> bytes) \<Rightarrow> usize \<Rightarrow> usize \<Rightarrow> (errno + ppn option) \<times> (ppn \<Rightarrow> bytes)" where
  "try_resident_frame_for_filemap_map gate pc mem i eof =
     (case resident_entry gate pc i of
        Inl PcRetry \<Rightarrow> (Inr None, mem)
      | Inl (PcError e) \<Rightarrow> (Inl e, mem)
      | Inr e \<Rightarrow> (Inr (Some (pe_page e)), mem(pe_page e := zero_tail i eof (mem (pe_page e)))))"

text \<open>The next two fill a buffer of the caller from a resident page.\<close>

definition try_copy_page_for_private ::
  "bool \<Rightarrow> PageCache \<Rightarrow> (ppn \<Rightarrow> bytes) \<Rightarrow> usize \<Rightarrow> bytes \<Rightarrow> usize \<Rightarrow> (PageCacheFault + bytes) \<times> PageCache" where
  "try_copy_page_for_private gate pc mem i dst eof =
     (case resident_entry gate pc i of
        Inl f \<Rightarrow> (Inl f, pc)
      | Inr e \<Rightarrow>
          (Inr (zero_tail i eof (copy_slice dst 0 PAGE_SIZE (mem (pe_page e)) 0)),
           cache_put pc i (consume_filemap_readahead e)))"

definition try_copy_resident_range ::
  "bool \<Rightarrow> PageCache \<Rightarrow> (ppn \<Rightarrow> bytes) \<Rightarrow> usize \<Rightarrow> usize \<Rightarrow> bytes \<Rightarrow> usize \<Rightarrow> usize \<Rightarrow> (PageCacheFault + bytes) \<times> PageCache" where
  "try_copy_resident_range gate pc mem i po dst doff len =
     (case checked_add po len of
        None \<Rightarrow> (Inl (PcError EINVAL), pc)
      | Some range_end \<Rightarrow>
          if range_end > PAGE_SIZE then (Inl (PcError EINVAL), pc)
          else case resident_entry gate pc i of
            Inl f \<Rightarrow> (Inl f, pc)
          | Inr e \<Rightarrow> (Inr (copy_slice dst doff len (mem (pe_page e)) po), cache_put pc i (consume_filemap_readahead e)))"

text \<open>The middle component says whether the global count of dirty pages goes up.\<close>

definition try_frame_for_write :: "bool \<Rightarrow> PageCache \<Rightarrow> usize \<Rightarrow> (PageCacheFault + ppn) \<times> bool \<times> PageCache" where
  "try_frame_for_write gate pc i =
     (case resident_entry gate pc i of
        Inl f \<Rightarrow> (Inl f, False, pc)
      | Inr e \<Rightarrow>
          (let e1 = consume_filemap_readahead e; (became, f) = mark_dirty_after_copy (pe_flags e1)
           in (Inr (pe_page e), became, cache_put pc i (e1\<lparr>pe_flags := f\<rparr>))))"

end
