(* ===== verification/FatBackend.thy ===== *)
theory FatBackend
  imports PageCacheOps
begin

text \<open>
  The contract between the page cache and its backend, the locale \<open>page_backend\<close>, and the FAT32
  backend of \<open>os/src/fs/page_cache.rs\<close> that provides it. A file is a list of clusters; a page is
  made of sectors, and the device is addressed in blocks of \<open>BLOCK_SZ\<close> bytes. The device is a
  map from block numbers to bytes; a request to a faulty block reports an error and does
  nothing.
\<close>

section \<open>What the cache relies on\<close>

text \<open>
  \<open>disk b i j\<close> is byte \<open>j\<close> of page \<open>i\<close> as reading returns it; \<open>backed b i j\<close> says that writing
  stores it. A failed write may have changed bytes of the pages it was given, and no others.
\<close>

locale page_backend =
  fixes ops :: "'b backend_ops"
    and be_inv :: "'b \<Rightarrow> bool"
    and disk :: "'b \<Rightarrow> usize \<Rightarrow> bytes"
    and backed :: "'b \<Rightarrow> usize \<Rightarrow> nat \<Rightarrow> bool"
  assumes read_page: "be_inv b \<Longrightarrow> be_read_page ops b i buf = Inr buf' \<Longrightarrow> j < PAGE_SIZE \<Longrightarrow> buf' j = disk b i j"
    and read_pages: "be_inv b \<Longrightarrow> be_read_pages ops b i bufs = Inr bufs' \<Longrightarrow>
      length bufs' = length bufs \<and> (\<forall>k < length bufs. \<forall>j < PAGE_SIZE. (bufs' ! k) j = disk b (i + k) j)"
    and read_contiguous: "be_inv b \<Longrightarrow> be_read_contiguous ops b i bufs = Inr bufs' \<Longrightarrow>
      length bufs' = length bufs \<and> (\<forall>k < length bufs. \<forall>j < PAGE_SIZE. (bufs' ! k) j = disk b (i + k) j)"
    and past_end: "be_inv b \<Longrightarrow> be_npages ops b \<le> i \<Longrightarrow> j < PAGE_SIZE \<Longrightarrow> disk b i j = 0"
    and write_page: "be_inv b \<Longrightarrow> be_write_page ops b i buf = (r, b') \<Longrightarrow>
      be_inv b' \<and> backed b' = backed b \<and>
      (\<forall>k. \<forall>j < PAGE_SIZE. disk b' k j = disk b k j \<or> k = i \<and> disk b' k j = buf j) \<and>
      (\<forall>n. r = Inr n \<longrightarrow> (\<forall>j < PAGE_SIZE. backed b i j \<longrightarrow> disk b' i j = buf j))"
    and write_pages: "be_inv b \<Longrightarrow> be_write_pages ops b i bufs = (r, b') \<Longrightarrow>
      be_inv b' \<and> backed b' = backed b \<and>
      (\<forall>k. \<forall>j < PAGE_SIZE. disk b' k j = disk b k j \<or> (i \<le> k \<and> k < i + length bufs \<and> disk b' k j = (bufs ! (k - i)) j)) \<and>
      (\<forall>n. r = Inr n \<longrightarrow> (\<forall>k < length bufs. \<forall>j < PAGE_SIZE. backed b (i + k) j \<longrightarrow> disk b' (i + k) j = (bufs ! k) j))"

section \<open>The trait's default methods\<close>

lemma default_read_pages_spec:
  assumes rp: "\<And>i buf buf' j. rp b i buf = Inr buf' \<Longrightarrow> j < PAGE_SIZE \<Longrightarrow> buf' j = dsk i j"
  shows "default_read_pages rp b i bufs = Inr bufs' \<Longrightarrow>
    length bufs' = length bufs \<and> (\<forall>k < length bufs. \<forall>j < PAGE_SIZE. (bufs' ! k) j = dsk (i + k) j)"
proof (induction bufs arbitrary: i bufs')
  case (Cons p ps)
  then obtain q qs where q: "rp b i p = Inr q" "default_read_pages rp b (i + 1) ps = Inr qs" "bufs' = q # qs"
    by (auto split: sum.splits)
  from Cons.IH [OF q(2)] rp [OF q(1)] show ?case unfolding q(3) by (auto simp: nth_Cons split: nat.splits)
qed simp

lemma default_write_pages_spec:
  assumes wp: "\<And>b i buf r b'. good b \<Longrightarrow> wp b i buf = (r, b') \<Longrightarrow> good b' \<and> bck b' = bck b \<and>
      (\<forall>k. \<forall>j < PAGE_SIZE. dsk b' k j = dsk b k j \<or> k = i \<and> dsk b' k j = buf j) \<and>
      (\<forall>n. r = Inr n \<longrightarrow> (\<forall>j < PAGE_SIZE. bck b i j \<longrightarrow> dsk b' i j = buf j))"
  shows "good b \<Longrightarrow> default_write_pages wp n b i bufs = (r, b') \<Longrightarrow> good b' \<and> bck b' = bck b \<and>
      (\<forall>k. \<forall>j < PAGE_SIZE. dsk b' k j = dsk b k j \<or> (i \<le> k \<and> k < i + length bufs \<and> dsk b' k j = (bufs ! (k - i)) j)) \<and>
      (\<forall>n. r = Inr n \<longrightarrow> (\<forall>k < length bufs. \<forall>j < PAGE_SIZE. bck b (i + k) j \<longrightarrow> dsk b' (i + k) j = (bufs ! k) j))"
proof (induction bufs arbitrary: i n b)
  case (Cons p ps)
  obtain r1 b1 where w: "wp b i p = (r1, b1)" by fastforce
  note one = wp [OF Cons.prems(1) w]
  show ?case
  proof (cases r1)
    case (Inl e)
    with Cons.prems w have "r = Inl e" "b' = b1" by simp_all
    with one show ?thesis by fastforce
  next
    case (Inr m)
    with Cons.prems w have d: "default_write_pages wp (n + m) b1 (i + 1) ps = (r, b')" by simp
    note rest = Cons.IH [OF conjunct1 [OF one] d]
    have inv: "good b'" and bck: "bck b' = bck b" using one rest by simp_all
    have old: "dsk b' k j = dsk b k j \<or> (i \<le> k \<and> k < i + length (p # ps) \<and> dsk b' k j = ((p # ps) ! (k - i)) j)"
      if j: "j < PAGE_SIZE" for k j
    proof (cases "dsk b' k j = dsk b1 k j")
      case True
      then show ?thesis using one j by fastforce
    next
      case False
      then have "i + 1 \<le> k" "k < i + 1 + length ps" "dsk b' k j = (ps ! (k - (i + 1))) j" using rest j by blast+
      then show ?thesis by (auto simp: nth_Cons' Suc_diff_le)
    qed
    have new: "dsk b' (i + k) j = ((p # ps) ! k) j"
      if ok: "r = Inr x" and k: "k < length (p # ps)" and j: "j < PAGE_SIZE" and b: "bck b (i + k) j" for x k j
    proof (cases k)
      case 0
      have "dsk b1 i j = p j" using one Inr j b 0 by simp
      moreover have "dsk b' i j = dsk b1 i j" using rest j by fastforce
      ultimately show ?thesis using 0 by simp
    next
      case (Suc l)
      then show ?thesis using rest ok k j b one by simp
    qed
    from inv bck old new show ?thesis by blast
  qed
qed simp

section \<open>FAT32\<close>

definition BLOCK_SZ :: usize where "BLOCK_SZ = 4096"

record FatBackend =
  fb_blocks :: "usize \<Rightarrow> bytes"
  fb_faulty :: "usize \<Rightarrow> bool"
  fb_clus_list :: "nat list"
  fb_data_area_start_block :: nat
  fb_block_size :: usize
  fb_blocks_per_page :: usize
  fb_sec_per_clus :: usize

definition first_sector_of_cluster :: "FatBackend \<Rightarrow> nat \<Rightarrow> nat" where
  "first_sector_of_cluster b clus_num = fb_data_area_start_block b + (clus_num - 2) * fb_sec_per_clus b"

definition block_id_for_offset :: "FatBackend \<Rightarrow> usize \<Rightarrow> usize \<Rightarrow> usize option" where
  "block_id_for_offset b page_index block_off =
     (let block_index = page_index * fb_blocks_per_page b + block_off;
          cluster_id = block_index div fb_sec_per_clus b
      in if cluster_id \<ge> length (fb_clus_list b) then None
         else Some (first_sector_of_cluster b (fb_clus_list b ! cluster_id) + block_index mod fb_sec_per_clus b))"

definition sector_to_parent :: "FatBackend \<Rightarrow> usize \<Rightarrow> usize \<times> usize" where
  "sector_to_parent b sector =
     (let sectors_per_block = BLOCK_SZ div fb_block_size b
      in (sector div sectors_per_block, (sector mod sectors_per_block) * fb_block_size b))"

text \<open>The result of the device call is not looked at.\<close>

definition dev_read_block :: "FatBackend \<Rightarrow> usize \<Rightarrow> bytes \<Rightarrow> bytes" where
  "dev_read_block b k buf = (if fb_faulty b k then buf else fb_blocks b k)"

definition dev_write_block :: "FatBackend \<Rightarrow> usize \<Rightarrow> bytes \<Rightarrow> FatBackend" where
  "dev_write_block b k buf = (if fb_faulty b k then b else b\<lparr>fb_blocks := (fb_blocks b)(k := buf)\<rparr>)"

definition fat_read_sector :: "FatBackend \<Rightarrow> usize \<Rightarrow> bytes \<Rightarrow> usize \<Rightarrow> bytes" where
  "fat_read_sector b index buf block_off =
     (let start = block_off * fb_block_size b in
      case block_id_for_offset b index block_off of
        Some sec_id \<Rightarrow>
          (let (block_id, off) = sector_to_parent b sec_id
           in copy_slice buf start (fb_block_size b) (dev_read_block b block_id zero_page) off)
      | None \<Rightarrow> copy_slice buf start (fb_block_size b) zero_page 0)"

definition fat_read_page :: "FatBackend \<Rightarrow> usize \<Rightarrow> bytes \<Rightarrow> errno + bytes" where
  "fat_read_page b index buf = Inr (foldl (fat_read_sector b index) buf [0..<fb_blocks_per_page b])"

definition fat_write_sector :: "bytes \<Rightarrow> usize \<Rightarrow> FatBackend \<Rightarrow> usize \<Rightarrow> FatBackend" where
  "fat_write_sector buf index b block_off =
     (let start = block_off * fb_block_size b in
      case block_id_for_offset b index block_off of
        Some sec_id \<Rightarrow>
          (let (block_id, off) = sector_to_parent b sec_id
           in dev_write_block b block_id (copy_slice (dev_read_block b block_id zero_page) off (fb_block_size b) buf start))
      | None \<Rightarrow> b)"

definition fat_write_page :: "FatBackend \<Rightarrow> usize \<Rightarrow> bytes \<Rightarrow> (errno + usize) \<times> FatBackend" where
  "fat_write_page b index buf =
     (Inr PAGE_SIZE, foldl (fat_write_sector buf index) b [0..<fb_blocks_per_page b])"

definition fat_npages :: "FatBackend \<Rightarrow> usize" where
  "fat_npages b =
     (let total_blocks = length (fb_clus_list b) * fb_sec_per_clus b
      in (total_blocks + fb_blocks_per_page b - 1) div fb_blocks_per_page b)"

definition fat_ops :: "FatBackend backend_ops" where
  "fat_ops = \<lparr>be_read_page = fat_read_page, be_write_page = fat_write_page,
     be_write_pages = default_write_pages fat_write_page 0, be_read_pages = default_read_pages fat_read_page,
     be_read_contiguous = default_read_contiguous fat_read_page, be_npages = fat_npages\<rparr>"

text \<open>Well-formed: no cluster twice, sectors tile pages and blocks, and the device works.\<close>

definition fat_inv :: "FatBackend \<Rightarrow> bool" where
  "fat_inv b \<longleftrightarrow>
     distinct (fb_clus_list b) \<and> (\<forall>c \<in> set (fb_clus_list b). 2 \<le> c) \<and> 0 < fb_block_size b \<and> 0 < fb_sec_per_clus b \<and>
     fb_blocks_per_page b * fb_block_size b = PAGE_SIZE \<and> (\<forall>k. \<not> fb_faulty b k)"

definition fat_disk :: "FatBackend \<Rightarrow> usize \<Rightarrow> bytes" where
  "fat_disk b i j =
     (case block_id_for_offset b i (j div fb_block_size b) of
        None \<Rightarrow> 0
      | Some sec \<Rightarrow> (let (k, off) = sector_to_parent b sec in fb_blocks b k (off + j mod fb_block_size b)))"

definition fat_backed :: "FatBackend \<Rightarrow> usize \<Rightarrow> nat \<Rightarrow> bool" where
  "fat_backed b i j \<longleftrightarrow> block_id_for_offset b i (j div fb_block_size b) \<noteq> None"

section \<open>Sectors\<close>

lemma fat_geometry:
  assumes "fat_inv b"
  shows "0 < fb_blocks_per_page b" and "BLOCK_SZ div fb_block_size b = fb_blocks_per_page b"
    and "fb_blocks_per_page b * fb_block_size b = PAGE_SIZE" and "0 < fb_block_size b"
    and "j < PAGE_SIZE \<Longrightarrow> j div fb_block_size b < fb_blocks_per_page b"
proof -
  have e: "fb_blocks_per_page b * fb_block_size b = PAGE_SIZE" and bs: "0 < fb_block_size b"
    using assms by (simp_all add: fat_inv_def)
  show "fb_blocks_per_page b * fb_block_size b = PAGE_SIZE" "0 < fb_block_size b" by fact+
  show "0 < fb_blocks_per_page b" using e by (cases "fb_blocks_per_page b") (simp_all add: PAGE_SIZE_def)
  have "BLOCK_SZ = fb_blocks_per_page b * fb_block_size b" using e by (simp add: BLOCK_SZ_def PAGE_SIZE_def)
  with bs show "BLOCK_SZ div fb_block_size b = fb_blocks_per_page b" by (metis nonzero_mult_div_cancel_right less_irrefl)
  show "j < PAGE_SIZE \<Longrightarrow> j div fb_block_size b < fb_blocks_per_page b" unfolding e [symmetric] by (simp add: less_mult_imp_div_less)
qed

lemma block_id_inj:
  assumes inv: "fat_inv b" and o: "u < fb_blocks_per_page b" "v < fb_blocks_per_page b"
    and eq: "block_id_for_offset b i u = Some s" "block_id_for_offset b k v = Some s"
  shows "i = k \<and> u = v"
proof -
  let ?spc = "fb_sec_per_clus b" and ?x = "i * fb_blocks_per_page b + u" and ?y = "k * fb_blocks_per_page b + v"
  have spc: "0 < ?spc" using inv by (simp add: fat_inv_def)
  have lx: "?x div ?spc < length (fb_clus_list b)" and ly: "?y div ?spc < length (fb_clus_list b)"
    and e: "(fb_clus_list b ! (?x div ?spc) - 2) * ?spc + ?x mod ?spc = (fb_clus_list b ! (?y div ?spc) - 2) * ?spc + ?y mod ?spc"
    using eq by (auto simp: block_id_for_offset_def first_sector_of_cluster_def Let_def split: if_splits)
  have m: "?x mod ?spc < ?spc" "?y mod ?spc < ?spc" using spc by simp_all
  from arg_cong [OF e, of "\<lambda>n. n div ?spc"] arg_cong [OF e, of "\<lambda>n. n mod ?spc"] spc m
  have c: "fb_clus_list b ! (?x div ?spc) - 2 = fb_clus_list b ! (?y div ?spc) - 2" and r: "?x mod ?spc = ?y mod ?spc"
    by simp_all
  have "2 \<le> fb_clus_list b ! (?x div ?spc)" "2 \<le> fb_clus_list b ! (?y div ?spc)" "distinct (fb_clus_list b)"
    using inv lx ly by (auto simp: fat_inv_def)
  moreover have "fb_clus_list b ! (?x div ?spc) = fb_clus_list b ! (?y div ?spc)" using c calculation by linarith
  ultimately have "?x div ?spc = ?y div ?spc" using nth_eq_iff_index_eq lx ly by blast
  with r have xy: "?x = ?y" by (metis div_mult_mod_eq)
  from arg_cong [OF xy, of "\<lambda>n. n div fb_blocks_per_page b"] arg_cong [OF xy, of "\<lambda>n. n mod fb_blocks_per_page b"] o
  show ?thesis by simp
qed

lemma fat_read_prefix:
  assumes inv: "fat_inv b" and n: "n \<le> fb_blocks_per_page b"
  shows "foldl (fat_read_sector b i) buf [0..<n] j = (if j < n * fb_block_size b then fat_disk b i j else buf j)"
  using n
proof (induction n)
  case (Suc n)
  let ?bs = "fb_block_size b"
  have nf: "\<not> fb_faulty b k" for k using inv by (simp add: fat_inv_def)
  have j: "j div ?bs = n \<and> n * ?bs + j mod ?bs = j" if "n * ?bs \<le> j" "j < n * ?bs + ?bs"
  proof -
    have d: "j div ?bs = n" using that by (intro div_nat_eqI) (auto simp: mult.commute)
    show ?thesis using d div_mult_mod_eq [of j ?bs] by simp
  qed
  have m: "j mod ?bs = j - n * ?bs" if "n * ?bs \<le> j" "j < n * ?bs + ?bs" using j [OF that] by linarith
  have "fat_read_sector b i f n j = (if n * ?bs \<le> j \<and> j < n * ?bs + ?bs then fat_disk b i j else f j)" for f
    using j m nf by (auto simp: fat_read_sector_def fat_disk_def copy_slice_def dev_read_block_def zero_page_def Let_def
        split: option.splits prod.splits)
  then show ?case using Suc by (auto simp: mult.commute add.commute)
qed simp

lemma fat_read_page_spec:
  assumes "fat_inv b" and "fat_read_page b i buf = Inr buf'" and "j < PAGE_SIZE"
  shows "buf' j = fat_disk b i j"
  using assms fat_read_prefix [OF assms(1) order_refl, of i buf j] fat_geometry [OF assms(1)]
  by (auto simp: fat_read_page_def)

text \<open>The write of one sector.\<close>

lemma fat_write_sector_fields:
  "block_id_for_offset (fat_write_sector buf i b u) = block_id_for_offset b"
  "fb_block_size (fat_write_sector buf i b u) = fb_block_size b"
  "fb_blocks_per_page (fat_write_sector buf i b u) = fb_blocks_per_page b"
  "fat_inv (fat_write_sector buf i b u) = fat_inv b"
  by (auto simp: fat_write_sector_def dev_write_block_def block_id_for_offset_def first_sector_of_cluster_def fat_inv_def
      Let_def fun_eq_iff split: option.splits prod.splits)

lemma fat_write_sector_disk:
  assumes inv: "fat_inv b" and u: "u < fb_blocks_per_page b" and j: "j < PAGE_SIZE"
  shows "fat_disk (fat_write_sector buf i b u) k j =
    (if k = i \<and> j div fb_block_size b = u \<and> fat_backed b i j then buf j else fat_disk b k j)"
proof (cases "block_id_for_offset b i u")
  case None
  then show ?thesis by (auto simp: fat_write_sector_def fat_backed_def)
next
  case (Some s)
  let ?bs = "fb_block_size b" and ?n = "fb_blocks_per_page b"
  let ?new = "\<lambda>x. if (s mod ?n) * ?bs \<le> x \<and> x < (s mod ?n) * ?bs + ?bs then buf (u * ?bs + (x - (s mod ?n) * ?bs)) else fb_blocks b (s div ?n) x"
  have nf: "\<not> fb_faulty b k" for k using inv by (simp add: fat_inv_def)
  note g = fat_geometry [OF inv]
  have w: "fat_write_sector buf i b u = b\<lparr>fb_blocks := (fb_blocks b)(s div ?n := ?new)\<rparr>"
    using Some nf by (simp add: fat_write_sector_def sector_to_parent_def g(2) dev_write_block_def dev_read_block_def copy_slice_def Let_def)
  have bid: "block_id_for_offset (fat_write_sector buf i b u) = block_id_for_offset b"
    by (rule fat_write_sector_fields)
  show ?thesis
  proof (cases "block_id_for_offset b k (j div ?bs)")
    case None
    then show ?thesis by (auto simp: fat_disk_def fat_backed_def fat_write_sector_fields)
  next
    case (Some t)
    have d: "fat_disk (fat_write_sector buf i b u) k j =
        ((fb_blocks b)(s div ?n := ?new)) (t div ?n) ((t mod ?n) * ?bs + j mod ?bs)"
      using Some by (simp add: fat_disk_def fat_write_sector_fields sector_to_parent_def g(2) Let_def) (simp add: w)
    have old: "fat_disk b k j = fb_blocks b (t div ?n) ((t mod ?n) * ?bs + j mod ?bs)"
      using Some by (simp add: fat_disk_def sector_to_parent_def g(2) Let_def)
    have jm: "j mod ?bs < ?bs" using g(4) by simp
    show ?thesis
    proof (cases "t = s")
      case True
      with block_id_inj [OF inv g(5) [OF j] u Some] \<open>block_id_for_offset b i u = Some s\<close>
      have ki: "k = i" "j div ?bs = u" by simp_all
      then have "u * ?bs + j mod ?bs = j" by (metis div_mult_mod_eq)
      then show ?thesis using d jm ki True Some by (simp add: fat_backed_def)
    next
      case False
      have "\<not> (k = i \<and> j div ?bs = u)" using False Some \<open>block_id_for_offset b i u = Some s\<close> by auto
      moreover have "((fb_blocks b)(s div ?n := ?new)) (t div ?n) ((t mod ?n) * ?bs + j mod ?bs) =
          fb_blocks b (t div ?n) ((t mod ?n) * ?bs + j mod ?bs)"
      proof (cases "t div ?n = s div ?n")
        case True
        have ne: "t mod ?n \<noteq> s mod ?n" using False True by (metis div_mult_mod_eq)
        have "\<not> ((s mod ?n) * ?bs \<le> (t mod ?n) * ?bs + j mod ?bs \<and> (t mod ?n) * ?bs + j mod ?bs < (s mod ?n) * ?bs + ?bs)"
        proof
          assume a: "(s mod ?n) * ?bs \<le> (t mod ?n) * ?bs + j mod ?bs \<and> (t mod ?n) * ?bs + j mod ?bs < (s mod ?n) * ?bs + ?bs"
          have "((t mod ?n) * ?bs + j mod ?bs) div ?bs = s mod ?n"
            using a by (intro div_nat_eqI) (auto simp: mult.commute)
          moreover have "((t mod ?n) * ?bs + j mod ?bs) div ?bs = t mod ?n" using g(4) by simp
          ultimately show False using ne by simp
        qed
        with True show ?thesis by auto
      qed simp
      ultimately show ?thesis using d old by auto
    qed
  qed
qed

lemma fat_write_prefix:
  assumes inv: "fat_inv b" and n: "n \<le> fb_blocks_per_page b"
  shows "let b' = foldl (fat_write_sector buf i) b [0..<n] in
    fat_inv b' \<and> block_id_for_offset b' = block_id_for_offset b \<and> fb_block_size b' = fb_block_size b \<and>
    fb_blocks_per_page b' = fb_blocks_per_page b \<and>
    (\<forall>k. \<forall>j < PAGE_SIZE. fat_disk b' k j = (if k = i \<and> j < n * fb_block_size b \<and> fat_backed b i j then buf j else fat_disk b k j))"
  using n
proof (induction n)
  case 0
  then show ?case using inv by simp
next
  case (Suc n)
  let ?b = "foldl (fat_write_sector buf i) b [0..<n]" and ?bs = "fb_block_size b"
  have IH: "fat_inv ?b" "block_id_for_offset ?b = block_id_for_offset b" "fb_block_size ?b = ?bs"
    "fb_blocks_per_page ?b = fb_blocks_per_page b"
    "\<And>k j. j < PAGE_SIZE \<Longrightarrow> fat_disk ?b k j = (if k = i \<and> j < n * ?bs \<and> fat_backed b i j then buf j else fat_disk b k j)"
    using Suc by (simp_all add: Let_def)
  have bk: "fat_backed ?b = fat_backed b" by (intro ext) (simp add: fat_backed_def IH)
  have dv: "j div ?bs = n \<longleftrightarrow> n * ?bs \<le> j \<and> j < n * ?bs + ?bs" for j
    using fat_geometry(4) [OF inv] by (auto simp: mult.commute dividend_less_times_div intro: div_nat_eqI)
      (metis dividend_less_times_div mult.commute add.commute mult_Suc_right)
  have "fat_disk (fat_write_sector buf i ?b n) k j =
      (if k = i \<and> j < Suc n * ?bs \<and> fat_backed b i j then buf j else fat_disk b k j)" if "j < PAGE_SIZE" for k j
    using fat_write_sector_disk [OF IH(1) _ that, of n buf i k] Suc.prems IH that dv [of j] by (auto simp: bk)
  then show ?case using IH by (simp add: Let_def fat_write_sector_fields)
qed

lemma fat_write_page_spec:
  assumes "fat_inv b" and "fat_write_page b i buf = (r, b')"
  shows "fat_inv b' \<and> fat_backed b' = fat_backed b \<and>
    (\<forall>k. \<forall>j < PAGE_SIZE. fat_disk b' k j = fat_disk b k j \<or> k = i \<and> fat_disk b' k j = buf j) \<and>
    (\<forall>n. r = Inr n \<longrightarrow> (\<forall>j < PAGE_SIZE. fat_backed b i j \<longrightarrow> fat_disk b' i j = buf j))"
  using assms fat_write_prefix [OF assms(1) order_refl, of buf i] fat_geometry(3) [OF assms(1)]
  by (auto simp: fat_write_page_def Let_def fat_backed_def fun_eq_iff)

lemma fat_past_end:
  assumes inv: "fat_inv b" and i: "fat_npages b \<le> i" and j: "j < PAGE_SIZE"
  shows "fat_disk b i j = 0"
proof -
  let ?t = "length (fb_clus_list b) * fb_sec_per_clus b" and ?n = "fb_blocks_per_page b"
  have n: "0 < ?n" by (rule fat_geometry [OF inv])
  have "?t \<le> fat_npages b * ?n"
  proof -
    have "?t + ?n - 1 < (fat_npages b + 1) * ?n" unfolding fat_npages_def Let_def using n by (metis Suc_eq_plus1 div_less_iff_less_mult lessI)
    then show ?thesis using n by simp
  qed
  also have "\<dots> \<le> i * ?n" using i by simp
  finally have "?t \<le> i * ?n + j div fb_block_size b" by simp
  then have "length (fb_clus_list b) \<le> (i * ?n + j div fb_block_size b) div fb_sec_per_clus b"
    using inv by (simp add: fat_inv_def less_eq_div_iff_mult_less_eq)
  then show ?thesis by (simp add: fat_disk_def block_id_for_offset_def Let_def)
qed

interpretation fat: page_backend fat_ops fat_inv fat_disk fat_backed
proof
  show "fat_inv b \<Longrightarrow> be_read_page fat_ops b i buf = Inr buf' \<Longrightarrow> j < PAGE_SIZE \<Longrightarrow> buf' j = fat_disk b i j" for b i buf buf' j
    by (simp add: fat_ops_def fat_read_page_spec)
  show "fat_inv b \<Longrightarrow> be_read_pages fat_ops b i bufs = Inr bufs' \<Longrightarrow>
      length bufs' = length bufs \<and> (\<forall>k < length bufs. \<forall>j < PAGE_SIZE. (bufs' ! k) j = fat_disk b (i + k) j)" for b i bufs bufs'
    using default_read_pages_spec [of fat_read_page b "fat_disk b" i bufs bufs'] by (simp add: fat_ops_def fat_read_page_spec)
  show "fat_inv b \<Longrightarrow> be_read_contiguous fat_ops b i bufs = Inr bufs' \<Longrightarrow>
      length bufs' = length bufs \<and> (\<forall>k < length bufs. \<forall>j < PAGE_SIZE. (bufs' ! k) j = fat_disk b (i + k) j)" for b i bufs bufs'
    using default_read_pages_spec [of fat_read_page b "fat_disk b" i bufs bufs']
    by (simp add: fat_ops_def default_read_contiguous_def fat_read_page_spec)
  show "fat_inv b \<Longrightarrow> be_npages fat_ops b \<le> i \<Longrightarrow> j < PAGE_SIZE \<Longrightarrow> fat_disk b i j = 0" for b i j
    by (simp add: fat_ops_def fat_past_end)
  show "fat_inv b \<Longrightarrow> be_write_page fat_ops b i buf = (r, b') \<Longrightarrow> fat_inv b' \<and> fat_backed b' = fat_backed b \<and>
      (\<forall>k. \<forall>j < PAGE_SIZE. fat_disk b' k j = fat_disk b k j \<or> k = i \<and> fat_disk b' k j = buf j) \<and>
      (\<forall>n. r = Inr n \<longrightarrow> (\<forall>j < PAGE_SIZE. fat_backed b i j \<longrightarrow> fat_disk b' i j = buf j))" for b i buf r b'
    using fat_write_page_spec [of b i buf r b'] by (simp add: fat_ops_def)
  show "fat_inv b \<Longrightarrow> be_write_pages fat_ops b i bufs = (r, b') \<Longrightarrow> fat_inv b' \<and> fat_backed b' = fat_backed b \<and>
      (\<forall>k. \<forall>j < PAGE_SIZE. fat_disk b' k j = fat_disk b k j \<or> (i \<le> k \<and> k < i + length bufs \<and> fat_disk b' k j = (bufs ! (k - i)) j)) \<and>
      (\<forall>n. r = Inr n \<longrightarrow> (\<forall>k < length bufs. \<forall>j < PAGE_SIZE. fat_backed b (i + k) j \<longrightarrow> fat_disk b' (i + k) j = (bufs ! k) j))"
    for b i bufs r b'
    using default_write_pages_spec [of fat_inv fat_write_page fat_backed fat_disk b 0 i bufs r b'] fat_write_page_spec
    by (simp add: fat_ops_def)
qed

end
