(* ===== verification/PageCacheInv.thy ===== *)
theory PageCacheInv
  imports FatBackend
begin

text \<open>
  The invariant of the page cache and the abstraction the cache is transparent for: the bytes
  of the file, taken from the cached page where there is one and from the backend elsewhere.
  Pages on lease to a writer and pages claimed for writeback are arguments of the invariant,
  so that it also holds between the steps of one operation.
\<close>

section \<open>Contents and invariant\<close>

definition content :: "('b \<Rightarrow> usize \<Rightarrow> bytes) \<Rightarrow> 'b pc_world \<Rightarrow> usize \<Rightarrow> bytes" where
  "content disk w i =
     (case pw_entry w i of
        Some e \<Rightarrow> pw_mem w (pe_page e)
      | None \<Rightarrow> (case pw_backend w of Some b \<Rightarrow> disk b i | None \<Rightarrow> zero_page))"

definition page_ok :: "usize set \<Rightarrow> usize set \<Rightarrow> usize \<Rightarrow> PageEntry \<Rightarrow> bool" where
  "page_ok L C i e \<longleftrightarrow>
     is_fully_valid e \<and> bit (pe_flags e) 1 \<and> \<not> bit (pe_flags e) 4 \<and> \<not> bit (pe_flags e) 6 \<and>
     (bit (pe_flags e) 0 \<longleftrightarrow> i \<in> L \<union> C) \<and> (bit (pe_flags e) 3 \<longleftrightarrow> i \<in> C) \<and> (i \<in> C \<longrightarrow> \<not> bit (pe_flags e) 2)"

definition dirty_set :: "'b pc_world \<Rightarrow> usize set" where
  "dirty_set w = {i. entry_dirty (pw_entry w i)}"

definition cache_wf :: "usize set \<Rightarrow> usize set \<Rightarrow> 'b pc_world \<Rightarrow> bool" where
  "cache_wf L C w \<longleftrightarrow>
     (\<forall>i e. pw_entry w i = Some e \<longrightarrow> page_ok L C i e \<and> pe_page e \<notin> set (pw_free w)) \<and>
     (\<forall>i k e f. pw_entry w i = Some e \<longrightarrow> pw_entry w k = Some f \<longrightarrow> pe_page e = pe_page f \<longrightarrow> i = k) \<and>
     distinct (pw_free w) \<and> pc_pages (pw_cache w) = {i. pw_entry w i \<noteq> None} \<and>
     L \<union> C \<subseteq> {i. pw_entry w i \<noteq> None} \<and> L \<inter> C = {} \<and>
     pw_dirty w = card (dirty_set w) mod 2 ^ 64 \<and> pw_writeback w = card C mod 2 ^ 64"

lemma entry_dirty_bit: "entry_dirty (Some e) \<longleftrightarrow> bit (pe_flags e) 2"
  by (simp add: entry_dirty_def test_flag_def)

lemma entry_dirty_None [simp]: "\<not> entry_dirty None"
  by (simp add: entry_dirty_def)

lemma finite_entries: "finite {i. pw_entry w i \<noteq> None}"
  by (rule finite_subset [of _ "{..<length (pc_entries (pw_cache w))}"]) (auto simp: cache_entry_def)

lemma dirty_set_subset: "dirty_set w \<subseteq> {i. pw_entry w i \<noteq> None}"
  by (auto simp: dirty_set_def entry_dirty_def split: option.splits)

lemma finite_dirty_set: "finite (dirty_set w)"
  using finite_subset [OF dirty_set_subset finite_entries] .

lemma dirty_count_card: "dirty_count (pw_cache w) = card (dirty_set w)"
  by (auto simp: dirty_count_def dirty_set_def length_filter_conv_card cache_entry_def intro!: arg_cong [of _ _ card])

lemma find_dirty_set: "set (find_dirty_pages (pw_cache w)) = dirty_set w"
  by (auto simp: find_dirty_pages_def dirty_set_def cache_entry_def)

lemma wrapping_inc: "wrapping_add (n mod 2 ^ 64) 1 = Suc n mod 2 ^ 64"
  by (simp add: wrapping_add_def USIZE_MAX_def mod_Suc_eq)

lemma mod_dec: "0 < n \<Longrightarrow> 0 < m \<Longrightarrow> (n mod m + m - 1) mod m = (n - 1) mod (m :: nat)"
proof -
  assume "0 < n" and m: "0 < m"
  then obtain k where n: "n = Suc k" by (cases n) auto
  have "(n mod m + m - 1) mod m = (n mod m + (m - 1)) mod m" using m by simp
  also have "\<dots> = (Suc k + (m - 1)) mod m" unfolding n by (rule mod_add_left_eq)
  also have "Suc k + (m - 1) = k + m" using m by simp
  finally show ?thesis by (simp add: n)
qed

lemma wrapping_dec: "0 < n \<Longrightarrow> wrapping_sub (n mod 2 ^ 64) 1 = (n - 1) mod 2 ^ 64"
proof -
  assume "0 < n"
  have u: "USIZE_MAX + 1 = 2 ^ 64" by (simp add: USIZE_MAX_def)
  show ?thesis unfolding wrapping_sub_def u by (rule mod_dec [OF \<open>0 < n\<close>]) simp
qed

section \<open>The primitive steps\<close>

lemma pw_entry_put:
  "pw_entry w i = Some x \<Longrightarrow> pw_entry (pw_put w i e) = (pw_entry w)(i \<mapsto> e)"
  by (auto simp: pw_put_def cache_put_def cache_entry_def fun_eq_iff split: if_splits)

lemma pw_put_fields [simp]:
  "pw_free (pw_put w i e) = pw_free w" "pw_mem (pw_put w i e) = pw_mem w" "pw_backend (pw_put w i e) = pw_backend w"
  "pw_dirty (pw_put w i e) = pw_dirty w" "pw_writeback (pw_put w i e) = pw_writeback w"
  "pc_pages (pw_cache (pw_put w i e)) = pc_pages (pw_cache w)"
  "pc_mutation_generation (pw_cache (pw_put w i e)) = pc_mutation_generation (pw_cache w)"
  by (simp_all add: pw_put_def cache_put_def)

lemma pw_fill_fields [simp]:
  "pw_free (pw_fill w p b) = pw_free w" "pw_mem (pw_fill w p b) = (pw_mem w)(p := b)" "pw_backend (pw_fill w p b) = pw_backend w"
  "pw_dirty (pw_fill w p b) = pw_dirty w" "pw_writeback (pw_fill w p b) = pw_writeback w" "pw_cache (pw_fill w p b) = pw_cache w"
  by (simp_all add: pw_fill_def)

lemma pw_touch_eq: "pw_entry w i = Some e \<Longrightarrow> pw_touch w i g = pw_put w i (g e)"
  by (simp add: pw_touch_def)

lemma count_fields [simp]:
  "pw_cache (count_dirty w) = pw_cache w" "pw_free (count_dirty w) = pw_free w" "pw_mem (count_dirty w) = pw_mem w"
  "pw_backend (count_dirty w) = pw_backend w" "pw_writeback (count_dirty w) = pw_writeback w"
  "pw_cache (uncount_dirty w) = pw_cache w" "pw_free (uncount_dirty w) = pw_free w" "pw_mem (uncount_dirty w) = pw_mem w"
  "pw_backend (uncount_dirty w) = pw_backend w" "pw_writeback (uncount_dirty w) = pw_writeback w"
  "pw_cache (count_writeback w) = pw_cache w" "pw_free (count_writeback w) = pw_free w" "pw_mem (count_writeback w) = pw_mem w"
  "pw_backend (count_writeback w) = pw_backend w" "pw_dirty (count_writeback w) = pw_dirty w"
  "pw_cache (uncount_writeback w) = pw_cache w" "pw_free (uncount_writeback w) = pw_free w" "pw_mem (uncount_writeback w) = pw_mem w"
  "pw_backend (uncount_writeback w) = pw_backend w" "pw_dirty (uncount_writeback w) = pw_dirty w"
  by (simp_all add: count_dirty_def uncount_dirty_def count_writeback_def uncount_writeback_def)

lemma counts [simp]:
  "pw_dirty (count_dirty w) = wrapping_add (pw_dirty w) 1" "pw_dirty (uncount_dirty w) = wrapping_sub (pw_dirty w) 1"
  "pw_writeback (count_writeback w) = wrapping_add (pw_writeback w) 1"
  "pw_writeback (uncount_writeback w) = wrapping_sub (pw_writeback w) 1"
  by (simp_all add: count_dirty_def uncount_dirty_def count_writeback_def uncount_writeback_def)

lemma notify_fields [simp]:
  "cache_entry (pw_cache (notify_state_progress w)) = pw_entry w" "pw_free (notify_state_progress w) = pw_free w"
  "pw_mem (notify_state_progress w) = pw_mem w" "pw_backend (notify_state_progress w) = pw_backend w"
  "pw_dirty (notify_state_progress w) = pw_dirty w" "pw_writeback (notify_state_progress w) = pw_writeback w"
  "pc_pages (pw_cache (notify_state_progress w)) = pc_pages (pw_cache w)"
  "pc_entries (pw_cache (notify_state_progress w)) = pc_entries (pw_cache w)"
  by (simp_all add: notify_state_progress_def cache_entry_def fun_eq_iff)

lemma mkclean_fields [simp]:
  "pw_cache (mkclean_page w i u) = pw_cache w" "pw_free (mkclean_page w i u) = pw_free w" "pw_mem (mkclean_page w i u) = pw_mem w"
  "pw_backend (mkclean_page w i u) = pw_backend w" "pw_dirty (mkclean_page w i u) = pw_dirty w"
  "pw_writeback (mkclean_page w i u) = pw_writeback w"
  by (simp_all add: mkclean_page_def)

text \<open>Two worlds with the same entries, frames and counters.\<close>

definition alike :: "'b pc_world \<Rightarrow> 'b pc_world \<Rightarrow> bool" where
  "alike w w' \<longleftrightarrow> pw_entry w' = pw_entry w \<and> pw_free w' = pw_free w \<and> pc_pages (pw_cache w') = pc_pages (pw_cache w) \<and>
     pw_dirty w' = pw_dirty w \<and> pw_writeback w' = pw_writeback w"

lemma cache_wf_alike: "alike w w' \<Longrightarrow> cache_wf L C w' = cache_wf L C w"
  by (simp add: alike_def cache_wf_def dirty_set_def)

lemma alike_notify: "alike w (notify_state_progress w)"
  by (simp add: alike_def fun_eq_iff)

lemma dirty_set_update:
  "pw_entry w' = (pw_entry w)(i \<mapsto> e) \<Longrightarrow> dirty_set w' = (if bit (pe_flags e) 2 then insert i (dirty_set w) else dirty_set w - {i})"
  by (auto simp: dirty_set_def entry_dirty_bit split: if_splits)

text \<open>An entry gets new flags; it may change its membership in the leased and claimed pages.\<close>

lemma cache_wf_update:
  assumes wf: "cache_wf L C w" and e: "pw_entry w i = Some e" and same: "pe_page e' = pe_page e"
    and ok: "page_ok L' C' i e'" and others: "L' - {i} = L - {i}" "C' - {i} = C - {i}" and disj: "i \<notin> L' \<inter> C'"
    and w': "pw_entry w' = (pw_entry w)(i \<mapsto> e')" "pw_free w' = pw_free w" "pc_pages (pw_cache w') = pc_pages (pw_cache w)"
    and d: "pw_dirty w' = card (dirty_set w') mod 2 ^ 64" and b: "pw_writeback w' = card C' mod 2 ^ 64"
  shows "cache_wf L' C' w'"
proof -
  have mem: "k \<noteq> i \<Longrightarrow> (k \<in> L' \<longleftrightarrow> k \<in> L) \<and> (k \<in> C' \<longleftrightarrow> k \<in> C)" for k using others by blast
  have old: "pw_entry w k = Some f \<Longrightarrow> page_ok L C k f \<and> pe_page f \<notin> set (pw_free w)" for k f using wf by (simp add: cache_wf_def)
  have ok1: "page_ok L' C' k f \<and> pe_page f \<notin> set (pw_free w)" if "pw_entry w' k = Some f" for k f
    using that ok old [of k f] old [OF e] mem [of k] same w' by (auto simp: page_ok_def split: if_splits)
  have inj1: "k = l" if "pw_entry w' k = Some f" "pw_entry w' l = Some g" "pe_page f = pe_page g" for k l f g
  proof -
    have "\<exists>x. pw_entry w k = Some x \<and> pe_page x = pe_page f" "\<exists>x. pw_entry w l = Some x \<and> pe_page x = pe_page g"
      using that w' same e by (auto split: if_splits)
    with that(3) wf show ?thesis unfolding cache_wf_def by metis
  qed
  have dom1: "{k. pw_entry w' k \<noteq> None} = {k. pw_entry w k \<noteq> None}" using w' e by auto
  have LC: "L \<inter> C = {}" "L \<union> C \<subseteq> {k. pw_entry w k \<noteq> None}" "distinct (pw_free w)" "pc_pages (pw_cache w) = {k. pw_entry w k \<noteq> None}"
    using wf by (simp_all add: cache_wf_def)
  have sub1: "L' \<union> C' \<subseteq> {k. pw_entry w k \<noteq> None}"
  proof
    fix k assume "k \<in> L' \<union> C'"
    then have "k = i \<or> k \<in> L \<union> C" using mem [of k] by blast
    then show "k \<in> {k. pw_entry w k \<noteq> None}" using LC(2) e by auto
  qed
  have dis1: "L' \<inter> C' = {}" using LC(1) others disj by blast
  show ?thesis unfolding cache_wf_def dom1 w'(2,3) using ok1 inj1 LC(3,4) sub1 dis1 d b by blast
qed

lemma cache_wf_entry: "cache_wf L C w \<Longrightarrow> pw_entry w i = Some e \<Longrightarrow> page_ok L C i e"
  by (simp add: cache_wf_def)

lemma cache_wf_counts: "cache_wf L C w \<Longrightarrow> pw_dirty w = card (dirty_set w) mod 2 ^ 64"
  "cache_wf L C w \<Longrightarrow> pw_writeback w = card C mod 2 ^ 64"
  by (simp_all add: cache_wf_def)

text \<open>New flags that leave the state bits alone.\<close>

lemma cache_wf_touch:
  assumes wf: "cache_wf L C w" and g: "\<And>e. pe_page (g e) = pe_page e \<and> pe_valid_mask (g e) = pe_valid_mask e \<and>
      (\<forall>n < 5. bit (pe_flags (g e)) n = bit (pe_flags e) n) \<and> bit (pe_flags (g e)) 6 = bit (pe_flags e) 6"
  shows "cache_wf L C (pw_touch w i g)" and "dirty_set (pw_touch w i g) = dirty_set w"
proof -
  have "cache_wf L C (pw_touch w i g) \<and> dirty_set (pw_touch w i g) = dirty_set w"
  proof (cases "pw_entry w i")
    case None
    then show ?thesis using wf by (simp add: pw_touch_def)
  next
    case (Some e)
    have en: "pw_entry (pw_touch w i g) = (pw_entry w)(i \<mapsto> g e)" unfolding pw_touch_eq [OF Some] by (rule pw_entry_put [OF Some])
    have bits: "bit (pe_flags (g e)) 0 = bit (pe_flags e) 0" "bit (pe_flags (g e)) 1 = bit (pe_flags e) 1"
      "bit (pe_flags (g e)) 2 = bit (pe_flags e) 2" "bit (pe_flags (g e)) 3 = bit (pe_flags e) 3"
      "bit (pe_flags (g e)) 4 = bit (pe_flags e) 4" "bit (pe_flags (g e)) 6 = bit (pe_flags e) 6" using g by simp_all
    have "i \<in> dirty_set w \<longleftrightarrow> bit (pe_flags e) 2" using Some by (simp add: dirty_set_def entry_dirty_bit)
    then have ds: "dirty_set (pw_touch w i g) = dirty_set w" using dirty_set_update [OF en] bits by auto
    have ok: "page_ok L C i (g e)" using cache_wf_entry [OF wf Some] g bits by (simp add: page_ok_def is_fully_valid_def)
    have "i \<notin> L \<inter> C" using wf by (simp add: cache_wf_def)
    then have "cache_wf L C (pw_touch w i g)"
      by (intro cache_wf_update [OF wf Some _ ok _ _ _ en])
        (simp_all add: ds [unfolded pw_touch_eq [OF Some]] g pw_touch_eq [OF Some] cache_wf_counts [OF wf])
    with ds show ?thesis by simp
  qed
  then show "cache_wf L C (pw_touch w i g)" "dirty_set (pw_touch w i g) = dirty_set w" by simp_all
qed

section \<open>New pages\<close>

lemma cache_entry_append_None: "cache_entry (pc\<lparr>pc_entries := pc_entries pc @ replicate n None\<rparr>) = cache_entry pc"
  by (auto simp: cache_entry_def nth_append fun_eq_iff)

lemma pw_entry_publish:
  "pw_entry (publish w i e) = (case pw_entry w i of None \<Rightarrow> (pw_entry w)(i \<mapsto> e) | Some _ \<Rightarrow> pw_entry w)"
proof -
  let ?pc = "pw_cache w" and ?n = "Suc i - length (pc_entries (pw_cache w))"
  let ?es = "pc_entries ?pc @ replicate ?n None"
  have i: "i < length ?es" by simp
  have c: "cache_entry (?pc\<lparr>pc_entries := ?es\<rparr>) = pw_entry w" by (rule cache_entry_append_None)
  have at: "?es ! i = pw_entry w i" using fun_cong [OF c, of i] i by (simp add: cache_entry_def)
  have "cache_entry (?pc\<lparr>pc_entries := ?es[i := Some e], pc_pages := x\<rparr>) = (pw_entry w)(i \<mapsto> e)" for x
    using fun_cong [OF c] i by (auto simp: cache_entry_def fun_eq_iff nth_list_update nth_append)
  with c at show ?thesis by (auto simp: publish_def Let_def split: option.splits)
qed

lemma publish_fields [simp]:
  "pw_free (publish w i e) = pw_free w" "pw_mem (publish w i e) = pw_mem w" "pw_backend (publish w i e) = pw_backend w"
  "pw_dirty (publish w i e) = pw_dirty w" "pw_writeback (publish w i e) = pw_writeback w"
  "pc_mutation_generation (pw_cache (publish w i e)) = pc_mutation_generation (pw_cache w)"
  by (simp_all add: publish_def Let_def)

lemma pages_publish: "pw_entry w i = None \<Longrightarrow> pc_pages (pw_cache (publish w i e)) = insert i (pc_pages (pw_cache w))"
  by (auto simp: publish_def Let_def cache_entry_def nth_append split: if_splits)

text \<open>A frame no entry and no free list holds.\<close>

definition unused :: "'b pc_world \<Rightarrow> ppn \<Rightarrow> bool" where
  "unused w p \<longleftrightarrow> p \<notin> set (pw_free w) \<and> (\<forall>k f. pw_entry w k = Some f \<longrightarrow> pe_page f \<noteq> p)"

lemma cache_wf_publish:
  assumes wf: "cache_wf L C w" and i: "pw_entry w i = None" and u: "unused w (pe_page e)"
    and ok: "page_ok {} {} i e" and clean: "\<not> bit (pe_flags e) 2"
  shows "cache_wf L C (publish w i e)" and "dirty_set (publish w i e) = dirty_set w"
proof -
  have en: "pw_entry (publish w i e) = (pw_entry w)(i \<mapsto> e)" using i by (simp add: pw_entry_publish)
  have LC: "L \<union> C \<subseteq> {k. pw_entry w k \<noteq> None}" "L \<inter> C = {}" "distinct (pw_free w)" "pc_pages (pw_cache w) = {k. pw_entry w k \<noteq> None}"
    "\<And>k f. pw_entry w k = Some f \<Longrightarrow> page_ok L C k f \<and> pe_page f \<notin> set (pw_free w)"
    "\<And>k l f g. pw_entry w k = Some f \<Longrightarrow> pw_entry w l = Some g \<Longrightarrow> pe_page f = pe_page g \<Longrightarrow> k = l"
    using wf unfolding cache_wf_def by simp_all
  have "i \<notin> L \<union> C" using LC(1) i by auto
  with ok have ok1: "page_ok L C i e" by (simp add: page_ok_def)
  show ds: "dirty_set (publish w i e) = dirty_set w"
    using dirty_set_update [OF en] clean i by (auto simp: dirty_set_def)
  have dom: "{k. pw_entry (publish w i e) k \<noteq> None} = insert i {k. pw_entry w k \<noteq> None}" using en by auto
  have A: "page_ok L C k f \<and> pe_page f \<notin> set (pw_free w)" if "pw_entry (publish w i e) k = Some f" for k f
    using that ok1 LC(5) [of k f] u en by (auto simp: unused_def split: if_splits)
  have B: "k = l" if "pw_entry (publish w i e) k = Some f" "pw_entry (publish w i e) l = Some g" "pe_page f = pe_page g" for k l f g
  proof (rule ccontr)
    assume ne: "k \<noteq> l"
    with that en LC(6) [of k f l g] have "k = i \<and> f = e \<and> pw_entry w l = Some g \<or> l = i \<and> g = e \<and> pw_entry w k = Some f" by (auto split: if_splits)
    with u that(3) show False unfolding unused_def by metis
  qed
  have "L \<union> C \<subseteq> insert i {k. pw_entry w k \<noteq> None}" using LC(1) by blast
  then show "cache_wf L C (publish w i e)"
    unfolding cache_wf_def dom ds publish_fields pages_publish [OF i]
    using A B LC(2,3,4) cache_wf_counts [OF wf] by blast
qed

lemma pw_frame_alloc_facts:
  assumes wf: "cache_wf L C w" and a: "pw_frame_alloc w = (Some p, w1)"
  shows "cache_wf L C w1 \<and> unused w1 p \<and> unused (w\<lparr>pw_free := pw_free w1\<rparr>) p \<and> pw_cache w1 = pw_cache w \<and> pw_backend w1 = pw_backend w \<and>
    pw_mem w1 = (pw_mem w)(p := zero_page) \<and> dirty_set w1 = dirty_set w"
proof -
  obtain ps where f: "pw_free w = p # ps" "w1 = pw_fill (w\<lparr>pw_free := ps\<rparr>) p zero_page"
    using a by (auto simp: pw_frame_alloc_def split: list.splits)
  have "cache_wf L C w1" using wf unfolding cache_wf_def f by (auto simp: dirty_set_def)
  moreover have "unused w1 p" using wf unfolding cache_wf_def f unused_def by auto
  moreover have "pw_cache w1 = pw_cache w" "pw_backend w1 = pw_backend w" "pw_mem w1 = (pw_mem w)(p := zero_page)" "dirty_set w1 = dirty_set w"
    by (simp_all add: f(2) dirty_set_def)
  moreover have "unused (w\<lparr>pw_free := pw_free w1\<rparr>) p" using calculation by (simp add: unused_def)
  ultimately show ?thesis by blast
qed

text \<open>
  The cache has grown: entries were added, and the file reads as before except on the pages
  \<open>Z\<close>, which read as zeros.
\<close>

definition grown :: "('b \<Rightarrow> usize \<Rightarrow> bytes) \<Rightarrow> usize set \<Rightarrow> 'b pc_world \<Rightarrow> 'b pc_world \<Rightarrow> bool" where
  "grown disk Z w w' \<longleftrightarrow>
     pw_backend w' = pw_backend w \<and> dirty_set w' = dirty_set w \<and>
     pc_mutation_generation (pw_cache w') = pc_mutation_generation (pw_cache w) \<and>
     (\<forall>k. pw_entry w k \<noteq> None \<longrightarrow> pw_entry w' k \<noteq> None) \<and>
     (\<forall>k. \<forall>j < PAGE_SIZE. content disk w' k j = (if k \<in> Z then 0 else content disk w k j))"

lemma grown_refl: "grown disk {} w w"
  by (simp add: grown_def)

lemma grown_trans: "grown disk Z w w' \<Longrightarrow> grown disk Z' w' w'' \<Longrightarrow> grown disk (Z \<union> Z') w w''"
  unfolding grown_def by auto

lemma grown_touch:
  assumes wf: "cache_wf L C w" and g: "\<And>e. pe_page (g e) = pe_page e \<and> pe_valid_mask (g e) = pe_valid_mask e \<and>
      (\<forall>n < 5. bit (pe_flags (g e)) n = bit (pe_flags e) n) \<and> bit (pe_flags (g e)) 6 = bit (pe_flags e) 6"
  shows "cache_wf L C (pw_touch w i g) \<and> grown disk {} w (pw_touch w i g) \<and>
    (\<forall>k. (pw_entry (pw_touch w i g) k = None) = (pw_entry w k = None))"
proof (cases "pw_entry w i")
  case None
  then show ?thesis using wf by (simp add: pw_touch_def grown_refl)
next
  case (Some e)
  have en: "pw_entry (pw_touch w i g) = (pw_entry w)(i \<mapsto> g e)" unfolding pw_touch_eq [OF Some] by (rule pw_entry_put [OF Some])
  have "content disk (pw_touch w i g) k j = content disk w k j" for k j
    using Some g [of e] en by (auto simp: content_def pw_touch_eq [OF Some] split: option.splits)
  moreover have "pc_mutation_generation (pw_cache (pw_touch w i g)) = pc_mutation_generation (pw_cache w)"
    by (simp add: pw_touch_eq [OF Some])
  ultimately show ?thesis
    using cache_wf_touch [OF wf, of g i] g en Some by (auto simp: grown_def pw_touch_eq [OF Some])
qed

lemma flag_ops_keep:
  "pe_page (mark_referenced e) = pe_page e \<and> pe_valid_mask (mark_referenced e) = pe_valid_mask e \<and>
     (\<forall>n < 5. bit (pe_flags (mark_referenced e)) n = bit (pe_flags e) n) \<and> bit (pe_flags (mark_referenced e)) 6 = bit (pe_flags e) 6"
  "pe_page (consume_filemap_readahead e) = pe_page e \<and> pe_valid_mask (consume_filemap_readahead e) = pe_valid_mask e \<and>
     (\<forall>n < 5. bit (pe_flags (consume_filemap_readahead e)) n = bit (pe_flags e) n) \<and>
     bit (pe_flags (consume_filemap_readahead e)) 6 = bit (pe_flags e) 6"
  by (auto simp: mark_referenced_def consume_filemap_readahead_def on_flags_def set_flag_def clear_flag_def bit_simps)

lemmas touch_referenced = grown_touch [OF _ flag_ops_keep(1)]
lemmas touch_consume = grown_touch [OF _ flag_ops_keep(2)]

section \<open>Validity masks\<close>

lemma VALID_ALL_mask: "VALID_ALL = mask 8"
  by (simp add: VALID_ALL_def mask_eq_exp_minus_1)

lemma mask_for_range_eq:
  assumes "0 < len" and "po + len + 512 \<le> USIZE_MAX" and "po < PAGE_SIZE"
  shows "mask_for_range po len = push_bit (po div 512) (mask (min ((po + len + 511) div 512) 8 - po div 512))"
proof -
  have "wrapping_sub (wrapping_add (wrapping_add po len) 512) 1 = po + len + 511"
    using assms by (simp add: wrapping_add_small wrapping_sub_small)
  moreover have "po div 512 < 8" using assms(3) by (simp add: PAGE_SIZE_def div_less_iff_less_mult)
  ultimately show ?thesis using assms(1)
    by (simp add: mask_for_range_def VALID_SEG_SHIFT_def VALID_SEG_COUNT_def PAGE_SIZE_def mask_eq_exp_minus_1 push_bit_eq_mult [of _ 1] Let_def)
qed

lemma initial_valid_mask_cases:
  assumes "i * PAGE_SIZE + PAGE_SIZE \<le> USIZE_MAX"
  shows "initial_valid_mask i size0 =
    (if size0 \<le> i * PAGE_SIZE then VALID_ALL
     else if size0 < i * PAGE_SIZE + PAGE_SIZE
     then push_bit ((size0 - i * PAGE_SIZE) div 512) (mask (8 - (size0 - i * PAGE_SIZE) div 512)) else 0)"
proof -
  have m: "wrapping_mul i PAGE_SIZE = i * PAGE_SIZE" "wrapping_add (i * PAGE_SIZE) PAGE_SIZE = i * PAGE_SIZE + PAGE_SIZE"
    using assms by (simp_all add: wrapping_mul_small wrapping_add_small)
  have "mask_for_range z (PAGE_SIZE - z) = push_bit (z div 512) (mask (8 - z div 512))" if "0 < z" "z < PAGE_SIZE" for z
    using that mask_for_range_eq [of "PAGE_SIZE - z" z] by (simp add: PAGE_SIZE_def USIZE_MAX_def)
  from this [of "size0 - i * PAGE_SIZE"] show ?thesis unfolding initial_valid_mask_def m Let_def
    by (cases "size0 \<le> i * PAGE_SIZE"; cases "size0 < i * PAGE_SIZE + PAGE_SIZE") (simp_all add: not_le)
qed

lemma push_mask_bit: "n \<le> 8 \<Longrightarrow> bit (push_bit n (mask (8 - n)) :: u32) k \<longleftrightarrow> n \<le> k \<and> k < 8"
  by (auto simp: bit_push_bit_iff bit_mask_iff)

text \<open>A page is taken for one past the end of the file when the file ends in its first segment.\<close>

lemma initial_valid_mask_all:
  assumes "i * PAGE_SIZE + PAGE_SIZE \<le> USIZE_MAX"
  shows "initial_valid_mask i size0 = VALID_ALL \<longleftrightarrow> size0 < i * PAGE_SIZE + 512"
proof -
  let ?z = "size0 - i * PAGE_SIZE"
  have "(push_bit (?z div 512) (mask (8 - ?z div 512)) :: u32) = VALID_ALL \<longleftrightarrow> ?z div 512 = 0"
    if "size0 < i * PAGE_SIZE + PAGE_SIZE" "i * PAGE_SIZE < size0"
  proof
    have le: "?z div 512 \<le> 8" using that by (simp add: PAGE_SIZE_def)
    assume e: "(push_bit (?z div 512) (mask (8 - ?z div 512)) :: u32) = VALID_ALL"
    have "bit (VALID_ALL :: u32) 0" by (simp add: VALID_ALL_def)
    with e have "bit (push_bit (?z div 512) (mask (8 - ?z div 512)) :: u32) 0" by simp
    then show "?z div 512 = 0" unfolding push_mask_bit [OF le] by simp
  qed (simp add: VALID_ALL_mask)
  then show ?thesis unfolding initial_valid_mask_cases [OF assms]
    by (auto simp: VALID_ALL_def PAGE_SIZE_def div_eq_0_iff split: if_splits)
qed

lemma initial_valid_mask_within:
  assumes "i * PAGE_SIZE + PAGE_SIZE \<le> USIZE_MAX"
  shows "VALID_ALL OR initial_valid_mask i size0 = VALID_ALL"
proof (rule bit_word_eqI)
  fix n
  have "bit (initial_valid_mask i size0) n \<Longrightarrow> n < 8"
    unfolding initial_valid_mask_cases [OF assms]
    using push_mask_bit [of "(size0 - i * PAGE_SIZE) div 512" n]
    by (auto simp: VALID_ALL_mask bit_mask_iff PAGE_SIZE_def split: if_splits)
  then show "bit (VALID_ALL OR initial_valid_mask i size0) n = bit VALID_ALL n"
    by (auto simp: VALID_ALL_mask bit_or_iff bit_mask_iff bit_imp_le_length)
qed

lemma new_entries_ok:
  "page_ok {} {} i (entry_new p UpToDate)" "\<not> bit (pe_flags (entry_new p UpToDate)) 2" "pe_page (entry_new p UpToDate) = p"
  "page_ok {} {} i (new_with_valid_mask p VALID_ALL)" "\<not> bit (pe_flags (new_with_valid_mask p VALID_ALL)) 2"
  "pe_page (new_with_valid_mask p VALID_ALL) = p"
  by (simp_all add: page_ok_def entry_new_def new_with_valid_mask_def is_fully_valid_def flags_for_state_def)

end
