(* ===== verification/PageCacheRead.thy ===== *)
theory PageCacheRead
  imports PageCacheInv
begin

text \<open>
  Reading through the cache: creating pages never changes the bytes of the file, except where
  a page is filled with zeros instead of being read, and \<open>read_kernel\<close> returns the bytes of the
  file.
\<close>

section \<open>Creating one page\<close>

lemma fill_unused:
  assumes "cache_wf L C w" and "\<forall>k f. pw_entry w k = Some f \<longrightarrow> pe_page f \<noteq> p"
  shows "cache_wf L C (pw_fill w p b) \<and> grown disk {} w (pw_fill w p b)"
proof -
  have "cache_wf L C (pw_fill w p b)" using cache_wf_alike [of w "pw_fill w p b"] assms(1) by (simp add: alike_def)
  moreover have "content disk (pw_fill w p b) k = content disk w k" for k
    using assms(2) by (auto simp: content_def split: option.splits)
  ultimately show ?thesis by (simp add: grown_def dirty_set_def)
qed

lemma publish_grown:
  assumes wf: "cache_wf L C w" and i: "pw_entry w i = None" and u: "unused w (pe_page e)"
    and ok: "page_ok {} {} i e" and clean: "\<not> bit (pe_flags e) 2" and Z: "Z \<subseteq> {i}"
    and bytes: "\<forall>j < PAGE_SIZE. pw_mem w (pe_page e) j = (if i \<in> Z then 0 else content disk w i j)"
  shows "cache_wf L C (publish w i e) \<and> grown disk Z w (publish w i e) \<and> pw_entry (publish w i e) = (pw_entry w)(i \<mapsto> e)"
proof -
  have en: "pw_entry (publish w i e) = (pw_entry w)(i \<mapsto> e)" using i by (simp add: pw_entry_publish)
  have "content disk (publish w i e) k j = (if k \<in> Z then 0 else content disk w k j)" if "j < PAGE_SIZE" for k j
    using bytes Z that en by (cases "k = i") (auto simp: content_def split: option.splits)
  then show ?thesis using cache_wf_publish [OF wf i u ok clean] en by (auto simp: grown_def)
qed

definition zero_fills :: "'b pc_world \<Rightarrow> usize \<Rightarrow> bool \<Rightarrow> usize option \<Rightarrow> bool" where
  "zero_fills w i populate old \<longleftrightarrow>
     pw_entry w i = None \<and> (populate \<longrightarrow> (\<exists>s. old = Some s \<and> initial_valid_mask i s = VALID_ALL))"

lemma publish_new:
  assumes wf: "cache_wf L C w" and i: "pw_entry w i = None" and u: "unused w (pe_page e)"
    and ok: "page_ok {} {} i e" and clean: "\<not> bit (pe_flags e) 2" and Z: "Z \<subseteq> {i}"
    and bytes: "\<forall>j < PAGE_SIZE. pw_mem w (pe_page e) j = (if i \<in> Z then 0 else content disk w i j)"
    and w': "w' = pw_touch (publish w i e) i mark_referenced"
  shows "cache_wf L C w' \<and> grown disk Z w w' \<and> pw_entry w' i \<noteq> None \<and> (\<forall>k. k \<noteq> i \<longrightarrow> (pw_entry w' k = None) = (pw_entry w k = None))"
proof -
  note p = publish_grown [OF wf i u ok clean Z bytes]
  from touch_referenced [of L C "publish w i e" i disk] p
  have t: "cache_wf L C w'" "grown disk {} (publish w i e) w'" "\<forall>k. (pw_entry w' k = None) = (pw_entry (publish w i e) k = None)"
    unfolding w' by blast+
  have "grown disk Z w w'" using grown_trans [OF conjunct1 [OF conjunct2 [OF p]] t(2)] by simp
  with t p show ?thesis by auto
qed

lemma entry_new_mask: "pe_valid_mask (entry_new p st) = VALID_ALL"
  by (simp add: entry_new_def)

context page_backend
begin

lemma get_or_create_facts:
  assumes wf: "cache_wf L C w" and be: "pw_backend w = Some b" "be_inv b" and ix: "i * PAGE_SIZE + PAGE_SIZE \<le> USIZE_MAX"
    and g: "get_or_create_entry ops w i populate old = (r, w')"
  shows "cache_wf L C w' \<and> (\<forall>k. k \<noteq> i \<longrightarrow> (pw_entry w' k = None) = (pw_entry w k = None)) \<and>
    (case r of Inl _ \<Rightarrow> grown disk {} w w'
     | Inr _ \<Rightarrow> grown disk (if zero_fills w i populate old then {i} else {}) w w' \<and> pw_entry w' i \<noteq> None)"
proof (cases "pw_entry w i")
  case (Some e)
  then have "r = Inr ()" "w' = pw_touch w i mark_referenced" using g by (auto simp: get_or_create_entry_def Let_def pw_touch_def)
  moreover have "\<not> zero_fills w i populate old" using Some by (simp add: zero_fills_def)
  ultimately show ?thesis using touch_referenced [OF wf, of i disk] Some by simp
next
  case None
  show ?thesis
  proof (cases "pw_frame_alloc w")
    case (Pair po w1)
    show ?thesis
    proof (cases po)
      case None
      then have "r = Inl ENOMEM \<and> w' = w" using Pair g \<open>pw_entry w i = None\<close>
        by (auto simp: get_or_create_entry_def Let_def pw_frame_alloc_def split: list.splits)
      then show ?thesis using wf by (simp add: grown_refl)
    next
      case (Some p)
      with pw_frame_alloc_facts [OF wf, of p w1] Pair
      have A: "cache_wf L C w1" "unused w1 p" "pw_cache w1 = pw_cache w" "pw_backend w1 = Some b"
        "pw_mem w1 = (pw_mem w)(p := zero_page)" "dirty_set w1 = dirty_set w" by (simp_all add: be)
      have i1: "pw_entry w1 i = None" using None A(3) by simp
      have c1: "content disk w1 k = content disk w k" for k
        using A(2) by (auto simp: content_def A(3,4,5) be unused_def split: option.splits)
      have g1: "grown disk {} w w1" using A c1 be by (simp add: grown_def)
      have d: "content disk w1 i j = disk b i j" for j by (simp add: content_def i1 A(4))
      let ?m = "case old of None \<Rightarrow> 0 | Some s \<Rightarrow> initial_valid_mask i s"
      have z: "zero_fills w i populate old \<longleftrightarrow> \<not> (populate \<and> ?m \<noteq> VALID_ALL)"
        using None by (auto simp: zero_fills_def VALID_ALL_def split: option.splits)
      have cr: "get_or_create_entry ops w i populate old =
        (if populate \<and> ?m \<noteq> VALID_ALL
         then (let e' = (entry_new p UpToDate)\<lparr>pe_valid_mask := VALID_ALL OR ?m\<rparr>
               in case be_read_page ops b i zero_page of
                    Inl err \<Rightarrow> (Inl err, w1)
                  | Inr buf \<Rightarrow> (Inr (), pw_touch (publish (pw_fill w1 p buf) i e') i mark_referenced))
         else if ?m = VALID_ALL
         then (Inr (), pw_touch (publish w1 i (new_with_valid_mask p VALID_ALL)) i mark_referenced)
         else (Inr (), pw_touch (publish w1 i (entry_new p UpToDate)) i mark_referenced))"
        using None Pair Some A(4,5) by (simp add: get_or_create_entry_def Let_def entry_new_mask cong: sum.case_cong)
      show ?thesis
      proof (cases "populate \<and> ?m \<noteq> VALID_ALL")
        case True
        show ?thesis
        proof (cases "be_read_page ops b i zero_page")
          case (Inl err)
          then have "r = Inl err" "w' = w1" using True g cr by simp_all
          then show ?thesis using A(1) g1 A(3) by simp
        next
          case (Inr buf)
          let ?e = "(entry_new p UpToDate)\<lparr>pe_valid_mask := VALID_ALL OR ?m\<rparr>" and ?w2 = "pw_fill w1 p buf"
          have rw: "r = Inr ()" "w' = pw_touch (publish ?w2 i ?e) i mark_referenced" using True g cr Inr by (simp_all add: Let_def)
          have u2: "\<forall>k f. pw_entry w1 k = Some f \<longrightarrow> pe_page f \<noteq> p" using A(2) by (simp add: unused_def)
          have f: "cache_wf L C ?w2" "grown disk {} w1 ?w2" using fill_unused [OF A(1) u2] by blast+
          have "VALID_ALL OR ?m = VALID_ALL" using initial_valid_mask_within [OF ix] by (auto split: option.splits)
          then have e: "page_ok {} {} i ?e" "\<not> bit (pe_flags ?e) 2" "pe_page ?e = p"
            by (simp_all add: page_ok_def entry_new_def is_fully_valid_def flags_for_state_def)
          have "unused ?w2 (pe_page ?e)" using A(2) by (simp add: unused_def e)
          moreover have "\<forall>j < PAGE_SIZE. pw_mem ?w2 (pe_page ?e) j = (if i \<in> {} then 0 else content disk ?w2 i j)"
            using read_page [OF be(2) Inr] i1 by (simp add: e content_def A(4))
          ultimately have n: "cache_wf L C w'" "grown disk {} ?w2 w'" "pw_entry w' i \<noteq> None"
            "\<forall>k. k \<noteq> i \<longrightarrow> (pw_entry w' k = None) = (pw_entry ?w2 k = None)"
            using publish_new [OF f(1) _ _ e(1,2), where Z = "{}" and disk = disk and w' = w'] rw(2) i1 by auto
          have "grown disk {} w w'" using grown_trans [OF g1 grown_trans [OF f(2) n(2)]] by simp
          then show ?thesis using n z True rw(1) A(3) by simp
        qed
      next
        case False
        define e where "e = (if ?m = VALID_ALL then new_with_valid_mask p VALID_ALL else entry_new p UpToDate)"
        have e: "page_ok {} {} i e" "\<not> bit (pe_flags e) 2" "pe_page e = p" by (simp_all add: e_def new_entries_ok)
        have rw: "r = Inr ()" "w' = pw_touch (publish w1 i e) i mark_referenced"
          using g cr False by (auto simp: e_def split: if_splits)
        have "\<forall>j < PAGE_SIZE. pw_mem w1 (pe_page e) j = (if i \<in> {i} then 0 else content disk w1 i j)"
          by (simp add: e A(5) zero_page_def)
        then have n: "cache_wf L C w'" "grown disk {i} w1 w'" "pw_entry w' i \<noteq> None"
          "\<forall>k. k \<noteq> i \<longrightarrow> (pw_entry w' k = None) = (pw_entry w1 k = None)"
          using publish_new [OF A(1) i1 _ e(1,2), where Z = "{i}" and disk = disk and w' = w'] rw(2) A(2) e(3) by auto
        have "grown disk {i} w w'" using grown_trans [OF g1 n(2)] by simp
        then show ?thesis using n z False rw(1) A(3) by simp
      qed
    qed
  qed
qed

lemma get_page_for_read_facts:
  assumes "cache_wf L C w" and "pw_backend w = Some b" and "be_inv b" and "i * PAGE_SIZE + PAGE_SIZE \<le> USIZE_MAX"
    and g: "get_page_for_read ops w i = (r, w')"
  shows "cache_wf L C w' \<and> grown disk {} w w' \<and> (r = Inr () \<longrightarrow> pw_entry w' i \<noteq> None)"
proof (cases "get_or_create_entry ops w i True None")
  case (Pair r1 w1)
  note c = get_or_create_facts [OF assms(1-4) Pair]
  have z: "\<not> zero_fills w i True None" by (simp add: zero_fills_def)
  show ?thesis
  proof (cases r1)
    case (Inl e)
    then show ?thesis using c g Pair by (auto simp: get_page_for_read_def)
  next
    case (Inr u)
    then have w': "r = Inr ()" "w' = pw_touch w1 i consume_filemap_readahead" using g Pair by (auto simp: get_page_for_read_def)
    have c1: "cache_wf L C w1" "grown disk {} w w1" "pw_entry w1 i \<noteq> None" using c Inr z by simp_all
    from touch_consume [OF c1(1), of i disk] have t: "cache_wf L C w'" "grown disk {} w1 w'" "pw_entry w' i \<noteq> None"
      using c1(3) unfolding w'(2) by simp_all
    then show ?thesis using grown_trans [OF c1(2) t(2)] w'(1) by simp
  qed
qed

end

text \<open>Every cached page is fully valid, so nothing is ever filled in.\<close>

lemma ensure_fully_valid_noop: "cache_wf L C w \<Longrightarrow> ensure_fully_valid ops w i = (Inr (), w)"
  by (auto simp: ensure_fully_valid_def dest: cache_wf_entry split: option.splits simp: page_ok_def)

lemma ensure_each_noop: "cache_wf L C w \<Longrightarrow> ensure_each ops w is = (Inr (), w)"
  by (induction "is") (simp_all add: ensure_fully_valid_noop)

lemma entry_bytes_content: "pw_entry w i \<noteq> None \<Longrightarrow> entry_bytes w i = content disk w i"
  by (auto simp: entry_bytes_def content_def)

section \<open>The read plan\<close>

definition copy_for :: "usize \<Rightarrow> usize \<Rightarrow> usize \<Rightarrow> read_copy" where
  "copy_for offset len i =
     \<lparr>rc_page = i, rc_dst_offset = max offset (i * PAGE_SIZE) - offset,
      rc_page_offset = max offset (i * PAGE_SIZE) - i * PAGE_SIZE,
      rc_len = min (offset + len) (i * PAGE_SIZE + PAGE_SIZE) - max offset (i * PAGE_SIZE)\<rparr>"

definition run_pages :: "(usize \<times> usize) list \<Rightarrow> usize set" where
  "run_pages runs = (\<Union>(s, n) \<in> set runs. {s..<s + n})"

definition run_total :: "(usize \<times> usize) list \<Rightarrow> nat" where
  "run_total runs = sum_list (map snd runs)"

lemma add_miss_facts:
  "run_pages (add_miss runs i) = insert i (run_pages runs)" "add_miss runs i \<noteq> []" "run_total (add_miss runs i) = Suc (run_total runs)"
proof -
  have "run_pages (add_miss runs i) = insert i (run_pages runs) \<and> add_miss runs i \<noteq> [] \<and> run_total (add_miss runs i) = Suc (run_total runs)"
  proof (cases runs rule: rev_cases)
    case Nil
    then show ?thesis by (simp add: add_miss_def run_pages_def run_total_def)
  next
    case (snoc rs r)
    obtain s n where r: "r = (s, n)" by fastforce
    show ?thesis using snoc r by (auto simp: add_miss_def run_pages_def run_total_def)
  qed
  then show "run_pages (add_miss runs i) = insert i (run_pages runs)" "add_miss runs i \<noteq> []" "run_total (add_miss runs i) = Suc (run_total runs)"
    by blast+
qed

definition overlaps_range :: "usize \<Rightarrow> usize \<Rightarrow> usize \<Rightarrow> bool" where
  "overlaps_range offset len i \<longleftrightarrow> i * PAGE_SIZE < offset + len \<and> offset < i * PAGE_SIZE + PAGE_SIZE \<and> 0 < len"

lemma plan_pages_facts:
  assumes "cache_wf L C w" and "\<forall>i \<in> set is. overlaps_range offset len i"
    and "foldl (plan_page offset len) (w, plan) is = (w', plan')"
  shows "cache_wf L C w' \<and> grown disk {} w w' \<and> (\<forall>k. (pw_entry w' k = None) = (pw_entry w k = None)) \<and>
    rp_needs_valid_fill plan' = rp_needs_valid_fill plan \<and>
    rp_copies plan' = rp_copies plan @ map (copy_for offset len) (filter (\<lambda>i. pw_entry w i \<noteq> None) is) \<and>
    run_pages (rp_miss_runs plan') = run_pages (rp_miss_runs plan) \<union> {i \<in> set is. pw_entry w i = None} \<and>
    run_total (rp_miss_runs plan') = run_total (rp_miss_runs plan) + length (filter (\<lambda>i. pw_entry w i = None) is) \<and>
    (rp_miss_runs plan' = [] \<longleftrightarrow> rp_miss_runs plan = [] \<and> (\<forall>i \<in> set is. pw_entry w i \<noteq> None)) \<and> pw_free w' = pw_free w"
  using assms
proof (induction "is" arbitrary: w plan)
  case Nil
  then show ?case by (simp add: grown_refl)
next
  case (Cons i is')
  have ov: "\<not> min (offset + len) (i * PAGE_SIZE + PAGE_SIZE) \<le> max offset (i * PAGE_SIZE)"
    using Cons.prems(2) by (auto simp: overlaps_range_def PAGE_SIZE_def)
  have ov': "\<forall>i \<in> set is'. overlaps_range offset len i" using Cons.prems(2) by simp
  show ?case
  proof (cases "pw_entry w i")
    case None
    let ?plan = "plan\<lparr>rp_miss_runs := add_miss (rp_miss_runs plan) i\<rparr>"
    have "plan_page offset len (w, plan) i = (w, ?plan)" using None ov by (simp add: plan_page_def Let_def)
    then have f: "foldl (plan_page offset len) (w, ?plan) is' = (w', plan')" using Cons.prems(3) by simp
    from Cons.IH [OF Cons.prems(1) ov' f] None show ?thesis by (auto simp: add_miss_facts)
  next
    case (Some e)
    have v: "is_fully_valid e" using cache_wf_entry [OF Cons.prems(1) Some] by (simp add: page_ok_def)
    let ?plan = "plan\<lparr>rp_copies := rp_copies plan @ [copy_for offset len i]\<rparr>" and ?w = "pw_touch w i mark_referenced"
    have "plan_page offset len (w, plan) i = (?w, ?plan)"
      using Some ov v by (simp add: plan_page_def Let_def copy_for_def pw_touch_eq [OF Some])
    then have f: "foldl (plan_page offset len) (?w, ?plan) is' = (w', plan')" using Cons.prems(3) by simp
    from touch_referenced [OF Cons.prems(1), of i disk]
    have t: "cache_wf L C ?w" "grown disk {} w ?w" "\<forall>k. (pw_entry ?w k = None) = (pw_entry w k = None)" by blast+
    have fr: "pw_free ?w = pw_free w" by (simp add: pw_touch_eq [OF Some])
    note IH = Cons.IH [OF t(1) ov' f]
    have "grown disk {} w w'" using grown_trans [OF t(2)] IH by fastforce
    moreover have "{k \<in> set is'. pw_entry ?w k = None} = {k \<in> set (i # is'). pw_entry w k = None}" using t(3) Some by auto
    moreover have "filter (\<lambda>k. pw_entry ?w k = None) is' = filter (\<lambda>k. pw_entry w k = None) (i # is')"
      "filter (\<lambda>k. pw_entry ?w k \<noteq> None) is' = filter (\<lambda>k. pw_entry w k \<noteq> None) is'" using t(3) Some by simp_all
    ultimately show ?thesis using IH t(3) Some fr by simp
  qed
qed

end
