(* ===== verification/PageCacheFetch.thy ===== *)
theory PageCacheFetch
  imports PageCacheRead
begin

text \<open>
  Filling the cache in runs, and the main theorem on reading: \<open>read_kernel\<close> returns exactly the
  bytes of the file and changes neither the file nor the backend.
\<close>

section \<open>Frames for a run\<close>

lemma frame_alloc_grown:
  assumes "cache_wf L C w" and "pw_frame_alloc w = (Some p, w1)"
  shows "cache_wf L C w1" and "grown disk {} w w1" and "unused w1 p" and "pw_cache w1 = pw_cache w" and "pw_free w = p # pw_free w1"
proof -
  note a = pw_frame_alloc_facts [OF assms]
  then show "cache_wf L C w1" "unused w1 p" "pw_cache w1 = pw_cache w" by blast+
  show "pw_free w = p # pw_free w1" using assms(2) by (auto simp: pw_frame_alloc_def split: list.splits)
  have "content disk w1 k = content disk w k" for k
    using a by (auto simp: content_def unused_def split: option.splits)
  then show "grown disk {} w w1" using a by (simp add: grown_def)
qed

lemma alloc_frames_facts:
  assumes "cache_wf L C w" and "alloc_frames n w = (r, w')"
  shows "cache_wf L C w' \<and> grown disk {} w w' \<and> pw_cache w' = pw_cache w \<and> (n \<le> length (pw_free w) \<longleftrightarrow> r \<noteq> None) \<and>
    (\<forall>ps. r = Some ps \<longrightarrow> length ps = n \<and> pw_free w = ps @ pw_free w' \<and> (\<forall>p \<in> set ps. unused w' p))"
  using assms
proof (induction n arbitrary: w r w')
  case 0
  then show ?case by (auto simp: grown_refl)
next
  case (Suc n)
  show ?case
  proof (cases "pw_frame_alloc w")
    case (Pair po w1)
    show ?thesis
    proof (cases po)
      case None
      with Pair have "pw_free w = []" "w1 = w" by (auto simp: pw_frame_alloc_def split: list.splits)
      with Pair None Suc.prems show ?thesis by (auto simp: grown_refl)
    next
      case (Some p)
      note a = frame_alloc_grown [OF Suc.prems(1) Pair [unfolded Some]]
      obtain r2 w2 where al: "alloc_frames n w1 = (r2, w2)" by fastforce
      have e: "w' = w2" "r = map_option ((#) p) r2"
        using Suc.prems(2) Pair Some al by (auto split: option.splits)
      note IH = Suc.IH [OF a(1) al]
      have g: "grown disk {} w w'" using grown_trans [OF a(2), of disk "{}" w2] IH e by simp
      have "unused w2 p" if "r2 = Some ps" for ps
        using a(3,4) IH that by (auto simp: unused_def)
      then show ?thesis using IH g a(4,5) e by auto
    qed
  qed
qed

lemma fill_frames_facts:
  assumes "cache_wf L C w" and "\<forall>p \<in> set ps. unused w p" and "distinct ps" and "length pages = length ps"
  shows "cache_wf L C (fill_frames w ps pages) \<and> grown disk {} w (fill_frames w ps pages) \<and>
    pw_cache (fill_frames w ps pages) = pw_cache w \<and> pw_free (fill_frames w ps pages) = pw_free w \<and>
    (\<forall>k < length ps. pw_mem (fill_frames w ps pages) (ps ! k) = pages ! k) \<and>
    (\<forall>q. q \<notin> set ps \<longrightarrow> pw_mem (fill_frames w ps pages) q = pw_mem w q)"
  using assms
proof (induction ps arbitrary: w pages)
  case Nil
  then show ?case by (simp add: grown_refl)
next
  case (Cons p ps)
  then obtain b bs where pages: "pages = b # bs" by (cases pages) auto
  have "\<forall>k f. pw_entry w k = Some f \<longrightarrow> pe_page f \<noteq> p" using Cons.prems(2) by (simp add: unused_def)
  note f = fill_unused [OF Cons.prems(1) this, of b disk]
  have "\<forall>q \<in> set ps. unused (pw_fill w p b) q" using Cons.prems(2) by (simp add: unused_def)
  moreover have "distinct ps" "length bs = length ps" using Cons.prems(3,4) pages by simp_all
  ultimately have IH: "cache_wf L C (fill_frames (pw_fill w p b) ps bs)" "grown disk {} (pw_fill w p b) (fill_frames (pw_fill w p b) ps bs)"
    "pw_cache (fill_frames (pw_fill w p b) ps bs) = pw_cache w" "pw_free (fill_frames (pw_fill w p b) ps bs) = pw_free w"
    "\<And>k. k < length ps \<Longrightarrow> pw_mem (fill_frames (pw_fill w p b) ps bs) (ps ! k) = bs ! k"
    "\<And>q. q \<notin> set ps \<Longrightarrow> pw_mem (fill_frames (pw_fill w p b) ps bs) q = (if q = p then b else pw_mem w q)"
    using Cons.IH [OF conjunct1 [OF f], of bs] by auto
  have "grown disk {} w (fill_frames w (p # ps) pages)" using grown_trans [OF conjunct2 [OF f] IH(2)] pages by simp
  moreover have "p \<notin> set ps" using Cons.prems(3) by simp
  ultimately show ?case using IH pages by (auto simp: nth_Cons split: nat.splits)
qed

lemma publish_existing: "pw_entry w i \<noteq> None \<Longrightarrow> pw_entry (publish w i e) = pw_entry w"
  by (auto simp: pw_entry_publish)

lemma publish_present:
  assumes "cache_wf L C w" and "pw_entry w i \<noteq> None"
  shows "cache_wf L C (publish w i e)" and "grown disk {} w (publish w i e)"
proof -
  have en: "pw_entry (publish w i e) = pw_entry w" by (rule publish_existing [OF assms(2)])
  have ds: "dirty_set (publish w i e) = dirty_set w" by (simp add: dirty_set_def en)
  have pg: "pc_pages (pw_cache (publish w i e)) = pc_pages (pw_cache w)"
    using assms(2) by (auto simp: publish_def Let_def cache_entry_def nth_append split: option.splits if_splits)
  show "cache_wf L C (publish w i e)" using assms(1) unfolding cache_wf_def en ds pg publish_fields by blast
  have "content disk (publish w i e) = content disk w" by (simp add: fun_eq_iff content_def en split: option.splits)
  then show "grown disk {} w (publish w i e)" by (simp add: grown_def ds en)
qed

lemma publish_run_facts:
  assumes "cache_wf L C w" and "distinct ps" and "\<forall>p \<in> set ps. unused w p"
    and "\<forall>k < length ps. \<forall>j < PAGE_SIZE. pw_entry w (i + k) = None \<longrightarrow> pw_mem w (ps ! k) j = content disk w (i + k) j"
  shows "cache_wf L C (publish_run w i ps) \<and> grown disk {} w (publish_run w i ps) \<and>
    (\<forall>k < length ps. pw_entry (publish_run w i ps) (i + k) \<noteq> None) \<and> pw_free (publish_run w i ps) = pw_free w"
  using assms
proof (induction ps arbitrary: w i)
  case Nil
  then show ?case by (simp add: grown_refl)
next
  case (Cons p ps)
  let ?e = "entry_new p UpToDate" and ?w = "publish w i (entry_new p UpToDate)"
  have e: "page_ok {} {} i ?e" "\<not> bit (pe_flags ?e) 2" "pe_page ?e = p" by (simp_all add: new_entries_ok)
  have one: "cache_wf L C ?w \<and> grown disk {} w ?w"
  proof (cases "pw_entry w i = None")
    case True
    have "\<forall>j < PAGE_SIZE. pw_mem w (pe_page ?e) j = (if i \<in> {} then 0 else content disk w i j)"
      using Cons.prems(4) True by (force simp: e)
    then show ?thesis
      using publish_grown [OF Cons.prems(1) True _ e(1,2), where Z = "{}" and disk = disk] Cons.prems(3) e(3) by simp
  next
    case False
    then show ?thesis using publish_present [OF Cons.prems(1) False] by blast
  qed
  have present: "pw_entry ?w i \<noteq> None" by (auto simp: pw_entry_publish split: option.splits)
  have absent: "pw_entry ?w k = None \<longleftrightarrow> pw_entry w k = None" if "k \<noteq> i" for k
    using that by (auto simp: pw_entry_publish split: option.splits)
  have u: "\<forall>q \<in> set ps. unused ?w q"
    using Cons.prems(2,3) e(3) by (auto simp: unused_def pw_entry_publish split: option.splits if_splits)
  have m: "\<forall>k < length ps. \<forall>j < PAGE_SIZE. pw_entry ?w (i + 1 + k) = None \<longrightarrow> pw_mem ?w (ps ! k) j = content disk ?w (i + 1 + k) j"
  proof (intro allI impI)
    fix k j assume k: "k < length ps" and j: "j < PAGE_SIZE" and n: "pw_entry ?w (i + 1 + k) = None"
    then have "pw_mem w ((p # ps) ! Suc k) j = content disk w (i + Suc k) j" using Cons.prems(4) [rule_format, of "Suc k" j] absent [of "i + Suc k"] by simp
    then show "pw_mem ?w (ps ! k) j = content disk ?w (i + 1 + k) j" using one j by (simp add: grown_def)
  qed
  have d: "distinct ps" using Cons.prems(2) by simp
  note IH = Cons.IH [OF conjunct1 [OF one] d u m]
  have g: "grown disk {} w (publish_run w i (p # ps))" using grown_trans [OF conjunct2 [OF one], of "{}"] IH by simp
  have "pw_entry (publish_run w i (p # ps)) (i + k) \<noteq> None" if "k < length (p # ps)" for k
  proof (cases k)
    case 0
    then show ?thesis using IH present by (simp add: grown_def)
  next
    case (Suc l)
    then have "pw_entry (publish_run ?w (i + 1) ps) (i + 1 + l) \<noteq> None" using IH that by simp
    then show ?thesis using Suc by simp
  qed
  then show ?case using IH g by simp
qed

text \<open>A backend whose reads do not fail.\<close>

definition reads_succeed :: "'b backend_ops \<Rightarrow> 'b \<Rightarrow> bool" where
  "reads_succeed ops b \<longleftrightarrow>
     (\<forall>i buf. \<exists>x. be_read_page ops b i buf = Inr x) \<and> (\<forall>i bufs. \<exists>x. be_read_contiguous ops b i bufs = Inr x)"

declare read_run.simps [simp del]

lemma read_run_succeeds:
  assumes "reads_succeed ops b" and "\<forall>n. ce_reserve env n"
  shows "\<exists>pages. read_run env ops b np first count = Inr pages"
proof (induction count arbitrary: first rule: less_induct)
  case (less count)
  show ?case
  proof (cases "count = 0")
    case True
    then show ?thesis by (simp add: read_run.simps)
  next
    case False
    let ?chunk = "min count MAX_DEMAND_READ_PAGES"
    have "count - ?chunk < count" using False by (simp add: MAX_DEMAND_READ_PAGES_def)
    from less.IH [OF this] obtain rest where r: "read_run env ops b np (first + ?chunk) (count - ?chunk) = Inr rest" by blast
    have "\<exists>x. be_read_contiguous ops b first (replicate n zero_page) = Inr x" for n
      using assms(1) unfolding reads_succeed_def by blast
    from this [of "min ?chunk (np - first)"]
    show ?thesis using False assms(2) r by (auto simp: Let_def read_run.simps [of _ _ _ _ first count])
  qed
qed

context page_backend
begin

lemma read_run_facts:
  assumes b: "be_inv b" and "read_run env ops b (be_npages ops b) first count = Inr pages"
  shows "length pages = count \<and> (\<forall>k < count. \<forall>j < PAGE_SIZE. (pages ! k) j = disk b (first + k) j)"
  using assms(2)
proof (induction count arbitrary: first pages rule: less_induct)
  case (less count)
  show ?case
  proof (cases "count = 0")
    case True
    then show ?thesis using less.prems by (simp add: read_run.simps)
  next
    case False
    define chunk where "chunk = min count MAX_DEMAND_READ_PAGES"
    define rd where "rd = (if first < be_npages ops b then min chunk (be_npages ops b - first) else 0)"
    have lt: "count - chunk < count" "chunk \<le> count" using False by (simp_all add: chunk_def MAX_DEMAND_READ_PAGES_def)
    have rd: "rd \<le> chunk" "rd \<le> k \<Longrightarrow> k < chunk \<Longrightarrow> be_npages ops b \<le> first + k" for k by (auto simp: rd_def split: if_splits)
    have eq: "read_run env ops b (be_npages ops b) first count =
      (if \<not> ce_reserve env (chunk * PAGE_SIZE) then Inl ENOMEM
       else case (if rd \<noteq> 0 then be_read_contiguous ops b first (replicate rd zero_page) else Inr []) of
         Inl e \<Rightarrow> Inl e
       | Inr pages \<Rightarrow>
           (case read_run env ops b (be_npages ops b) (first + chunk) (count - chunk) of
              Inl e \<Rightarrow> Inl e
            | Inr rest \<Rightarrow> Inr (pages @ replicate (chunk - rd) zero_page @ rest)))"
      by (simp only: read_run.simps [of env ops b _ first count] Let_def False if_False chunk_def rd_def)
    obtain ps rest where p: "(if rd \<noteq> 0 then be_read_contiguous ops b first (replicate rd zero_page) else Inr []) = Inr ps"
      and r: "read_run env ops b (be_npages ops b) (first + chunk) (count - chunk) = Inr rest"
      and pages: "pages = ps @ replicate (chunk - rd) zero_page @ rest"
      using less.prems unfolding eq by (auto split: if_splits sum.splits)
    have ps: "length ps = rd" "\<And>k j. k < rd \<Longrightarrow> j < PAGE_SIZE \<Longrightarrow> (ps ! k) j = disk b (first + k) j"
      using p read_contiguous [OF b, of first "replicate rd zero_page" ps] by (auto split: if_splits)
    note IH = less.IH [OF lt(1) r]
    have "(pages ! k) j = disk b (first + k) j" if k: "k < count" and j: "j < PAGE_SIZE" for k j
    proof -
      consider "k < rd" | "rd \<le> k" "k < chunk" | "chunk \<le> k" by linarith
      then show ?thesis
      proof cases
        case 1
        then show ?thesis using ps j unfolding pages by (simp add: nth_append)
      next
        case 2
        then have "disk b (first + k) j = 0" using past_end [OF b rd(2) [OF 2]] j by blast
        moreover have "k - rd < chunk - rd" using 2 by linarith
        ultimately show ?thesis using 2 ps(1) unfolding pages by (simp add: nth_append zero_page_def)
      next
        case 3
        have "\<not> k - rd < chunk - rd" "k - rd - (chunk - rd) = k - chunk" using 3 rd(1) by linarith+
        then have "pages ! k = rest ! (k - chunk)" using 3 ps(1) rd(1) unfolding pages by (simp add: nth_append)
        moreover have "k - chunk < count - chunk" using k 3 by linarith
        ultimately show ?thesis using IH j 3 by simp
      qed
    qed
    moreover have "length pages = count" using IH ps(1) lt(2) rd(1) unfolding pages by simp
    ultimately show ?thesis by blast
  qed
qed

lemma fill_run_facts:
  assumes wf: "cache_wf L C w" and be: "pw_backend w = Some b" "be_inv b"
    and al: "alloc_frames count w = (Some ps, w1)" and rd: "read_run env ops b (be_npages ops b) start count = Inr pages"
    and w': "w' = publish_run (fill_frames w1 ps pages) start ps"
  shows "cache_wf L C w' \<and> grown disk {} w w' \<and> (\<forall>i \<in> {start..<start + count}. pw_entry w' i \<noteq> None) \<and>
    length (pw_free w) = count + length (pw_free w') \<and> pc_mutation_generation (pw_cache (fill_frames w1 ps pages)) = pc_mutation_generation (pw_cache w)"
proof -
  let ?w2 = "fill_frames w1 ps pages"
  note a = alloc_frames_facts [OF wf al, of disk]
  have fr: "length ps = count" "pw_free w = ps @ pw_free w1" "\<forall>p \<in> set ps. unused w1 p" using a by blast+
  have d: "distinct ps" using wf fr(2) unfolding cache_wf_def by simp
  note r = read_run_facts [OF be(2) rd]
  have l: "length pages = length ps" using r fr(1) by simp
  have a1: "cache_wf L C w1" "grown disk {} w w1" "pw_cache w1 = pw_cache w" using a by blast+
  note f = fill_frames_facts [OF a1(1) fr(3) d l, of disk]
  have f2: "cache_wf L C ?w2" "grown disk {} w1 ?w2" "pw_cache ?w2 = pw_cache w" "pw_free ?w2 = pw_free w1"
    "\<And>k. k < length ps \<Longrightarrow> pw_mem ?w2 (ps ! k) = pages ! k" using f a1(3) by simp_all
  have u: "\<forall>p \<in> set ps. unused ?w2 p" using fr(3) f2(3,4) a1(3) by (simp add: unused_def)
  have b2: "pw_backend ?w2 = Some b" using f2(2) a1(2) be by (simp add: grown_def)
  have m: "\<forall>k < length ps. \<forall>j < PAGE_SIZE. pw_entry ?w2 (start + k) = None \<longrightarrow> pw_mem ?w2 (ps ! k) j = content disk ?w2 (start + k) j"
    using f2(5) conjunct2 [OF r] fr(1) b2 by (simp add: content_def)
  note p = publish_run_facts [OF f2(1) d u m]
  have "grown disk {} w w'" using grown_trans [OF a1(2) grown_trans [OF f2(2) conjunct1 [OF conjunct2 [OF p]]]] w' by simp
  moreover have "pw_entry w' i \<noteq> None" if "i \<in> {start..<start + count}" for i
  proof -
    have "i - start < length ps" using that fr(1) by auto
    then have "pw_entry w' (start + (i - start)) \<noteq> None" using p unfolding w' by blast
    then show ?thesis using that by simp
  qed
  moreover have "length (pw_free w) = count + length (pw_free w')" using p w' fr(1,2) f2(4) by simp
  ultimately show ?thesis using conjunct1 [OF p] w' f2(3) by simp
qed

lemma fill_loop_facts:
  assumes "cache_wf L C w" and "pw_backend w = Some b" "be_inv b" and "generation = pc_mutation_generation (pw_cache w)"
    and "fill_miss_runs_loop env ops generation b w runs = (r, w')"
  shows "cache_wf L C w' \<and> grown disk {} w w' \<and> (r = Inr () \<longrightarrow> (\<forall>i \<in> run_pages runs. pw_entry w' i \<noteq> None)) \<and>
    (reads_succeed ops b \<and> (\<forall>n. ce_reserve env n) \<and> run_total runs \<le> length (pw_free w) \<longrightarrow> r = Inr ())"
  using assms
proof (induction runs arbitrary: w)
  case Nil
  then show ?case by (simp add: grown_refl run_pages_def)
next
  case (Cons run runs)
  obtain start count where run: "run = (start, count)" by fastforce
  obtain al w1 where al: "alloc_frames count w = (al, w1)" by fastforce
  note a = alloc_frames_facts [OF Cons.prems(1) al, of disk]
  show ?case
  proof (cases al)
    case None
    then have "w' = w1" "r = Inl ENOMEM" "length (pw_free w) < count" using Cons.prems(5) al run a by auto
    then show ?thesis using a run by (simp add: run_total_def)
  next
    case (Some ps)
    note al' = al [unfolded Some]
    show ?thesis
    proof (cases "read_run env ops b (be_npages ops b) start count")
      case (Inl e)
      then have "w' = w1" "r = Inl e" using Cons.prems(5) al Some run by auto
      then show ?thesis using a Inl read_run_succeeds [of ops b env "be_npages ops b" start count] by auto
    next
      case (Inr pages)
      define w2 where "w2 = publish_run (fill_frames w1 ps pages) start ps"
      note f = fill_run_facts [OF Cons.prems(1-3) al' Inr w2_def]
      have gen: "generation = pc_mutation_generation (pw_cache w2)" "pw_backend w2 = Some b" using f Cons.prems by (simp_all add: grown_def)
      have lp: "fill_miss_runs_loop env ops generation b w2 runs = (r, w')"
        using Cons.prems(4,5) al Some run Inr f by (simp add: Let_def w2_def)
      note IH = Cons.IH [OF conjunct1 [OF f] gen(2) Cons.prems(3) gen(1) lp]
      have "grown disk {} w w'" using grown_trans [OF conjunct1 [OF conjunct2 [OF f]], of "{}" w'] IH by simp
      moreover have "\<forall>i \<in> {start..<start + count}. pw_entry w' i \<noteq> None" using f IH by (simp add: grown_def)
      ultimately show ?thesis using IH f run by (auto simp: run_pages_def run_total_def)
    qed
  qed
qed

end

section \<open>Copying out\<close>

lemma page_of_byte: "k div PAGE_SIZE = i \<longleftrightarrow> i * PAGE_SIZE \<le> k \<and> k < i * PAGE_SIZE + PAGE_SIZE"
  by (auto simp: PAGE_SIZE_def)

lemma copy_for_range:
  assumes "overlaps_range offset len i"
  shows "rc_dst_offset (copy_for offset len i) \<le> k \<and> k < rc_dst_offset (copy_for offset len i) + rc_len (copy_for offset len i) \<longleftrightarrow>
      k < len \<and> (offset + k) div PAGE_SIZE = i"
    and "(offset + k) div PAGE_SIZE = i \<Longrightarrow>
      rc_page_offset (copy_for offset len i) + (k - rc_dst_offset (copy_for offset len i)) = (offset + k) mod PAGE_SIZE"
proof -
  show "rc_dst_offset (copy_for offset len i) \<le> k \<and> k < rc_dst_offset (copy_for offset len i) + rc_len (copy_for offset len i) \<longleftrightarrow>
      k < len \<and> (offset + k) div PAGE_SIZE = i"
    using assms unfolding page_of_byte overlaps_range_def copy_for_def by (simp add: max_def min_def) linarith
  assume i: "(offset + k) div PAGE_SIZE = i"
  have "(offset + k) mod PAGE_SIZE = offset + k - i * PAGE_SIZE" using i by (metis minus_div_mult_eq_mod)
  then show "rc_page_offset (copy_for offset len i) + (k - rc_dst_offset (copy_for offset len i)) = (offset + k) mod PAGE_SIZE"
    using i unfolding page_of_byte copy_for_def by (simp add: max_def)
qed

lemma run_copies_bytes:
  assumes "\<forall>i \<in> set is. overlaps_range offset len i"
  shows "run_copies w (map (copy_for offset len) is) buf k =
    (if k < len \<and> (offset + k) div PAGE_SIZE \<in> set is
     then entry_bytes w ((offset + k) div PAGE_SIZE) ((offset + k) mod PAGE_SIZE) else buf k)"
  using assms
proof (induction "is" rule: rev_induct)
  case Nil
  then show ?case by (simp add: run_copies_def)
next
  case (snoc i is')
  let ?c = "copy_for offset len i"
  have ov: "overlaps_range offset len i" using snoc.prems by simp
  have "run_copies w (map (copy_for offset len) (is' @ [i])) buf k =
      copy_slice (run_copies w (map (copy_for offset len) is') buf) (rc_dst_offset ?c) (rc_len ?c) (entry_bytes w (rc_page ?c)) (rc_page_offset ?c) k"
    by (simp add: run_copies_def)
  also have "\<dots> = (if k < len \<and> (offset + k) div PAGE_SIZE = i then entry_bytes w i ((offset + k) mod PAGE_SIZE)
      else run_copies w (map (copy_for offset len) is') buf k)"
    using copy_for_range [OF ov, of k] by (auto simp: copy_slice_def copy_for_def)
  finally show ?case using snoc by auto
qed

lemma range_pages:
  assumes "0 < len"
  shows "k < len \<Longrightarrow> (offset + k) div PAGE_SIZE \<in> set [offset div PAGE_SIZE..<Suc ((offset + len - 1) div PAGE_SIZE)]"
    and "i \<in> set [offset div PAGE_SIZE..<Suc ((offset + len - 1) div PAGE_SIZE)] \<Longrightarrow> overlaps_range offset len i"
    and "length [offset div PAGE_SIZE..<Suc ((offset + len - 1) div PAGE_SIZE)] \<le> len div PAGE_SIZE + 2"
proof -
  show "(offset + k) div PAGE_SIZE \<in> set [offset div PAGE_SIZE..<Suc ((offset + len - 1) div PAGE_SIZE)]" if k: "k < len"
  proof -
    have "offset div PAGE_SIZE \<le> (offset + k) div PAGE_SIZE" "(offset + k) div PAGE_SIZE \<le> (offset + len - 1) div PAGE_SIZE"
      using k by (auto intro: div_le_mono)
    then show ?thesis unfolding set_upt atLeastLessThan_iff less_Suc_eq_le by blast
  qed
  show "i \<in> set [offset div PAGE_SIZE..<Suc ((offset + len - 1) div PAGE_SIZE)] \<Longrightarrow> overlaps_range offset len i"
    using assms unfolding overlaps_range_def PAGE_SIZE_def by auto
  show "length [offset div PAGE_SIZE..<Suc ((offset + len - 1) div PAGE_SIZE)] \<le> len div PAGE_SIZE + 2"
    using assms unfolding length_upt PAGE_SIZE_def by linarith
qed

definition file_byte :: "('b \<Rightarrow> usize \<Rightarrow> bytes) \<Rightarrow> 'b pc_world \<Rightarrow> usize \<Rightarrow> u8" where
  "file_byte disk w n = content disk w (n div PAGE_SIZE) (n mod PAGE_SIZE)"

lemma grown_file_byte: "grown disk {} w w' \<Longrightarrow> file_byte disk w' n = file_byte disk w n"
  by (simp add: grown_def file_byte_def PAGE_SIZE_def)

definition bytes_read :: "('b \<Rightarrow> usize \<Rightarrow> bytes) \<Rightarrow> 'b pc_world \<Rightarrow> usize \<Rightarrow> usize \<Rightarrow> bytes \<Rightarrow> bytes" where
  "bytes_read disk w offset len buf = (\<lambda>k. if k < len then file_byte disk w (offset + k) else buf k)"

lemma bytes_read_grown: "grown disk {} w w' \<Longrightarrow> bytes_read disk w' = bytes_read disk w"
  by (simp add: bytes_read_def fun_eq_iff grown_file_byte)

text \<open>When every page of the range is cached, the plan copies the whole range.\<close>

lemma lookup_complete:
  assumes wf: "cache_wf L C w" and len: "0 < len"
    and all: "\<forall>i \<in> set [offset div PAGE_SIZE..<Suc ((offset + len - 1) div PAGE_SIZE)]. pw_entry w i \<noteq> None"
    and lk: "lookup_read_range_fast w offset len (offset div PAGE_SIZE) ((offset + len - 1) div PAGE_SIZE) = (w1, plan)"
  shows "rp_miss_runs plan = [] \<and> rp_needs_valid_fill plan = [] \<and> cache_wf L C w1 \<and> grown disk {} w w1 \<and>
    run_copies w1 (rp_copies plan) buf = bytes_read disk w offset len buf"
proof -
  let ?is = "[offset div PAGE_SIZE..<Suc ((offset + len - 1) div PAGE_SIZE)]"
  have ov: "\<forall>i \<in> set ?is. overlaps_range offset len i" using range_pages(2) [OF len] by blast
  note p = plan_pages_facts [OF wf ov lk [unfolded lookup_read_range_fast_def], of disk]
  have g: "cache_wf L C w1" "grown disk {} w w1" "\<forall>k. (pw_entry w1 k = None) = (pw_entry w k = None)" using p by blast+
  let ?p0 = "\<lparr>rp_copies = [], rp_miss_runs = [], rp_needs_valid_fill = []\<rparr>"
  have "rp_copies plan = rp_copies ?p0 @ map (copy_for offset len) (filter (\<lambda>i. pw_entry w i \<noteq> None) ?is)" using p by blast
  then have c: "rp_copies plan = map (copy_for offset len) ?is" unfolding filter_True [OF all] by simp
  have "rp_miss_runs plan = [] \<longleftrightarrow> rp_miss_runs ?p0 = [] \<and> (\<forall>i \<in> set ?is. pw_entry w i \<noteq> None)"
    "rp_needs_valid_fill plan = rp_needs_valid_fill ?p0" using p by blast+
  then have m: "rp_miss_runs plan = []" "rp_needs_valid_fill plan = []" using all by (simp_all del: set_upt)
  have "run_copies w1 (rp_copies plan) buf k = bytes_read disk w offset len buf k" for k
  proof (cases "k < len")
    case True
    let ?i = "(offset + k) div PAGE_SIZE"
    have i: "?i \<in> set ?is" by (rule range_pages(1) [OF len True])
    then have "entry_bytes w1 ?i = content disk w1 ?i" using all g(3) by (intro entry_bytes_content) blast
    then have "run_copies w1 (rp_copies plan) buf k = file_byte disk w1 (offset + k)"
      unfolding c run_copies_bytes [OF ov] using True i by (simp add: file_byte_def del: set_upt)
    then show ?thesis using True grown_file_byte [OF g(2)] by (simp add: bytes_read_def)
  next
    case False
    then show ?thesis unfolding c run_copies_bytes [OF ov] by (simp add: bytes_read_def)
  qed
  then show ?thesis using m g by blast
qed

section \<open>Reading\<close>

lemma get_page_for_read_succeeds:
  assumes "reads_succeed ops b" and "pw_backend w = Some b" and "pw_free w \<noteq> []"
  shows "fst (get_page_for_read ops w i) = Inr ()"
proof (cases "pw_entry w i")
  case (Some e)
  then show ?thesis by (simp add: get_page_for_read_def get_or_create_entry_def Let_def)
next
  case None
  obtain p ps where f: "pw_free w = p # ps" using assms(3) by (cases "pw_free w") auto
  obtain x where "be_read_page ops b i zero_page = Inr x" using assms(1) unfolding reads_succeed_def by blast
  then show ?thesis using None f assms(2) by (simp add: get_page_for_read_def get_or_create_entry_def Let_def pw_frame_alloc_def)
qed

declare read_multi.simps [simp del]

context page_backend
begin

lemma read_single_facts:
  assumes wf: "cache_wf L C w" and be: "pw_backend w = Some b" "be_inv b" and "offset + len + PAGE_SIZE \<le> USIZE_MAX"
    and one: "0 < len" "offset div PAGE_SIZE = (offset + len - 1) div PAGE_SIZE"
    and rd: "read_single ops w offset len buf = (r, buf', w')"
  shows "cache_wf L C w' \<and> grown disk {} w w' \<and>
    (case r of Inl _ \<Rightarrow> buf' = buf | Inr n \<Rightarrow> n = len \<and> buf' = bytes_read disk w offset len buf) \<and>
    (reads_succeed ops b \<and> pw_free w \<noteq> [] \<longrightarrow> r = Inr len)"
proof -
  define i where "i = offset div PAGE_SIZE"
  define po where "po = offset - i * PAGE_SIZE"
  have i: "i * PAGE_SIZE \<le> offset" "offset + len \<le> i * PAGE_SIZE + PAGE_SIZE"
    using one unfolding i_def PAGE_SIZE_def by linarith+
  have sub: "min len (PAGE_SIZE - po) = len" using i by (simp add: po_def)
  obtain r1 w1 where g: "get_page_for_read ops w i = (r1, w1)" by fastforce
  have ix: "i * PAGE_SIZE + PAGE_SIZE \<le> USIZE_MAX" using i(1) assms(4) by linarith
  note f = get_page_for_read_facts [OF wf be ix g]
  have eq: "read_single ops w offset len buf =
      (case r1 of Inl e \<Rightarrow> (Inl e, buf, w1) | Inr _ \<Rightarrow> (Inr len, copy_slice buf 0 len (entry_bytes w1 i) po, w1))"
    using g sub conjunct1 [OF f] unfolding read_single_def Let_def i_def [symmetric] po_def [symmetric]
    by (simp add: ensure_fully_valid_noop split: sum.splits)
  show ?thesis
  proof (cases r1)
    case (Inl e)
    then show ?thesis using eq rd f get_page_for_read_succeeds [of ops b w i] g be by auto
  next
    case (Inr u)
    then have e: "entry_bytes w1 i = content disk w1 i" using f by (intro entry_bytes_content) simp
    have "copy_slice buf 0 len (entry_bytes w1 i) po k = bytes_read disk w offset len buf k" for k
    proof (cases "k < len")
      case True
      then have d: "(offset + k) div PAGE_SIZE = i" using i by (simp add: page_of_byte)
      then have "(offset + k) mod PAGE_SIZE = po + k" using i(1) by (metis Nat.add_diff_assoc2 minus_div_mult_eq_mod po_def)
      then have "copy_slice buf 0 len (entry_bytes w1 i) po k = file_byte disk w1 (offset + k)"
        using True d by (simp add: copy_slice_def file_byte_def e)
      then show ?thesis using True grown_file_byte [of disk w w1] f by (simp add: bytes_read_def)
    qed (simp add: copy_slice_def bytes_read_def)
    then show ?thesis using eq rd f Inr by (auto simp: fun_eq_iff)
  qed
qed

lemma read_multi_facts:
  assumes wf: "cache_wf L C w" and be: "pw_backend w = Some b" "be_inv b" and len: "0 < len"
    and rd: "read_multi env ops False w offset len buf = (r, buf', w')"
  shows "cache_wf L C w' \<and> grown disk {} w w' \<and>
    (case r of Inl _ \<Rightarrow> buf' = buf | Inr n \<Rightarrow> n = len \<and> buf' = bytes_read disk w offset len buf) \<and>
    (reads_succeed ops b \<and> (\<forall>n. ce_reserve env n) \<and> len div PAGE_SIZE + 2 \<le> length (pw_free w) \<longrightarrow> r = Inr len)"
proof -
  let ?s = "offset div PAGE_SIZE" and ?e = "(offset + len - 1) div PAGE_SIZE"
  let ?is = "[?s..<Suc ?e]" and ?p0 = "\<lparr>rp_copies = [], rp_miss_runs = [], rp_needs_valid_fill = []\<rparr>"
  obtain w1 plan where lk: "lookup_read_range_fast w offset len ?s ?e = (w1, plan)" by fastforce
  have ov: "\<forall>i \<in> set ?is. overlaps_range offset len i" using range_pages(2) [OF len] by blast
  note p = plan_pages_facts [OF wf ov lk [unfolded lookup_read_range_fast_def], of disk]
  have p1: "cache_wf L C w1" "grown disk {} w w1" "\<forall>k. (pw_entry w1 k = None) = (pw_entry w k = None)" "pw_free w1 = pw_free w"
    "rp_needs_valid_fill plan = rp_needs_valid_fill ?p0"
    "run_pages (rp_miss_runs plan) = run_pages (rp_miss_runs ?p0) \<union> {i \<in> set ?is. pw_entry w i = None}"
    "run_total (rp_miss_runs plan) = run_total (rp_miss_runs ?p0) + length (filter (\<lambda>i. pw_entry w i = None) ?is)"
    "rp_miss_runs plan = [] \<longleftrightarrow> rp_miss_runs ?p0 = [] \<and> (\<forall>i \<in> set ?is. pw_entry w i \<noteq> None)" using p by blast+
  have nv: "rp_needs_valid_fill plan = []" using p1(5) by simp
  show ?thesis
  proof (cases "rp_miss_runs plan = []")
    case True
    then have all: "\<forall>i \<in> set ?is. pw_entry w i \<noteq> None" using p1(8) by blast
    note c = lookup_complete [OF wf len all lk, of disk buf]
    have "r = Inr len" "w' = w1" "buf' = run_copies w1 (rp_copies plan) buf"
      using rd True nv lk by (auto simp: read_multi.simps Let_def)
    then show ?thesis using c by simp
  next
    case False
    obtain r2 w2 where fl: "fill_miss_runs env ops w1 (rp_miss_runs plan) = (r2, w2)" by fastforce
    have b1: "pw_backend w1 = Some b" using p1(2) be by (simp add: grown_def)
    have lp: "fill_miss_runs_loop env ops (pc_mutation_generation (pw_cache w1)) b w1 (rp_miss_runs plan) = (r2, w2)"
      using fl b1 by (simp add: fill_miss_runs_def)
    note f1 = fill_loop_facts [OF p1(1) b1 be(2) refl lp]
    have g2: "grown disk {} w w2" using grown_trans [OF p1(2), of "{}" w2] f1 by simp
    have tot: "run_total (rp_miss_runs plan) \<le> len div PAGE_SIZE + 2"
      using p1(7) order_trans [OF length_filter_le [of "\<lambda>i. pw_entry w i = None" ?is] range_pages(3) [OF len, of offset]]
      by (simp add: run_total_def del: upt_Suc)
    have eq: "read_multi env ops False w offset len buf =
      (case r2 of Inl e \<Rightarrow> (Inl e, buf, w2) | Inr _ \<Rightarrow> read_multi env ops True w2 offset len buf)"
      using False nv lk fl by (simp add: read_multi.simps [of env ops False] Let_def ensure_each_noop [OF p1(1)] split: sum.splits)
    show ?thesis
    proof (cases r2)
      case (Inl e)
      then show ?thesis using eq rd f1 g2 tot p1(4) by auto
    next
      case (Inr u)
      have "\<forall>i \<in> set ?is. pw_entry w2 i \<noteq> None"
      proof
        fix i assume i: "i \<in> set ?is"
        show "pw_entry w2 i \<noteq> None"
        proof (cases "pw_entry w i = None")
          case True
          then have "i \<in> run_pages (rp_miss_runs plan)" using i p1(6) by blast
          then show ?thesis using f1 Inr by simp
        next
          case False
          then show ?thesis using g2 by (simp add: grown_def)
        qed
      qed
      note all = this
      obtain w3 plan3 where lk3: "lookup_read_range_fast w2 offset len ?s ?e = (w3, plan3)" by fastforce
      have wf2: "cache_wf L C w2" using f1 by blast
      note c = lookup_complete [OF wf2 len all lk3, of disk buf]
      have "r = Inr len" "w' = w3" "buf' = run_copies w3 (rp_copies plan3) buf"
        using rd eq Inr c lk3 by (auto simp: read_multi.simps Let_def)
      moreover have "grown disk {} w w3" using grown_trans [OF g2, of "{}" w3] c by simp
      ultimately show ?thesis using c bytes_read_grown [OF g2] by simp
    qed
  qed
qed

lemma read_kernel_facts:
  assumes wf: "cache_wf L C w" and be: "pw_backend w = Some b" "be_inv b" and fits: "offset + len + PAGE_SIZE \<le> USIZE_MAX"
    and rd: "read_kernel env ops w offset len buf = (r, buf', w')"
  shows "cache_wf L C w' \<and> grown disk {} w w' \<and>
    (case r of Inl _ \<Rightarrow> buf' = buf | Inr n \<Rightarrow> n = len \<and> buf' = bytes_read disk w offset len buf) \<and>
    (reads_succeed ops b \<and> (\<forall>n. ce_reserve env n) \<and> len div PAGE_SIZE + 2 \<le> length (pw_free w) \<longrightarrow> r = Inr len)"
proof -
  consider "len = 0" | "0 < len" "offset div PAGE_SIZE = (offset + len - 1) div PAGE_SIZE"
    | "0 < len" "offset div PAGE_SIZE \<noteq> (offset + len - 1) div PAGE_SIZE" by blast
  then show ?thesis
  proof cases
    case 1
    then show ?thesis using rd wf by (auto simp: read_kernel_def grown_refl bytes_read_def)
  next
    case 2
    then have "read_single ops w offset len buf = (r, buf', w')" using rd by (simp add: read_kernel_def)
    from read_single_facts [OF wf be fits 2 this] show ?thesis by auto
  next
    case 3
    then have "read_multi env ops False w offset len buf = (r, buf', w')" using rd by (simp add: read_kernel_def)
    from read_multi_facts [OF wf be 3(1) this] show ?thesis .
  qed
qed

end

end
