(* ===== verification/PageCacheWrite.thy ===== *)
theory PageCacheWrite
  imports PageCacheFetch
begin

text \<open>
  Writing through the cache: leasing the pages of a range, copying into them and committing
  them, with the exact effect on the bytes of the file on success and on failure.
\<close>

section \<open>One entry changes\<close>

text \<open>An entry gets new flags, and the counters follow.\<close>

lemma flags_step:
  assumes wf: "cache_wf L C w" and e: "pw_entry w i = Some e"
    and v: "pe_page e' = pe_page e" "is_fully_valid e'"
    and bits: "bit (pe_flags e') 1" "\<not> bit (pe_flags e') 4" "\<not> bit (pe_flags e') 6"
      "bit (pe_flags e') 0 \<longleftrightarrow> i \<in> L' \<union> C'" "bit (pe_flags e') 3 \<longleftrightarrow> i \<in> C'" "i \<in> C' \<longrightarrow> \<not> bit (pe_flags e') 2"
    and others: "L' - {i} = L - {i}" "C' - {i} = C - {i}" and disj: "i \<notin> L' \<inter> C'"
    and w': "pw_entry w' = (pw_entry w)(i \<mapsto> e')" "pw_free w' = pw_free w" "pc_pages (pw_cache w') = pc_pages (pw_cache w)"
    and d: "pw_dirty w' = (if bit (pe_flags e') 2 = bit (pe_flags e) 2 then pw_dirty w
        else if bit (pe_flags e') 2 then wrapping_add (pw_dirty w) 1 else wrapping_sub (pw_dirty w) 1)"
    and b: "pw_writeback w' = (if (i \<in> C') = (i \<in> C) then pw_writeback w
        else if i \<in> C' then wrapping_add (pw_writeback w) 1 else wrapping_sub (pw_writeback w) 1)"
  shows "cache_wf L' C' w'" and "dirty_set w' = (if bit (pe_flags e') 2 then insert i (dirty_set w) else dirty_set w - {i})"
proof -
  show ds: "dirty_set w' = (if bit (pe_flags e') 2 then insert i (dirty_set w) else dirty_set w - {i})" by (rule dirty_set_update [OF w'(1)])
  have ok: "page_ok L' C' i e'" using v bits by (simp add: page_ok_def)
  have mem: "i \<in> dirty_set w \<longleftrightarrow> bit (pe_flags e) 2" using e by (simp add: dirty_set_def entry_dirty_bit)
  have fin: "finite (dirty_set w)" by (rule finite_dirty_set)
  have LC: "L \<union> C \<subseteq> {k. pw_entry w k \<noteq> None}" using wf by (simp add: cache_wf_def)
  then have finC: "finite C" using finite_subset [OF _ finite_entries] by blast
  have pos: "x \<in> A \<Longrightarrow> finite A \<Longrightarrow> 0 < card A" for x :: nat and A by (auto simp: card_gt_0_iff)
  have dd: "pw_dirty w' = card (dirty_set w') mod 2 ^ 64"
  proof (cases "bit (pe_flags e') 2 = bit (pe_flags e) 2")
    case True
    then have "dirty_set w' = dirty_set w" using ds mem by auto
    then show ?thesis using True d cache_wf_counts(1) [OF wf] by simp
  next
    case False
    then show ?thesis using d ds mem fin cache_wf_counts(1) [OF wf] wrapping_inc wrapping_dec [OF pos [of i "dirty_set w"]] by auto
  qed
  have bb: "pw_writeback w' = card C' mod 2 ^ 64"
  proof (cases "(i \<in> C') = (i \<in> C)")
    case True
    then have "C' = C" using others by blast
    then show ?thesis using b cache_wf_counts(2) [OF wf] by simp
  next
    case False
    then have "C' = (if i \<in> C' then insert i C else C - {i})" using others by auto
    moreover have "pw_writeback w = card C mod 2 ^ 64" using cache_wf_counts(2) [OF wf] .
    ultimately show ?thesis using False b finC wrapping_inc wrapping_dec [OF pos [of i C]] by auto
  qed
  show "cache_wf L' C' w'" by (rule cache_wf_update [OF wf e v(1) ok others disj w' dd bb])
qed

lemma wf_not_both: "cache_wf L C w \<Longrightarrow> i \<in> L \<Longrightarrow> i \<notin> C"
  by (auto simp: cache_wf_def)

lemma lock_entry_facts:
  assumes wf: "cache_wf L C w" and e: "pw_entry w i = Some e" and free: "i \<notin> L \<union> C"
  shows "\<exists>w'. lock_entry w i = (Inr (Some (i \<in> dirty_set w)), w') \<and> cache_wf (insert i L) C w' \<and> grown disk {} w w' \<and>
    (\<forall>k. (pw_entry w' k = None) = (pw_entry w k = None)) \<and> pw_free w' = pw_free w"
proof -
  let ?f = "pe_flags e OR PG_LOCKED OR PG_REFERENCED"
  let ?e = "e\<lparr>pe_flags := ?f\<rparr>" and ?w = "pw_put w i (e\<lparr>pe_flags := ?f\<rparr>)"
  have ok: "page_ok L C i e" by (rule cache_wf_entry [OF wf e])
  have d: "i \<in> dirty_set w \<longleftrightarrow> bit (pe_flags e) 2" using e by (simp add: dirty_set_def entry_dirty_bit)
  have lk: "lock_entry w i = (Inr (Some (i \<in> dirty_set w)), ?w)"
    using ok free by (auto simp: lock_entry_def e try_lock_for_write_def decode_state_bits page_ok_def d)
  have en: "pw_entry ?w = (pw_entry w)(i \<mapsto> ?e)" by (rule pw_entry_put [OF e])
  have "cache_wf (insert i L) C ?w" and ds: "dirty_set ?w = dirty_set w"
    using flags_step [OF wf e _ _ _ _ _ _ _ _ _ _ _ en, of "insert i L" C] ok free d
    by (auto simp: page_ok_def bit_simps is_fully_valid_def)
  moreover have "content disk ?w k = content disk w k" for k using e en by (auto simp: content_def split: option.splits)
  then have "grown disk {} w ?w" using ds en e by (simp add: grown_def)
  ultimately show ?thesis using lk en e by auto
qed

lemma abort_entry_facts:
  assumes wf: "cache_wf L C w" and i: "i \<in> L"
  defines "w' \<equiv> pw_touch w i (on_flags abort_write)"
  shows "cache_wf (L - {i}) C w' \<and> grown disk {} w w' \<and> (\<forall>k. (pw_entry w' k = None) = (pw_entry w k = None))"
proof -
  obtain e where e: "pw_entry w i = Some e" using wf i unfolding cache_wf_def by auto
  have ok: "page_ok L C i e" by (rule cache_wf_entry [OF wf e])
  have C: "i \<notin> C" by (rule wf_not_both [OF wf i])
  let ?e = "on_flags abort_write e"
  have w': "w' = pw_put w i ?e" unfolding w'_def by (rule pw_touch_eq [OF e])
  have en: "pw_entry w' = (pw_entry w)(i \<mapsto> ?e)" unfolding w' by (rule pw_entry_put [OF e])
  have bits: "bit (pe_flags ?e) n = (bit (pe_flags e) n \<and> n \<noteq> 0)" if "n < 32" for n
    using that by (simp add: on_flags_def abort_write_def clear_flag_def bit_simps)
  have f: "pe_page ?e = pe_page e" "pe_valid_mask ?e = pe_valid_mask e" by (simp_all add: on_flags_def)
  have d: "i \<in> dirty_set w \<longleftrightarrow> bit (pe_flags e) 2" using e by (simp add: dirty_set_def entry_dirty_bit)
  have 1: "cache_wf (L - {i}) C w'" "dirty_set w' = (if bit (pe_flags ?e) 2 then insert i (dirty_set w) else dirty_set w - {i})"
    using flags_step [OF wf e f(1) _ _ _ _ _ _ _ _ _ _ en, of "L - {i}" C] ok C f
    by (auto simp: page_ok_def bits is_fully_valid_def w')
  have "dirty_set w' = dirty_set w" using 1(2) bits [of 2] d by auto
  moreover have "content disk w' k = content disk w k" for k using e en f by (auto simp: content_def w' split: option.splits)
  ultimately show ?thesis using 1(1) en e by (simp add: grown_def w')
qed

lemma mask_within_all: "VALID_ALL AND mask_for_range po len = mask_for_range po len"
proof -
  have b: "bit (push_bit m (push_bit n 1 - 1) :: u32) k \<Longrightarrow> k < m + n" for m n k
    using bit_mask_iff [where 'a = u32, of n "k - m"] by (auto simp: bit_push_bit_iff mask_eq_exp_minus_1 push_bit_eq_mult [of _ 1])
  have "k < 8" if "bit (mask_for_range po len) k" for k
  proof -
    let ?s = "po div 2 ^ VALID_SEG_SHIFT"
    let ?e = "min (wrapping_sub (wrapping_add (wrapping_add po len) (2 ^ VALID_SEG_SHIFT)) 1 div 2 ^ VALID_SEG_SHIFT) VALID_SEG_COUNT"
    have "?s < VALID_SEG_COUNT" "bit (push_bit ?s (push_bit (?e - ?s) 1 - 1) :: u32) k"
      using that unfolding mask_for_range_def Let_def by (auto split: if_splits)
    moreover have "VALID_SEG_COUNT = 8" by (simp add: VALID_SEG_COUNT_def VALID_SEG_SHIFT_def PAGE_SIZE_def)
    ultimately show ?thesis using b [of ?s "?e - ?s" k] by simp
  qed
  then show ?thesis by (intro bit_word_eqI) (auto simp: bit_and_iff VALID_ALL_mask bit_mask_iff)
qed

lemma commit_item_facts:
  assumes wf: "cache_wf L C w" and i: "ci_page c \<in> L" and d: "ci_was_dirty c \<longleftrightarrow> ci_page c \<in> dirty_set w"
    and w'_def: "w' = commit_item w c src so"
  shows "cache_wf (L - {ci_page c}) C w' \<and> dirty_set w' = insert (ci_page c) (dirty_set w) \<and> pw_backend w' = pw_backend w \<and>
    (\<forall>k. (pw_entry w' k = None) = (pw_entry w k = None)) \<and> pw_free w' = pw_free w \<and>
    content disk w' = (content disk w)(ci_page c := copy_slice (content disk w (ci_page c)) (ci_page_offset c) (ci_len c) src so)"
proof -
  let ?i = "ci_page c"
  obtain e where e: "pw_entry w ?i = Some e" using wf i unfolding cache_wf_def by auto
  have ok: "page_ok L C ?i e" by (rule cache_wf_entry [OF wf e])
  have C: "?i \<notin> C" by (rule wf_not_both [OF wf i])
  have db: "?i \<in> dirty_set w \<longleftrightarrow> bit (pe_flags e) 2" using e by (simp add: dirty_set_def entry_dirty_bit)
  have m: "snd (mark_valid_and_check_full (ci_page_offset c) (ci_len c) e) = e"
    using ok mask_within_all [of "ci_page_offset c" "ci_len c"]
    by (auto simp: mark_valid_and_check_full_def Let_def page_ok_def is_fully_valid_def)
  define e1 where "e1 = e\<lparr>pe_flags := snd (commit_write (pe_flags e))\<rparr>"
  define b where "b = copy_slice (pw_mem w (pe_page e)) (ci_page_offset c) (ci_len c) src so"
  have w': "w' = (if \<not> bit (pe_flags e) 2 then count_dirty (pw_put (pw_fill w (pe_page e) b) ?i e1) else pw_put (pw_fill w (pe_page e) b) ?i e1)"
    using m d db e by (auto simp: w'_def commit_item_def Let_def e1_def b_def commit_write_def split: prod.splits)
  have bits: "bit (pe_flags e1) n = (n \<noteq> 0 \<and> (bit (pe_flags e) n \<or> n = 1 \<or> n = 2 \<or> n = 5))" if "n < 32" for n
    using that by (auto simp: e1_def commit_write_def bit_simps)
  have e0: "cache_entry (pw_cache (pw_fill w (pe_page e) b)) ?i = Some e" using e by simp
  have en: "pw_entry w' = (pw_entry w)(?i \<mapsto> e1)" using pw_entry_put [OF e0, of e1] w' by simp
  have f: "pe_page e1 = pe_page e" "pe_valid_mask e1 = pe_valid_mask e" by (simp_all add: e1_def)
  have "cache_wf (L - {?i}) C w'" "dirty_set w' = (if bit (pe_flags e1) 2 then insert ?i (dirty_set w) else dirty_set w - {?i})"
    using flags_step [OF wf e f(1) _ _ _ _ _ _ _ _ _ _ en, of "L - {?i}" C] ok C f
    by (auto simp: page_ok_def bits is_fully_valid_def w')
  moreover have "pe_page g \<noteq> pe_page e" if "pw_entry w k = Some g" "k \<noteq> ?i" for k g using wf that e unfolding cache_wf_def by metis
  then have "content disk w' = (content disk w)(?i := b)"
    using e en f by (auto simp: fun_eq_iff content_def w' split: option.splits)
  ultimately show ?thesis using bits [of 2] en e w' by (simp add: b_def content_def)
qed

section \<open>The pages of a range\<close>

definition item_for :: "usize \<Rightarrow> usize \<Rightarrow> (usize \<Rightarrow> bool) \<Rightarrow> usize \<Rightarrow> copy_item" where
  "item_for offset len d i =
     \<lparr>ci_page = i, ci_page_offset = max offset (i * PAGE_SIZE) - i * PAGE_SIZE,
      ci_len = min (offset + len) (i * PAGE_SIZE + PAGE_SIZE) - max offset (i * PAGE_SIZE), ci_was_dirty = d i\<rparr>"

lemma item_for_page [simp]: "ci_page (item_for offset len d i) = i" "ci_was_dirty (item_for offset len d i) = d i"
  by (simp_all add: item_for_def)

lemma abort_items_facts:
  assumes "cache_wf L C w" and "set (map ci_page copies) \<subseteq> L" and "distinct (map ci_page copies)"
  shows "cache_wf (L - set (map ci_page copies)) C (abort_items w copies) \<and> grown disk {} w (abort_items w copies) \<and>
    (\<forall>k. (pw_entry (abort_items w copies) k = None) = (pw_entry w k = None))"
  using assms
proof (induction copies arbitrary: L w)
  case Nil
  then show ?case by (simp add: abort_items_def grown_refl)
next
  case (Cons c cs)
  let ?w = "pw_touch w (ci_page c) (on_flags abort_write)"
  have a: "cache_wf (L - {ci_page c}) C ?w" "grown disk {} w ?w" "\<forall>k. (pw_entry ?w k = None) = (pw_entry w k = None)"
    using abort_entry_facts [OF Cons.prems(1), of "ci_page c" disk] Cons.prems(2) by auto
  have "set (map ci_page cs) \<subseteq> L - {ci_page c}" "distinct (map ci_page cs)" using Cons.prems(2,3) by (auto simp del: set_map)
  note IH = Cons.IH [OF a(1) this]
  have e: "abort_items w (c # cs) = abort_items ?w cs" by (simp add: abort_items_def)
  have "L - {ci_page c} - set (map ci_page cs) = L - set (map ci_page (c # cs))" by auto
  then show ?case using IH a(3) grown_trans [OF a(2), of "{}"] unfolding e by simp
qed

text \<open>Committing the pages of a range one after the other writes the range.\<close>

definition overwrite :: "(usize \<Rightarrow> bytes) \<Rightarrow> usize set \<Rightarrow> usize \<Rightarrow> usize \<Rightarrow> bytes \<Rightarrow> usize \<Rightarrow> bytes" where
  "overwrite old P offset len src i j =
     (if i \<in> P \<and> offset \<le> i * PAGE_SIZE + j \<and> i * PAGE_SIZE + j < offset + len then src (i * PAGE_SIZE + j - offset) else old i j)"

lemma item_copy:
  assumes "overlaps_range offset len i" and "j < PAGE_SIZE"
  shows "copy_slice old (ci_page_offset (item_for offset len d i)) (ci_len (item_for offset len d i)) src (max offset (i * PAGE_SIZE) - offset) j =
    (if offset \<le> i * PAGE_SIZE + j \<and> i * PAGE_SIZE + j < offset + len then src (i * PAGE_SIZE + j - offset) else old j)"
proof -
  have "ci_page_offset (item_for offset len d i) \<le> j \<and> j < ci_page_offset (item_for offset len d i) + ci_len (item_for offset len d i) \<longleftrightarrow>
      offset \<le> i * PAGE_SIZE + j \<and> i * PAGE_SIZE + j < offset + len"
    using assms unfolding item_for_def overlaps_range_def by (simp add: max_def min_def) linarith
  moreover have "max offset (i * PAGE_SIZE) - offset + (j - ci_page_offset (item_for offset len d i)) = i * PAGE_SIZE + j - offset"
    if "ci_page_offset (item_for offset len d i) \<le> j"
    using that unfolding item_for_def by (simp add: max_def)
  ultimately show ?thesis unfolding copy_slice_def by presburger
qed

lemma commit_items_facts:
  assumes "cache_wf L C w" and "{a..<b} \<subseteq> L" and "\<forall>i \<in> {a..<b}. overlaps_range offset len i \<and> (d i \<longleftrightarrow> i \<in> dirty_set w)" and "a \<le> b"
    and "w' = commit_items w (map (item_for offset len d) [a..<b]) src (max offset (a * PAGE_SIZE) - offset)"
  shows "cache_wf (L - {a..<b}) C w' \<and> dirty_set w' = dirty_set w \<union> {a..<b} \<and> pw_backend w' = pw_backend w \<and>
    (\<forall>k. (pw_entry w' k = None) = (pw_entry w k = None)) \<and>
    (\<forall>i. \<forall>j < PAGE_SIZE. content disk w' i j = overwrite (content disk w) {a..<b} offset len src i j)"
  using assms
proof (induction "b - a" arbitrary: a L w)
  case 0
  then show ?case by (simp add: overwrite_def)
next
  case (Suc n)
  then have ab: "a < b" by simp
  let ?c = "item_for offset len d a" and ?so = "max offset (a * PAGE_SIZE) - offset"
  let ?w = "commit_item w ?c src ?so"
  have ov: "overlaps_range offset len a" and da: "d a \<longleftrightarrow> a \<in> dirty_set w" using Suc.prems(3) ab by auto
  have aL: "ci_page ?c \<in> L" using Suc.prems(2) ab by auto
  note c = commit_item_facts [OF Suc.prems(1) aL _ refl, of src ?so disk]
  have c1: "cache_wf (L - {a}) C ?w" "dirty_set ?w = insert a (dirty_set w)" "pw_backend ?w = pw_backend w"
    "\<forall>k. (pw_entry ?w k = None) = (pw_entry w k = None)"
    "content disk ?w = (content disk w)(a := copy_slice (content disk w a) (ci_page_offset ?c) (ci_len ?c) src ?so)"
    using c da by simp_all
  have next_so: "?so + ci_len ?c = max offset (Suc a * PAGE_SIZE) - offset" if "Suc a < b"
  proof -
    have "overlaps_range offset len (Suc a)" using Suc.prems(3) that by auto
    then show ?thesis using ov unfolding overlaps_range_def item_for_def by (simp add: max_def min_def)
  qed
  have w': "w' = commit_items ?w (map (item_for offset len d) [Suc a..<b]) src (max offset (Suc a * PAGE_SIZE) - offset)"
    using Suc.prems(5) next_so by (cases "Suc a < b") (simp_all add: upt_conv_Cons [OF ab])
  have "n = b - Suc a" "{Suc a..<b} \<subseteq> L - {a}" "Suc a \<le> b" using Suc.hyps(2) Suc.prems(2) ab by auto
  moreover have "\<forall>i \<in> {Suc a..<b}. overlaps_range offset len i \<and> (d i \<longleftrightarrow> i \<in> dirty_set ?w)" using Suc.prems(3) c1(2) by auto
  ultimately have IH: "cache_wf (L - {a} - {Suc a..<b}) C w'" "dirty_set w' = dirty_set ?w \<union> {Suc a..<b}" "pw_backend w' = pw_backend ?w"
    "\<forall>k. (pw_entry w' k = None) = (pw_entry ?w k = None)"
    "\<And>i j. j < PAGE_SIZE \<Longrightarrow> content disk w' i j = overwrite (content disk ?w) {Suc a..<b} offset len src i j"
    using Suc.hyps(1) [OF _ c1(1) _ _ _ w'] by simp_all
  have "content disk w' i j = overwrite (content disk w) {a..<b} offset len src i j" if "j < PAGE_SIZE" for i j
    using IH(5) [OF that, of i] item_copy [OF ov that] ab by (auto simp: c1(5) overwrite_def)
  moreover have "L - {a} - {Suc a..<b} = L - {a..<b}" "insert a (dirty_set w) \<union> {Suc a..<b} = dirty_set w \<union> {a..<b}" using ab by auto
  ultimately show ?case using IH(1-4) c1(2-4) by simp
qed

section \<open>Leasing\<close>

text \<open>
  A page that is not cached is filled with zeros instead of being read when the write covers
  it, or when the old end of the file lies before the end of its first segment.
\<close>

definition covers_page :: "usize \<Rightarrow> usize \<Rightarrow> usize \<Rightarrow> bool" where
  "covers_page offset len i \<longleftrightarrow> offset \<le> i * PAGE_SIZE \<and> i * PAGE_SIZE + PAGE_SIZE \<le> offset + len"

definition taken_as_hole :: "usize option \<Rightarrow> usize \<Rightarrow> bool" where
  "taken_as_hole old i \<longleftrightarrow> (case old of None \<Rightarrow> False | Some s \<Rightarrow> s < i * PAGE_SIZE + 512)"

definition zeroes :: "'b pc_world \<Rightarrow> usize option \<Rightarrow> usize \<Rightarrow> usize \<Rightarrow> usize \<Rightarrow> bool" where
  "zeroes w old offset len i \<longleftrightarrow> pw_entry w i = None \<and> (covers_page offset len i \<or> taken_as_hole old i)"

lemma full_overwrite_iff:
  assumes "overlaps_range offset len i"
  shows "max offset (i * PAGE_SIZE) - i * PAGE_SIZE = 0 \<and>
      min (offset + len) (i * PAGE_SIZE + PAGE_SIZE) - max offset (i * PAGE_SIZE) = PAGE_SIZE \<longleftrightarrow> covers_page offset len i"
  using assms unfolding covers_page_def overlaps_range_def by (simp add: max_def min_def) linarith

context page_backend
begin

lemma get_page_for_write_facts:
  assumes wf: "cache_wf L C w" and be: "pw_backend w = Some b" "be_inv b" and ix: "i * PAGE_SIZE + PAGE_SIZE \<le> USIZE_MAX"
    and g: "get_page_for_write_populate ops w i old full = (r, w')"
  shows "cache_wf L C w' \<and> (\<forall>k. k \<noteq> i \<longrightarrow> (pw_entry w' k = None) = (pw_entry w k = None)) \<and>
    (case r of Inl _ \<Rightarrow> grown disk {} w w'
     | Inr _ \<Rightarrow> grown disk (if pw_entry w i = None \<and> (full \<or> taken_as_hole old i) then {i} else {}) w w' \<and> pw_entry w' i \<noteq> None)"
proof -
  define pop where "pop \<longleftrightarrow> \<not> full \<and> \<not> (case old of None \<Rightarrow> False | Some s \<Rightarrow> i * PAGE_SIZE \<ge> s)"
  obtain r1 w1 where g1: "get_or_create_entry ops w i pop old = (r1, w1)" by (rule prod.exhaust)
  note c = get_or_create_facts [OF wf be ix g1]
  have z: "zero_fills w i pop old \<longleftrightarrow> pw_entry w i = None \<and> (full \<or> taken_as_hole old i)"
    by (cases old) (auto simp: zero_fills_def taken_as_hole_def pop_def initial_valid_mask_all [OF ix])
  show ?thesis
  proof (cases r1)
    case (Inl e)
    then show ?thesis using c g g1 by (auto simp: get_page_for_write_populate_def Let_def pop_def [symmetric])
  next
    case (Inr u)
    then have w': "r = Inr ()" "w' = pw_touch w1 i consume_filemap_readahead"
      using g g1 by (auto simp: get_page_for_write_populate_def Let_def pop_def [symmetric])
    let ?Z = "if pw_entry w i = None \<and> (full \<or> taken_as_hole old i) then {i} else {}"
    have c1: "cache_wf L C w1" "grown disk ?Z w w1" "pw_entry w1 i \<noteq> None" "\<forall>k. k \<noteq> i \<longrightarrow> (pw_entry w1 k = None) = (pw_entry w k = None)"
      using c Inr z by simp_all
    have t: "cache_wf L C w'" "grown disk {} w1 w'" "\<forall>k. (pw_entry w' k = None) = (pw_entry w1 k = None)"
      using touch_consume [OF c1(1), of i disk] unfolding w'(2) by blast+
    have "grown disk ?Z w w'" using grown_trans [OF c1(2) t(2)] by simp
    then show ?thesis using t c1 w'(1) by auto
  qed
qed

lemma lease_pages_facts:
  assumes "cache_wf (L \<union> set (map ci_page copies)) C w" and "pw_backend w = Some b" "be_inv b"
    and "\<forall>i \<in> set is. i * PAGE_SIZE + PAGE_SIZE \<le> USIZE_MAX \<and> overlaps_range offset len i \<and> i \<notin> L \<union> C"
    and "distinct (map ci_page copies @ is)" and "set (map ci_page copies) \<inter> L = {}"
    and "lease_pages ops offset len old copies w is = (r, w')"
  shows "case r of
      Inr cs \<Rightarrow> cs = copies @ map (item_for offset len (\<lambda>i. i \<in> dirty_set w)) is \<and> cache_wf (L \<union> set (map ci_page cs)) C w' \<and>
        grown disk {i \<in> set is. zeroes w old offset len i} w w'
    | Inl e \<Rightarrow> (\<exists>err. e = WaError err) \<and> cache_wf L C w' \<and> (\<exists>Z \<subseteq> {i \<in> set is. zeroes w old offset len i}. grown disk Z w w')"
  using assms
proof (induction "is" arbitrary: w copies)
  case Nil
  then show ?case by (auto simp: grown_refl)
next
  case (Cons i is')
  let ?L = "L \<union> set (map ci_page copies)"
  have ov: "overlaps_range offset len i" and ix: "i * PAGE_SIZE + PAGE_SIZE \<le> USIZE_MAX" and free: "i \<notin> ?L \<union> C"
    using Cons.prems(4,5) by auto
  have pos: "\<not> saturating_sub (min (offset + len) (i * PAGE_SIZE + PAGE_SIZE)) (max offset (i * PAGE_SIZE)) = 0"
    using ov by (auto simp: saturating_sub_def overlaps_range_def PAGE_SIZE_def)
  have full: "(max offset (i * PAGE_SIZE) - i * PAGE_SIZE = 0 \<and>
      saturating_sub (min (offset + len) (i * PAGE_SIZE + PAGE_SIZE)) (max offset (i * PAGE_SIZE)) = PAGE_SIZE) = covers_page offset len i"
    using full_overwrite_iff [OF ov] by (simp add: saturating_sub_def)
  obtain r1 w1 where g: "get_page_for_write_populate ops w i old (covers_page offset len i) = (r1, w1)" by (rule prod.exhaust)
  note c = get_page_for_write_facts [OF Cons.prems(1-3) ix g]
  have ab: "cache_wf L C (abort_items w1 copies) \<and> grown disk {} w1 (abort_items w1 copies)"
    using abort_items_facts [of ?L C w1 copies disk] c Cons.prems(5,6) by (auto simp: Un_Diff Diff_triv Int_commute)
  show ?case
  proof (cases r1)
    case (Inl err)
    then have "r = Inl (WaError err)" "w' = abort_items w1 copies" using Cons.prems(7) g pos full by (simp_all add: Let_def)
    moreover have "grown disk {} w (abort_items w1 copies)" using grown_trans [of disk "{}" w w1 "{}"] c ab Inl by simp
    ultimately show ?thesis using ab by auto
  next
    case (Inr u)
    let ?Z = "if zeroes w old offset len i then {i} else {}"
    have c1: "cache_wf ?L C w1" "grown disk ?Z w w1" "\<forall>k. k \<noteq> i \<longrightarrow> (pw_entry w1 k = None) = (pw_entry w k = None)"
      using c Inr by (simp_all add: zeroes_def)
    obtain e where e: "pw_entry w1 i = Some e" using c Inr by auto
    from lock_entry_facts [OF c1(1) e free, of disk] obtain w2 where
      l: "lock_entry w1 i = (Inr (Some (i \<in> dirty_set w1)), w2)" "cache_wf (insert i ?L) C w2" "grown disk {} w1 w2"
        "\<forall>k. (pw_entry w2 k = None) = (pw_entry w1 k = None)" by blast
    have g2: "grown disk ?Z w w2" using grown_trans [OF c1(2) l(3)] by simp
    have ds: "dirty_set w2 = dirty_set w" "dirty_set w1 = dirty_set w" "pw_backend w2 = Some b"
      using g2 c1(2) Cons.prems(2) by (simp_all add: grown_def)
    define cs where "cs = copies @ [item_for offset len (\<lambda>i. i \<in> dirty_set w) i]"
    have lp: "lease_pages ops offset len old cs w2 is' = (r, w')"
      using Cons.prems(7) g Inr pos full l(1) ds(2) by (simp add: Let_def cs_def item_for_def saturating_sub_def)
    have wf2: "cache_wf (L \<union> set (map ci_page cs)) C w2" using l(2) by (simp add: cs_def insert_commute Un_commute)
    have dj: "distinct (map ci_page cs @ is')" "set (map ci_page cs) \<inter> L = {}" using Cons.prems(4,5,6) by (auto simp: cs_def)
    have rest: "\<forall>i \<in> set is'. i * PAGE_SIZE + PAGE_SIZE \<le> USIZE_MAX \<and> overlaps_range offset len i \<and> i \<notin> L \<union> C" using Cons.prems(4) by simp
    note IH = Cons.IH [OF wf2 ds(3) Cons.prems(3) rest dj lp]
    have zs: "{k \<in> set is'. zeroes w2 old offset len k} = {k \<in> set is'. zeroes w old offset len k}"
      using c1(3) l(4) Cons.prems(5) by (auto simp: zeroes_def)
    have zi: "?Z \<union> {k \<in> set is'. zeroes w old offset len k} = {k \<in> set (i # is'). zeroes w old offset len k}" by auto
    show ?thesis
    proof (cases r)
      case (Inl err)
      then obtain Z where Z: "Z \<subseteq> {k \<in> set is'. zeroes w old offset len k}" "grown disk Z w2 w'" and err: "\<exists>x. err = WaError x" "cache_wf L C w'"
        using IH zs by auto
      have "?Z \<union> Z \<subseteq> {k \<in> set (i # is'). zeroes w old offset len k} \<and> grown disk (?Z \<union> Z) w w'"
        using Z(1) grown_trans [OF g2 Z(2)] unfolding zi [symmetric] by blast
      then have "\<exists>Z' \<subseteq> {k \<in> set (i # is'). zeroes w old offset len k}. grown disk Z' w w'" by (rule exI)
      then show ?thesis using Inl err by simp
    next
      case (Inr cs')
      have h: "cs' = cs @ map (item_for offset len (\<lambda>i. i \<in> dirty_set w)) is'" "cache_wf (L \<union> set (map ci_page cs')) C w'"
        "grown disk {k \<in> set is'. zeroes w2 old offset len k} w2 w'" using IH unfolding Inr sum.case ds(1) by blast+
      have "grown disk {k \<in> set (i # is'). zeroes w old offset len k} w w'" using grown_trans [OF g2 h(3)] unfolding zs zi .
      then show ?thesis using Inr h(1,2) by (simp add: cs_def)
    qed
  qed
qed

end

section \<open>Writing\<close>

definition range_of :: "usize \<Rightarrow> usize \<Rightarrow> usize set" where
  "range_of offset len = {offset div PAGE_SIZE..<Suc ((offset + len - 1) div PAGE_SIZE)}"

lemma sum_item_len:
  assumes "\<forall>i \<in> {a..<Suc e}. overlaps_range offset len i" and "a \<le> e"
  shows "sum_list (map ci_len (map (item_for offset len d) [a..<Suc e])) = min (offset + len) (e * PAGE_SIZE + PAGE_SIZE) - max offset (a * PAGE_SIZE)"
  using assms(2,1)
proof (induction rule: dec_induct)
  case base
  then show ?case by (simp add: item_for_def)
next
  case (step e)
  have ov: "overlaps_range offset len (Suc e)" "overlaps_range offset len e" "overlaps_range offset len a" using step by auto
  have "sum_list (map ci_len (map (item_for offset len d) [a..<Suc (Suc e)])) =
      min (offset + len) (e * PAGE_SIZE + PAGE_SIZE) - max offset (a * PAGE_SIZE) + ci_len (item_for offset len d (Suc e))"
    using step by simp
  moreover have "a * PAGE_SIZE \<le> e * PAGE_SIZE" using step(1) by simp
  ultimately show ?case using ov unfolding overlaps_range_def item_for_def by (simp add: max_def min_def)
qed

text \<open>The path for a single page is the general path.\<close>

lemma write_single_eq:
  assumes "0 < len" and "offset div PAGE_SIZE = (offset + len - 1) div PAGE_SIZE"
  shows "write_single ops before_copy w offset len src old = write_multi ops before_copy w offset len src old"
proof -
  define i where "i = offset div PAGE_SIZE"
  have i: "i * PAGE_SIZE \<le> offset" "offset + len \<le> i * PAGE_SIZE + PAGE_SIZE" using assms unfolding i_def PAGE_SIZE_def by linarith+
  have l: "[offset div PAGE_SIZE..<Suc ((offset + len - 1) div PAGE_SIZE)] = [i]" using assms(2) by (simp add: i_def)
  have m: "max offset (i * PAGE_SIZE) = offset" "min (offset + len) (i * PAGE_SIZE + PAGE_SIZE) = offset + len"
    "min len (PAGE_SIZE - (offset - i * PAGE_SIZE)) = len" using i by simp_all
  show ?thesis unfolding write_single_def write_multi_def l unfolding i_def [symmetric] lease_pages.simps Let_def m saturating_sub_def
    using assms(1) by (auto simp: abort_items_def split: sum.splits option.splits prod.splits)
qed

context page_backend
begin

lemma write_multi_facts:
  assumes wf: "cache_wf L C w" and be: "pw_backend w = Some b" "be_inv b" and fits: "offset + len + PAGE_SIZE \<le> USIZE_MAX"
    and len: "0 < len" and free: "range_of offset len \<inter> (L \<union> C) = {}"
    and wr: "write_multi ops before_copy w offset len src old = (r, w')"
  shows "case r of
      Inr n \<Rightarrow> n = len \<and> cache_wf L C w' \<and> pw_backend w' = Some b \<and> dirty_set w' = dirty_set w \<union> range_of offset len \<and>
        (\<forall>i. \<forall>j < PAGE_SIZE. content disk w' i j =
          (if offset \<le> i * PAGE_SIZE + j \<and> i * PAGE_SIZE + j < offset + len then src (i * PAGE_SIZE + j - offset)
           else if i \<in> range_of offset len \<and> zeroes w old offset len i then 0 else content disk w i j))
    | Inl e \<Rightarrow> (\<exists>err. e = WaError err) \<and> cache_wf L C w' \<and>
        (\<exists>Z \<subseteq> {i \<in> range_of offset len. zeroes w old offset len i}. grown disk Z w w')"
proof -
  let ?a = "offset div PAGE_SIZE" and ?e = "(offset + len - 1) div PAGE_SIZE"
  let ?is = "[?a..<Suc ?e]" and ?d = "\<lambda>i. i \<in> dirty_set w"
  have set_is: "set ?is = range_of offset len" unfolding range_of_def set_upt ..
  have ae: "?a \<le> ?e" using len by (intro div_le_mono) simp
  have ov: "\<forall>i \<in> {?a..<Suc ?e}. overlaps_range offset len i" using range_pages(2) [OF len, of _ offset] unfolding set_upt by blast
  obtain r1 w1 where ls: "lease_pages ops offset len old [] w ?is = (r1, w1)" by (rule prod.exhaust)
  have pg: "\<forall>i \<in> set ?is. i * PAGE_SIZE + PAGE_SIZE \<le> USIZE_MAX \<and> overlaps_range offset len i \<and> i \<notin> L \<union> C"
  proof
    fix i assume i: "i \<in> set ?is"
    then have o: "overlaps_range offset len i" and "i \<notin> L \<union> C" using range_pages(2) [OF len] free set_is by blast+
    moreover have "i * PAGE_SIZE + PAGE_SIZE \<le> USIZE_MAX" using o fits unfolding overlaps_range_def by linarith
    ultimately show "i * PAGE_SIZE + PAGE_SIZE \<le> USIZE_MAX \<and> overlaps_range offset len i \<and> i \<notin> L \<union> C" by blast
  qed
  have w0: "cache_wf (L \<union> set (map ci_page [])) C w" using wf by simp
  have di: "distinct (map ci_page [] @ ?is)" "set (map ci_page []) \<inter> L = {}" by (simp_all del: upt_Suc)
  note l = lease_pages_facts [OF w0 be pg di ls, unfolded set_is]
  show ?thesis
  proof (cases r1)
    case (Inl err)
    then have "r = Inl err" "w' = w1" using wr ls by (simp_all add: write_multi_def)
    then show ?thesis using l Inl by simp
  next
    case (Inr cs)
    have cs: "cs = map (item_for offset len ?d) ?is" and wf1: "cache_wf (L \<union> set (map ci_page cs)) C w1"
      and g1: "grown disk {i \<in> range_of offset len. zeroes w old offset len i} w w1" using l unfolding Inr sum.case append_Nil by blast+
    have pages: "map ci_page cs = ?is" unfolding cs map_map by (simp add: comp_def del: upt_Suc)
    have wf1': "cache_wf (L \<union> range_of offset len) C w1" using wf1 unfolding pages set_is .
    have Lr: "L \<union> range_of offset len - range_of offset len = L" using free by blast
    have tot: "sum_list (map ci_len cs) = len"
      unfolding cs sum_item_len [OF ov ae] using len by (simp add: max_def min_def PAGE_SIZE_def) linarith
    show ?thesis
    proof (cases "before_copy len")
      case (Inl err)
      then have r: "r = Inl (WaError err)" "w' = abort_items w1 cs" using wr ls Inr tot by (simp_all add: write_multi_def Let_def)
      have ab: "cache_wf L C w'" "grown disk {} w1 w'"
        using abort_items_facts [OF wf1', of cs disk] Lr di(1) unfolding pages set_is r(2) by (simp_all del: upt_Suc)
      have "grown disk {i \<in> range_of offset len. zeroes w old offset len i} w w'" using grown_trans [OF g1 ab(2)] by simp
      then show ?thesis using r(1) ab(1) by auto
    next
      case (Inr u)
      then have r: "r = Inr len" "w' = commit_items w1 cs src 0" using wr ls \<open>r1 = Inr cs\<close> tot by (simp_all add: write_multi_def Let_def)
      have so: "max offset (?a * PAGE_SIZE) - offset = 0" by (simp add: PAGE_SIZE_def)
      have ds: "dirty_set w1 = dirty_set w" using g1 by (simp add: grown_def)
      have c: "cache_wf (L \<union> range_of offset len - range_of offset len) C w'" "dirty_set w' = dirty_set w \<union> range_of offset len" "pw_backend w' = Some b"
        "\<And>i j. j < PAGE_SIZE \<Longrightarrow> content disk w' i j = overwrite (content disk w1) (range_of offset len) offset len src i j"
        using commit_items_facts [OF wf1', of ?a "Suc ?e" offset len ?d w' src disk] ov ae ds g1 be(1) r(2)
        unfolding range_of_def [symmetric] cs so by (simp_all add: grown_def)
      have "content disk w' i j =
          (if offset \<le> i * PAGE_SIZE + j \<and> i * PAGE_SIZE + j < offset + len then src (i * PAGE_SIZE + j - offset)
           else if i \<in> range_of offset len \<and> zeroes w old offset len i then 0 else content disk w i j)" if j: "j < PAGE_SIZE" for i j
      proof -
        have "i \<in> range_of offset len" if "offset \<le> i * PAGE_SIZE + j" "i * PAGE_SIZE + j < offset + len"
          using that j unfolding range_of_def PAGE_SIZE_def by auto
        then show ?thesis using c(4) [OF j, of i] g1 j by (auto simp: overwrite_def grown_def)
      qed
      then show ?thesis using c(1-3) r(1) Lr by simp
    qed
  qed
qed

lemma write_kernel_body_facts:
  assumes wf: "cache_wf L C w" and be: "pw_backend w = Some b" "be_inv b" and fits: "offset + len + PAGE_SIZE \<le> USIZE_MAX"
    and len: "0 < len" and free: "range_of offset len \<inter> (L \<union> C) = {}"
    and wr: "write_kernel_body ops before_copy w offset len src old = (r, w')"
  shows "case r of
      Inr n \<Rightarrow> n = len \<and> cache_wf L C w' \<and> pw_backend w' = Some b \<and> dirty_set w' = dirty_set w \<union> range_of offset len \<and>
        (\<forall>i. \<forall>j < PAGE_SIZE. content disk w' i j =
          (if offset \<le> i * PAGE_SIZE + j \<and> i * PAGE_SIZE + j < offset + len then src (i * PAGE_SIZE + j - offset)
           else if i \<in> range_of offset len \<and> zeroes w old offset len i then 0 else content disk w i j))
    | Inl e \<Rightarrow> (\<exists>err. e = WaError err) \<and> cache_wf L C w' \<and>
        (\<exists>Z \<subseteq> {i \<in> range_of offset len. zeroes w old offset len i}. grown disk Z w w')"
proof -
  have "write_multi ops before_copy w offset len src old = (r, w')"
    using wr write_single_eq [OF len, of offset ops before_copy w src old] len unfolding write_kernel_body_def by (simp split: if_splits)
  then show ?thesis by (rule write_multi_facts [OF wf be fits len free])
qed

end

end
