(* ===== verification/PageCacheSync.thy ===== *)
theory PageCacheSync
  imports PageCacheWrite
begin

text \<open>
  Writeback: claiming dirty pages, writing them in runs and completing or restoring them. No
  page stops being dirty before the backend has its bytes, and the file never changes.
\<close>

section \<open>Claiming and releasing\<close>

lemma dirty_iff: "pw_entry w i = Some e \<Longrightarrow> i \<in> dirty_set w \<longleftrightarrow> bit (pe_flags e) 2"
  by (simp add: dirty_set_def entry_dirty_bit)

lemma dirty_present: "i \<in> dirty_set w \<Longrightarrow> \<exists>e. pw_entry w i = Some e"
  by (auto simp: dirty_set_def entry_dirty_def split: option.splits)

text \<open>A change of flags alone: the file, the backend and the set of cached pages stay.\<close>

definition quiet :: "('b \<Rightarrow> usize \<Rightarrow> bytes) \<Rightarrow> 'b pc_world \<Rightarrow> 'b pc_world \<Rightarrow> bool" where
  "quiet disk w w' \<longleftrightarrow> content disk w' = content disk w \<and> pw_backend w' = pw_backend w \<and>
     (\<forall>k. (pw_entry w' k = None) = (pw_entry w k = None)) \<and> length (pc_entries (pw_cache w')) = length (pc_entries (pw_cache w)) \<and>
     (\<forall>k. pw_entry w k \<noteq> None \<longrightarrow> entry_bytes w' k = entry_bytes w k)"

lemma quiet_refl: "quiet disk w w"
  by (simp add: quiet_def)

lemma quiet_trans: "quiet disk w w' \<Longrightarrow> quiet disk w' w'' \<Longrightarrow> quiet disk w w''"
  unfolding quiet_def by metis

lemma quiet_put:
  assumes "pw_entry w i = Some e" and "pe_page e' = pe_page e" and "pw_entry w' = (pw_entry w)(i \<mapsto> e')" and "pw_mem w' = pw_mem w"
    and "pw_backend w' = pw_backend w" and "length (pc_entries (pw_cache w')) = length (pc_entries (pw_cache w))"
  shows "quiet disk w w'"
  using assms by (auto simp: quiet_def content_def entry_bytes_def fun_eq_iff split: option.splits)

lemma put_length [simp]: "length (pc_entries (pw_cache (pw_put w i e))) = length (pc_entries (pw_cache w))"
  by (simp add: pw_put_def cache_put_def)

lemma quiet_alike:
  assumes "alike w w'" and "pw_mem w' = pw_mem w" and "pw_backend w' = pw_backend w" and "length (pc_entries (pw_cache w')) = length (pc_entries (pw_cache w))"
  shows "quiet disk w w'"
  using assms by (auto simp: quiet_def alike_def content_def entry_bytes_def fun_eq_iff split: option.splits)

lemma quiet_notify: "quiet disk w (notify_state_progress w)"
  by (rule quiet_alike [OF alike_notify]) simp_all

lemma dirty_notify [simp]: "dirty_set (notify_state_progress w) = dirty_set w"
  by (simp add: dirty_set_def)

lemma wf_notify: "cache_wf L C w \<Longrightarrow> cache_wf L C (notify_state_progress w)"
  using cache_wf_alike [OF alike_notify] by blast

lemma claim_entry_facts:
  assumes wf: "cache_wf L C w"
  shows "if i \<in> dirty_set w \<and> i \<notin> L
    then \<exists>w'. claim_entry w i = (True, w') \<and> cache_wf L (insert i C) w' \<and> dirty_set w' = dirty_set w - {i} \<and> quiet disk w w'
    else claim_entry w i = (False, w)"
proof (cases "pw_entry w i")
  case None
  then show ?thesis using dirty_present [of i w] by (auto simp: claim_entry_def)
next
  case (Some e)
  have ok: "page_ok L C i e" by (rule cache_wf_entry [OF wf Some])
  have cl: "fst (claim_writeback (pe_flags e)) \<longleftrightarrow> i \<in> dirty_set w \<and> i \<notin> L"
    using ok dirty_iff [OF Some] by (auto simp: claim_writeback_iff page_ok_def)
  show ?thesis
  proof (cases "i \<in> dirty_set w \<and> i \<notin> L")
    case False
    with cl have "fst (claim_writeback (pe_flags e)) = False" by blast
    then have "claim_entry w i = (False, w)" using Some by (auto simp: claim_entry_def split: prod.splits)
    with False show ?thesis by simp
  next
    case True
    let ?f = "(pe_flags e AND NOT PG_DIRTY) OR PG_WRITEBACK OR PG_LOCKED"
    define e1 where "e1 = e\<lparr>pe_flags := ?f\<rparr>"
    let ?w = "count_writeback (uncount_dirty (pw_put w i e1))"
    have "claim_writeback (pe_flags e) = (True, ?f)" using cl True by (auto simp: claim_writeback_def split: if_splits)
    then have c: "claim_entry w i = (True, ?w)" by (simp add: claim_entry_def Some e1_def)
    have f: "pe_page e1 = pe_page e" "pe_valid_mask e1 = pe_valid_mask e" by (simp_all add: e1_def)
    have b2: "bit (pe_flags e) 2" and C: "i \<notin> C" using True ok dirty_iff [OF Some] by (auto simp: page_ok_def)
    have en: "pw_entry ?w = (pw_entry w)(i \<mapsto> e1)" using pw_entry_put [OF Some, of e1] by simp
    have bits: "bit (pe_flags e1) n = (n = 0 \<or> n = 3 \<or> n \<noteq> 2 \<and> bit (pe_flags e) n)" if "n < 32" for n
      using that by (auto simp: e1_def bit_simps)
    have "cache_wf L (insert i C) ?w" "dirty_set ?w = (if bit (pe_flags e1) 2 then insert i (dirty_set w) else dirty_set w - {i})"
      using flags_step [OF wf Some f(1) _ _ _ _ _ _ _ _ _ _ en, of L "insert i C"] ok C b2 True f
      by (auto simp: page_ok_def bits is_fully_valid_def)
    moreover have "quiet disk w ?w" by (rule quiet_put [OF Some f(1) en]) simp_all
    ultimately show ?thesis using c bits [of 2] True by auto
  qed
qed

lemma release_facts:
  assumes wf: "cache_wf L C w" and i: "i \<in> C"
  shows "cache_wf L (C - {i}) (complete_entry w i) \<and> dirty_set (complete_entry w i) = dirty_set w \<and> quiet disk w (complete_entry w i)"
    and "cache_wf L (C - {i}) (restore_entry w i) \<and> dirty_set (restore_entry w i) = insert i (dirty_set w) \<and> quiet disk w (restore_entry w i)"
proof -
  obtain e where e: "pw_entry w i = Some e" using wf i unfolding cache_wf_def by auto
  have ok: "page_ok L C i e" by (rule cache_wf_entry [OF wf e])
  have L: "i \<notin> L" using wf i by (auto simp: cache_wf_def)
  have d: "\<not> bit (pe_flags e) 2" "i \<notin> dirty_set w" using ok i dirty_iff [OF e] by (simp_all add: page_ok_def)
  define e1 where "e1 = e\<lparr>pe_flags := finish_writeback False (clear_flag PG_REDIRTIED (pe_flags e))\<rparr>"
  have h: "pe_page e1 = pe_page e" "pe_valid_mask e1 = pe_valid_mask e" by (simp_all add: e1_def)
  have c: "complete_entry w i = uncount_writeback (pw_put w i e1)"
    using ok by (simp add: complete_entry_def e complete_writeback_def test_and_clear_flag_def clear_flag_def Let_def page_ok_def e1_def)
  have en: "pw_entry (complete_entry w i) = (pw_entry w)(i \<mapsto> e1)" unfolding c using pw_entry_put [OF e, of e1] by simp
  have bits: "bit (pe_flags e1) n = (n \<notin> {0, 3, 6} \<and> (bit (pe_flags e) n \<or> n = 1 \<or> n = 5))" if "n < 32" for n
    using that by (auto simp: e1_def finish_writeback_def clear_flag_def bit_simps)
  have "cache_wf L (C - {i}) (complete_entry w i)"
    "dirty_set (complete_entry w i) = (if bit (pe_flags e1) 2 then insert i (dirty_set w) else dirty_set w - {i})"
    using flags_step [OF wf e h(1) _ _ _ _ _ _ _ _ _ _ en, of L "C - {i}"] ok L d i h by (auto simp: page_ok_def bits is_fully_valid_def c)
  moreover have "quiet disk w (complete_entry w i)" by (rule quiet_put [OF e h(1) en]) (simp_all add: c)
  ultimately show "cache_wf L (C - {i}) (complete_entry w i) \<and> dirty_set (complete_entry w i) = dirty_set w \<and> quiet disk w (complete_entry w i)"
    using bits [of 2] d by auto
  let ?g = "on_flags restore_dirty_after_writeback e"
  have r: "restore_entry w i = uncount_writeback (count_dirty (pw_put w i ?g))" by (simp add: restore_entry_def pw_touch_eq [OF e])
  have en': "pw_entry (restore_entry w i) = (pw_entry w)(i \<mapsto> ?g)" unfolding r using pw_entry_put [OF e, of ?g] by simp
  have bits': "bit (pe_flags ?g) n = (n \<notin> {0, 3, 6} \<and> (bit (pe_flags e) n \<or> n = 2))" if "n < 32" for n
    using that by (auto simp: on_flags_def restore_dirty_after_writeback_def bit_simps)
  have f: "pe_page ?g = pe_page e" "pe_valid_mask ?g = pe_valid_mask e" by (simp_all add: on_flags_def)
  have "cache_wf L (C - {i}) (restore_entry w i)"
    "dirty_set (restore_entry w i) = (if bit (pe_flags ?g) 2 then insert i (dirty_set w) else dirty_set w - {i})"
    using flags_step [OF wf e f(1) _ _ _ _ _ _ _ _ _ _ en', of L "C - {i}"] ok L d i f by (auto simp: page_ok_def bits' is_fully_valid_def r)
  moreover have "quiet disk w (restore_entry w i)" by (rule quiet_put [OF e f(1) en']) (simp_all add: r)
  ultimately show "cache_wf L (C - {i}) (restore_entry w i) \<and> dirty_set (restore_entry w i) = insert i (dirty_set w) \<and> quiet disk w (restore_entry w i)"
    using bits' [of 2] by auto
qed

lemma claim_each_facts:
  assumes "cache_wf L C w" and "distinct is"
  shows "\<exists>w'. claim_each w is = (filter (\<lambda>i. i \<in> dirty_set w \<and> i \<notin> L) is, w') \<and>
    cache_wf L (C \<union> {i \<in> set is. i \<in> dirty_set w \<and> i \<notin> L}) w' \<and> dirty_set w' = dirty_set w - (set is - L) \<and> quiet disk w w'"
  using assms
proof (induction "is" arbitrary: C w)
  case Nil
  then show ?case by (auto simp: quiet_refl)
next
  case (Cons i is')
  note c = claim_entry_facts [OF Cons.prems(1), of i disk]
  have dis: "distinct is'" "i \<notin> set is'" using Cons.prems(2) by simp_all
  show ?case
  proof (cases "i \<in> dirty_set w \<and> i \<notin> L")
    case True
    with c obtain w1 where w1: "claim_entry w i = (True, w1)" "cache_wf L (insert i C) w1" "dirty_set w1 = dirty_set w - {i}" "quiet disk w w1" by auto
    have same: "k \<in> set is' \<Longrightarrow> k \<in> dirty_set w1 \<longleftrightarrow> k \<in> dirty_set w" for k using w1(3) dis(2) by auto
    have fl: "filter (\<lambda>k. k \<in> dirty_set w1 \<and> k \<notin> L) is' = filter (\<lambda>k. k \<in> dirty_set w \<and> k \<notin> L) is'"
      by (rule filter_cong) (simp_all add: same)
    from Cons.IH [OF w1(2) dis(1)] obtain w2 where w2: "claim_each w1 is' = (filter (\<lambda>i. i \<in> dirty_set w1 \<and> i \<notin> L) is', w2)"
      "cache_wf L (insert i C \<union> {i \<in> set is'. i \<in> dirty_set w1 \<and> i \<notin> L}) w2" "dirty_set w2 = dirty_set w1 - (set is' - L)" "quiet disk w1 w2" by blast
    have "insert i C \<union> {k \<in> set is'. k \<in> dirty_set w1 \<and> k \<notin> L} = C \<union> {k \<in> set (i # is'). k \<in> dirty_set w \<and> k \<notin> L}" using True same by auto
    moreover have "dirty_set w1 - (set is' - L) = dirty_set w - (set (i # is') - L)" using w1(3) True by auto
    ultimately show ?thesis using w1(1) w2 fl True quiet_trans [OF w1(4) w2(4)] by simp
  next
    case False
    with c have w1: "claim_entry w i = (False, w)" by simp
    from Cons.IH [OF Cons.prems(1) dis(1)] obtain w2 where w2: "claim_each w is' = (filter (\<lambda>i. i \<in> dirty_set w \<and> i \<notin> L) is', w2)"
      "cache_wf L (C \<union> {i \<in> set is'. i \<in> dirty_set w \<and> i \<notin> L}) w2" "dirty_set w2 = dirty_set w - (set is' - L)" "quiet disk w w2" by blast
    have "{k \<in> set (i # is'). k \<in> dirty_set w \<and> k \<notin> L} = {k \<in> set is'. k \<in> dirty_set w \<and> k \<notin> L}" using False by auto
    moreover have "dirty_set w - (set (i # is') - L) = dirty_set w - (set is' - L)" using False by auto
    ultimately show ?thesis using w1 w2 False by auto
  qed
qed

lemma foldl_release:
  assumes "cache_wf L C w" and "set is \<subseteq> C" and "distinct is"
  shows "cache_wf L (C - set is) (foldl complete_entry w is) \<and> dirty_set (foldl complete_entry w is) = dirty_set w \<and> quiet disk w (foldl complete_entry w is)"
    and "cache_wf L (C - set is) (foldl restore_entry w is) \<and> dirty_set (foldl restore_entry w is) = dirty_set w \<union> set is \<and> quiet disk w (foldl restore_entry w is)"
proof -
  show "cache_wf L (C - set is) (foldl complete_entry w is) \<and> dirty_set (foldl complete_entry w is) = dirty_set w \<and> quiet disk w (foldl complete_entry w is)"
    using assms
  proof (induction "is" arbitrary: C w)
    case (Cons i is')
    have r: "cache_wf L (C - {i}) (complete_entry w i)" "dirty_set (complete_entry w i) = dirty_set w" "quiet disk w (complete_entry w i)"
      using release_facts(1) [OF Cons.prems(1), of i disk] Cons.prems(2) by auto
    have "set is' \<subseteq> C - {i}" "distinct is'" using Cons.prems(2,3) by auto
    note IH = Cons.IH [OF r(1) this]
    moreover have "C - {i} - set is' = C - set (i # is')" by auto
    ultimately show ?case using r(2) quiet_trans [OF r(3)] by simp
  qed (simp add: quiet_refl)
  show "cache_wf L (C - set is) (foldl restore_entry w is) \<and> dirty_set (foldl restore_entry w is) = dirty_set w \<union> set is \<and> quiet disk w (foldl restore_entry w is)"
    using assms
  proof (induction "is" arbitrary: C w)
    case (Cons i is')
    have r: "cache_wf L (C - {i}) (restore_entry w i)" "dirty_set (restore_entry w i) = insert i (dirty_set w)" "quiet disk w (restore_entry w i)"
      using release_facts(2) [OF Cons.prems(1), of i disk] Cons.prems(2) by auto
    have "set is' \<subseteq> C - {i}" "distinct is'" using Cons.prems(2,3) by auto
    note IH = Cons.IH [OF r(1) this]
    moreover have "C - {i} - set is' = C - set (i # is')" by auto
    ultimately show ?case using r(2) quiet_trans [OF r(3)] by simp
  qed (simp add: quiet_refl)
qed

lemma run_release:
  assumes "cache_wf L C w" and "set is \<subseteq> C" and "distinct is"
  shows "cache_wf L (C - set is) (complete_run w is) \<and> dirty_set (complete_run w is) = dirty_set w \<and> quiet disk w (complete_run w is)"
    and "cache_wf L (C - set is) (restore_dirty w is) \<and> dirty_set (restore_dirty w is) = dirty_set w \<union> set is \<and> quiet disk w (restore_dirty w is)"
  using foldl_release [OF assms, of disk] quiet_notify [of disk] quiet_trans [of disk w] wf_notify
  unfolding complete_run_def restore_dirty_def dirty_notify by blast+

section \<open>Runs of consecutive pages\<close>

lemma take_run_upt: "is \<noteq> [] \<Longrightarrow> take_run n is = [hd is..<hd is + length (take_run n is)]"
proof (induction n "is" rule: take_run.induct)
  case (3 n i j is')
  show ?case
  proof (cases "1 < n \<and> j = i + 1")
    case True
    then have IH: "take_run (n - 1) (j # is') = [j..<j + length (take_run (n - 1) (j # is'))]" using 3 by simp
    have "take_run n (i # j # is') = i # [i + 1..<i + 1 + length (take_run (n - 1) (j # is'))]" using True IH by simp
    also have "\<dots> = [i..<i + 1 + length (take_run (n - 1) (j # is'))]" using upt_conv_Cons [of i "i + 1 + m" for m] by simp
    finally show ?thesis using True by simp
  qed auto
qed auto

lemma take_run_prefix: "take_run n is = take (length (take_run n is)) is"
  by (induction n "is" rule: take_run.induct) auto

section \<open>Giving pages to the backend\<close>

text \<open>
  From \<open>w\<close> to \<open>w'\<close> the backend may have been given the bytes of pages in \<open>P\<close>, and nothing else
  happened to the file.
\<close>

definition given :: "('b \<Rightarrow> usize \<Rightarrow> bytes) \<Rightarrow> ('b \<Rightarrow> usize \<Rightarrow> nat \<Rightarrow> bool) \<Rightarrow> usize set \<Rightarrow> 'b pc_world \<Rightarrow> 'b \<Rightarrow> 'b pc_world \<Rightarrow> 'b \<Rightarrow> bool" where
  "given disk backed P w b w' b' \<longleftrightarrow>
     pw_backend w = Some b \<and> pw_backend w' = Some b' \<and> backed b' = backed b \<and>
     (\<forall>k. \<forall>j < PAGE_SIZE. content disk w' k j = content disk w k j) \<and> (\<forall>k. (pw_entry w' k = None) = (pw_entry w k = None)) \<and>
     length (pc_entries (pw_cache w')) = length (pc_entries (pw_cache w)) \<and>
     (\<forall>k. \<forall>j < PAGE_SIZE. disk b' k j = disk b k j \<or> k \<in> P \<and> disk b' k j = content disk w k j)"

definition saved :: "('b \<Rightarrow> usize \<Rightarrow> bytes) \<Rightarrow> ('b \<Rightarrow> usize \<Rightarrow> nat \<Rightarrow> bool) \<Rightarrow> 'b \<Rightarrow> 'b pc_world \<Rightarrow> usize \<Rightarrow> bool" where
  "saved disk backed b w k \<longleftrightarrow> (\<forall>j < PAGE_SIZE. backed b k j \<longrightarrow> disk b k j = content disk w k j)"

lemma given_refl: "pw_backend w = Some b \<Longrightarrow> given disk backed {} w b w b"
  by (simp add: given_def)

lemma given_trans:
  assumes "given disk backed P w b w' b'" and "given disk backed Q w' b' w'' b''"
  shows "given disk backed (P \<union> Q) w b w'' b''"
proof -
  have "disk b'' k j = disk b k j \<or> k \<in> P \<union> Q \<and> disk b'' k j = content disk w k j" if "j < PAGE_SIZE" for k j
    using assms that unfolding given_def by (metis UnCI)
  then show ?thesis using assms unfolding given_def by simp
qed

lemma given_mono: "given disk backed P w b w' b' \<Longrightarrow> P \<subseteq> Q \<Longrightarrow> given disk backed Q w b w' b'"
  unfolding given_def by blast

lemma given_quiet: "quiet disk w w' \<Longrightarrow> pw_backend w = Some b \<Longrightarrow> given disk backed {} w b w' b"
  unfolding quiet_def given_def by simp

lemma saved_given:
  assumes "saved disk backed b' w k" and "given disk backed Q w' b' w'' b''" and "given disk backed P w b w' b'" and "k \<notin> Q"
  shows "saved disk backed b'' w k"
  using assms unfolding saved_def given_def by metis

lemma saved_back:
  assumes "saved disk backed b'' w' k" and "given disk backed P w b w' b'"
  shows "saved disk backed b'' w k"
  using assms unfolding saved_def given_def by simp

definition writes_succeed :: "'b backend_ops \<Rightarrow> bool" where
  "writes_succeed ops \<longleftrightarrow> (\<forall>b i bufs. \<exists>n b'. be_write_pages ops b i bufs = (Inr n, b'))"

declare write_runs.simps [simp del]

context page_backend
begin

lemma write_run_facts:
  assumes wf: "cache_wf L C w" and be: "pw_backend w = Some b" "be_inv b" and run: "run = [s..<s + m]" "set run \<subseteq> C"
    and wp: "be_write_pages ops b s (map (entry_bytes w) run) = (res, b')"
  shows "be_inv b' \<and> given disk backed (set run) w b (w\<lparr>pw_backend := Some b'\<rparr>) b' \<and> cache_wf L C (w\<lparr>pw_backend := Some b'\<rparr>) \<and>
    (\<forall>n. res = Inr n \<longrightarrow> (\<forall>k \<in> set run. saved disk backed b' w k))"
proof -
  have pres: "pw_entry w k \<noteq> None" if "k \<in> set run" for k using wf run(2) that unfolding cache_wf_def by blast
  have len: "length (map (entry_bytes w) run) = m" using run(1) by simp
  have nth: "map (entry_bytes w) run ! (k - s) = content disk w k" if "s \<le> k" "k < s + m" for k
  proof -
    have "run ! (k - s) = k" "k - s < length run" using that run(1) by simp_all
    moreover have "entry_bytes w k = content disk w k" using pres that run(1) by (intro entry_bytes_content) simp
    ultimately show ?thesis by simp
  qed
  note f = write_pages [OF be(2) wp, unfolded len]
  have bytes: "disk b' k j = disk b k j \<or> k \<in> set run \<and> disk b' k j = content disk w k j" if "j < PAGE_SIZE" for k j
    using f that nth [of k] run(1) by fastforce
  have cont: "content disk (w\<lparr>pw_backend := Some b'\<rparr>) k j = content disk w k j" if j: "j < PAGE_SIZE" for k j
  proof (cases "pw_entry w k")
    case None
    then have "k \<notin> set run" using pres by blast
    then show ?thesis using bytes [OF j, of k] None be(1) by (simp add: content_def)
  qed (simp add: content_def)
  have "saved disk backed b' w k" if "res = Inr n" "k \<in> set run" for n k
  proof -
    have k: "s \<le> k" "k < s + m" using that(2) run(1) by simp_all
    then have "k - s < m" "s + (k - s) = k" by simp_all
    then have "\<forall>j < PAGE_SIZE. backed b k j \<longrightarrow> disk b' k j = (map (entry_bytes w) run ! (k - s)) j" using f that(1) by metis
    moreover have "backed b' = backed b" using f by blast
    ultimately show ?thesis unfolding saved_def nth [OF k] by simp
  qed
  moreover have "cache_wf L C (w\<lparr>pw_backend := Some b'\<rparr>)" using cache_wf_alike [of w "w\<lparr>pw_backend := Some b'\<rparr>"] wf by (simp add: alike_def)
  moreover have "given disk backed (set run) w b (w\<lparr>pw_backend := Some b'\<rparr>) b'"
    using bytes cont f be(1) by (simp add: given_def)
  ultimately show ?thesis using f by blast
qed

lemma write_runs_facts:
  assumes "cache_wf L (C \<union> set is) w" and "pw_backend w = Some b" "be_inv b" and "distinct is" "set is \<inter> C = {}"
    and "write_runs ops w is = (r, w')"
  shows "\<exists>b'. be_inv b' \<and> cache_wf L C w' \<and> given disk backed (set is) w b w' b' \<and> dirty_set w \<subseteq> dirty_set w' \<and> dirty_set w' \<subseteq> dirty_set w \<union> set is \<and>
    (\<forall>k \<in> set is - dirty_set w'. saved disk backed b' w k) \<and> (r = Inr () \<longrightarrow> dirty_set w' = dirty_set w) \<and> (writes_succeed ops \<longrightarrow> r = Inr ())"
  using assms
proof (induction "length is" arbitrary: "is" w b rule: less_induct)
  case less
  show ?case
  proof (cases "is = []")
    case True
    then have "w' = w" "r = Inr ()" using less.prems(6) by (simp_all add: write_runs.simps)
    then show ?thesis using True less.prems given_refl [OF less.prems(2), of disk backed] by (intro exI [of _ b]) simp
  next
    case False
    define run where "run = take_run (length is) is"
    define m where "m = length run"
    have u: "run = [hd is..<hd is + m]" unfolding run_def m_def by (rule take_run_upt [OF False])
    have m: "0 < m" "m \<le> length is" "run = take m is"
      using take_run_prefix [of "length is" "is"] take_run_length [OF False, of "length is"] unfolding run_def m_def by blast+
    have "hd run = hd is" using u m(1) by (metis hd_upt less_add_same_cancel1)
    then have run: "run = [hd run..<hd run + m]" "run = take m is" "0 < m" "m \<le> length is" using u m by simp_all
    obtain res b1 where wp: "be_write_pages ops b (hd run) (map (entry_bytes w) run) = (res, b1)" by (rule prod.exhaust)
    let ?w = "w\<lparr>pw_backend := Some b1\<rparr>" and ?rest = "drop m is"
    have sub: "set run \<subseteq> C \<union> set is" using run(2) set_take_subset [of m "is"] by auto
    note f = write_run_facts [OF less.prems(1-3) run(1) sub wp]
    have split: "set is = set run \<union> set ?rest" "set run \<inter> set ?rest = {}" "distinct run" "distinct ?rest"
      using less.prems(4) run(2) append_take_drop_id [of m "is"] by (metis set_append, metis distinct_append, simp_all)
    have eq: "write_runs ops w is = (case res of Inr _ \<Rightarrow> write_runs ops (complete_run ?w run) ?rest | Inl e \<Rightarrow> (Inl e, restore_dirty ?w is))"
      using False less.prems(2) wp by (simp add: write_runs.simps [of ops w "is"] Let_def run_def [symmetric] m_def split: sum.splits)
    have f1: "be_inv b1" "given disk backed (set run) w b ?w b1" "cache_wf L (C \<union> set is) ?w" using f by blast+
    have dw: "dirty_set ?w = dirty_set w" by (simp add: dirty_set_def)
    show ?thesis
    proof (cases res)
      case (Inl e)
      then have w': "r = Inl e" "w' = restore_dirty ?w is" using eq less.prems(6) by simp_all
      have sub2: "set is \<subseteq> C \<union> set is" by simp
      note rel = run_release(2) [OF f1(3) sub2 less.prems(4), of disk]
      have "C \<union> set is - set is = C" using less.prems(5) by blast
      then have a: "cache_wf L C w'" "dirty_set w' = dirty_set w \<union> set is" "quiet disk ?w w'" using rel dw unfolding w'(2) by simp_all
      have "given disk backed (set run \<union> {}) w b w' b1" by (rule given_trans [OF f1(2) given_quiet [OF a(3)]]) simp
      then have "given disk backed (set is) w b w' b1" by (rule given_mono) (use split(1) in blast)
      moreover have "\<not> writes_succeed ops" using wp Inl unfolding writes_succeed_def by (metis Inl_Inr_False prod.inject)
      ultimately show ?thesis using a(1,2) f1(1) w'(1) by blast
    next
      case (Inr n)
      define w1 where "w1 = complete_run ?w run"
      have w': "write_runs ops w1 ?rest = (r, w')" using eq less.prems(6) Inr by (simp add: w1_def)
      note rel = run_release(1) [OF f1(3) sub split(3), of disk]
      have cs: "C \<union> set is - set run = C \<union> set ?rest" using split less.prems(5) by blast
      have a: "cache_wf L (C \<union> set ?rest) w1" "dirty_set w1 = dirty_set w" "quiet disk ?w w1" using rel cs dw unfolding w1_def by simp_all
      have b1: "pw_backend w1 = Some b1" using a(3) by (simp add: quiet_def)
      have sh: "length ?rest < length is" "set ?rest \<inter> C = {}" using run(3,4) False less.prems(5) split(1) by auto
      from less.hyps [OF sh(1) a(1) b1 f1(1) split(4) sh(2) w'] obtain b2 where
        IH: "be_inv b2" "cache_wf L C w'" "given disk backed (set ?rest) w1 b1 w' b2" "dirty_set w1 \<subseteq> dirty_set w'"
          "dirty_set w' \<subseteq> dirty_set w1 \<union> set ?rest" "\<forall>k \<in> set ?rest - dirty_set w'. saved disk backed b2 w1 k"
          "r = Inr () \<longrightarrow> dirty_set w' = dirty_set w1" "writes_succeed ops \<longrightarrow> r = Inr ()" by blast
      have "given disk backed (set run \<union> {}) w b w1 b1" by (rule given_trans [OF f1(2) given_quiet [OF a(3)]]) simp
      then have g1: "given disk backed (set run) w b w1 b1" by simp
      have g: "given disk backed (set is) w b w' b2" using given_trans [OF g1 IH(3)] split(1) by simp
      have "saved disk backed b2 w k" if k: "k \<in> set is - dirty_set w'" for k
      proof (cases "k \<in> set run")
        case True
        then have "saved disk backed b1 w k" "k \<notin> set ?rest" using f Inr split(2) by blast+
        then show ?thesis using saved_given [OF _ IH(3) g1] by blast
      next
        case False
        then have "saved disk backed b2 w1 k" using k IH(6) split(1) by blast
        then show ?thesis by (rule saved_back [OF _ g1])
      qed
      then show ?thesis using IH(1,2,4,5,7,8) a(2) g split(1) by (intro exI [of _ b2]) auto
    qed
  qed
qed

end

section \<open>Writing back\<close>

text \<open>Dirty pages were given to the backend; a page is clean again only when the backend has it.\<close>

definition wrote_back :: "('b \<Rightarrow> usize \<Rightarrow> bytes) \<Rightarrow> ('b \<Rightarrow> usize \<Rightarrow> nat \<Rightarrow> bool) \<Rightarrow> 'b pc_world \<Rightarrow> 'b \<Rightarrow> 'b pc_world \<Rightarrow> 'b \<Rightarrow> bool" where
  "wrote_back disk backed w b w' b' \<longleftrightarrow>
     given disk backed (dirty_set w) w b w' b' \<and> dirty_set w' \<subseteq> dirty_set w \<and> (\<forall>k \<in> dirty_set w - dirty_set w'. saved disk backed b' w k)"

lemma wrote_back_refl: "pw_backend w = Some b \<Longrightarrow> wrote_back disk backed w b w b"
  by (simp add: wrote_back_def given_def)

lemma wrote_back_trans:
  assumes "wrote_back disk backed w b w' b'" and "wrote_back disk backed w' b' w'' b''"
  shows "wrote_back disk backed w b w'' b''"
proof -
  have g: "given disk backed (dirty_set w) w b w' b'" "given disk backed (dirty_set w') w' b' w'' b''"
    and d: "dirty_set w' \<subseteq> dirty_set w" "dirty_set w'' \<subseteq> dirty_set w'" using assms by (simp_all add: wrote_back_def)
  have "given disk backed (dirty_set w) w b w'' b''" by (rule given_mono [OF given_trans [OF g]]) (use d in blast)
  moreover have "saved disk backed b'' w k" if k: "k \<in> dirty_set w - dirty_set w''" for k
  proof (cases "k \<in> dirty_set w'")
    case True
    then have "saved disk backed b'' w' k" using assms(2) k by (simp add: wrote_back_def)
    then show ?thesis by (rule saved_back [OF _ g(1)])
  next
    case False
    then have "saved disk backed b' w k" using assms(1) k by (simp add: wrote_back_def)
    then show ?thesis by (rule saved_given [OF _ g(2,1) False])
  qed
  ultimately show ?thesis using d by (auto simp: wrote_back_def)
qed

lemma foldl_mkclean:
  "alike w (foldl (\<lambda>w i. mkclean_page w i u) w is)" "quiet disk w (foldl (\<lambda>w i. mkclean_page w i u) w is)"
  "dirty_set (foldl (\<lambda>w i. mkclean_page w i u) w is) = dirty_set w"
proof -
  have "pw_cache (foldl (\<lambda>w i. mkclean_page w i u) w is) = pw_cache w \<and> pw_free (foldl (\<lambda>w i. mkclean_page w i u) w is) = pw_free w \<and>
      pw_mem (foldl (\<lambda>w i. mkclean_page w i u) w is) = pw_mem w \<and> pw_backend (foldl (\<lambda>w i. mkclean_page w i u) w is) = pw_backend w \<and>
      pw_dirty (foldl (\<lambda>w i. mkclean_page w i u) w is) = pw_dirty w \<and> pw_writeback (foldl (\<lambda>w i. mkclean_page w i u) w is) = pw_writeback w"
    by (induction "is" arbitrary: w) simp_all
  then show a: "alike w (foldl (\<lambda>w i. mkclean_page w i u) w is)" and "dirty_set (foldl (\<lambda>w i. mkclean_page w i u) w is) = dirty_set w"
    and "quiet disk w (foldl (\<lambda>w i. mkclean_page w i u) w is)"
    by (auto simp: alike_def dirty_set_def intro!: quiet_alike)
qed

declare writeback_list.simps [simp del] writeback_some_loop.simps [simp del]

context page_backend
begin

lemma writeback_pages_run_facts:
  assumes wf: "cache_wf L C w" and be: "pw_backend w = Some b" "be_inv b" and wb: "writeback_pages_run ops w start count = (r, w')"
  shows "\<exists>b'. be_inv b' \<and> cache_wf L C w' \<and> wrote_back disk backed w b w' b' \<and>
    (r = Inr () \<longrightarrow> dirty_set w' = dirty_set w - ({start..<start + count} - L)) \<and> (writes_succeed ops \<longrightarrow> r = Inr ())"
proof -
  define is0 where "is0 = [start..<min (start + count) (length (pc_entries (pw_cache w)))]"
  define got where "got = filter (\<lambda>i. i \<in> dirty_set w \<and> i \<notin> L) is0"
  have "distinct is0" by (simp add: is0_def)
  from claim_each_facts [OF wf this, of disk] obtain w1 where
    c: "claim_each w is0 = (got, w1)" "cache_wf L (C \<union> {i \<in> set is0. i \<in> dirty_set w \<and> i \<notin> L}) w1" "dirty_set w1 = dirty_set w - (set is0 - L)" "quiet disk w w1"
    unfolding got_def by blast
  have got: "set got = {i \<in> set is0. i \<in> dirty_set w \<and> i \<notin> L}" "distinct got" by (auto simp: got_def is0_def)
  have cover: "dirty_set w - (set is0 - L) = dirty_set w - ({start..<start + count} - L)"
  proof -
    have "k < length (pc_entries (pw_cache w))" if "k \<in> dirty_set w" for k
      using dirty_present [OF that] by (auto simp: cache_entry_def split: if_splits)
    then show ?thesis by (auto simp: is0_def)
  qed
  show ?thesis
  proof (cases "got = []")
    case True
    have r: "r = Inr ()" "w' = w1" using wb c(1) True unfolding writeback_pages_run_def is0_def [symmetric] by auto
    have none: "{i \<in> set is0. i \<in> dirty_set w \<and> i \<notin> L} = {}" using got(1) True by simp
    then have ds: "dirty_set w1 = dirty_set w" using c(3) by blast
    have "wrote_back disk backed w b w1 b"
      unfolding wrote_back_def ds using given_mono [OF given_quiet [OF c(4) be(1)]] by blast
    moreover have "cache_wf L C w1" using c(2) unfolding none by simp
    ultimately show ?thesis using be(2) r c(3) cover by auto
  next
    case False
    define w2 where "w2 = foldl (\<lambda>w i. mkclean_page w i False) w1 got"
    have wf1: "cache_wf L (C \<union> set got) w1" using c(2) got(1) by simp
    have w': "write_runs ops w2 got = (r, w')"
      using wb c(1) False ensure_each_noop [OF wf1] unfolding writeback_pages_run_def is0_def [symmetric] w2_def by simp
    have wf2: "cache_wf L (C \<union> set got) w2" unfolding w2_def using cache_wf_alike [OF foldl_mkclean(1)] wf1 by blast
    have q: "quiet disk w w2" unfolding w2_def by (rule quiet_trans [OF c(4) foldl_mkclean(2)])
    have b2: "pw_backend w2 = Some b" using q be(1) by (simp add: quiet_def)
    have ds2: "dirty_set w2 = dirty_set w - set got" using c(3) got(1) unfolding w2_def foldl_mkclean(3) by blast
    have dj: "set got \<inter> C = {}"
    proof -
      have "i \<notin> C" if "i \<in> dirty_set w" for i using dirty_present [OF that] cache_wf_entry [OF wf] dirty_iff that by (fastforce simp: page_ok_def)
      then show ?thesis using got(1) by blast
    qed
    from write_runs_facts [OF wf2 b2 be(2) got(2) dj w'] obtain b' where
      f: "be_inv b'" "cache_wf L C w'" "given disk backed (set got) w2 b w' b'" "dirty_set w2 \<subseteq> dirty_set w'"
        "dirty_set w' \<subseteq> dirty_set w2 \<union> set got" "\<forall>k \<in> set got - dirty_set w'. saved disk backed b' w2 k"
        "r = Inr () \<longrightarrow> dirty_set w' = dirty_set w2" "writes_succeed ops \<longrightarrow> r = Inr ()" by blast
    have gd: "set got \<subseteq> dirty_set w" using got(1) by blast
    have g0: "given disk backed {} w b w2 b" by (rule given_quiet [OF q be(1)])
    have "given disk backed ({} \<union> set got) w b w' b'" by (rule given_trans [OF g0 f(3)])
    then have g: "given disk backed (dirty_set w) w b w' b'" by (rule given_mono) (use gd in blast)
    have "saved disk backed b' w k" if "k \<in> dirty_set w - dirty_set w'" for k
    proof -
      have "k \<in> set got - dirty_set w'" using that f(4) ds2 by blast
      then show ?thesis using f(6) saved_back [OF _ g0] by blast
    qed
    moreover have "dirty_set w' \<subseteq> dirty_set w" using f(5) ds2 gd by blast
    ultimately have "wrote_back disk backed w b w' b'" using g by (simp add: wrote_back_def)
    moreover have "dirty_set w - set got = dirty_set w - ({start..<start + count} - L)" using cover got(1) by blast
    ultimately show ?thesis using f(1,2,7,8) ds2 by auto
  qed
qed

end

end
