(* ===== verification/PageCacheFlush.thy ===== *)
theory PageCacheFlush
  imports PageCacheSync
begin

text \<open>
  The loops around one writeback run: writing back a list, a range or everything, the dirty
  throttle, and the whole write operation, which ends in the throttle.
\<close>

section \<open>Lists of pages\<close>

lemma run_cases:
  assumes "is \<noteq> []"
  obtains s m where "take_run n is = [s..<s + m]" "hd (take_run n is) = s" "length (take_run n is) = m" "0 < m" "m \<le> length is"
    "set is = {s..<s + m} \<union> set (drop m is)"
proof -
  let ?run = "take_run n is" and ?m = "length (take_run n is)"
  have m: "0 < ?m" "?m \<le> length is" using take_run_length [OF assms, of n] by blast+
  have u: "?run = [hd is..<hd is + ?m]" by (rule take_run_upt [OF assms])
  have "hd ?run = hd is" using u m(1) by (metis hd_upt less_add_same_cancel1)
  moreover have "set is = set (take ?m is) \<union> set (drop ?m is)" by (metis append_take_drop_id set_append)
  then have "set is = {hd is..<hd is + ?m} \<union> set (drop ?m is)" using take_run_prefix [of n "is"] u by (metis set_upt)
  ultimately show ?thesis using that [of "hd is" ?m] u m by blast
qed

context page_backend
begin

lemma writeback_list_facts:
  assumes "cache_wf L C w" and "pw_backend w = Some b" "be_inv b" and "writeback_list ops w is = (r, w')"
  shows "\<exists>b'. be_inv b' \<and> cache_wf L C w' \<and> wrote_back disk backed w b w' b' \<and> (r = Inr () \<longrightarrow> dirty_set w' = dirty_set w - (set is - L)) \<and>
    (writes_succeed ops \<longrightarrow> r = Inr ())"
  using assms
proof (induction "length is" arbitrary: "is" w b rule: less_induct)
  case less
  show ?case
  proof (cases "is = []")
    case True
    then have "w' = w" "r = Inr ()" using less.prems(4) by (simp_all add: writeback_list.simps)
    then show ?thesis using True less.prems(1-3) wrote_back_refl [OF less.prems(2), of disk backed] by (intro exI [of _ b]) simp
  next
    case False
    from run_cases [OF False, of MAX_WRITEBACK_PAGES] obtain s m where
      run: "hd (take_run MAX_WRITEBACK_PAGES is) = s" "length (take_run MAX_WRITEBACK_PAGES is) = m" "0 < m" "m \<le> length is"
        "set is = {s..<s + m} \<union> set (drop m is)" by metis
    obtain r1 w1 where one: "writeback_pages_run ops w s m = (r1, w1)" by (rule prod.exhaust)
    have eq: "writeback_list ops w is = (case r1 of Inl e \<Rightarrow> (Inl e, w1) | Inr _ \<Rightarrow> writeback_list ops w1 (drop m is))"
      using False one by (simp add: writeback_list.simps [of ops w "is"] Let_def run(1,2) split: sum.splits)
    from writeback_pages_run_facts [OF less.prems(1-3) one] obtain b1 where
      f: "be_inv b1" "cache_wf L C w1" "wrote_back disk backed w b w1 b1" "r1 = Inr () \<longrightarrow> dirty_set w1 = dirty_set w - ({s..<s + m} - L)"
        "writes_succeed ops \<longrightarrow> r1 = Inr ()" by blast
    show ?thesis
    proof (cases r1)
      case (Inl e)
      then show ?thesis using f eq less.prems(4) by auto
    next
      case (Inr u)
      have b1: "pw_backend w1 = Some b1" using f(3) by (simp add: wrote_back_def given_def)
      have "length (drop m is) < length is" using run(3) False by simp
      moreover have "writeback_list ops w1 (drop m is) = (r, w')" using eq Inr less.prems(4) by simp
      ultimately obtain b2 where g: "be_inv b2" "cache_wf L C w'" "wrote_back disk backed w1 b1 w' b2"
        "r = Inr () \<longrightarrow> dirty_set w' = dirty_set w1 - (set (drop m is) - L)" "writes_succeed ops \<longrightarrow> r = Inr ()" using less.hyps [OF _ f(2) b1 f(1)] by blast
      have "dirty_set w - ({s..<s + m} - L) - (set (drop m is) - L) = dirty_set w - (set is - L)" using run(5) by blast
      then show ?thesis using g f(4) Inr wrote_back_trans [OF f(3) g(3)] by (intro exI [of _ b2]) simp
    qed
  qed
qed

lemma writeback_some_loop_facts:
  assumes "cache_wf L C w" and "pw_backend w = Some b" "be_inv b" and "writeback_some_loop ops budget written w is = (r, w')"
  shows "\<exists>b'. be_inv b' \<and> cache_wf L C w' \<and> wrote_back disk backed w b w' b'"
  using assms
proof (induction "length is" arbitrary: "is" w b written rule: less_induct)
  case less
  show ?case
  proof (cases "is = [] \<or> written \<ge> budget")
    case True
    then have "w' = w" using less.prems(4) by (simp add: writeback_some_loop.simps)
    then show ?thesis using less.prems(1-3) wrote_back_refl [OF less.prems(2), of disk backed] by (intro exI [of _ b]) simp
  next
    case False
    define n where "n = min (budget - written) MAX_WRITEBACK_PAGES"
    from run_cases [of "is" n] False obtain s m where
      run: "hd (take_run n is) = s" "length (take_run n is) = m" "0 < m" by metis
    obtain r1 w1 where one: "writeback_pages_run ops w s m = (r1, w1)" by (rule prod.exhaust)
    have eq: "writeback_some_loop ops budget written w is =
        (case r1 of Inl e \<Rightarrow> (Inl e, w1) | Inr _ \<Rightarrow> writeback_some_loop ops budget (written + m) w1 (drop m is))"
      using False one by (simp add: writeback_some_loop.simps [of ops budget written w "is"] Let_def n_def [symmetric] run(1,2) split: sum.splits)
    from writeback_pages_run_facts [OF less.prems(1-3) one] obtain b1 where
      f: "be_inv b1" "cache_wf L C w1" "wrote_back disk backed w b w1 b1" by blast
    show ?thesis
    proof (cases r1)
      case (Inl e)
      then show ?thesis using f eq less.prems(4) by auto
    next
      case (Inr u)
      have b1: "pw_backend w1 = Some b1" using f(3) by (simp add: wrote_back_def given_def)
      have "length (drop m is) < length is" using run(3) False by simp
      moreover have "writeback_some_loop ops budget (written + m) w1 (drop m is) = (r, w')" using eq Inr less.prems(4) by simp
      ultimately show ?thesis using less.hyps [OF _ f(2) b1 f(1)] wrote_back_trans [OF f(3)] by blast
    qed
  qed
qed

lemma writeback_some_pages_facts:
  assumes "cache_wf L C w" and "pw_backend w = Some b" "be_inv b" and "writeback_some_pages ops w budget = (r, w')"
  shows "\<exists>b'. be_inv b' \<and> cache_wf L C w' \<and> wrote_back disk backed w b w' b'"
proof (cases "budget = 0 \<or> find_dirty_pages (pw_cache w) = []")
  case True
  then have "w' = w" using assms(4) by (auto simp: writeback_some_pages_def Let_def split: if_splits)
  then show ?thesis using assms(1-3) wrote_back_refl [OF assms(2), of disk backed] by auto
next
  case False
  then have "writeback_some_loop ops budget 0 w (find_dirty_pages (pw_cache w)) = (r, w')" using assms(4) by (simp add: writeback_some_pages_def Let_def)
  then show ?thesis by (rule writeback_some_loop_facts [OF assms(1-3)])
qed

lemma balance_facts:
  assumes wf: "cache_wf L C w" and be: "pw_backend w = Some b" "be_inv b"
  shows "\<exists>b'. be_inv b' \<and> cache_wf L C (balance_dirty_pages ops w) \<and> wrote_back disk backed w b (balance_dirty_pages ops w) b'"
proof -
  have some: "\<exists>b'. be_inv b' \<and> cache_wf L C (snd (writeback_some_pages ops v n)) \<and> wrote_back disk backed v b (snd (writeback_some_pages ops v n)) b'"
    if "cache_wf L C v" "pw_backend v = Some b" for v n
    using writeback_some_pages_facts [OF that be(2)] by (metis surj_pair snd_conv)
  let ?v = "w\<lparr>pw_cache := (pw_cache w)\<lparr>pc_async_writeback := False\<rparr>\<rparr>"
  have en: "cache_entry ((pw_cache w)\<lparr>pc_async_writeback := False\<rparr>) = pw_entry w" by (simp add: cache_entry_def fun_eq_iff)
  have v: "cache_wf L C ?v" using cache_wf_alike [of w ?v] wf en by (simp add: alike_def)
  have q: "quiet disk w ?v" by (rule quiet_alike) (simp_all add: alike_def en)
  have ds: "dirty_set ?v = dirty_set w" by (simp add: dirty_set_def en)
  have v0: "wrote_back disk backed w b ?v b"
    unfolding wrote_back_def ds using given_mono [OF given_quiet [OF q be(1)]] by blast
  obtain b1 where "be_inv b1" "cache_wf L C (snd (writeback_some_pages ops ?v WB_BATCH_PAGES))"
    "wrote_back disk backed ?v b (snd (writeback_some_pages ops ?v WB_BATCH_PAGES)) b1" using some [OF v, of WB_BATCH_PAGES] be(1) by auto
  then have "be_inv b1 \<and> cache_wf L C (snd (writeback_some_pages ops ?v WB_BATCH_PAGES)) \<and>
      wrote_back disk backed w b (snd (writeback_some_pages ops ?v WB_BATCH_PAGES)) b1" using wrote_back_trans [OF v0] by blast
  then have bg: "\<exists>b'. be_inv b' \<and> cache_wf L C (maybe_background_writeback ops w) \<and> wrote_back disk backed w b (maybe_background_writeback ops w) b'"
    using wf wrote_back_refl [OF be(1), of disk backed] be(2) unfolding maybe_background_writeback_def by auto
  show ?thesis
    using bg some [OF wf be(1), of WB_BATCH_PAGES] wf be wrote_back_refl [OF be(1), of disk backed]
    by (auto simp: balance_dirty_pages_def Let_def)
qed

end

section \<open>Everything in a range\<close>

lemma no_transient:
  assumes "cache_wf {} {} w"
  shows "\<not> has_transient_pages (pw_cache w) s e"
proof
  assume "has_transient_pages (pw_cache w) s e"
  then obtain i x where k: "i < Suc (min e (length (pc_entries (pw_cache w)) - 1))" "pc_entries (pw_cache w) \<noteq> []"
      "pc_entries (pw_cache w) ! i = Some x" "pe_state x = Loading \<or> pe_state x = Writeback"
    by (auto simp: has_transient_pages_def Let_def simp del: upt_Suc split: if_splits option.splits)
  then have i: "i < length (pc_entries (pw_cache w))" "pc_entries (pw_cache w) ! i = Some x" "pe_state x = Loading \<or> pe_state x = Writeback"
    by (cases "pc_entries (pw_cache w)"; simp)+
  then have "page_ok {} {} i x" by (intro cache_wf_entry [OF assms]) (simp add: cache_entry_def)
  with i(3) show False by (auto simp: page_ok_def pe_state_def decode_state_bits split: if_splits)
qed

context page_backend
begin

lemma writeback_range_facts:
  assumes wf: "cache_wf {} {} w" and be: "pw_backend w = Some b" "be_inv b"
  shows "\<exists>r w' b'. writeback_range ops wait s e w = Some (r, w') \<and> be_inv b' \<and> cache_wf {} {} w' \<and> wrote_back disk backed w b w' b' \<and>
    (r = Inr () \<longrightarrow> dirty_set w' = dirty_set w - {s..e}) \<and>
    (writes_succeed ops \<longrightarrow> r = Inr ())"
proof -
  have clean: "writeback_range ops wait s e v = Some (Inr (), v)" if "cache_wf {} {} v" "dirty_set v \<inter> {s..e} = {}" for v
  proof -
    have "filter (\<lambda>i. s \<le> i \<and> i \<le> e) (find_dirty_pages (pw_cache v)) = []"
      using that(2) find_dirty_set [of v] by (auto simp: filter_empty_conv)
    then show ?thesis using no_transient [OF that(1)] by (simp add: writeback_range.simps)
  qed
  let ?dirty = "filter (\<lambda>i. s \<le> i \<and> i \<le> e) (find_dirty_pages (pw_cache w))"
  have set_d: "set ?dirty = dirty_set w \<inter> {s..e}" using find_dirty_set [of w] by auto
  show ?thesis
  proof (cases "?dirty = []")
    case True
    then have none: "dirty_set w \<inter> {s..e} = {}" using set_d by simp
    then have "dirty_set w = dirty_set w - {s..e}" by blast
    then show ?thesis using clean [OF wf none] wf be wrote_back_refl [OF be(1), of disk backed]
      by (intro exI [of _ "Inr ()"] exI [of _ w] exI [of _ b]) simp
  next
    case False
    obtain r1 w1 where l: "writeback_list ops w ?dirty = (r1, w1)" by (rule prod.exhaust)
    from writeback_list_facts [OF wf be l] obtain b1 where
      f: "be_inv b1" "cache_wf {} {} w1" "wrote_back disk backed w b w1 b1" "r1 = Inr () \<longrightarrow> dirty_set w1 = dirty_set w - (set ?dirty - {})"
        "writes_succeed ops \<longrightarrow> r1 = Inr ()" by blast
    have eq: "writeback_range ops wait s e w = (case r1 of Inl x \<Rightarrow> Some (Inl x, w1) | Inr _ \<Rightarrow> writeback_range ops wait s e w1)"
      using False l by (subst writeback_range.simps) (simp add: Let_def split: sum.splits)
    show ?thesis
    proof (cases r1)
      case (Inl x)
      then show ?thesis using eq f l by (intro exI [of _ "Inl x"] exI [of _ w1] exI [of _ b1]) auto
    next
      case (Inr u)
      then have d: "dirty_set w1 = dirty_set w - {s..e}" using f(4) set_d by auto
      then have "dirty_set w1 \<inter> {s..e} = {}" by blast
      then show ?thesis using clean [OF f(2)] eq Inr f d by (intro exI [of _ "Inr ()"] exI [of _ w1] exI [of _ b1]) simp
    qed
  qed
qed

end

end
