(* ===== verification/FileData.thy ===== *)
theory FileData
  imports PageCacheFlush
begin

text \<open>
  The whole write operation as a client calls it, over any backend: its effect on the bytes of the
  file, and that enough free frames make it succeed.
\<close>

section \<open>Writes that find their frames\<close>

lemma touch_free [simp]: "pw_free (pw_touch w i g) = pw_free w"
  by (simp add: pw_touch_def split: option.splits)

lemma get_or_create_frames:
  assumes "reads_succeed ops b" and "pw_backend w = Some b" and "pw_free w \<noteq> []"
  shows "\<exists>w'. get_or_create_entry ops w i populate old = (Inr (), w') \<and> length (pw_free w) \<le> Suc (length (pw_free w'))"
proof (cases "pw_entry w i")
  case (Some e)
  then show ?thesis by (simp add: get_or_create_entry_def Let_def)
next
  case None
  obtain p ps where f: "pw_free w = p # ps" using assms(3) by (cases "pw_free w") auto
  obtain x where "be_read_page ops b i zero_page = Inr x" using assms(1) unfolding reads_succeed_def by blast
  then show ?thesis using None f assms(2) by (simp add: get_or_create_entry_def Let_def pw_frame_alloc_def)
qed

lemma get_page_for_write_frames:
  assumes "reads_succeed ops b" and "pw_backend w = Some b" and "pw_free w \<noteq> []"
  shows "\<exists>w'. get_page_for_write_populate ops w i old full = (Inr (), w') \<and> length (pw_free w) \<le> Suc (length (pw_free w'))"
proof -
  define pop where "pop \<longleftrightarrow> \<not> full \<and> \<not> (case old of None \<Rightarrow> False | Some s \<Rightarrow> i * PAGE_SIZE \<ge> s)"
  from get_or_create_frames [OF assms, of i pop old] obtain w1 where
    "get_or_create_entry ops w i pop old = (Inr (), w1)" "length (pw_free w) \<le> Suc (length (pw_free w1))" by blast
  then show ?thesis by (simp add: get_page_for_write_populate_def Let_def pop_def [symmetric])
qed

context page_backend
begin

lemma lease_pages_succeeds:
  assumes "reads_succeed ops b" and "cache_wf L C w" and "pw_backend w = Some b" "be_inv b"
    and "\<forall>i \<in> set is. i * PAGE_SIZE + PAGE_SIZE \<le> USIZE_MAX \<and> i \<notin> L \<union> C" and "distinct is" and "length is \<le> length (pw_free w)"
  shows "\<exists>cs w'. lease_pages ops offset len old copies w is = (Inr cs, w')"
  using assms(2-)
proof (induction "is" arbitrary: L w copies)
  case (Cons i is')
  have ix: "i * PAGE_SIZE + PAGE_SIZE \<le> USIZE_MAX" and free: "i \<notin> L \<union> C" using Cons.prems(4) by auto
  define full where "full = (max offset (i * PAGE_SIZE) - i * PAGE_SIZE = 0 \<and>
      saturating_sub (min (offset + len) (i * PAGE_SIZE + PAGE_SIZE)) (max offset (i * PAGE_SIZE)) = PAGE_SIZE)"
  have "pw_free w \<noteq> []" using Cons.prems(6) by auto
  from get_page_for_write_frames [OF assms(1) Cons.prems(2) this, of i old full] obtain w1 where
    g: "get_page_for_write_populate ops w i old full = (Inr (), w1)" "length (pw_free w) \<le> Suc (length (pw_free w1))" by blast
  note c = get_page_for_write_facts [OF Cons.prems(1-3) ix g(1)]
  have c1: "cache_wf L C w1" "pw_backend w1 = Some b" using c Cons.prems(2) by (auto simp: grown_def)
  obtain e where e: "pw_entry w1 i = Some e" using c by auto
  from lock_entry_facts [OF c1(1) e free, of disk] obtain w2 where
    l: "lock_entry w1 i = (Inr (Some (i \<in> dirty_set w1)), w2)" "cache_wf (insert i L) C w2" "grown disk {} w1 w2" "pw_free w2 = pw_free w1" by blast
  have b2: "pw_backend w2 = Some b" using l(3) c1(2) by (simp add: grown_def)
  have rest: "\<forall>k \<in> set is'. k * PAGE_SIZE + PAGE_SIZE \<le> USIZE_MAX \<and> k \<notin> insert i L \<union> C" "distinct is'" "length is' \<le> length (pw_free w2)"
    using Cons.prems(4-6) g(2) l(4) by auto
  have rest0: "\<forall>k \<in> set is'. k * PAGE_SIZE + PAGE_SIZE \<le> USIZE_MAX \<and> k \<notin> L \<union> C" "length is' \<le> length (pw_free w)" using Cons.prems(4,6) by auto
  show ?case
  proof (cases "saturating_sub (min (offset + len) (i * PAGE_SIZE + PAGE_SIZE)) (max offset (i * PAGE_SIZE)) = 0")
    case True
    then show ?thesis using Cons.IH [OF Cons.prems(1-3) rest0(1) rest(2) rest0(2), of copies] by (simp add: Let_def)
  next
    case False
    then show ?thesis using Cons.IH [OF l(2) b2 Cons.prems(3) rest] g(1) l(1) unfolding lease_pages.simps Let_def full_def [symmetric] by simp
  qed
qed simp

lemma write_body_succeeds:
  assumes "reads_succeed ops b" and wf: "cache_wf {} {} w" and be: "pw_backend w = Some b" "be_inv b"
    and fits: "offset + len + PAGE_SIZE \<le> USIZE_MAX" and len: "0 < len" and fr: "len div PAGE_SIZE + 2 \<le> length (pw_free w)"
  shows "\<exists>n w'. write_kernel_body ops (\<lambda>_. Inr ()) w offset len src old = (Inr n, w')"
proof -
  let ?is = "[offset div PAGE_SIZE..<Suc ((offset + len - 1) div PAGE_SIZE)]"
  have pg: "\<forall>i \<in> set ?is. i * PAGE_SIZE + PAGE_SIZE \<le> USIZE_MAX \<and> i \<notin> {} \<union> {}"
  proof
    fix i assume "i \<in> set ?is"
    then have "overlaps_range offset len i" by (rule range_pages(2) [OF len])
    then show "i * PAGE_SIZE + PAGE_SIZE \<le> USIZE_MAX \<and> i \<notin> {} \<union> {}" using fits unfolding overlaps_range_def by simp
  qed
  have d: "distinct ?is" "length ?is \<le> length (pw_free w)" using range_pages(3) [OF len, of offset] fr by (simp_all del: upt_Suc)
  from lease_pages_succeeds [OF assms(1) wf be pg d] obtain cs w1 where
    "lease_pages ops offset len old [] w ?is = (Inr cs, w1)" by blast
  then have "\<exists>n w'. write_multi ops (\<lambda>_. Inr ()) w offset len src old = (Inr n, w')" by (simp add: write_multi_def Let_def del: upt_Suc)
  then show ?thesis using write_single_eq [OF len, of offset ops "\<lambda>_. Inr ()" w src old] len unfolding write_kernel_body_def by (simp split: if_splits)
qed

text \<open>The whole write: the body, then the throttle.\<close>

lemma write_kernel_facts:
  assumes wf: "cache_wf {} {} w" and be: "pw_backend w = Some b" "be_inv b"
    and fits: "offset + len + PAGE_SIZE \<le> USIZE_MAX" and len: "0 < len"
  shows "\<exists>r w' b'. write_kernel ops wait offset len src old w = Some (r, w') \<and> cache_wf {} {} w' \<and> pw_backend w' = Some b' \<and> be_inv b' \<and>
    (case r of
       Inr n \<Rightarrow> n = len \<and>
         (\<forall>i. \<forall>j < PAGE_SIZE. content disk w' i j =
           (if offset \<le> i * PAGE_SIZE + j \<and> i * PAGE_SIZE + j < offset + len then src (i * PAGE_SIZE + j - offset)
            else if i \<in> range_of offset len \<and> zeroes w (Some old) offset len i then 0 else content disk w i j)) \<and>
         dirty_set w' \<subseteq> dirty_set w \<union> range_of offset len \<and>
         (\<forall>k \<in> dirty_set w \<union> range_of offset len - dirty_set w'. saved disk backed b' w' k)
     | Inl e \<Rightarrow> \<exists>Z \<subseteq> {i \<in> range_of offset len. zeroes w (Some old) offset len i}. grown disk Z w w') \<and>
    (reads_succeed ops b \<and> len div PAGE_SIZE + 2 \<le> length (pw_free w) \<longrightarrow> r = Inr len)"
proof -
  obtain r1 w1 where wr: "write_kernel_body ops (\<lambda>_. Inr ()) w offset len src (Some old) = (r1, w1)" by (rule prod.exhaust)
  note f = write_kernel_body_facts [OF wf be fits len _ wr]
  note eq = write_with_copy_callbacks.simps [of ops wait "\<lambda>_. Inr ()" offset len src "Some old" w]
  show ?thesis
  proof (cases r1)
    case (Inl e)
    then obtain err Z where e: "e = WaError err" "cache_wf {} {} w1" "Z \<subseteq> {i \<in> range_of offset len. zeroes w (Some old) offset len i}" "grown disk Z w w1"
      using f by auto
    let ?w = "notify_state_progress w1"
    have k: "write_kernel ops wait offset len src old w = Some (Inl err, ?w)" unfolding write_kernel_def eq by (simp add: wr Inl e(1))
    have "pc_mutation_generation (pw_cache ?w) = pc_mutation_generation (pw_cache w1)" by (simp add: notify_state_progress_def)
    then have "grown disk Z w ?w" using e(4) quiet_notify [of disk w1] by (simp add: grown_def quiet_def)
    moreover have "pw_backend ?w = Some b" using e(4) be(1) by (simp add: grown_def)
    moreover have "\<not> (reads_succeed ops b \<and> len div PAGE_SIZE + 2 \<le> length (pw_free w))"
      using write_body_succeeds [OF _ wf be fits len, of src "Some old"] wr Inl by force
    ultimately show ?thesis using k wf_notify [OF e(2)] be(2) e(3)
      by (intro exI [of _ "Inl err"] exI [of _ ?w] exI [of _ b]) auto
  next
    case (Inr n)
    have g: "n = len" "cache_wf {} {} w1" "pw_backend w1 = Some b" "dirty_set w1 = dirty_set w \<union> range_of offset len"
      "\<And>i j. j < PAGE_SIZE \<Longrightarrow> content disk w1 i j =
          (if offset \<le> i * PAGE_SIZE + j \<and> i * PAGE_SIZE + j < offset + len then src (i * PAGE_SIZE + j - offset)
           else if i \<in> range_of offset len \<and> zeroes w (Some old) offset len i then 0 else content disk w i j)"
      using f Inr by simp_all
    let ?w2 = "notify_state_progress w1"
    define w' where "w' = balance_dirty_pages ops ?w2"
    have k: "write_kernel ops wait offset len src old w = Some (Inr len, w')" unfolding write_kernel_def eq w'_def using len by (simp add: wr Inr g(1))
    have b2: "pw_backend ?w2 = Some b" using g(3) by simp
    from balance_facts [OF wf_notify [OF g(2)] b2 be(2)] obtain b' where
      h: "be_inv b'" "cache_wf {} {} w'" "wrote_back disk backed ?w2 b w' b'" unfolding w'_def by blast
    have q: "content disk ?w2 = content disk w1" using quiet_notify [of disk w1] by (simp add: quiet_def)
    have gv: "given disk backed (dirty_set ?w2) ?w2 b w' b'" and ds: "dirty_set w' \<subseteq> dirty_set w \<union> range_of offset len"
      and sv: "\<forall>k \<in> dirty_set ?w2 - dirty_set w'. saved disk backed b' ?w2 k" using h(3) g(4) by (simp_all add: wrote_back_def)
    have ct: "content disk w' i j = content disk w1 i j" if "j < PAGE_SIZE" for i j using gv q that by (simp add: given_def)
    have "saved disk backed b' w' k" if "k \<in> dirty_set w \<union> range_of offset len - dirty_set w'" for k
      using sv that g(4) ct q by (simp add: saved_def)
    then show ?thesis using k h(1,2) gv ds g(5) ct
      by (intro exI [of _ "Inr len"] exI [of _ w'] exI [of _ b']) (simp add: given_def)
  qed
qed

end

end
