(* ===== verification/PageCacheEvict.thy ===== *)
theory PageCacheEvict
  imports PageCacheFlush
begin

text \<open>
  Eviction by the clock hand: it drops only clean pages that nobody holds, so the file keeps
  its bytes as long as clean pages agree with the backend.
\<close>

text \<open>One entry before and after a sweep.\<close>

definition swept_entry :: "pc_env \<Rightarrow> usize \<Rightarrow> PageEntry option \<Rightarrow> PageEntry option \<Rightarrow> bool" where
  "swept_entry env i x y \<longleftrightarrow>
     y = x \<or>
     (\<exists>e. x = Some e \<and> evictable env i e \<and>
       (y = None \<or> (\<exists>e'. y = Some e' \<and> pe_page e' = pe_page e \<and> pe_valid_mask e' = pe_valid_mask e \<and>
          (\<forall>n. n \<noteq> 5 \<longrightarrow> bit (pe_flags e') n = bit (pe_flags e) n))))"

definition swept :: "pc_env \<Rightarrow> PageCache \<Rightarrow> PageCache \<Rightarrow> bool" where
  "swept env pc pc' \<longleftrightarrow> (\<forall>i. swept_entry env i (cache_entry pc i) (cache_entry pc' i))"

lemma state_bits: "(\<forall>n. n \<noteq> 5 \<longrightarrow> bit f n = bit g n) \<Longrightarrow> decode_state f = decode_state g"
  by (simp add: decode_state_bits)

lemma evictable_bits:
  "pe_page e' = pe_page e \<Longrightarrow> (\<forall>n. n \<noteq> 5 \<longrightarrow> bit (pe_flags e') n = bit (pe_flags e) n) \<Longrightarrow> evictable env i e' = evictable env i e"
  using state_bits [of "pe_flags e'" "pe_flags e"] by (simp add: evictable_def pe_state_def)

lemma swept_entry_trans:
  assumes a: "swept_entry env i x y" and b: "swept_entry env i y z"
  shows "swept_entry env i x z"
proof (cases "y = x \<or> z = y")
  case True
  then show ?thesis using a b by blast
next
  case False
  then obtain e where e: "x = Some e" "evictable env i e" using a by (auto simp: swept_entry_def)
  show ?thesis
  proof (cases z)
    case None
    then show ?thesis using e by (simp add: swept_entry_def)
  next
    case (Some e2)
    with False b obtain e1 where "y = Some e1" "pe_page e2 = pe_page e1" "pe_valid_mask e2 = pe_valid_mask e1"
      "\<forall>n. n \<noteq> 5 \<longrightarrow> bit (pe_flags e2) n = bit (pe_flags e1) n" by (auto simp: swept_entry_def)
    moreover from this False a e obtain "pe_page e1 = pe_page e" "pe_valid_mask e1 = pe_valid_mask e"
      "\<forall>n. n \<noteq> 5 \<longrightarrow> bit (pe_flags e1) n = bit (pe_flags e) n" by (auto simp: swept_entry_def)
    ultimately show ?thesis using e Some by (simp add: swept_entry_def)
  qed
qed

lemma swept_trans: "swept env p q \<Longrightarrow> swept env q r \<Longrightarrow> swept env p r"
  unfolding swept_def using swept_entry_trans by blast

lemma swept_refl: "swept env p p"
  by (simp add: swept_def swept_entry_def)

definition cached_set :: "PageCache \<Rightarrow> usize set" where
  "cached_set pc = {i. cache_entry pc i \<noteq> None}"

lemma finite_cached_set: "finite (cached_set pc)"
  by (rule finite_subset [of _ "{..<length (pc_entries pc)}"]) (auto simp: cached_set_def cache_entry_def split: if_splits)

definition tracked :: "PageCache \<Rightarrow> bool" where
  "tracked pc \<longleftrightarrow> pc_pages pc = cached_set pc"

lemma cache_put_entry: "i < length (pc_entries pc) \<Longrightarrow> cache_entry (cache_put pc i e) = (cache_entry pc)(i \<mapsto> e)"
  by (auto simp: cache_put_def cache_entry_def fun_eq_iff)

lemma clock_visit_facts:
  assumes i: "i < length (pc_entries pc)" and v: "clock_visit env pc i = (freed, pc')"
  shows "swept env pc pc' \<and> length (pc_entries pc') = length (pc_entries pc) \<and> pc_unevictable pc' = pc_unevictable pc \<and>
    card (cached_set pc) = card (cached_set pc') + (if freed then 1 else 0) \<and> (tracked pc \<longrightarrow> tracked pc')"
proof (cases "pc_entries pc ! i")
  case None
  then show ?thesis using v by (auto simp: clock_visit_def swept_refl)
next
  case (Some e)
  then have ent: "cache_entry pc i = Some e" using i by (simp add: cache_entry_def)
  show ?thesis
  proof (cases "evictable env i e")
    case False
    then show ?thesis using v Some by (auto simp: clock_visit_def swept_refl)
  next
    case ev: True
    show ?thesis
    proof (cases "test_flag PG_REFERENCED (pe_flags e)")
      case True
      let ?e = "on_flags (clear_flag PG_REFERENCED) e"
      have pc': "freed = False" "pc' = cache_put pc i ?e" using v Some ev True by (auto simp: clock_visit_def)
      have en: "cache_entry pc' = (cache_entry pc)(i \<mapsto> ?e)" unfolding pc' by (rule cache_put_entry [OF i])
      have bits: "\<forall>n. n \<noteq> 5 \<longrightarrow> bit (pe_flags ?e) n = bit (pe_flags e) n"
        by (auto simp: on_flags_def clear_flag_def bit_simps dest: bit_imp_le_length)
      have "swept env pc pc'" unfolding swept_def swept_entry_def en using ent ev bits by (auto simp: on_flags_def)
      moreover have "cached_set pc' = cached_set pc" using ent by (auto simp: cached_set_def en)
      ultimately show ?thesis using pc' by (simp add: cache_put_def tracked_def)
    next
      case False
      let ?pc = "pc\<lparr>pc_entries := (pc_entries pc)[i := None], pc_pages := pc_pages pc - {i}\<rparr>"
      have pc': "freed = True" "pc' = ?pc" using v Some ev False by (auto simp: clock_visit_def)
      have en: "cache_entry pc' = (cache_entry pc)(i := None)" unfolding pc' using i by (auto simp: cache_entry_def fun_eq_iff)
      have "swept env pc pc'" unfolding swept_def swept_entry_def en using ent ev by auto
      moreover have cs: "cached_set pc' = cached_set pc - {i}" by (auto simp: cached_set_def en)
      moreover have "i \<in> cached_set pc" using ent by (simp add: cached_set_def)
      then have "card (cached_set pc) = Suc (card (cached_set pc - {i}))" using card.remove [OF finite_cached_set] by blast
      moreover have "pc_pages pc' = pc_pages pc - {i}" "length (pc_entries pc') = length (pc_entries pc)" "pc_unevictable pc' = pc_unevictable pc"
        by (simp_all add: pc'(2))
      ultimately show ?thesis using pc'(1) by (simp add: tracked_def)
    qed
  qed
qed

declare clock_sweep.simps [simp del]

lemma clock_sweep_facts:
  assumes "len = length (pc_entries pc)" and "hand < len" and "evicted \<le> target"
    and "clock_sweep env len target max_scan evicted scanned hand pc = (n, hand', pc')"
  shows "swept env pc pc' \<and> length (pc_entries pc') = len \<and> hand' < len \<and> n \<le> target \<and> evicted \<le> n \<and>
    card (cached_set pc) + evicted = card (cached_set pc') + n \<and> (tracked pc \<longrightarrow> tracked pc')"
  using assms
proof (induction "max_scan - scanned" arbitrary: pc evicted scanned hand)
  case 0
  then show ?case by (simp add: clock_sweep.simps swept_refl)
next
  case (Suc m)
  show ?case
  proof (cases "evicted < target \<and> scanned < max_scan")
    case False
    then have "clock_sweep env len target max_scan evicted scanned hand pc = (evicted, hand, pc)" using False by (subst clock_sweep.simps) auto
    then show ?thesis using Suc.prems by (simp add: swept_refl)
  next
    case True
    obtain freed pc1 where v: "clock_visit env pc hand = (freed, pc1)" by (rule prod.exhaust)
    have h: "hand < length (pc_entries pc)" using Suc.prems(1,2) by simp
    note f = clock_visit_facts [OF h v]
    let ?e = "if freed then evicted + 1 else evicted"
    have eq: "clock_sweep env len target max_scan ?e (scanned + 1) ((hand + 1) mod len) pc1 = (n, hand', pc')"
      using Suc.prems(4) True v by (subst (asm) clock_sweep.simps) simp
    have "m = max_scan - (scanned + 1)" "len = length (pc_entries pc1)" "?e \<le> target" using Suc.hyps(2) f Suc.prems(1) True by simp_all
    moreover have "(hand + 1) mod len < len" using Suc.prems(2) by (intro mod_less_divisor) simp
    ultimately have IH: "swept env pc1 pc' \<and> length (pc_entries pc') = len \<and> hand' < len \<and> n \<le> target \<and> ?e \<le> n \<and>
        card (cached_set pc1) + ?e = card (cached_set pc') + n \<and> (tracked pc1 \<longrightarrow> tracked pc')"
      using Suc.hyps(1) [OF _ _ _ _ eq] by blast
    have s: "swept env pc pc'" using swept_trans [of env pc pc1 pc'] f IH by blast
    show ?thesis using f IH s Suc.prems(1) by (cases freed) auto
  qed
qed

lemma drop_trailing_entry: "cache_entry (pc\<lparr>pc_clock_hand := h, pc_entries := drop_trailing (pc_entries pc)\<rparr>) = cache_entry pc"
proof -
  have "(if i < length (drop_trailing es) then drop_trailing es ! i else None) = (if i < length es then es ! i else None)"
    for es :: "PageEntry option list" and i
  proof (induction es rule: rev_induct)
    case (snoc x xs)
    then show ?case by (cases x) (auto simp: drop_trailing_def nth_append split: if_splits)
  qed (simp add: drop_trailing_def)
  note same = this [of _ "pc_entries pc"]
  have pe: "pc_entries (pc\<lparr>pc_clock_hand := h, pc_entries := drop_trailing (pc_entries pc)\<rparr>) = drop_trailing (pc_entries pc)" by simp
  show ?thesis by (rule ext) (simp only: cache_entry_def pe same)
qed

lemma evict_facts:
  assumes "evict_clean_pages_clock env pc target = (n, pc')"
  shows "swept env pc pc' \<and> n \<le> target \<and> card (cached_set pc) = card (cached_set pc') + n \<and> (tracked pc \<longrightarrow> tracked pc')"
proof (cases "pc_unevictable pc \<or> pc_entries pc = []")
  case True
  then show ?thesis using assms by (auto simp: evict_clean_pages_clock_def Let_def swept_refl)
next
  case False
  let ?len = "length (pc_entries pc)"
  let ?scan = "min (?len * 2) (saturating_add (saturating_mul target 16) 64)" and ?h = "pc_clock_hand pc mod length (pc_entries pc)"
  obtain k h pc1 where cs: "clock_sweep env ?len target ?scan 0 0 ?h pc = (k, h, pc1)" by (metis prod_cases3)
  have r: "n = k" "pc' = pc1\<lparr>pc_clock_hand := h, pc_entries := drop_trailing (pc_entries pc1)\<rparr>"
    using assms False cs by (auto simp: evict_clean_pages_clock_def Let_def)
  have "?h < ?len" using False by simp
  note f = clock_sweep_facts [OF refl this _ cs]
  have en: "cache_entry pc' = cache_entry pc1" unfolding r by (rule drop_trailing_entry)
  have "cached_set pc' = cached_set pc1" by (simp add: cached_set_def en)
  moreover have "tracked pc1 \<longrightarrow> tracked pc'" using calculation by (simp add: tracked_def r)
  ultimately show ?thesis using f r(1) by (auto simp: swept_def en)
qed

text \<open>Nobody holds a page that is evicted, and clean pages agree with the backend.\<close>

lemma evict_world:
  assumes wf: "cache_wf L C w" and be: "pw_backend w = Some b" and held: "\<forall>i \<in> L \<union> C. ce_entry_refs env i \<noteq> 1"
    and clean: "\<forall>i e. pw_entry w i = Some e \<longrightarrow> evictable env i e \<longrightarrow> (\<forall>j < PAGE_SIZE. pw_mem w (pe_page e) j = disk b i j)"
    and ev: "evict_clean_pages_clock env (pw_cache w) target = (n, pc')" and w': "w' = w\<lparr>pw_cache := pc'\<rparr>"
  shows "cache_wf L C w' \<and> dirty_set w' = dirty_set w \<and> (\<forall>i. \<forall>j < PAGE_SIZE. content disk w' i j = content disk w i j) \<and>
    n \<le> target \<and> card (cached_set (pw_cache w)) = card (cached_set pc') + n"
proof -
  note f = evict_facts [OF ev]
  have sw: "swept_entry env i (pw_entry w i) (pw_entry w' i)" for i using f by (simp add: swept_def w')
  have track: "tracked (pw_cache w)" using wf by (simp add: cache_wf_def tracked_def cached_set_def)
  have old: "\<exists>e. pw_entry w i = Some e \<and> pe_page e = pe_page e' \<and> pe_valid_mask e' = pe_valid_mask e \<and>
      (\<forall>n. n \<noteq> 5 \<longrightarrow> bit (pe_flags e') n = bit (pe_flags e) n)" if "pw_entry w' i = Some e'" for i e'
    using sw [of i] that unfolding swept_entry_def by (elim disjE) auto
  have lost: "pw_entry w' i = pw_entry w i \<or> (\<exists>e. pw_entry w i = Some e \<and> evictable env i e)" for i
    using sw [of i] by (auto simp: swept_entry_def)
  have dirty_same: "entry_dirty (pw_entry w' i) = entry_dirty (pw_entry w i)" for i
  proof (cases "pw_entry w' i")
    case None
    then show ?thesis using lost [of i] by (auto simp: evictable_def pe_state_def decode_state_bits entry_dirty_bit split: if_splits)
  next
    case (Some e')
    then show ?thesis using old [OF Some] by (auto simp: entry_dirty_bit)
  qed
  then have ds: "dirty_set w' = dirty_set w" by (simp add: dirty_set_def)
  have c: "content disk w' i j = content disk w i j" if "j < PAGE_SIZE" for i j
  proof (cases "pw_entry w' i")
    case None
    then show ?thesis using lost [of i] clean that be by (auto simp: content_def w')
  next
    case (Some e')
    then show ?thesis using old [OF Some] by (auto simp: content_def w')
  qed
  have keep: "pw_entry w' i \<noteq> None" if i: "i \<in> L \<union> C" for i
  proof -
    have "pw_entry w i \<noteq> None" using wf i by (auto simp: cache_wf_def)
    then show ?thesis using lost [of i] held i by (auto simp: evictable_def)
  qed
  have pg: "page_ok L C i e \<and> pe_page e \<notin> set (pw_free w)" if e: "pw_entry w' i = Some e" for i e
  proof -
    obtain x where x: "pw_entry w i = Some x" "pe_page x = pe_page e" "pe_valid_mask e = pe_valid_mask x"
      "\<forall>n. n \<noteq> 5 \<longrightarrow> bit (pe_flags e) n = bit (pe_flags x) n" using old [OF e] by auto
    have "page_ok L C i x \<and> pe_page x \<notin> set (pw_free w)" using wf x(1) by (simp add: cache_wf_def)
    then show ?thesis using x by (simp add: page_ok_def is_fully_valid_def)
  qed
  have inj: "i = k" if "pw_entry w' i = Some e" "pw_entry w' k = Some g" "pe_page e = pe_page g" for i k e g
    using old [OF that(1)] old [OF that(2)] that(3) wf unfolding cache_wf_def by metis
  have wf1: "distinct (pw_free w)" "L \<inter> C = {}" "pw_dirty w = card (dirty_set w) mod 2 ^ 64" "pw_writeback w = card C mod 2 ^ 64"
    using wf by (simp_all add: cache_wf_def)
  have w1: "pw_free w' = pw_free w" "pw_dirty w' = pw_dirty w" "pw_writeback w' = pw_writeback w" "pw_cache w' = pc'" by (simp_all add: w')
  have "pc_pages (pw_cache w') = {i. pw_entry w' i \<noteq> None}" using f track by (simp add: tracked_def cached_set_def w1(4))
  moreover have "L \<union> C \<subseteq> {i. pw_entry w' i \<noteq> None}" using keep by blast
  ultimately have "cache_wf L C w'" unfolding cache_wf_def ds w1(1-3) using pg inj wf1 by blast
  then show ?thesis using ds c f by blast
qed

end
