(* ===== verification/FatFile.thy ===== *)
theory FatFile
  imports FileData PageCacheEvict
begin

text \<open>
  The page cache on the FAT32 backend: the properties of reading, writing, writing back and
  evicting, and three ways in which bytes are lost.
\<close>

section \<open>The FAT32 backend answers every request\<close>

lemma fat_default_reads: "\<exists>x. default_read_pages fat_read_page b i bufs = Inr x"
proof (induction bufs arbitrary: i)
  case (Cons p ps)
  then obtain x where "default_read_pages fat_read_page b (i + 1) ps = Inr x" by blast
  moreover obtain q where "fat_read_page b i p = Inr q" by (simp add: fat_read_page_def)
  ultimately show ?case by simp
qed simp

lemma fat_reads_succeed: "reads_succeed fat_ops b"
  using fat_default_reads [of b] unfolding reads_succeed_def fat_ops_def by (simp add: default_read_contiguous_def) (simp add: fat_read_page_def)

lemma fat_default_writes: "\<exists>n b'. default_write_pages fat_write_page k b i bufs = (Inr n, b')"
proof (induction bufs arbitrary: i b k)
  case (Cons p ps)
  obtain n b1 where "fat_write_page b i p = (Inr n, b1)" by (simp add: fat_write_page_def)
  then show ?case using Cons by simp
qed simp

lemma fat_writes_succeed: "writes_succeed fat_ops"
  unfolding writes_succeed_def fat_ops_def using fat_default_writes by simp

section \<open>A file\<close>

text \<open>Two clusters of eight sectors: bytes 1 in the first page and 2 in the second, nothing cached.\<close>

definition sample_fat :: FatBackend where
  "sample_fat = \<lparr>fb_blocks = (\<lambda>k _. if k = 7 then 1 else if k = 9 then 2 else 0), fb_faulty = (\<lambda>_. False), fb_clus_list = [5, 7],
     fb_data_area_start_block = 32, fb_block_size = 512, fb_blocks_per_page = 8, fb_sec_per_clus = 8\<rparr>"

definition sample_file :: "ppn list \<Rightarrow> FatBackend pc_world" where
  "sample_file free = \<lparr>pw_cache = page_cache_new, pw_backend = Some sample_fat, pw_mem = (\<lambda>_. zero_page), pw_free = free,
     pw_dirty = 0, pw_writeback = 0, pw_mkclean = []\<rparr>"

lemma sample_file_fields [simp]:
  "pw_entry (sample_file free) = (\<lambda>_. None)" "pw_backend (sample_file free) = Some sample_fat" "pw_free (sample_file free) = free"
  by (simp_all add: sample_file_def cache_entry_def page_cache_new_def fun_eq_iff)

lemma sample_fat_inv: "fat_inv sample_fat"
  by (simp add: fat_inv_def sample_fat_def PAGE_SIZE_def)

lemma sample_file_wf: "distinct free \<Longrightarrow> cache_wf {} {} (sample_file free)"
  by (simp add: cache_wf_def dirty_set_def) (simp add: sample_file_def page_cache_new_def)

lemma sample_fat_bytes:
  assumes "j < PAGE_SIZE"
  shows "fat_disk sample_fat 0 j = 1" and "fat_disk sample_fat (Suc 0) j = 2" and "2 \<le> i \<Longrightarrow> fat_disk sample_fat i j = 0"
    and "i < 2 \<Longrightarrow> fat_backed sample_fat i j"
proof -
  have d: "m < 8 \<Longrightarrow> (56 + m) div 8 = 7" "m < 8 \<Longrightarrow> (72 + m) div 8 = 9" for m :: nat by presburger+
  define m where "m = j div 512"
  have m: "m < 8" using assms by (simp add: m_def PAGE_SIZE_def)
  have bid: "block_id_for_offset sample_fat 0 m = Some (56 + m)" "block_id_for_offset sample_fat (Suc 0) m = Some (72 + m)"
    "2 \<le> i \<Longrightarrow> block_id_for_offset sample_fat i m = None"
    using m by (simp_all add: block_id_for_offset_def sample_fat_def first_sector_of_cluster_def Let_def)
  have par: "fst (sector_to_parent sample_fat (56 + m)) = 7" "fst (sector_to_parent sample_fat (72 + m)) = 9"
    using d [OF m] by (simp_all add: sector_to_parent_def sample_fat_def BLOCK_SZ_def Let_def)
  have bs: "fb_block_size sample_fat = 512" and bl: "fb_blocks sample_fat = (\<lambda>k _. if k = 7 then 1 else if k = 9 then 2 else 0)"
    by (simp_all add: sample_fat_def)
  show "fat_disk sample_fat 0 j = 1" "fat_disk sample_fat (Suc 0) j = 2" "2 \<le> i \<Longrightarrow> fat_disk sample_fat i j = 0"
    using bid par by (simp_all add: fat_disk_def bs m_def [symmetric] Let_def bl case_prod_beta)
  show "i < 2 \<Longrightarrow> fat_backed sample_fat i j"
    using bid unfolding fat_backed_def bs m_def [symmetric] by (auto simp: less_2_cases_iff)
qed

lemma sample_file_bytes:
  "n < 4096 \<Longrightarrow> file_byte fat_disk (sample_file free) n = 1" "4096 \<le> n \<Longrightarrow> n < 8192 \<Longrightarrow> file_byte fat_disk (sample_file free) n = 2"
  "8192 \<le> n \<Longrightarrow> file_byte fat_disk (sample_file free) n = 0"
proof -
  have m: "n mod 4096 < PAGE_SIZE" by (simp add: PAGE_SIZE_def)
  have e: "file_byte fat_disk (sample_file free) n = fat_disk sample_fat (n div 4096) (n mod 4096)"
    by (simp add: file_byte_def content_def PAGE_SIZE_def)
  show "file_byte fat_disk (sample_file free) n = 1" if "n < 4096"
    using that sample_fat_bytes(1) [OF m] unfolding e by simp
  show "file_byte fat_disk (sample_file free) n = 2" if "4096 \<le> n" "n < 8192"
  proof -
    have "n div 4096 = Suc 0" using that by linarith
    then show ?thesis using sample_fat_bytes(2) [OF m] unfolding e by simp
  qed
  show "file_byte fat_disk (sample_file free) n = 0" if "8192 \<le> n"
  proof -
    have "2 \<le> n div 4096" using that by linarith
    then show ?thesis using sample_fat_bytes(3) [OF m] unfolding e by simp
  qed
qed

section \<open>Reading\<close>

text \<open>
  C6. Reading a FAT32 file through the page cache (\<open>read_kernel\<close>) returns exactly the bytes of
  the file, cached or on disk, over any number of pages; on an error the buffer is untouched.
  Reading never changes the file, the backend or the set of dirty pages, and it succeeds
  whenever a frame is free for each page and the staging buffers can be allocated.
\<close>

theorem read_kernel_fat:
  assumes "cache_wf L C w" and "pw_backend w = Some b" and "fat_inv b" and "offset + len + PAGE_SIZE \<le> USIZE_MAX"
    and "read_kernel env fat_ops w offset len buf = (r, buf', w')"
  shows "cache_wf L C w' \<and> pw_backend w' = Some b \<and> dirty_set w' = dirty_set w \<and>
    (\<forall>n. file_byte fat_disk w' n = file_byte fat_disk w n) \<and>
    (case r of
       Inl _ \<Rightarrow> buf' = buf
     | Inr m \<Rightarrow> m = len \<and> (\<forall>k. buf' k = (if k < len then file_byte fat_disk w (offset + k) else buf k))) \<and>
    ((\<forall>n. ce_reserve env n) \<and> len div PAGE_SIZE + 2 \<le> length (pw_free w) \<longrightarrow> r = Inr len)"
proof -
  note f = fat.read_kernel_facts [OF assms]
  have g: "grown fat_disk {} w w'" using f by blast
  then have "pw_backend w' = Some b" "dirty_set w' = dirty_set w" using assms(2) by (simp_all add: grown_def)
  then show ?thesis using f grown_file_byte [OF g] fat_reads_succeed [of b]
    by (auto simp: bytes_read_def split: sum.splits)
qed

theorem read_kernel_fat_witness:
  "\<exists>buf' w'. read_kernel \<lparr>ce_reserve = (\<lambda>_. True), ce_entry_refs = (\<lambda>_. 1), ce_frame_refs = (\<lambda>_. 1)\<rparr> fat_ops (sample_file [100, 101, 102]) 4000 200 (\<lambda>_. 9) =
      (Inr 200, buf', w') \<and> buf' 0 = 1 \<and> buf' 95 = 1 \<and> buf' 96 = 2 \<and> buf' 199 = 2 \<and> buf' 200 = 9"
proof -
  let ?env = "\<lparr>ce_reserve = (\<lambda>_. True), ce_entry_refs = (\<lambda>_. 1), ce_frame_refs = (\<lambda>_. 1)\<rparr>" and ?w = "sample_file [100, 101, 102]"
  obtain r buf' w' where rd: "read_kernel ?env fat_ops ?w 4000 200 (\<lambda>_. 9) = (r, buf', w')" by (metis prod_cases3)
  have "r = Inr 200 \<and> (\<forall>k. buf' k = (if k < 200 then file_byte fat_disk ?w (4000 + k) else 9))"
    using read_kernel_fat [OF sample_file_wf _ sample_fat_inv _ rd] by (auto simp: PAGE_SIZE_def USIZE_MAX_def split: sum.splits)
  then show ?thesis using rd by (simp add: sample_file_bytes)
qed

section \<open>Writing\<close>

lemma byte_place:
  shows "n div PAGE_SIZE * PAGE_SIZE + n mod PAGE_SIZE = n" and "n mod PAGE_SIZE < PAGE_SIZE"
  by (simp_all add: PAGE_SIZE_def)




section \<open>Writing back and evicting\<close>

text \<open>The sample file with both pages cached, the second one changed.\<close>

definition cached_file :: "FatBackend pc_world" where
  "cached_file =
     \<lparr>pw_cache = page_cache_new\<lparr>pc_entries := [Some (entry_new 100 UpToDate), Some (entry_new 101 Dirty)], pc_pages := {0, 1}\<rparr>,
      pw_backend = Some sample_fat, pw_mem = (\<lambda>p _. if p = 100 then 1 else if p = 101 then 5 else 0), pw_free = [102],
      pw_dirty = 1, pw_writeback = 0, pw_mkclean = []\<rparr>"

lemma cached_file_entry:
  "pw_entry cached_file i = (if i = 0 then Some (entry_new 100 UpToDate) else if i = 1 then Some (entry_new 101 Dirty) else None)"
  by (simp add: cached_file_def cache_entry_def less_Suc_eq)

lemma cached_file_dirty: "dirty_set cached_file = {1}"
  by (auto simp: dirty_set_def cached_file_entry entry_dirty_bit entry_new_def flags_for_state_def bit_simps)

lemma cached_file_wf: "cache_wf {} {} cached_file"
proof -
  have "page_ok {} {} i e \<and> pe_page e \<notin> set (pw_free cached_file)" if "pw_entry cached_file i = Some e" for i e
    using that by (auto simp: cached_file_entry page_ok_def entry_new_def is_fully_valid_def flags_for_state_def bit_simps split: if_splits)
      (simp_all add: cached_file_def)
  moreover have "i = k" if "pw_entry cached_file i = Some e" "pw_entry cached_file k = Some f" "pe_page e = pe_page f" for i k e f
    using that by (auto simp: cached_file_entry entry_new_def split: if_splits)
  moreover have "pc_pages (pw_cache cached_file) = {i. pw_entry cached_file i \<noteq> None}"
    by (auto simp: cached_file_entry split: if_splits) (simp_all add: cached_file_def)
  moreover have "distinct (pw_free cached_file)" "pw_dirty cached_file = card (dirty_set cached_file) mod 2 ^ 64" "pw_writeback cached_file = card {} mod 2 ^ 64"
    unfolding cached_file_dirty by (simp_all add: cached_file_def)
  ultimately show ?thesis unfolding cache_wf_def by blast
qed

text \<open>
  C11. Writing back everything (\<open>writeback_all\<close>) on a FAT32 file always returns success, with no
  dirty page left. The file reads as before, and every byte of a page that was dirty and has
  a sector is on the disk; no other page of the disk changes.
\<close>

theorem writeback_all_fat:
  assumes wf: "cache_wf {} {} w" and be: "pw_backend w = Some b" "fat_inv b" and n: "length (pc_entries (pw_cache w)) \<le> USIZE_MAX"
  shows "\<exists>w' b'. writeback_all fat_ops wait w = Some (Inr (), w') \<and> cache_wf {} {} w' \<and> pw_backend w' = Some b' \<and> fat_inv b' \<and>
    dirty_set w' = {} \<and> (\<forall>n. file_byte fat_disk w' n = file_byte fat_disk w n) \<and>
    (\<forall>k j. k \<in> dirty_set w \<and> j < PAGE_SIZE \<and> fat_backed b k j \<longrightarrow> fat_disk b' k j = content fat_disk w k j) \<and>
    (\<forall>k j. k \<notin> dirty_set w \<and> j < PAGE_SIZE \<longrightarrow> fat_disk b' k j = fat_disk b k j)"
proof -
  from fat.writeback_range_facts [OF wf be, of wait 0 USIZE_MAX] fat_writes_succeed obtain w' b' where
    f: "writeback_range fat_ops wait 0 USIZE_MAX w = Some (Inr (), w')" "fat_inv b'" "cache_wf {} {} w'" "wrote_back fat_disk fat_backed w b w' b'"
      "dirty_set w' = dirty_set w - {0..USIZE_MAX}" by blast
  have "k \<le> USIZE_MAX" if "k \<in> dirty_set w" for k
    using dirty_present [OF that] n by (auto simp: cache_entry_def split: if_splits)
  then have d: "dirty_set w' = {}" using f(5) by auto
  have g: "given fat_disk fat_backed (dirty_set w) w b w' b'" and s: "\<forall>k \<in> dirty_set w. saved fat_disk fat_backed b' w k"
    using f(4) d by (simp_all add: wrote_back_def)
  have "file_byte fat_disk w' m = file_byte fat_disk w m" for m using g byte_place(2) [of m] by (simp add: given_def file_byte_def)
  moreover have "pw_backend w' = Some b'" "fat_backed b' = fat_backed b" using g by (simp_all add: given_def)
  moreover have "fat_disk b' k j = content fat_disk w k j" if "k \<in> dirty_set w" "j < PAGE_SIZE" "fat_backed b k j" for k j
    using s that calculation(3) by (simp add: saved_def)
  moreover have "fat_disk b' k j = fat_disk b k j" if "k \<notin> dirty_set w" "j < PAGE_SIZE" for k j using g that by (auto simp: given_def)
  ultimately show ?thesis using f(1-3) d unfolding writeback_all_def by blast
qed

theorem writeback_all_fat_witness:
  "\<exists>w' b'. writeback_all fat_ops (\<lambda>w. Inr w) cached_file = Some (Inr (), w') \<and> pw_backend w' = Some b' \<and> fat_disk b' 1 7 = 5 \<and> fat_disk b' 0 7 = 1"
proof -
  have b: "pw_backend cached_file = Some sample_fat" and n: "length (pc_entries (pw_cache cached_file)) \<le> USIZE_MAX"
    by (simp_all add: cached_file_def USIZE_MAX_def)
  from writeback_all_fat [OF cached_file_wf b sample_fat_inv n, of "\<lambda>w. Inr w"] obtain w' b' where
    w: "writeback_all fat_ops (\<lambda>w. Inr w) cached_file = Some (Inr (), w')" "pw_backend w' = Some b'"
    and s: "\<And>k j. k \<in> dirty_set cached_file \<and> j < PAGE_SIZE \<and> fat_backed sample_fat k j \<Longrightarrow> fat_disk b' k j = content fat_disk cached_file k j"
    and o: "\<And>k j. k \<notin> dirty_set cached_file \<and> j < PAGE_SIZE \<Longrightarrow> fat_disk b' k j = fat_disk sample_fat k j" by blast
  have p: "(7 :: nat) < PAGE_SIZE" by (simp add: PAGE_SIZE_def)
  have "fat_disk b' 1 7 = content fat_disk cached_file 1 7" using sample_fat_bytes(4) [OF p, of 1] p by (intro s) (simp add: cached_file_dirty)
  moreover have "content fat_disk cached_file 1 7 = 5" unfolding content_def cached_file_entry by (simp add: cached_file_def entry_new_def)
  moreover have "fat_disk b' 0 7 = 1" using o [of 0 7] p sample_fat_bytes(1) [OF p] by (simp add: cached_file_dirty)
  ultimately show ?thesis using w by auto
qed






section \<open>Bytes that are lost\<close>

text \<open>
  C27. A file that ends in the first 512 bytes of a page loses them when it is written while
  the page is not cached: the page is taken for one past the end of the file and filled with
  zeros instead of being read. Here a file of 100 bytes is extended by one byte at offset 200;
  the write succeeds and the old bytes read as zero.
\<close>

theorem write_near_end_loses_bytes:
  "\<exists>w'. write_kernel fat_ops (\<lambda>w _. Inr w) 200 1 (\<lambda>_. 9) 100 (sample_file [100, 101]) = Some (Inr 1, w') \<and>
     file_byte fat_disk (sample_file [100, 101]) 0 = 1 \<and> file_byte fat_disk w' 0 = 0 \<and>
     file_byte fat_disk (sample_file [100, 101]) 99 = 1 \<and> file_byte fat_disk w' 99 = 0"
proof -
  let ?w = "sample_file [100, 101]"
  have wf: "cache_wf {} {} ?w" by (rule sample_file_wf) simp
  have fits: "200 + 1 + PAGE_SIZE \<le> USIZE_MAX" and fr: "1 div PAGE_SIZE + 2 \<le> length (pw_free ?w)" by (simp_all add: PAGE_SIZE_def USIZE_MAX_def)
  from fat.write_kernel_facts [OF wf sample_file_fields(2) sample_fat_inv fits _, of "\<lambda>w _. Inr w" "\<lambda>_. 9" 100] fr fat_reads_succeed [of sample_fat] obtain w' where
    k: "write_kernel fat_ops (\<lambda>w _. Inr w) 200 1 (\<lambda>_. 9) 100 ?w = Some (Inr 1, w')"
    and c: "\<And>i j. j < PAGE_SIZE \<Longrightarrow> content fat_disk w' i j =
           (if 200 \<le> i * PAGE_SIZE + j \<and> i * PAGE_SIZE + j < 200 + 1 then 9
            else if i \<in> range_of 200 1 \<and> zeroes ?w (Some 100) 200 1 i then 0 else content fat_disk ?w i j)" by auto
  have z: "0 \<in> range_of 200 1" "zeroes ?w (Some 100) 200 1 0" by (simp_all add: range_of_def zeroes_def taken_as_hole_def PAGE_SIZE_def)
  have "file_byte fat_disk w' n = 0" if "n < 100" for n using that c [of n 0] z by (simp add: file_byte_def PAGE_SIZE_def)
  then show ?thesis using k by (simp add: sample_file_bytes)
qed

text \<open>
  C28. A write that fails can destroy bytes: a page it would cover completely is put into the
  cache as zeros before the later pages are obtained. Here the second page finds no free frame;
  the write reports \<open>ENOMEM\<close>, and the first page of the file, which held ones, reads as zeros.
\<close>

theorem failed_write_loses_bytes:
  "\<exists>w'. write_kernel fat_ops (\<lambda>w _. Inr w) 0 5000 (\<lambda>_. 9) 8192 (sample_file [100]) = Some (Inl ENOMEM, w') \<and>
     file_byte fat_disk (sample_file [100]) 0 = 1 \<and> file_byte fat_disk w' 0 = 0"
proof -
  let ?w = "sample_file [100]" and ?old = "Some 8192 :: usize option"
  have wf: "cache_wf {} {} ?w" by (rule sample_file_wf) simp
  have ix: "0 * PAGE_SIZE + PAGE_SIZE \<le> USIZE_MAX" by (simp add: PAGE_SIZE_def USIZE_MAX_def)
  obtain w1 where g: "get_page_for_write_populate fat_ops ?w 0 ?old True = (Inr (), w1)" "pw_free w1 = []"
    by (cases "initial_valid_mask 0 8192 = VALID_ALL")
      (simp_all add: get_page_for_write_populate_def get_or_create_entry_def Let_def pw_frame_alloc_def PAGE_SIZE_def)
  have f: "cache_wf {} {} w1" "grown fat_disk {0} ?w w1" "pw_entry w1 1 = None" "pw_entry w1 0 \<noteq> None"
    using fat.get_page_for_write_facts [OF wf sample_file_fields(2) sample_fat_inv ix g(1)] by simp_all
  obtain e where e: "pw_entry w1 0 = Some e" using f(4) by auto
  from lock_entry_facts [OF f(1) e, of fat_disk] obtain d w2 where
    l: "lock_entry w1 0 = (Inr (Some d), w2)" "cache_wf {0} {} w2" "grown fat_disk {} w1 w2" "\<forall>k. (pw_entry w2 k = None) = (pw_entry w1 k = None)" "pw_free w2 = pw_free w1"
    by auto
  have n: "pw_entry w2 (Suc 0) = None" "pw_free w2 = []" using l(4,5) f(3) g(2) by simp_all
  have g1: "get_page_for_write_populate fat_ops w2 1 ?old False = (Inl ENOMEM, w2)"
    using n by (simp add: get_page_for_write_populate_def get_or_create_entry_def Let_def pw_frame_alloc_def)
  define c where "c = \<lparr>ci_page = 0 :: usize, ci_page_offset = 0 :: usize, ci_len = 4096 :: usize, ci_was_dirty = d\<rparr>"
  have "lease_pages fat_ops 0 5000 ?old [] ?w [0, 1] = (Inl (WaError ENOMEM), abort_items w2 [c])"
    using g(1) l(1) g1 by (simp add: Let_def saturating_sub_def PAGE_SIZE_def c_def)
  then have b: "write_kernel_body fat_ops (\<lambda>_. Inr ()) ?w 0 5000 (\<lambda>_. 9) ?old = (Inl (WaError ENOMEM), abort_items w2 [c])"
    by (simp add: write_kernel_body_def write_multi_def PAGE_SIZE_def numeral_2_eq_2 [symmetric] upt_conv_Cons)
  let ?w' = "notify_state_progress (abort_items w2 [c])"
  have k: "write_kernel fat_ops (\<lambda>w _. Inr w) 0 5000 (\<lambda>_. 9) 8192 ?w = Some (Inl ENOMEM, ?w')"
    unfolding write_kernel_def write_with_copy_callbacks.simps [of _ _ _ _ _ _ _ ?w] by (simp add: b)
  have a: "grown fat_disk {} w2 (abort_items w2 [c])" using abort_items_facts [OF l(2), of "[c]" fat_disk] by (simp add: c_def)
  have "grown fat_disk {0} ?w (abort_items w2 [c])" using grown_trans [OF f(2) grown_trans [OF l(3) a]] by simp
  then have "content fat_disk ?w' 0 0 = 0" using quiet_notify [of fat_disk "abort_items w2 [c]"] by (simp add: grown_def quiet_def PAGE_SIZE_def)
  then show ?thesis using k by (simp add: sample_file_bytes file_byte_def [of _ ?w'])
qed

definition broken_fat :: FatBackend where
  "broken_fat = sample_fat\<lparr>fb_faulty := (\<lambda>_. True)\<rparr>"

text \<open>
  C29. The FAT32 backend does not look at the result of the device. On a device that fails every
  request, writing back a dirty page reports success and leaves the page clean, while the disk
  still holds the old byte.
\<close>

theorem device_error_is_lost:
  "\<exists>w'. writeback_page fat_ops (cached_file\<lparr>pw_backend := Some broken_fat\<rparr>) 1 = (Inr (), w') \<and>
     1 \<in> dirty_set (cached_file\<lparr>pw_backend := Some broken_fat\<rparr>) \<and> 1 \<notin> dirty_set w' \<and>
     content fat_disk (cached_file\<lparr>pw_backend := Some broken_fat\<rparr>) 1 0 = 5 \<and> pw_backend w' = Some broken_fat \<and> fat_disk broken_fat 1 0 = 2"
proof -
  let ?w = "cached_file\<lparr>pw_backend := Some broken_fat\<rparr>"
  have wf: "cache_wf {} {} ?w" using cache_wf_alike [of cached_file ?w] cached_file_wf by (simp add: alike_def)
  have d: "dirty_set ?w = {1}" using cached_file_dirty by (simp add: dirty_set_def)
  have "\<exists>w'. claim_entry ?w 1 = (True, w') \<and> cache_wf {} (insert 1 {}) w' \<and> dirty_set w' = dirty_set ?w - {1} \<and> quiet fat_disk ?w w'"
    using claim_entry_facts [OF wf, of 1 fat_disk] d by simp
  then obtain w1 where c: "claim_entry ?w 1 = (True, w1)" "cache_wf {} {1} w1" "dirty_set w1 = {}" "quiet fat_disk ?w w1" using d by auto
  have b1: "pw_backend w1 = Some broken_fat" using c(4) by (simp add: quiet_def)
  have "foldl (fat_write_sector buf i) broken_fat ks = broken_fat" for buf i ks
    by (induction ks) (simp_all add: fat_write_sector_def Let_def dev_write_block_def broken_fat_def split: option.splits prod.splits)
  then have wp: "be_write_page fat_ops broken_fat 1 buf = (Inr PAGE_SIZE, broken_fat)" for buf by (simp add: fat_ops_def fat_write_page_def)
  let ?w3 = "mkclean_page w1 1 False"
  have wf3: "cache_wf {} {1} (?w3\<lparr>pw_backend := Some broken_fat\<rparr>)" using cache_wf_alike [of w1 "?w3\<lparr>pw_backend := Some broken_fat\<rparr>"] c(2) by (simp add: alike_def)
  have "dirty_set (?w3\<lparr>pw_backend := Some broken_fat\<rparr>) = {}" using c(3) by (simp add: dirty_set_def)
  then have r: "dirty_set (complete_entry (?w3\<lparr>pw_backend := Some broken_fat\<rparr>) 1) = {}" "pw_backend (complete_entry (?w3\<lparr>pw_backend := Some broken_fat\<rparr>) 1) = Some broken_fat"
    using release_facts(1) [OF wf3, of 1 fat_disk] by (simp_all add: quiet_def)
  have "writeback_page fat_ops ?w 1 = (Inr (), notify_state_progress (complete_entry (?w3\<lparr>pw_backend := Some broken_fat\<rparr>) 1))"
    by (simp add: writeback_page_def c(1) b1 ensure_fully_valid_noop [OF c(2)] Let_def wp del: One_nat_def)
  moreover have "content fat_disk ?w 1 0 = 5" unfolding content_def using cached_file_entry [of 1] by (simp add: cached_file_def entry_new_def)
  moreover have "fat_disk broken_fat 1 0 = fat_disk sample_fat 1 0"
    by (simp add: fat_disk_def broken_fat_def block_id_for_offset_def first_sector_of_cluster_def sector_to_parent_def sample_fat_def)
  ultimately show ?thesis using r d sample_fat_bytes(2) [of 0] by (simp add: PAGE_SIZE_def)
qed

end
