(* ===== verification/PosixLock.thy ===== *)
theory PosixLock
  imports MmTypes
begin

text \<open>
  The record locks of \<open>os/src/fs/vfs/posix_lock.rs\<close>: lock owners, lock records and the range
  arithmetic on the record list of one file (\<open>resolve_range\<close>, \<open>remove_range\<close>, \<open>coalesce\<close>,
  \<open>apply_lock\<close>). Offsets are \<open>i64\<close> values read as integers; the operations that saturate or
  truncate are written out. A list of records is read byte by byte: \<open>held rs w k\<close> is the set of
  lock types that the owner \<open>w\<close> has on byte \<open>k\<close>. The lemmas show that every range operation is
  the pointwise update of that view, whatever splitting, sorting and merging the list undergoes,
  and that two owners never hold conflicting locks on a byte.
\<close>

section \<open>Signed offsets\<close>

definition I64_MIN :: int where "I64_MIN = - 9223372036854775808"
definition I64_MAX :: int where "I64_MAX = 9223372036854775807"

definition i64_sat_add :: "int \<Rightarrow> int \<Rightarrow> int" where
  "i64_sat_add a b = max I64_MIN (min I64_MAX (a + b))"

definition i64_sat_sub :: "int \<Rightarrow> int \<Rightarrow> int" where
  "i64_sat_sub a b = max I64_MIN (min I64_MAX (a - b))"

text \<open>The cast \<open>as i64\<close> of a wider integer keeps the low 64 bits.\<close>

definition as_i64 :: "int \<Rightarrow> int" where
  "as_i64 x = (x - I64_MIN) mod (2 * (I64_MAX + 1)) + I64_MIN"

definition i128_checked_add :: "int \<Rightarrow> int \<Rightarrow> int option" where
  "i128_checked_add a b = (if - (2 ^ 127) \<le> a + b \<and> a + b < 2 ^ 127 then Some (a + b) else None)"

definition EDEADLK :: errno where "EDEADLK = -35"
definition EOVERFLOW :: errno where "EOVERFLOW = -75"

section \<open>Owners, types and records\<close>

datatype LockType = LRead | LWrite

datatype LockOwner =
    Posix (owner_id: usize) (owner_pid_of: int)
  | Ofd (open_file_id: usize)

record LockRecord =
  lk_owner :: LockOwner
  lk_owner_pid :: int
  lock_type :: LockType
  lk_start :: int
  lk_end :: int

record PosixFlock =
  l_type :: int
  l_whence :: int
  l_start :: int
  l_len :: int
  l_pid :: int

definition F_RDLCK :: int where "F_RDLCK = 0"
definition F_WRLCK :: int where "F_WRLCK = 1"
definition F_UNLCK :: int where "F_UNLCK = 2"

definition SEEK_SET :: int where "SEEK_SET = 0"
definition SEEK_CUR :: int where "SEEK_CUR = 1"
definition SEEK_END :: int where "SEEK_END = 2"

lemmas flock_consts = F_RDLCK_def F_WRLCK_def F_UNLCK_def SEEK_SET_def SEEK_CUR_def SEEK_END_def

fun same_owner :: "LockOwner \<Rightarrow> LockOwner \<Rightarrow> bool" where
  "same_owner (Posix a p) (Posix b q) = (a = b)"
| "same_owner (Ofd a) (Ofd b) = (a = b)"
| "same_owner a b = False"

definition lock_conflict :: "LockType \<Rightarrow> int \<Rightarrow> int \<Rightarrow> LockType \<Rightarrow> int \<Rightarrow> int \<Rightarrow> bool" where
  "lock_conflict a a_s a_e b b_s b_e =
     (if a_e < b_s \<or> b_e < a_s then False else a = LWrite \<or> b = LWrite)"

section \<open>Ranges\<close>

text \<open>
  What the lock code reads of the open file: its inode key, its offset, the size its metadata
  reports (or that the metadata call fails), its two access checks and its identity.
\<close>

record lock_file =
  lf_key :: "usize \<times> usize"
  lf_offset :: usize
  lf_size :: "usize option"
  lf_readable :: "errno + unit"
  lf_writable :: "errno + unit"
  lf_open_file_id :: usize

definition range_base :: "lock_file \<Rightarrow> PosixFlock \<Rightarrow> errno + int" where
  "range_base f fl =
     (if l_whence fl = SEEK_SET then Inr 0
      else if l_whence fl = SEEK_CUR then Inr (int (lf_offset f))
      else if l_whence fl = SEEK_END then
        (case lf_size f of None \<Rightarrow> Inl EINVAL | Some n \<Rightarrow> Inr (int n))
      else Inl EINVAL)"

definition resolve_range :: "lock_file \<Rightarrow> PosixFlock \<Rightarrow> errno + (int \<times> int)" where
  "resolve_range f fl =
     (case range_base f fl of Inl e \<Rightarrow> Inl e | Inr base \<Rightarrow>
      (case i128_checked_add base (l_start fl) of None \<Rightarrow> Inl EOVERFLOW | Some start \<Rightarrow>
      (case (if l_len fl < 0
             then (case i128_checked_add start (l_len fl) of
                     None \<Rightarrow> Inl EOVERFLOW | Some s \<Rightarrow> Inr (s, - l_len fl))
             else Inr (start, l_len fl)) of Inl e \<Rightarrow> Inl e | Inr (s, l) \<Rightarrow>
       if s < 0 \<or> l > I64_MAX then Inl EINVAL
       else (case (if l = 0 then Inr I64_MAX
                   else (case i128_checked_add s l of
                           None \<Rightarrow> Inl EOVERFLOW
                         | Some e \<Rightarrow> Inr (if e > I64_MAX then I64_MAX else as_i64 (e - 1)))) of
               Inl e \<Rightarrow> Inl e
             | Inr end \<Rightarrow> Inr (as_i64 s, end)))))"

section \<open>Record lists\<close>

fun coalesce_loop :: "LockRecord list \<Rightarrow> LockRecord list" where
  "coalesce_loop (a # b # rs) =
     (if same_owner (lk_owner a) (lk_owner b) \<and> lock_type a = lock_type b
         \<and> i64_sat_add (lk_end a) 1 \<ge> lk_start b
      then coalesce_loop (a\<lparr>lk_end := max (lk_end a) (lk_end b)\<rparr> # rs)
      else a # coalesce_loop (b # rs))"
| "coalesce_loop rs = rs"

definition coalesce :: "LockRecord list \<Rightarrow> LockRecord list" where
  "coalesce rs = coalesce_loop (sort_key lk_start rs)"

definition trim_record :: "LockOwner \<Rightarrow> int \<Rightarrow> int \<Rightarrow> LockRecord \<Rightarrow> LockRecord list" where
  "trim_record owner start end r =
     (if \<not> same_owner (lk_owner r) owner then [r]
      else if lk_end r < start \<or> lk_start r > end then [r]
      else (if lk_start r < start then [r\<lparr>lk_end := i64_sat_sub start 1\<rparr>] else [])
           @ (if lk_end r > end then [r\<lparr>lk_start := i64_sat_add end 1\<rparr>] else []))"

definition remove_range :: "LockRecord list \<Rightarrow> LockOwner \<Rightarrow> int \<Rightarrow> int \<Rightarrow> LockRecord list" where
  "remove_range rs owner start end = coalesce (concat (map (trim_record owner start end) rs))"

definition lock_type_of :: "int \<Rightarrow> LockType option" where
  "lock_type_of t = (if t = F_RDLCK then Some LRead else if t = F_WRLCK then Some LWrite else None)"

definition blocks :: "LockOwner \<Rightarrow> LockType \<Rightarrow> int \<Rightarrow> int \<Rightarrow> LockRecord \<Rightarrow> bool" where
  "blocks owner lt start end r =
     (\<not> same_owner (lk_owner r) owner
      \<and> lock_conflict (lock_type r) (lk_start r) (lk_end r) lt start end)"

definition apply_lock ::
  "LockRecord list \<Rightarrow> LockOwner \<Rightarrow> int \<Rightarrow> int \<Rightarrow> int \<Rightarrow> int \<Rightarrow> bool \<times> LockRecord list" where
  "apply_lock rs owner pid ltype start end =
     (case lock_type_of ltype of
        None \<Rightarrow> (True, remove_range rs owner start end)
      | Some lt \<Rightarrow>
          (if list_ex (blocks owner lt start end) rs then (False, rs)
           else (True, coalesce (remove_range rs owner start end
                   @ [\<lparr>lk_owner = owner, lk_owner_pid = pid, lock_type = lt,
                       lk_start = start, lk_end = end\<rparr>]))))"

definition validate_access :: "lock_file \<Rightarrow> int \<Rightarrow> errno + unit" where
  "validate_access f ltype =
     (if ltype = F_RDLCK then lf_readable f
      else if ltype = F_WRLCK then lf_writable f
      else if ltype = F_UNLCK then Inr ()
      else Inl EINVAL)"

section \<open>The view of a record list, byte by byte\<close>

definition held :: "LockRecord list \<Rightarrow> LockOwner \<Rightarrow> int \<Rightarrow> LockType set" where
  "held rs w k =
     set (map lock_type
       (filter (\<lambda>r. same_owner (lk_owner r) w \<and> lk_start r \<le> k \<and> k \<le> lk_end r) rs))"

definition records_in_range :: "LockRecord list \<Rightarrow> bool" where
  "records_in_range rs =
     list_all (\<lambda>r. I64_MIN \<le> lk_start r \<and> lk_start r \<le> lk_end r \<and> lk_end r \<le> I64_MAX) rs"

text \<open>
  The invariant of an entry: every record is a nonempty range of representable offsets, the list
  is sorted by start, an owner has at most one lock type on a byte, and a write lock of one owner
  excludes every lock of another on that byte.
\<close>

definition records_ok :: "LockRecord list \<Rightarrow> bool" where
  "records_ok rs \<longleftrightarrow>
     records_in_range rs \<and> sorted (map lk_start rs)
     \<and> (\<forall>w k a b. a \<in> held rs w k \<longrightarrow> b \<in> held rs w k \<longrightarrow> a = b)
     \<and> (\<forall>v w k. \<not> same_owner v w \<longrightarrow> LWrite \<in> held rs v k \<longrightarrow> held rs w k = {})"

lemma same_owner_refl [simp]: "same_owner w w"
  by (cases w) auto

lemma same_owner_sym: "same_owner v w \<Longrightarrow> same_owner w v"
  by (cases v; cases w) auto

lemma same_owner_trans: "same_owner u v \<Longrightarrow> same_owner v w \<Longrightarrow> same_owner u w"
  by (cases u; cases v; cases w) auto

lemma held_append: "held (xs @ ys) w k = held xs w k \<union> held ys w k"
  by (auto simp: held_def)

lemma held_Cons: "held (r # rs) w k =
  (if same_owner (lk_owner r) w \<and> lk_start r \<le> k \<and> k \<le> lk_end r then {lock_type r} else {})
  \<union> held rs w k"
  by (auto simp: held_def)

lemma held_Nil [simp]: "held [] w k = {}"
  by (simp add: held_def)

lemma held_cong_set: "set xs = set ys \<Longrightarrow> held xs w k = held ys w k"
  by (simp add: held_def)

lemma held_same_owner: "same_owner v w \<Longrightarrow> held rs v k = held rs w k"
proof -
  assume "same_owner v w"
  then have "same_owner u v \<longleftrightarrow> same_owner u w" for u using same_owner_sym same_owner_trans by blast
  then show ?thesis by (simp add: held_def)
qed

lemma records_in_range_append [simp]:
  "records_in_range (xs @ ys) = (records_in_range xs \<and> records_in_range ys)"
  by (simp add: records_in_range_def)

lemma records_in_range_Cons [simp]: "records_in_range (r # rs) =
  (I64_MIN \<le> lk_start r \<and> lk_start r \<le> lk_end r \<and> lk_end r \<le> I64_MAX \<and> records_in_range rs)"
  by (auto simp: records_in_range_def)

lemma records_in_range_Nil [simp]: "records_in_range []"
  by (simp add: records_in_range_def)

subsection \<open>Merging keeps the view\<close>

lemma merge_two:
  assumes m: "same_owner (lk_owner a) (lk_owner b)" "lock_type a = lock_type b"
      "i64_sat_add (lk_end a) 1 \<ge> lk_start b"
    and le: "lk_start a \<le> lk_start b" and rng: "lk_end a \<le> I64_MAX" "lk_start a \<le> lk_end a"
      "I64_MIN \<le> lk_start a" "lk_start b \<le> lk_end b" "lk_end b \<le> I64_MAX"
  shows "held (a\<lparr>lk_end := max (lk_end a) (lk_end b)\<rparr> # rs) w k = held (a # b # rs) w k"
proof -
  have own: "same_owner (lk_owner a) w \<longleftrightarrow> same_owner (lk_owner b) w"
    using m(1) same_owner_sym same_owner_trans by blast
  have gap: "lk_start b \<le> lk_end a + 1"
    using m(3) rng by (auto simp: i64_sat_add_def)
  have "(lk_start a \<le> k \<and> k \<le> max (lk_end a) (lk_end b))
      \<longleftrightarrow> (lk_start a \<le> k \<and> k \<le> lk_end a) \<or> (lk_start b \<le> k \<and> k \<le> lk_end b)"
    using gap le rng by auto
  then show ?thesis using own m(2) by (auto simp: held_Cons)
qed

lemma coalesce_loop_facts:
  "records_in_range rs \<Longrightarrow> sorted (map lk_start rs) \<Longrightarrow>
     records_in_range (coalesce_loop rs) \<and> sorted (map lk_start (coalesce_loop rs))
     \<and> (\<forall>w k. held (coalesce_loop rs) w k = held rs w k)
     \<and> lk_start ` set (coalesce_loop rs) \<subseteq> lk_start ` set rs"
proof (induction rs rule: coalesce_loop.induct)
  case (1 a b rs)
  let ?c = "same_owner (lk_owner a) (lk_owner b) \<and> lock_type a = lock_type b
    \<and> i64_sat_add (lk_end a) 1 \<ge> lk_start b"
  let ?m = "a\<lparr>lk_end := max (lk_end a) (lk_end b)\<rparr>"
  show ?case
  proof (cases ?c)
    case True
    have view: "held (?m # rs) w k = held (a # b # rs) w k" for w k
      by (rule merge_two) (use True 1(3,4) in auto)
    have pre: "records_in_range (?m # rs)" "sorted (map lk_start (?m # rs))"
      using 1(3,4) by auto
    have sub: "lk_start ` set (?m # rs) \<subseteq> lk_start ` set (a # b # rs)" by auto
    have eq: "coalesce_loop (a # b # rs) = coalesce_loop (?m # rs)" using True by simp
    show ?thesis unfolding eq view [symmetric]
      using 1(1) [OF True pre] sub by (meson order_trans)
  next
    case False
    have pre: "records_in_range (b # rs)" "sorted (map lk_start (b # rs))" using 1(3,4) by auto
    note ih = 1(2) [OF False pre]
    have low: "\<forall>x \<in> lk_start ` set (coalesce_loop (b # rs)). lk_start a \<le> x"
      using ih 1(4) by fastforce
    have eq: "coalesce_loop (a # b # rs) = a # coalesce_loop (b # rs)"
      by (simp only: coalesce_loop.simps if_not_P [OF False])
    have "sorted (map lk_start (a # coalesce_loop (b # rs)))" using low ih by simp
    moreover have "records_in_range (a # coalesce_loop (b # rs))" using ih 1(3) by simp
    moreover have "held (a # coalesce_loop (b # rs)) w k = held (a # b # rs) w k" for w k
      using ih by (simp only: held_Cons [of a])
    ultimately show ?thesis using ih unfolding eq by auto
  qed
qed auto

lemma coalesce_facts:
  assumes "records_in_range rs"
  shows "records_in_range (coalesce rs)" and "sorted (map lk_start (coalesce rs))"
    and "held (coalesce rs) w k = held rs w k"
proof -
  have pre: "records_in_range (sort_key lk_start rs)"
    using assms by (simp add: records_in_range_def list_all_iff)
  note f = coalesce_loop_facts [OF pre sorted_sort_key]
  show "records_in_range (coalesce rs)" "sorted (map lk_start (coalesce rs))"
    using f by (simp_all add: coalesce_def)
  show "held (coalesce rs) w k = held rs w k"
    using f held_cong_set [of "sort_key lk_start rs" rs w k] by (simp add: coalesce_def)
qed

subsection \<open>Removing a range\<close>

lemma trim_record_facts:
  assumes "records_in_range [r]" and "I64_MIN \<le> start" "start \<le> end" "end \<le> I64_MAX"
  shows "records_in_range (trim_record owner start end r)"
    and "held (trim_record owner start end r) w k =
      (if same_owner w owner \<and> start \<le> k \<and> k \<le> end then {} else held [r] w k)"
proof -
  show "records_in_range (trim_record owner start end r)"
    using assms by (auto simp: trim_record_def i64_sat_add_def i64_sat_sub_def)
  have own: "same_owner (lk_owner r) w \<Longrightarrow> same_owner w owner \<longleftrightarrow> same_owner (lk_owner r) owner"
    using same_owner_sym same_owner_trans by blast
  show "held (trim_record owner start end r) w k =
      (if same_owner w owner \<and> start \<le> k \<and> k \<le> end then {} else held [r] w k)"
    using assms own
    by (cases "same_owner (lk_owner r) w")
      (auto simp: trim_record_def held_Cons held_append i64_sat_add_def i64_sat_sub_def)
qed

lemma remove_range_facts:
  assumes rs: "records_in_range rs" and rng: "I64_MIN \<le> start" "start \<le> end" "end \<le> I64_MAX"
  shows "records_in_range (remove_range rs owner start end)"
    and "sorted (map lk_start (remove_range rs owner start end))"
    and "held (remove_range rs owner start end) w k =
      (if same_owner w owner \<and> start \<le> k \<and> k \<le> end then {} else held rs w k)"
proof -
  let ?t = "concat (map (trim_record owner start end) rs)"
  have t: "records_in_range ?t
      \<and> held ?t w k = (if same_owner w owner \<and> start \<le> k \<and> k \<le> end then {} else held rs w k)"
    using rs
  proof (induction rs)
    case (Cons r rs)
    have r: "records_in_range [r]" and rs: "records_in_range rs" using Cons.prems by auto
    have "held (r # rs) w k = held [r] w k \<union> held rs w k"
      using held_append [of "[r]" rs] by simp
    then show ?case
      using Cons.IH [OF rs] trim_record_facts [OF r rng, of owner]
      by (simp add: held_append)
  qed simp
  show "records_in_range (remove_range rs owner start end)"
    "sorted (map lk_start (remove_range rs owner start end))"
    using coalesce_facts t by (simp_all add: remove_range_def)
  show "held (remove_range rs owner start end) w k =
      (if same_owner w owner \<and> start \<le> k \<and> k \<le> end then {} else held rs w k)"
    using coalesce_facts(3) [of ?t w k] t by (simp add: remove_range_def)
qed

subsection \<open>Granting a lock\<close>

text \<open>
  The abstract lock table: a request for type \<open>lt\<close> on a byte is grantable to \<open>owner\<close> when every
  other owner's locks there are compatible with it.
\<close>

definition grantable :: "LockRecord list \<Rightarrow> LockOwner \<Rightarrow> LockType \<Rightarrow> int \<Rightarrow> bool" where
  "grantable rs owner lt k \<longleftrightarrow>
     (\<forall>w. \<not> same_owner w owner \<longrightarrow>
        (case lt of LWrite \<Rightarrow> held rs w k = {} | LRead \<Rightarrow> LWrite \<notin> held rs w k))"

lemma overlap_byte:
  "(s::int) \<le> e \<Longrightarrow> s' \<le> e' \<Longrightarrow>
     (\<not> (e < s' \<or> e' < s)) \<longleftrightarrow> (\<exists>k. s \<le> k \<and> k \<le> e \<and> s' \<le> k \<and> k \<le> e')"
  by (auto intro: exI [of _ "max s s'"])

lemma blocks_iff:
  assumes rs: "records_in_range rs" and se: "start \<le> end"
  shows "list_ex (blocks owner lt start end) rs
    \<longleftrightarrow> (\<exists>k. start \<le> k \<and> k \<le> end \<and> \<not> grantable rs owner lt k)"
proof
  assume "list_ex (blocks owner lt start end) rs"
  then obtain r where r: "r \<in> set rs" and b: "blocks owner lt start end r"
    by (auto simp: list_ex_iff)
  have ov: "\<not> (lk_end r < start \<or> end < lk_start r)"
    and wr: "lock_type r = LWrite \<or> lt = LWrite" and no: "\<not> same_owner (lk_owner r) owner"
    using b by (auto simp: blocks_def lock_conflict_def split: if_splits)
  have "lk_start r \<le> lk_end r" using rs r by (auto simp: records_in_range_def list_all_iff)
  then obtain k where k: "start \<le> k" "k \<le> end" "lk_start r \<le> k" "k \<le> lk_end r"
    using ov overlap_byte [OF _ se] by metis
  have "lock_type r \<in> held rs (lk_owner r) k" using r k by (auto simp: held_def)
  then have "\<not> grantable rs owner lt k"
    using wr no by (cases lt) (auto simp: grantable_def)
  then show "\<exists>k. start \<le> k \<and> k \<le> end \<and> \<not> grantable rs owner lt k" using k by blast
next
  assume "\<exists>k. start \<le> k \<and> k \<le> end \<and> \<not> grantable rs owner lt k"
  then obtain k w t where k: "start \<le> k" "k \<le> end" and no: "\<not> same_owner w owner"
    and t: "t \<in> held rs w k" "t = LWrite \<or> lt = LWrite"
    by (cases lt) (auto simp: grantable_def)
  then obtain r where r: "r \<in> set rs" "same_owner (lk_owner r) w" "lk_start r \<le> k" "k \<le> lk_end r"
    "t = lock_type r" by (auto simp: held_def)
  have "\<not> same_owner (lk_owner r) owner"
    using r(2) no same_owner_sym same_owner_trans by blast
  then show "list_ex (blocks owner lt start end) rs"
    using r k t by (auto simp: list_ex_iff blocks_def lock_conflict_def intro!: bexI [of _ r])
qed

lemma apply_grant_facts:
  assumes ok: "records_in_range rs" and rng: "I64_MIN \<le> start" "start \<le> end" "end \<le> I64_MAX"
    and lt: "lock_type_of ltype = Some lt"
  shows "fst (apply_lock rs owner pid ltype start end)
      \<longleftrightarrow> (\<forall>k. start \<le> k \<and> k \<le> end \<longrightarrow> grantable rs owner lt k)"
    and "\<not> fst (apply_lock rs owner pid ltype start end)
      \<Longrightarrow> snd (apply_lock rs owner pid ltype start end) = rs"
    and "fst (apply_lock rs owner pid ltype start end)
      \<Longrightarrow> held (snd (apply_lock rs owner pid ltype start end)) w k =
        (if same_owner w owner \<and> start \<le> k \<and> k \<le> end then {lt} else held rs w k)"
    and "fst (apply_lock rs owner pid ltype start end)
      \<Longrightarrow> records_in_range (snd (apply_lock rs owner pid ltype start end))
        \<and> sorted (map lk_start (snd (apply_lock rs owner pid ltype start end)))"
proof -
  let ?new = "\<lparr>lk_owner = owner, lk_owner_pid = pid, lock_type = lt, lk_start = start, lk_end = end\<rparr>"
  let ?rs = "remove_range rs owner start end @ [?new]"
  have rr: "records_in_range ?rs" using remove_range_facts(1) [OF ok rng] rng by simp
  have eq: "apply_lock rs owner pid ltype start end =
      (if list_ex (blocks owner lt start end) rs then (False, rs) else (True, coalesce ?rs))"
    using lt by (simp add: apply_lock_def)
  show "fst (apply_lock rs owner pid ltype start end)
      \<longleftrightarrow> (\<forall>k. start \<le> k \<and> k \<le> end \<longrightarrow> grantable rs owner lt k)"
    using blocks_iff [OF ok rng(2)] by (auto simp: eq)
  show "\<not> fst (apply_lock rs owner pid ltype start end)
      \<Longrightarrow> snd (apply_lock rs owner pid ltype start end) = rs"
    by (auto simp: eq)
  have own: "same_owner owner w \<longleftrightarrow> same_owner w owner" using same_owner_sym by blast
  show "fst (apply_lock rs owner pid ltype start end)
      \<Longrightarrow> held (snd (apply_lock rs owner pid ltype start end)) w k =
        (if same_owner w owner \<and> start \<le> k \<and> k \<le> end then {lt} else held rs w k)"
    using coalesce_facts(3) [OF rr, of w k] remove_range_facts(3) [OF ok rng, of owner w k] own
    by (simp add: eq held_append held_Cons split: if_splits)
  show "fst (apply_lock rs owner pid ltype start end)
      \<Longrightarrow> records_in_range (snd (apply_lock rs owner pid ltype start end))
        \<and> sorted (map lk_start (snd (apply_lock rs owner pid ltype start end)))"
    using coalesce_facts(1,2) [OF rr] by (simp add: eq split: if_splits)
qed

lemma apply_unlock_facts:
  assumes ok: "records_in_range rs" and rng: "I64_MIN \<le> start" "start \<le> end" "end \<le> I64_MAX"
    and lt: "lock_type_of ltype = None"
  shows "fst (apply_lock rs owner pid ltype start end)"
    and "held (snd (apply_lock rs owner pid ltype start end)) w k =
        (if same_owner w owner \<and> start \<le> k \<and> k \<le> end then {} else held rs w k)"
    and "records_in_range (snd (apply_lock rs owner pid ltype start end))
        \<and> sorted (map lk_start (snd (apply_lock rs owner pid ltype start end)))"
  using remove_range_facts [OF ok rng, of owner] lt by (simp_all add: apply_lock_def)

lemma records_okD:
  assumes "records_ok rs"
  shows "records_in_range rs" and "sorted (map lk_start rs)"
    and "a \<in> held rs w k \<Longrightarrow> b \<in> held rs w k \<Longrightarrow> a = b"
    and "\<not> same_owner v w \<Longrightarrow> LWrite \<in> held rs v k \<Longrightarrow> held rs w k = {}"
  using assms unfolding records_ok_def by blast+

lemma records_okI:
  assumes "records_in_range rs" and "sorted (map lk_start rs)"
    and "\<And>w k a b. a \<in> held rs w k \<Longrightarrow> b \<in> held rs w k \<Longrightarrow> a = b"
    and "\<And>v w k. \<not> same_owner v w \<Longrightarrow> LWrite \<in> held rs v k \<Longrightarrow> held rs w k = {}"
  shows "records_ok rs"
  unfolding records_ok_def
  by (intro conjI allI impI) (fact assms(1), fact assms(2), erule (1) assms(3), erule (1) assms(4))

lemma apply_lock_ok:
  assumes ok: "records_ok rs" and rng: "I64_MIN \<le> start" "start \<le> end" "end \<le> I64_MAX"
  shows "records_ok (snd (apply_lock rs owner pid ltype start end))"
proof (cases "lock_type_of ltype")
  case None
  note f = apply_unlock_facts [OF records_okD(1) [OF ok] rng None, of owner pid]
  show ?thesis
    by (rule records_okI)
      (use f(3) records_okD(3,4) [OF ok] in \<open>auto simp: f(2) split: if_splits\<close>)
next
  case (Some lt)
  note f = apply_grant_facts [OF records_okD(1) [OF ok] rng Some, of owner pid]
  show ?thesis
  proof (cases "fst (apply_lock rs owner pid ltype start end)")
    case False
    then show ?thesis using f(2) ok by simp
  next
    case True
    have gr: "start \<le> k \<Longrightarrow> k \<le> end \<Longrightarrow> grantable rs owner lt k" for k using f(1) True by blast
    have none: "held rs w k = {}" if "start \<le> k" "k \<le> end" "\<not> same_owner w owner" "lt = LWrite" for w k
      using gr [OF that(1,2)] that(3,4) by (simp add: grantable_def)
    have noW: "LWrite \<notin> held rs w k" if "start \<le> k" "k \<le> end" "\<not> same_owner w owner" for w k
      using gr [OF that(1,2)] that(3) by (cases lt) (auto simp: grantable_def)
    have swap: "\<not> same_owner v w \<Longrightarrow> same_owner v u \<Longrightarrow> same_owner w u \<Longrightarrow> False" for u v w
      using same_owner_sym same_owner_trans by blast
    have uniq: "a = b" if "a \<in> held (snd (apply_lock rs owner pid ltype start end)) w k"
      "b \<in> held (snd (apply_lock rs owner pid ltype start end)) w k" for w k a b
      using that records_okD(3) [OF ok] unfolding f(3) [OF True] by (auto split: if_splits)
    have excl: "held (snd (apply_lock rs owner pid ltype start end)) w k = {}"
      if "\<not> same_owner v w" "LWrite \<in> held (snd (apply_lock rs owner pid ltype start end)) v k" for v w k
      using that records_okD(4) [OF ok] none noW swap unfolding f(3) [OF True]
      by (auto split: if_splits)
    show ?thesis using f(4) [OF True] by (intro records_okI uniq excl) simp_all
  qed
qed

lemma filter_records_ok: "records_ok rs \<Longrightarrow> records_ok (filter P rs)"
proof -
  assume ok: "records_ok rs"
  have sub: "held (filter P rs) w k \<subseteq> held rs w k" for w k by (auto simp: held_def)
  have rng: "records_in_range (filter P rs)"
    using records_okD(1) [OF ok] by (auto simp: records_in_range_def list_all_iff)
  have srt: "sorted (map lk_start (filter P rs))"
    using records_okD(2) [OF ok] by (rule sorted_filter)
  have uniq: "a = b" if "a \<in> held (filter P rs) w k" "b \<in> held (filter P rs) w k" for a b w k
    by (rule records_okD(3) [OF ok subsetD [OF sub that(1)] subsetD [OF sub that(2)]])
  have excl: "held (filter P rs) w k = {}"
    if "\<not> same_owner v w" "LWrite \<in> held (filter P rs) v k" for v w k
    using sub [of w k] records_okD(4) [OF ok that(1) subsetD [OF sub that(2)]] by simp
  show ?thesis by (rule records_okI [OF rng srt uniq excl])
qed

section \<open>Properties of the range operations\<close>

text \<open>
  C9. Setting a record lock refines the pointwise lock table. On an entry that satisfies the
  invariant, a request for a read or write lock on \<open>start..end\<close> succeeds exactly when the type
  can be granted to the owner on every byte of the range; a refused request changes nothing; a
  granted one makes the new type the only one the owner has on each byte of the range and changes
  no other byte and no other owner; and the invariant (representable nonempty ranges in order,
  one type per owner and byte, writers exclusive) holds afterwards.
\<close>

theorem apply_lock_refines:
  assumes "records_ok rs" and "I64_MIN \<le> start" "start \<le> end" "end \<le> I64_MAX"
    and "lock_type_of ltype = Some lt"
  shows "case apply_lock rs owner pid ltype start end of (granted, rs') \<Rightarrow>
     (granted \<longleftrightarrow> (\<forall>k. start \<le> k \<and> k \<le> end \<longrightarrow> grantable rs owner lt k))
     \<and> (\<not> granted \<longrightarrow> rs' = rs)
     \<and> (granted \<longrightarrow> (\<forall>w k. held rs' w k =
          (if same_owner w owner \<and> start \<le> k \<and> k \<le> end then {lt} else held rs w k)))
     \<and> records_ok rs'"
proof (cases "apply_lock rs owner pid ltype start end")
  case (Pair granted rs')
  note f = apply_grant_facts [OF records_okD(1) [OF assms(1)] assms(2-5), of owner pid,
      unfolded Pair fst_conv snd_conv]
  have ok: "records_ok rs'"
    using apply_lock_ok [OF assms(1-4), of owner pid ltype] unfolding Pair snd_conv .
  show ?thesis unfolding Pair prod.case
    by (intro conjI allI impI) (fact f(1), erule f(2), erule f(3), fact ok)
qed

definition sample_records :: "LockRecord list" where
  "sample_records =
     [\<lparr>lk_owner = Posix 1 10, lk_owner_pid = 10, lock_type = LWrite, lk_start = 0, lk_end = 99\<rparr>,
      \<lparr>lk_owner = Posix 2 20, lk_owner_pid = 20, lock_type = LRead, lk_start = 100, lk_end = 199\<rparr>,
      \<lparr>lk_owner = Ofd 3, lk_owner_pid = -1, lock_type = LRead, lk_start = 150, lk_end = 299\<rparr>]"

lemma sample_records_ok: "records_ok sample_records"
proof -
  have rng: "records_in_range sample_records" and srt: "sorted (map lk_start sample_records)"
    by (simp_all add: sample_records_def I64_MIN_def I64_MAX_def)
  have uniq: "a = b" if "a \<in> held sample_records w k" "b \<in> held sample_records w k" for a b w k
    using that by (cases w) (auto simp: sample_records_def held_Cons split: if_splits)
  have excl: "held sample_records w k = {}"
    if "\<not> same_owner v w" "LWrite \<in> held sample_records v k" for v w k
    using that by (cases v; cases w) (auto simp: sample_records_def held_Cons split: if_splits)
  show ?thesis by (rule records_okI [OF rng srt uniq excl])
qed

theorem apply_lock_refines_witness:
  "records_ok sample_records
   \<and> apply_lock sample_records (Posix 1 10) 10 F_RDLCK 40 59 =
      (True,
       [\<lparr>lk_owner = Posix 1 10, lk_owner_pid = 10, lock_type = LWrite, lk_start = 0, lk_end = 39\<rparr>,
        \<lparr>lk_owner = Posix 1 10, lk_owner_pid = 10, lock_type = LRead, lk_start = 40, lk_end = 59\<rparr>,
        \<lparr>lk_owner = Posix 1 10, lk_owner_pid = 10, lock_type = LWrite, lk_start = 60, lk_end = 99\<rparr>,
        \<lparr>lk_owner = Posix 2 20, lk_owner_pid = 20, lock_type = LRead, lk_start = 100, lk_end = 199\<rparr>,
        \<lparr>lk_owner = Ofd 3, lk_owner_pid = -1, lock_type = LRead, lk_start = 150, lk_end = 299\<rparr>])
   \<and> held (snd (apply_lock sample_records (Posix 1 10) 10 F_RDLCK 40 59)) (Posix 1 10) 50 = {LRead}"
proof -
  have run: "apply_lock sample_records (Posix 1 10) 10 F_RDLCK 40 59 =
      (True,
       [\<lparr>lk_owner = Posix 1 10, lk_owner_pid = 10, lock_type = LWrite, lk_start = 0, lk_end = 39\<rparr>,
        \<lparr>lk_owner = Posix 1 10, lk_owner_pid = 10, lock_type = LRead, lk_start = 40, lk_end = 59\<rparr>,
        \<lparr>lk_owner = Posix 1 10, lk_owner_pid = 10, lock_type = LWrite, lk_start = 60, lk_end = 99\<rparr>,
        \<lparr>lk_owner = Posix 2 20, lk_owner_pid = 20, lock_type = LRead, lk_start = 100, lk_end = 199\<rparr>,
        \<lparr>lk_owner = Ofd 3, lk_owner_pid = -1, lock_type = LRead, lk_start = 150, lk_end = 299\<rparr>])"
    by (simp add: apply_lock_def lock_type_of_def flock_consts sample_records_def blocks_def
      lock_conflict_def remove_range_def trim_record_def coalesce_def i64_sat_add_def
      i64_sat_sub_def I64_MIN_def I64_MAX_def)
  have lt: "lock_type_of F_RDLCK = Some LRead" by (simp add: lock_type_of_def)
  show ?thesis
    using apply_lock_refines [OF sample_records_ok _ _ _ lt, of 40 59 "Posix 1 10" 10]
      sample_records_ok run
    by (simp add: I64_MIN_def I64_MAX_def)
qed

text \<open>
  C30. Unlocking removes exactly the requested bytes: on an entry that satisfies the invariant an
  unlock of \<open>start..end\<close> always succeeds, the owner then holds nothing on the range, every other
  byte and every other owner keeps its locks (a record that extends past either end is cut, not
  dropped), and the invariant holds afterwards.
\<close>

theorem apply_unlock_refines:
  assumes "records_ok rs" and "I64_MIN \<le> start" "start \<le> end" "end \<le> I64_MAX"
  shows "case apply_lock rs owner pid F_UNLCK start end of (done', rs') \<Rightarrow>
     done'
     \<and> (\<forall>w k. held rs' w k =
          (if same_owner w owner \<and> start \<le> k \<and> k \<le> end then {} else held rs w k))
     \<and> records_ok rs'"
proof -
  have lt: "lock_type_of F_UNLCK = None" by (simp add: lock_type_of_def flock_consts)
  note f = apply_unlock_facts [OF records_okD(1) [OF assms(1)] assms(2-4) lt, of owner pid]
  show ?thesis unfolding case_prod_beta
    by (intro conjI allI) (fact f(1), fact f(2), rule apply_lock_ok [OF assms])
qed

theorem apply_unlock_refines_witness:
  "records_ok sample_records
   \<and> held (snd (apply_lock sample_records (Posix 1 77) 77 F_UNLCK 10 19)) (Posix 1 10) 15 = {}
   \<and> held (snd (apply_lock sample_records (Posix 1 77) 77 F_UNLCK 10 19)) (Posix 1 10) 20 = {LWrite}"
proof -
  have rng: "I64_MIN \<le> 10" "(10::int) \<le> 19" "19 \<le> I64_MAX" by (simp_all add: I64_MIN_def I64_MAX_def)
  have view: "held (snd (apply_lock sample_records (Posix 1 77) 77 F_UNLCK 10 19)) w k =
      (if same_owner w (Posix 1 77) \<and> 10 \<le> k \<and> k \<le> 19 then {} else held sample_records w k)" for w k
    using apply_unlock_refines [OF sample_records_ok rng, of "Posix 1 77" 77]
    unfolding case_prod_beta by blast
  show ?thesis unfolding view using sample_records_ok by (simp add: sample_records_def held_Cons)
qed

subsection \<open>What range a request names\<close>

lemma as_i64_id: "I64_MIN \<le> x \<Longrightarrow> x \<le> I64_MAX \<Longrightarrow> as_i64 x = x"
  by (simp add: as_i64_def I64_MIN_def I64_MAX_def)

text \<open>The bytes that a request names from position \<open>p\<close> with length \<open>n\<close>, as POSIX has them.\<close>

definition requested_bytes :: "int \<Rightarrow> int \<Rightarrow> int set" where
  "requested_bytes p n =
     (if n = 0 then {k. p \<le> k \<and> k \<le> I64_MAX}
      else if n > 0 then {k. p \<le> k \<and> k < p + n \<and> k \<le> I64_MAX}
      else {k. p + n \<le> k \<and> k < p})"

text \<open>
  C31. A request whose position (base of \<open>l_whence\<close> plus \<open>l_start\<close>) is representable as an offset
  resolves to exactly the bytes it names: from the position on for \<open>l_len = 0\<close>, the next \<open>l_len\<close>
  bytes up to the largest offset for a positive length, the bytes before the position for a
  negative one; and it is refused with EINVAL exactly when that range would begin before offset 0
  or the length has no positive counterpart.
\<close>

theorem resolve_range_bytes:
  assumes "range_base f fl = Inr base"
    and "I64_MIN \<le> l_len fl" "l_len fl \<le> I64_MAX"
    and "I64_MIN \<le> base + l_start fl" "base + l_start fl \<le> I64_MAX"
  shows "(case resolve_range f fl of
      Inr (s, e) \<Rightarrow> 0 \<le> s \<and> s \<le> e \<and> e \<le> I64_MAX
        \<and> {s..e} = requested_bytes (base + l_start fl) (l_len fl)
    | Inl err \<Rightarrow> err = EINVAL
        \<and> (min (base + l_start fl) (base + l_start fl + l_len fl) < 0 \<or> l_len fl = I64_MIN))"
proof -
  note [simp] = I64_MIN_def I64_MAX_def
  have add: "i128_checked_add a b = Some (a + b)"
    if "2 * I64_MIN \<le> a" "a \<le> 2 * I64_MAX" "2 * I64_MIN \<le> b" "b \<le> 2 * I64_MAX" for a b
    using that by (simp add: i128_checked_add_def)
  define p where "p = base + l_start fl"
  have p0: "i128_checked_add base (l_start fl) = Some p"
    using assms(4,5) by (simp add: p_def i128_checked_add_def)
  consider (neg) "l_len fl < 0" | (zero) "l_len fl = 0" | (pos) "l_len fl > 0" by linarith
  then show ?thesis
  proof cases
    case neg
    have "i128_checked_add p (l_len fl) = Some (p + l_len fl)"
      by (rule add) (use assms neg in \<open>auto simp: p_def\<close>)
    moreover have "i128_checked_add (p + l_len fl) (- l_len fl) = Some p"
      using assms by (simp add: i128_checked_add_def p_def)
    moreover have "p \<le> I64_MAX" using assms by (simp add: p_def)
    moreover have "as_i64 (p - 1) = p - 1" "as_i64 (p + l_len fl) = p + l_len fl"
      if "0 \<le> p + l_len fl" using that neg assms by (auto intro!: as_i64_id simp: p_def)
    ultimately show ?thesis
      using assms neg p0 unfolding p_def [symmetric]
      by (auto simp: resolve_range_def requested_bytes_def)
  next
    case zero
    have "as_i64 p = p" if "0 \<le> p" using that assms by (auto intro!: as_i64_id simp: p_def)
    then show ?thesis
      using assms zero p0 unfolding p_def [symmetric]
      by (auto simp: resolve_range_def requested_bytes_def)
  next
    case pos
    have "i128_checked_add p (l_len fl) = Some (p + l_len fl)"
      by (rule add) (use assms pos in \<open>auto simp: p_def\<close>)
    moreover have "as_i64 p = p" if "0 \<le> p" using that assms by (auto intro!: as_i64_id simp: p_def)
    moreover have "as_i64 (p + l_len fl - 1) = p + l_len fl - 1"
      if "0 \<le> p" "p + l_len fl \<le> I64_MAX" using that pos by (auto intro!: as_i64_id)
    ultimately show ?thesis
      using assms pos p0 unfolding p_def [symmetric]
      by (auto simp: resolve_range_def requested_bytes_def)
  qed
qed

definition sample_lock_file :: lock_file where
  "sample_lock_file = \<lparr>lf_key = (2, 7), lf_offset = 100, lf_size = Some 4096,
     lf_readable = Inr (), lf_writable = Inr (), lf_open_file_id = 5\<rparr>"

theorem resolve_range_bytes_witness:
  "range_base sample_lock_file \<lparr>l_type = F_WRLCK, l_whence = SEEK_CUR, l_start = 20, l_len = -30, l_pid = 0\<rparr>
     = Inr 100
   \<and> resolve_range sample_lock_file
      \<lparr>l_type = F_WRLCK, l_whence = SEEK_CUR, l_start = 20, l_len = -30, l_pid = 0\<rparr> = Inr (90, 119)
   \<and> {90..119} = requested_bytes 120 (-30)"
  using resolve_range_bytes [of sample_lock_file
      "\<lparr>l_type = F_WRLCK, l_whence = SEEK_CUR, l_start = 20, l_len = -30, l_pid = 0\<rparr>" 100]
  by (simp add: range_base_def sample_lock_file_def flock_consts I64_MIN_def I64_MAX_def
    resolve_range_def i128_checked_add_def as_i64_def requested_bytes_def)

text \<open>
  C32. A position beyond the largest offset wraps to a negative one. For a nonempty file and a
  request relative to its end with the largest \<open>l_start\<close>, the position is not representable;
  instead of the overflow error the code returns a range that starts at a negative offset and
  covers every byte of the file, none of which the request names.
\<close>

theorem resolve_range_wraps:
  assumes "0 < n" "n \<le> 2 ^ 62"
  shows "case resolve_range
        \<lparr>lf_key = key, lf_offset = pos, lf_size = Some n, lf_readable = rd, lf_writable = wr,
          lf_open_file_id = i\<rparr>
        \<lparr>l_type = t, l_whence = SEEK_END, l_start = I64_MAX, l_len = 0, l_pid = p\<rparr> of
      Inl err \<Rightarrow> False
    | Inr (s, e) \<Rightarrow> s < 0 \<and> {0..I64_MAX} \<subseteq> {s..e}
        \<and> requested_bytes (int n + I64_MAX) 0 = {}"
proof -
  have n: "0 < int n" "int n \<le> 4611686018427387904" using assms by simp_all
  have add: "i128_checked_add (int n) I64_MAX = Some (int n + I64_MAX)"
    using n by (simp add: i128_checked_add_def I64_MAX_def)
  have "(18446744073709551615 + int n) mod 18446744073709551616 = int n - 1"
    using n by (subst mod_pos_geq) simp_all
  then have cast: "as_i64 (int n + I64_MAX) = int n - 1 + I64_MIN"
    by (simp add: as_i64_def I64_MIN_def I64_MAX_def)
  have pos: "\<not> int n + I64_MAX < 0" "0 \<le> I64_MAX" using n by (simp_all add: I64_MAX_def)
  then have "resolve_range
        \<lparr>lf_key = key, lf_offset = pos, lf_size = Some n, lf_readable = rd, lf_writable = wr,
          lf_open_file_id = i\<rparr>
        \<lparr>l_type = t, l_whence = SEEK_END, l_start = I64_MAX, l_len = 0, l_pid = p\<rparr>
      = Inr (int n - 1 + I64_MIN, I64_MAX)"
    using cast add by (simp add: resolve_range_def range_base_def flock_consts)
  moreover have "int n - 1 + I64_MIN < 0" using n by (simp add: I64_MIN_def)
  moreover have "requested_bytes (int n + I64_MAX) 0 = {}" using n by (auto simp: requested_bytes_def)
  ultimately show ?thesis by auto
qed

theorem resolve_range_wraps_witness:
  "resolve_range sample_lock_file
     \<lparr>l_type = F_WRLCK, l_whence = SEEK_END, l_start = I64_MAX, l_len = 0, l_pid = 0\<rparr>
     = Inr (-9223372036854771713, I64_MAX)
   \<and> requested_bytes (4096 + I64_MAX) 0 = {}"
proof -
  have "resolve_range sample_lock_file
     \<lparr>l_type = F_WRLCK, l_whence = SEEK_END, l_start = I64_MAX, l_len = 0, l_pid = 0\<rparr>
     = Inr (-9223372036854771713, I64_MAX)"
    by (simp add: resolve_range_def range_base_def flock_consts sample_lock_file_def
      i128_checked_add_def as_i64_def I64_MIN_def I64_MAX_def)
  then show ?thesis
    using resolve_range_wraps [of 4096 "(2, 7)" 100 "Inr ()" "Inr ()" 5 F_WRLCK 0]
    by (simp add: sample_lock_file_def)
qed

end
