(* ===== verification/EventSystem.thy ===== *)
theory EventSystem
  imports Main
begin

text \<open>
  Systems driven by events. A component whose operations come in any order is a step function on
  events; the locale \<open>event_system\<close> turns an invariant of the single steps into one of every
  sequence of allowed events. It is interpreted for the record locks and for the signal queue.
\<close>

locale event_system =
  fixes step :: "'e \<Rightarrow> 's \<Rightarrow> 's" and start :: 's and allowed :: "'e \<Rightarrow> bool"
    and good :: "'s \<Rightarrow> bool"
  assumes good_start: "good start" and good_step: "allowed e \<Longrightarrow> good s \<Longrightarrow> good (step e s)"
begin

lemma good_fold: "list_all allowed es \<Longrightarrow> good s \<Longrightarrow> good (fold step es s)"
  by (induction es arbitrary: s) (simp_all add: good_step)

lemma good_trace: "list_all allowed es \<Longrightarrow> good (fold step es start)"
  by (rule good_fold [OF _ good_start])

end

end
