(* ===== verification/LockManager.thy ===== *)
theory LockManager
  imports PosixLock EventSystem
begin

text \<open>
  The lock manager of \<open>os/src/fs/vfs/posix_lock.rs\<close> around the record lists of \<open>PosixLock\<close>: the
  shard maps that find the entry of a file, the entries with their wait queues, the wait graph
  with its deadlock search, \<open>posix_lock_get\<close>, \<open>posix_lock_set\<close> and the releases on close.
  \<open>posix_lock_set\<close> takes one lock after another and drops each before the next, so it is a state
  machine here: one step per critical section, any number of threads interleaved by a list of
  events. An \<open>Arc<PosixLockEntry>\<close> is an index into the arena of all entries ever made, so a thread
  can keep an entry that the shard map no longer has.
\<close>

unbundle bit_operations_syntax

section \<open>Keys and shards\<close>

datatype LockKey = LockKey (dev_id: usize) (inode_id: usize)

instantiation LockKey :: linorder
begin

definition less_eq_LockKey :: "LockKey \<Rightarrow> LockKey \<Rightarrow> bool" where
  "less_eq_LockKey a b =
     (dev_id a < dev_id b \<or> dev_id a = dev_id b \<and> inode_id a \<le> inode_id b)"

definition less_LockKey :: "LockKey \<Rightarrow> LockKey \<Rightarrow> bool" where
  "less_LockKey a b =
     (dev_id a < dev_id b \<or> dev_id a = dev_id b \<and> inode_id a < inode_id b)"

instance
  by standard (auto simp: less_eq_LockKey_def less_LockKey_def LockKey.expand)

end

definition from_file :: "lock_file \<Rightarrow> LockKey" where
  "from_file f = LockKey (fst (lf_key f)) (snd (lf_key f))"

definition SHARDS :: usize where "SHARDS = 53"

definition lock_shard :: "LockKey \<Rightarrow> usize" where
  "lock_shard k =
     (let h = (0 :: u32) + word_of_nat (dev_id k);
          h = h + push_bit 10 h;
          h = h XOR drop_bit 6 h;
          h = h + word_of_nat (inode_id k);
          h = h + push_bit 10 h;
          h = h XOR drop_bit 6 h;
          h = h + push_bit 3 h;
          h = h XOR drop_bit 11 h;
          h = h + push_bit 15 h
      in unat h mod SHARDS)"

section \<open>The manager\<close>

type_synonym edge_map = "(usize, (usize, usize) btree) btree"

record posix_lock_entry =
  en_records :: "LockRecord list"
  en_waitq :: "nat list"

record lock_request =
  rq_owner :: LockOwner
  rq_pid :: int
  rq_type :: int
  rq_start :: int
  rq_end :: int

text \<open>
  The result of \<open>posix_lock_set\<close>: success, an error of \<open>SyscallErr\<close>, or the internal restart
  marker of an interrupted wait.
\<close>

datatype lock_result = LockOk | LockErr errno | LockRestart

text \<open>
  Where a thread stands in \<open>posix_lock_set\<close>: before the shard lookup; before the attempt of the
  non-blocking path; at the head of the blocking loop; before its first attempt; waking the
  waiters after an unlock; in the condition of the wait (the flag tells whether the thread is
  registered in the wait queue), before the update of the wait graph; before it registers;
  registered and ready to sleep; leaving the wait queue; past the wait; returned.
\<close>

datatype lock_pc =
    PIdle
  | PLookup LockKey lock_request bool
  | PApply nat lock_request
  | PLoop nat lock_request
  | PTry nat lock_request
  | PWakeAll nat
  | PCond nat lock_request bool
  | PGraph nat lock_request bool usize
  | PRegister nat lock_request
  | PSleep nat lock_request
  | PFinish nat lock_request lock_result
  | PEnd lock_request lock_result
  | PDone lock_result

record lock_sys =
  ls_shards :: "(LockKey, nat) btree list"
  arena :: "posix_lock_entry list"
  wait_graph :: edge_map
  threads :: "nat \<Rightarrow> lock_pc"

definition init_posix_lock_manager :: lock_sys where
  "init_posix_lock_manager =
     \<lparr>ls_shards = replicate SHARDS [], arena = [], wait_graph = [], threads = \<lambda>t. PIdle\<rparr>"

definition find_entry :: "LockKey \<Rightarrow> lock_sys \<Rightarrow> nat option" where
  "find_entry k s = bt_get (ls_shards s ! lock_shard k) k"

definition get_or_insert_entry :: "LockKey \<Rightarrow> lock_sys \<Rightarrow> nat \<times> lock_sys" where
  "get_or_insert_entry k s =
     (case find_entry k s of
        Some i \<Rightarrow> (i, s)
      | None \<Rightarrow>
          (length (arena s),
           s\<lparr>arena := arena s @ [\<lparr>en_records = [], en_waitq = []\<rparr>],
             ls_shards := (ls_shards s)[lock_shard k :=
               bt_insert k (length (arena s)) (ls_shards s ! lock_shard k)]\<rparr>))"

definition set_records :: "nat \<Rightarrow> LockRecord list \<Rightarrow> lock_sys \<Rightarrow> lock_sys" where
  "set_records i rs s = s\<lparr>arena := (arena s)[i := (arena s ! i)\<lparr>en_records := rs\<rparr>]\<rparr>"

definition set_waitq :: "nat \<Rightarrow> nat list \<Rightarrow> lock_sys \<Rightarrow> lock_sys" where
  "set_waitq i q s = s\<lparr>arena := (arena s)[i := (arena s ! i)\<lparr>en_waitq := q\<rparr>]\<rparr>"

definition set_pc :: "nat \<Rightarrow> lock_pc \<Rightarrow> lock_sys \<Rightarrow> lock_sys" where
  "set_pc t p s = s\<lparr>threads := (threads s)(t := p)\<rparr>"

definition entry_apply :: "nat \<Rightarrow> lock_request \<Rightarrow> lock_sys \<Rightarrow> bool \<times> lock_sys" where
  "entry_apply i r s =
     (case apply_lock (en_records (arena s ! i)) (rq_owner r) (rq_pid r) (rq_type r)
             (rq_start r) (rq_end r) of
        (ok, rs) \<Rightarrow> (ok, set_records i rs s))"

section \<open>Deadlock detection\<close>

definition owner_graph_id :: "LockOwner \<Rightarrow> usize" where
  "owner_graph_id w =
     (case w of Posix i p \<Rightarrow> i | Ofd i \<Rightarrow> i XOR push_bit 62 1)"

definition add_edge :: "usize \<Rightarrow> usize \<Rightarrow> edge_map \<Rightarrow> edge_map" where
  "add_edge w b wg =
     (let edges = (case bt_get wg w of None \<Rightarrow> [] | Some es \<Rightarrow> es) in
      bt_insert w (bt_insert b (case bt_get edges b of None \<Rightarrow> 1 | Some c \<Rightarrow> c + 1) edges) wg)"

text \<open>
  The search: the head of the list is the top of the stack; the targets are pushed in key order.
\<close>

function deadlock_search ::
  "edge_map \<Rightarrow> usize \<Rightarrow> usize list \<Rightarrow> usize list \<Rightarrow> bool" where
  "deadlock_search wg waiter visited [] = False"
| "deadlock_search wg waiter visited (n # stack) =
     (if n = waiter then True
      else if n \<in> set visited then deadlock_search wg waiter visited stack
      else (case bt_get wg n of
              None \<Rightarrow> deadlock_search wg waiter (n # visited) stack
            | Some edges \<Rightarrow>
                deadlock_search wg waiter (n # visited) (rev (map fst edges) @ stack)))"
  by pat_completeness auto

text \<open>
  Each step either visits a node that the graph has, of which there are finitely many, or shortens
  the stack.
\<close>

lemma unvisited_psubset:
  "bt_get wg n = Some edges \<Longrightarrow> n \<notin> set visited \<Longrightarrow>
     fst ` set wg - insert n (set visited) \<subset> fst ` set wg - set visited"
proof -
  assume "bt_get wg n = Some edges" and nv: "n \<notin> set visited"
  then have "n \<in> fst ` set wg" by (auto simp: bt_get_def dest!: map_of_SomeD intro: rev_image_eqI)
  then show ?thesis using nv by blast
qed

lemma unvisited_same:
  "bt_get wg n = None \<Longrightarrow>
     fst ` set wg - insert n (set visited) = fst ` set wg - set visited"
  by (auto simp: bt_get_def map_of_eq_None_iff)

termination deadlock_search
  by (relation "inv_image (finite_psubset <*lex*> less_than)
      (\<lambda>(wg, waiter, visited, stack). (fst ` set wg - set visited, length stack))")
    (auto simp: unvisited_same in_finite_psubset dest: unvisited_psubset)

section \<open>Locking\<close>

text \<open>The part of \<open>posix_lock_set\<close> before it looks at the manager.\<close>

definition prepare_set ::
  "lock_file \<Rightarrow> LockOwner \<Rightarrow> PosixFlock \<Rightarrow> errno + lock_request" where
  "prepare_set f owner fl =
     (case (if l_type fl \<noteq> F_UNLCK then validate_access f (l_type fl) else Inr ()) of
        Inl e \<Rightarrow> Inl e
      | Inr _ \<Rightarrow>
          (case resolve_range f fl of
             Inl e \<Rightarrow> Inl e
           | Inr (s, e) \<Rightarrow>
               Inr \<lparr>rq_owner = owner,
                    rq_pid = (case owner of Posix i p \<Rightarrow> p | Ofd i \<Rightarrow> -1),
                    rq_type = l_type fl, rq_start = s, rq_end = e\<rparr>))"

definition query_type :: "lock_request \<Rightarrow> LockType" where
  "query_type r = (if rq_type r = F_WRLCK then LWrite else LRead)"

definition after_apply :: "nat \<Rightarrow> lock_request \<Rightarrow> lock_pc" where
  "after_apply i r = (if rq_type r = F_UNLCK then PWakeAll i else PDone LockOk)"

definition leave_wait :: "nat \<Rightarrow> lock_request \<Rightarrow> bool \<Rightarrow> lock_result \<Rightarrow> lock_pc" where
  "leave_wait i r registered res = (if registered then PFinish i r res else PEnd r res)"

definition not_ready :: "nat \<Rightarrow> lock_request \<Rightarrow> bool \<Rightarrow> lock_pc" where
  "not_ready i r registered = (if registered then PSleep i r else PRegister i r)"

definition cond_state :: "nat \<Rightarrow> nat \<Rightarrow> lock_request \<Rightarrow> bool \<Rightarrow> lock_sys \<Rightarrow> lock_sys" where
  "cond_state t i r registered s =
     (case entry_apply i r s of
        (True, s') \<Rightarrow> set_pc t (leave_wait i r registered LockOk) s'
      | (False, s') \<Rightarrow>
          (case List.find (blocks (rq_owner r) (query_type r) (rq_start r) (rq_end r))
                  (en_records (arena s' ! i)) of
             None \<Rightarrow> set_pc t (not_ready i r registered) s'
           | Some b \<Rightarrow> set_pc t (PGraph i r registered (owner_graph_id (lk_owner b))) s'))"

definition cond_graph ::
  "nat \<Rightarrow> nat \<Rightarrow> lock_request \<Rightarrow> bool \<Rightarrow> usize \<Rightarrow> lock_sys \<Rightarrow> lock_sys" where
  "cond_graph t i r registered bid s =
     (let waiter = owner_graph_id (rq_owner r);
          wg = add_edge waiter bid (wait_graph s) in
      if deadlock_search wg waiter [] [bid]
      then set_pc t (leave_wait i r registered (LockErr EDEADLK))
             (s\<lparr>wait_graph := bt_remove waiter wg\<rparr>)
      else set_pc t (not_ready i r registered) (s\<lparr>wait_graph := wg\<rparr>))"

text \<open>One step of thread \<open>t\<close>: the critical section it is about to enter.\<close>

definition lock_run :: "nat \<Rightarrow> lock_sys \<Rightarrow> lock_sys" where
  "lock_run t s =
     (case threads s t of
        PIdle \<Rightarrow> s
      | PLookup k r blocking \<Rightarrow>
          (case get_or_insert_entry k s of
             (i, s') \<Rightarrow> set_pc t (if blocking then PLoop i r else PApply i r) s')
      | PApply i r \<Rightarrow>
          (case entry_apply i r s of
             (ok, s') \<Rightarrow> set_pc t (if ok then after_apply i r else PDone (LockErr EAGAIN)) s')
      | PLoop i r \<Rightarrow>
          set_pc t (PTry i r)
            (s\<lparr>wait_graph := bt_remove (owner_graph_id (rq_owner r)) (wait_graph s)\<rparr>)
      | PTry i r \<Rightarrow>
          (case entry_apply i r s of
             (ok, s') \<Rightarrow> set_pc t (if ok then after_apply i r else PCond i r False) s')
      | PWakeAll i \<Rightarrow> set_pc t (PDone LockOk) (set_waitq i [] s)
      | PCond i r registered \<Rightarrow> cond_state t i r registered s
      | PGraph i r registered bid \<Rightarrow> cond_graph t i r registered bid s
      | PRegister i r \<Rightarrow>
          set_pc t (PCond i r True) (set_waitq i (en_waitq (arena s ! i) @ [t]) s)
      | PSleep i r \<Rightarrow>
          (if t \<in> set (en_waitq (arena s ! i)) then s else set_pc t (PRegister i r) s)
      | PFinish i r res \<Rightarrow>
          set_pc t (PEnd r res)
            (set_waitq i (filter (\<lambda>u. u \<noteq> t) (en_waitq (arena s ! i))) s)
      | PEnd r res \<Rightarrow>
          set_pc t (PDone res)
            (if res = LockErr EDEADLK then s
             else s\<lparr>wait_graph := bt_remove (owner_graph_id (rq_owner r)) (wait_graph s)\<rparr>)
      | PDone res \<Rightarrow> s)"

definition lock_call ::
  "nat \<Rightarrow> lock_file \<Rightarrow> LockOwner \<Rightarrow> PosixFlock \<Rightarrow> bool \<Rightarrow> lock_sys \<Rightarrow> lock_sys" where
  "lock_call t f owner fl blocking s =
     (case threads s t of
        PIdle \<Rightarrow>
          (case prepare_set f owner fl of
             Inl e \<Rightarrow> set_pc t (PDone (LockErr e)) s
           | Inr r \<Rightarrow> set_pc t (PLookup (from_file f) r blocking) s)
      | _ \<Rightarrow> s)"

text \<open>A signal interrupts a wait when the thread is registered and about to sleep or asleep.\<close>

definition lock_signal :: "nat \<Rightarrow> lock_sys \<Rightarrow> lock_sys" where
  "lock_signal t s =
     (case threads s t of PSleep i r \<Rightarrow> set_pc t (PFinish i r LockRestart) s | _ \<Rightarrow> s)"

definition lock_return :: "nat \<Rightarrow> lock_sys \<Rightarrow> lock_sys" where
  "lock_return t s = (case threads s t of PDone res \<Rightarrow> set_pc t PIdle s | _ \<Rightarrow> s)"

section \<open>Release and query\<close>

definition release_where :: "(LockOwner \<Rightarrow> bool) \<Rightarrow> LockKey \<Rightarrow> lock_sys \<Rightarrow> lock_sys" where
  "release_where P k s =
     (case find_entry k s of
        None \<Rightarrow> s
      | Some i \<Rightarrow>
          (let rs = en_records (arena s ! i);
               kept = filter (\<lambda>r. \<not> P (lk_owner r)) rs;
               s = set_records i kept s;
               s = (if length kept < length rs then set_waitq i [] s else s)
           in if kept = []
              then s\<lparr>ls_shards := (ls_shards s)[lock_shard k :=
                     bt_remove k (ls_shards s ! lock_shard k)]\<rparr>
              else s))"

definition release_posix_for_owner :: "lock_file \<Rightarrow> usize \<Rightarrow> lock_sys \<Rightarrow> lock_sys" where
  "release_posix_for_owner f oid =
     release_where (\<lambda>w. case w of Posix i p \<Rightarrow> i = oid | Ofd i \<Rightarrow> False) (from_file f)"

definition release_ofd_for_file :: "lock_file \<Rightarrow> lock_sys \<Rightarrow> lock_sys" where
  "release_ofd_for_file f =
     release_where (\<lambda>w. case w of Posix i p \<Rightarrow> False | Ofd i \<Rightarrow> i = lf_open_file_id f)
       (from_file f)"

definition report_conflict :: "LockRecord \<Rightarrow> PosixFlock \<Rightarrow> PosixFlock" where
  "report_conflict r fl =
     fl\<lparr>l_type := (if lock_type r = LWrite then F_WRLCK else F_RDLCK),
        l_pid := lk_owner_pid r,
        l_start := lk_start r,
        l_len := (if lk_end r = I64_MAX then 0 else lk_end r - lk_start r + 1),
        l_whence := SEEK_SET\<rparr>"

definition posix_lock_get ::
  "lock_file \<Rightarrow> LockOwner \<Rightarrow> PosixFlock \<Rightarrow> lock_sys \<Rightarrow> errno + PosixFlock" where
  "posix_lock_get f owner fl s =
     (case lock_type_of (l_type fl) of
        None \<Rightarrow> (if l_type fl = F_UNLCK then Inr (fl\<lparr>l_type := F_UNLCK\<rparr>) else Inl EINVAL)
      | Some qt \<Rightarrow>
          (case find_entry (from_file f) s of
             None \<Rightarrow> Inr (fl\<lparr>l_type := F_UNLCK\<rparr>)
           | Some i \<Rightarrow>
               (case resolve_range f fl of
                  Inl e \<Rightarrow> Inl e
                | Inr (b, e) \<Rightarrow>
                    (case List.find (blocks owner qt b e) (en_records (arena s ! i)) of
                       Some r \<Rightarrow> Inr (report_conflict r fl)
                     | None \<Rightarrow> Inr (fl\<lparr>l_type := F_UNLCK\<rparr>)))))"

section \<open>Interleavings\<close>

datatype lock_event =
    Call nat lock_file LockOwner PosixFlock bool
  | Run nat
  | Signal nat
  | Return nat
  | ReleasePosix lock_file usize
  | ReleaseOfd lock_file

fun lock_do :: "lock_event \<Rightarrow> lock_sys \<Rightarrow> lock_sys" where
  "lock_do (Call t f owner fl blocking) s = lock_call t f owner fl blocking s"
| "lock_do (Run t) s = lock_run t s"
| "lock_do (Signal t) s = lock_signal t s"
| "lock_do (Return t) s = lock_return t s"
| "lock_do (ReleasePosix f oid) s = release_posix_for_owner f oid s"
| "lock_do (ReleaseOfd f) s = release_ofd_for_file f s"

definition lock_trace :: "lock_event list \<Rightarrow> lock_sys" where
  "lock_trace es = fold lock_do es init_posix_lock_manager"

section \<open>The deadlock search decides reachability\<close>

definition wait_edges :: "edge_map \<Rightarrow> (usize \<times> usize) set" where
  "wait_edges wg = {(n, m). \<exists>edges. bt_get wg n = Some edges \<and> m \<in> fst ` set edges}"

lemma deadlock_search_reach:
  "waiter \<notin> set visited \<Longrightarrow>
   (\<And>n m. n \<in> set visited \<Longrightarrow> (n, m) \<in> wait_edges wg \<Longrightarrow> m \<in> set visited \<union> set stack) \<Longrightarrow>
   deadlock_search wg waiter visited stack
     \<longleftrightarrow> (\<exists>n \<in> set visited \<union> set stack. (n, waiter) \<in> (wait_edges wg)\<^sup>*)"
proof (induction wg waiter visited stack rule: deadlock_search.induct)
  case (1 wg waiter visited)
  have "m \<in> set visited" if "(n, m) \<in> (wait_edges wg)\<^sup>*" "n \<in> set visited" for n m
    using that by (induction rule: rtrancl_induct) (use 1(2) in auto)
  then show ?case using 1(1) by auto
next
  case (2 wg waiter visited n stack)
  consider "n = waiter" | "n \<noteq> waiter" "n \<in> set visited"
    | "n \<noteq> waiter" "n \<notin> set visited" "bt_get wg n = None"
    | edges where "n \<noteq> waiter" "n \<notin> set visited" "bt_get wg n = Some edges"
    by blast
  then show ?case
  proof cases
    case 1
    then show ?thesis by auto
  next
    case 2
    then show ?thesis using "2.IH"(1) "2.prems" by (simp add: insert_absorb)
  next
    case 3
    have "(n, m) \<notin> wait_edges wg" for m using 3(3) by (simp add: wait_edges_def)
    then have "deadlock_search wg waiter (n # visited) stack
        \<longleftrightarrow> (\<exists>k \<in> set (n # visited) \<union> set stack. (k, waiter) \<in> (wait_edges wg)\<^sup>*)"
      using "2.prems" 3 by (intro "2.IH"(2)) auto
    then show ?thesis using 3 by simp
  next
    case 4
    have succ: "(n, m) \<in> wait_edges wg \<longleftrightarrow> m \<in> fst ` set edges" for m
      using 4(3) by (simp add: wait_edges_def)
    have "deadlock_search wg waiter (n # visited) (rev (map fst edges) @ stack)
        \<longleftrightarrow> (\<exists>k \<in> set (n # visited) \<union> set (rev (map fst edges) @ stack). (k, waiter) \<in> (wait_edges wg)\<^sup>*)"
      using "2.prems" 4 succ by (intro "2.IH"(3)) auto
    moreover have "(n, waiter) \<in> (wait_edges wg)\<^sup>*" if "m \<in> fst ` set edges" "(m, waiter) \<in> (wait_edges wg)\<^sup>*" for m
      using that succ by (meson converse_rtrancl_into_rtrancl)
    ultimately show ?thesis using 4 by auto
  qed
qed

section \<open>The invariant of the manager\<close>

definition req_ok :: "lock_request \<Rightarrow> bool" where
  "req_ok r \<longleftrightarrow> I64_MIN \<le> rq_start r \<and> rq_start r \<le> rq_end r \<and> rq_end r \<le> I64_MAX"

text \<open>The request that a thread carries and the entry it refers to.\<close>

fun pc_req :: "lock_pc \<Rightarrow> lock_request option" where
  "pc_req (PLookup k r b) = Some r"
| "pc_req (PApply i r) = Some r"
| "pc_req (PLoop i r) = Some r"
| "pc_req (PTry i r) = Some r"
| "pc_req (PCond i r b) = Some r"
| "pc_req (PGraph i r b n) = Some r"
| "pc_req (PRegister i r) = Some r"
| "pc_req (PSleep i r) = Some r"
| "pc_req (PFinish i r res) = Some r"
| "pc_req (PEnd r res) = Some r"
| "pc_req p = None"

fun pc_entry :: "lock_pc \<Rightarrow> nat option" where
  "pc_entry (PApply i r) = Some i"
| "pc_entry (PLoop i r) = Some i"
| "pc_entry (PTry i r) = Some i"
| "pc_entry (PWakeAll i) = Some i"
| "pc_entry (PCond i r b) = Some i"
| "pc_entry (PGraph i r b n) = Some i"
| "pc_entry (PRegister i r) = Some i"
| "pc_entry (PSleep i r) = Some i"
| "pc_entry (PFinish i r res) = Some i"
| "pc_entry p = None"

definition pc_ok :: "lock_sys \<Rightarrow> lock_pc \<Rightarrow> bool" where
  "pc_ok s p \<longleftrightarrow>
     (\<forall>r. pc_req p = Some r \<longrightarrow> req_ok r) \<and> (\<forall>i. pc_entry p = Some i \<longrightarrow> i < length (arena s))"

definition sys_ok :: "lock_sys \<Rightarrow> bool" where
  "sys_ok s \<longleftrightarrow>
     length (ls_shards s) = SHARDS
     \<and> (\<forall>m \<in> set (ls_shards s). bt_wf m \<and> (\<forall>(k, i) \<in> set m. i < length (arena s)))
     \<and> (\<forall>e \<in> set (arena s). records_ok (en_records e))
     \<and> (\<forall>t. pc_ok s (threads s t))"

lemma resolve_range_ok:
  "resolve_range f fl = Inr (s, e) \<Longrightarrow> I64_MIN \<le> s \<and> s \<le> e \<and> e \<le> I64_MAX"
proof -
  assume a: "resolve_range f fl = Inr (s, e)"
  have cast: "I64_MIN \<le> as_i64 x \<and> as_i64 x \<le> I64_MAX" for x
    unfolding as_i64_def I64_MIN_def I64_MAX_def
    using pos_mod_bound [of 18446744073709551616 "x + 9223372036854775808"]
      pos_mod_sign [of 18446744073709551616 "x + 9223372036854775808"] by simp
  have s: "\<exists>x. s = as_i64 x"
    using a unfolding resolve_range_def
    by (auto split: sum.splits option.splits if_splits prod.splits)
  have fit: "as_i64 x = x" if "0 \<le> x" "x \<le> I64_MAX" for x
    using that by (auto intro!: as_i64_id simp: I64_MIN_def)
  have "e = I64_MAX \<or> s \<le> e \<and> e \<le> I64_MAX"
    using a unfolding resolve_range_def
    by (auto simp: i128_checked_add_def fit split: sum.splits option.splits if_splits prod.splits)
  then show ?thesis using s cast by blast
qed

lemma pc_ok_cong: "length (arena s) = length (arena s') \<Longrightarrow> pc_ok s p = pc_ok s' p"
  by (simp add: pc_ok_def)

lemma sys_okD:
  assumes "sys_ok s"
  shows "length (ls_shards s) = SHARDS" and "m \<in> set (ls_shards s) \<Longrightarrow> bt_wf m"
    and "m \<in> set (ls_shards s) \<Longrightarrow> (k, i) \<in> set m \<Longrightarrow> i < length (arena s)"
    and "e \<in> set (arena s) \<Longrightarrow> records_ok (en_records e)"
    and "pc_ok s (threads s t)"
  using assms unfolding sys_ok_def by auto

lemma lock_shard_less: "lock_shard k < SHARDS"
  by (simp add: lock_shard_def Let_def SHARDS_def)

lemma sys_ok_set_pc: "sys_ok s \<Longrightarrow> pc_ok s p \<Longrightarrow> sys_ok (set_pc t p s)"
  by (auto simp: sys_ok_def set_pc_def pc_ok_def)

lemma sys_ok_graph [simp]: "sys_ok (s\<lparr>wait_graph := g\<rparr>) = sys_ok s"
  by (simp add: sys_ok_def pc_ok_def)

lemma pc_ok_graph [simp]: "pc_ok (s\<lparr>wait_graph := g\<rparr>) p = pc_ok s p"
  by (simp add: pc_ok_def)

lemma arena_set_records [simp]: "length (arena (set_records i rs s)) = length (arena s)"
  by (simp add: set_records_def)

lemma arena_set_waitq [simp]: "length (arena (set_waitq i q s)) = length (arena s)"
  by (simp add: set_waitq_def)

lemma sys_ok_arena:
  assumes "sys_ok s" and "records_ok (en_records e)"
  shows "sys_ok (s\<lparr>arena := (arena s)[i := e]\<rparr>)"
proof -
  have "records_ok (en_records x)" if "x \<in> set ((arena s)[i := e])" for x
    using that assms sys_okD(4) [OF assms(1)] set_update_subset_insert [of "arena s" i e] by blast
  then show ?thesis using assms(1) by (auto simp: sys_ok_def pc_ok_def)
qed

lemma sys_ok_set_records: "sys_ok s \<Longrightarrow> records_ok rs \<Longrightarrow> sys_ok (set_records i rs s)"
  unfolding set_records_def by (rule sys_ok_arena) simp_all

lemma sys_ok_set_waitq: "sys_ok s \<Longrightarrow> i < length (arena s) \<Longrightarrow> sys_ok (set_waitq i q s)"
  unfolding set_waitq_def by (rule sys_ok_arena) (auto dest: sys_okD(4) [OF _ nth_mem])

lemma entry_apply_ok:
  assumes ok: "sys_ok s" and i: "i < length (arena s)" and r: "req_ok r"
    and e: "entry_apply i r s = (b, s')"
  shows "sys_ok s'" and "length (arena s') = length (arena s)"
proof -
  have "records_ok (en_records (arena s ! i))" using sys_okD(4) [OF ok nth_mem [OF i]] .
  then have "records_ok (snd (apply_lock (en_records (arena s ! i)) (rq_owner r) (rq_pid r)
      (rq_type r) (rq_start r) (rq_end r)))"
    using r by (intro apply_lock_ok) (auto simp: req_ok_def)
  then show "sys_ok s'" "length (arena s') = length (arena s)"
    using e sys_ok_set_records [OF ok] by (auto simp: entry_apply_def split: prod.splits)
qed

lemma find_entry_less:
  assumes "sys_ok s" "find_entry k s = Some i"
  shows "i < length (arena s)"
proof -
  have m: "ls_shards s ! lock_shard k \<in> set (ls_shards s)"
    using sys_okD(1) [OF assms(1)] lock_shard_less by simp
  have "(k, i) \<in> set (ls_shards s ! lock_shard k)"
    using assms(2) by (auto simp: find_entry_def bt_get_def dest: map_of_SomeD)
  then show ?thesis by (rule sys_okD(3) [OF assms(1) m])
qed

lemma empty_records_ok [simp]: "records_ok []"
  by (simp add: records_ok_def)

lemma sys_ok_shard:
  assumes ok: "sys_ok s" and m: "bt_wf m" "\<forall>(k, i) \<in> set m. i < length (arena s)"
  shows "sys_ok (s\<lparr>ls_shards := (ls_shards s)[j := m]\<rparr>)"
proof -
  have "bt_wf x \<and> (\<forall>(k, i) \<in> set x. i < length (arena s))" if "x \<in> set ((ls_shards s)[j := m])" for x
    using that ok m set_update_subset_insert [of "ls_shards s" j m] unfolding sys_ok_def by blast
  then show ?thesis using ok by (simp add: sys_ok_def pc_ok_def)
qed

lemma sys_ok_new_entry:
  "sys_ok s \<Longrightarrow> sys_ok (s\<lparr>arena := arena s @ [\<lparr>en_records = [], en_waitq = []\<rparr>]\<rparr>)"
  by (fastforce simp: sys_ok_def pc_ok_def)

lemma get_or_insert_ok:
  assumes ok: "sys_ok s" and g: "get_or_insert_entry k s = (i, s')"
  shows "sys_ok s'" and "i < length (arena s')" and "find_entry k s' = Some i"
    and "length (arena s) \<le> length (arena s')" and "threads s' = threads s"
proof -
  have "sys_ok s' \<and> i < length (arena s') \<and> find_entry k s' = Some i
      \<and> length (arena s) \<le> length (arena s') \<and> threads s' = threads s"
  proof (cases "find_entry k s")
    case (Some j)
    then show ?thesis using g ok find_entry_less [OF ok Some] by (simp add: get_or_insert_entry_def)
  next
    case None
    let ?n = "length (arena s)"
    let ?s = "s\<lparr>arena := arena s @ [\<lparr>en_records = [], en_waitq = []\<rparr>]\<rparr>"
    let ?m = "bt_insert k ?n (ls_shards s ! lock_shard k)"
    have s': "s' = ?s\<lparr>ls_shards := (ls_shards ?s)[lock_shard k := ?m]\<rparr>" and i: "i = ?n"
      using g None by (auto simp: get_or_insert_entry_def)
    have m: "ls_shards s ! lock_shard k \<in> set (ls_shards s)"
      using sys_okD(1) [OF ok] lock_shard_less by simp
    have wf: "bt_wf ?m" using sys_okD(2) [OF ok m] by (rule bt_wf_insert)
    have "\<forall>(k, i) \<in> set ?m. i < length (arena ?s)"
      using sys_okD(3) [OF ok m] set_bt_insert [OF sys_okD(2) [OF ok m]] by fastforce
    then have "sys_ok s'" unfolding s' by (rule sys_ok_shard [OF sys_ok_new_entry [OF ok] wf])
    moreover have "find_entry k s' = Some i"
      using sys_okD(1) [OF ok] sys_okD(2) [OF ok m] lock_shard_less
      by (simp add: s' i find_entry_def bt_get_insert)
    ultimately show ?thesis using s' i by simp
  qed
  then show "sys_ok s'" "i < length (arena s')" "find_entry k s' = Some i"
    "length (arena s) \<le> length (arena s')" "threads s' = threads s" by blast+
qed

subsection \<open>Every step keeps the invariant\<close>

lemma pc_ok_simps [simp]:
  "pc_ok s PIdle" "pc_ok s (PDone res)"
  "pc_ok s (PLookup k r b) = req_ok r"
  "pc_ok s (PEnd r res) = req_ok r"
  "pc_ok s (PApply i r) = (req_ok r \<and> i < length (arena s))"
  "pc_ok s (PLoop i r) = (req_ok r \<and> i < length (arena s))"
  "pc_ok s (PTry i r) = (req_ok r \<and> i < length (arena s))"
  "pc_ok s (PWakeAll i) = (i < length (arena s))"
  "pc_ok s (PCond i r b) = (req_ok r \<and> i < length (arena s))"
  "pc_ok s (PGraph i r b n) = (req_ok r \<and> i < length (arena s))"
  "pc_ok s (PRegister i r) = (req_ok r \<and> i < length (arena s))"
  "pc_ok s (PSleep i r) = (req_ok r \<and> i < length (arena s))"
  "pc_ok s (PFinish i r res) = (req_ok r \<and> i < length (arena s))"
  by (simp_all add: pc_ok_def)

lemma pc_ok_next [simp]:
  "i < length (arena s) \<Longrightarrow> pc_ok s (after_apply i r)"
  "req_ok r \<Longrightarrow> i < length (arena s) \<Longrightarrow> pc_ok s (leave_wait i r b res)"
  "req_ok r \<Longrightarrow> i < length (arena s) \<Longrightarrow> pc_ok s (not_ready i r b)"
  by (simp_all add: after_apply_def leave_wait_def not_ready_def)

lemma cond_state_ok:
  assumes "sys_ok s" "req_ok r" "i < length (arena s)"
  shows "sys_ok (cond_state t i r b s)"
  using entry_apply_ok [OF assms(1,3,2)] assms(2,3)
  by (auto simp: cond_state_def intro!: sys_ok_set_pc split: prod.splits bool.splits option.splits)

lemma cond_graph_ok:
  assumes "sys_ok s" "req_ok r" "i < length (arena s)"
  shows "sys_ok (cond_graph t i r b bid s)"
  using assms by (auto simp: cond_graph_def Let_def intro!: sys_ok_set_pc)

lemma lock_run_ok:
  assumes ok: "sys_ok s"
  shows "sys_ok (lock_run t s)"
proof (cases "threads s t")
  case (PLookup k r b)
  obtain i s' where g: "get_or_insert_entry k s = (i, s')" by (rule prod.exhaust)
  have "req_ok r" using sys_okD(5) [OF ok, of t] PLookup by simp
  then show ?thesis using get_or_insert_ok [OF ok g]
    by (auto simp: lock_run_def PLookup g intro!: sys_ok_set_pc)
next
  case (PApply i r)
  obtain b s' where e: "entry_apply i r s = (b, s')" by (rule prod.exhaust)
  have p: "i < length (arena s)" "req_ok r" using sys_okD(5) [OF ok, of t] PApply by simp_all
  show ?thesis using entry_apply_ok [OF ok p e] p
    by (auto simp: lock_run_def PApply e intro!: sys_ok_set_pc)
next
  case (PTry i r)
  obtain b s' where e: "entry_apply i r s = (b, s')" by (rule prod.exhaust)
  have p: "i < length (arena s)" "req_ok r" using sys_okD(5) [OF ok, of t] PTry by simp_all
  show ?thesis using entry_apply_ok [OF ok p e] p
    by (auto simp: lock_run_def PTry e intro!: sys_ok_set_pc)
next
  case (PCond i r b)
  then show ?thesis using cond_state_ok [OF ok] sys_okD(5) [OF ok, of t] by (simp add: lock_run_def)
next
  case (PGraph i r b n)
  then show ?thesis using cond_graph_ok [OF ok] sys_okD(5) [OF ok, of t] by (simp add: lock_run_def)
qed (use ok sys_okD(5) [OF ok, of t] in
  \<open>auto simp: lock_run_def intro!: sys_ok_set_pc sys_ok_set_waitq\<close>)

lemma lock_call_ok: "sys_ok s \<Longrightarrow> sys_ok (lock_call t f owner fl b s)"
  by (auto simp: lock_call_def prepare_set_def req_ok_def intro!: sys_ok_set_pc
    dest: resolve_range_ok split: lock_pc.splits sum.splits prod.splits)

lemma lock_signal_ok: "sys_ok s \<Longrightarrow> sys_ok (lock_signal t s)"
  using sys_okD(5) [of s t] by (auto simp: lock_signal_def intro!: sys_ok_set_pc split: lock_pc.splits)

lemma lock_return_ok: "sys_ok s \<Longrightarrow> sys_ok (lock_return t s)"
  by (auto simp: lock_return_def intro!: sys_ok_set_pc split: lock_pc.splits)

lemma release_where_ok:
  assumes ok: "sys_ok s"
  shows "sys_ok (release_where P k s)"
proof (cases "find_entry k s")
  case (Some i)
  have i: "i < length (arena s)" by (rule find_entry_less [OF ok Some])
  define kept where "kept = filter (\<lambda>r. \<not> P (lk_owner r)) (en_records (arena s ! i))"
  define s1 where "s1 = set_records i kept s"
  define s2 where "s2 = (if length kept < length (en_records (arena s ! i)) then set_waitq i [] s1 else s1)"
  have "sys_ok s1"
    unfolding s1_def kept_def
    by (rule sys_ok_set_records [OF ok filter_records_ok [OF sys_okD(4) [OF ok nth_mem [OF i]]]])
  then have ok2: "sys_ok s2" using i by (simp add: s2_def sys_ok_set_waitq s1_def)
  have m: "ls_shards s2 ! lock_shard k \<in> set (ls_shards s2)"
    using sys_okD(1) [OF ok2] lock_shard_less by simp
  have "sys_ok (s2\<lparr>ls_shards := (ls_shards s2)[lock_shard k := bt_remove k (ls_shards s2 ! lock_shard k)]\<rparr>)"
    by (rule sys_ok_shard [OF ok2]) (use sys_okD(2,3) [OF ok2 m] in auto)
  moreover have "release_where P k s = (if kept = []
      then s2\<lparr>ls_shards := (ls_shards s2)[lock_shard k := bt_remove k (ls_shards s2 ! lock_shard k)]\<rparr>
      else s2)"
    unfolding release_where_def Some option.case Let_def s2_def s1_def kept_def by (rule refl)
  ultimately show ?thesis using ok2 by simp
qed (simp add: release_where_def ok)

lemma lock_do_ok: "sys_ok s \<Longrightarrow> sys_ok (lock_do e s)"
  by (cases e) (simp_all add: lock_call_ok lock_run_ok lock_signal_ok lock_return_ok
    release_posix_for_owner_def release_ofd_for_file_def release_where_ok)

lemma init_ok: "sys_ok init_posix_lock_manager"
  by (simp add: sys_ok_def init_posix_lock_manager_def SHARDS_def)

interpretation lock_events: event_system lock_do init_posix_lock_manager "\<lambda>e. True" sys_ok
  by unfold_locales (rule init_ok, rule lock_do_ok)

lemma lock_trace_ok: "sys_ok (lock_trace es)"
  unfolding lock_trace_def by (rule lock_events.good_trace) (simp add: list_all_iff)

subsection \<open>Entries and keys\<close>

text \<open>
  Without closes the shard maps lose no entry: every entry ever made is the one that exactly one
  key leads to.
\<close>

fun is_release :: "lock_event \<Rightarrow> bool" where
  "is_release (ReleasePosix f i) = True"
| "is_release (ReleaseOfd f) = True"
| "is_release e = False"

definition no_orphans :: "lock_sys \<Rightarrow> bool" where
  "no_orphans s \<longleftrightarrow> (\<forall>i < length (arena s). \<exists>!k. find_entry k s = Some i)"

lemma find_entry_cong: "ls_shards s = ls_shards s' \<Longrightarrow> find_entry k s = find_entry k s'"
  by (simp add: find_entry_def)

lemma no_orphans_cong:
  "ls_shards s' = ls_shards s \<Longrightarrow> length (arena s') = length (arena s) \<Longrightarrow>
     no_orphans s \<Longrightarrow> no_orphans s'"
  by (simp add: no_orphans_def find_entry_cong [of s' s])

lemma find_entry_insert:
  assumes ok: "sys_ok s" and n: "find_entry k s = None"
    and g: "get_or_insert_entry k s = (i, s')"
  shows "find_entry j s' = (if j = k then Some (length (arena s)) else find_entry j s)"
proof -
  have m: "ls_shards s ! lock_shard k \<in> set (ls_shards s)"
    using sys_okD(1) [OF ok] lock_shard_less by simp
  show ?thesis
    using g n sys_okD(1) [OF ok] sys_okD(2) [OF ok m] lock_shard_less
    by (auto simp: get_or_insert_entry_def find_entry_def nth_list_update bt_get_insert)
qed

lemma get_or_insert_no_orphans:
  assumes ok: "sys_ok s" and no: "no_orphans s" and g: "get_or_insert_entry k s = (i, s')"
  shows "no_orphans s'"
proof (cases "find_entry k s")
  case (Some j)
  then show ?thesis using g no by (simp add: get_or_insert_entry_def)
next
  case None
  have len: "length (arena s') = Suc (length (arena s))"
    using g None by (auto simp: get_or_insert_entry_def)
  note f = find_entry_insert [OF ok None g]
  have fresh: "find_entry j s \<noteq> Some (length (arena s))" for j using find_entry_less [OF ok] by blast
  have "\<exists>!j. find_entry j s' = Some x" if "x < length (arena s')" for x
  proof (cases "x = length (arena s)")
    case True
    then show ?thesis using fresh by (auto simp: f)
  next
    case False
    then have "\<exists>!j. find_entry j s = Some x" using that no len by (simp add: no_orphans_def)
    then show ?thesis using False None unfolding f by (metis option.distinct(1) option.inject)
  qed
  then show ?thesis by (simp add: no_orphans_def)
qed

lemma entry_apply_frame:
  "ls_shards (snd (entry_apply i r s)) = ls_shards s"
  "length (arena (snd (entry_apply i r s))) = length (arena s)"
  by (simp_all add: entry_apply_def set_records_def case_prod_beta)

lemma lock_run_no_orphans:
  assumes ok: "sys_ok s" and no: "no_orphans s"
  shows "no_orphans (lock_run t s)"
proof (cases "\<exists>k r b. threads s t = PLookup k r b")
  case True
  then obtain k r b where p: "threads s t = PLookup k r b" by blast
  obtain i s' where g: "get_or_insert_entry k s = (i, s')" by (rule prod.exhaust)
  have "no_orphans s'" by (rule get_or_insert_no_orphans [OF ok no g])
  then show ?thesis
    by (rule no_orphans_cong [rotated 2]) (simp_all add: lock_run_def p g set_pc_def)
next
  case False
  have "ls_shards (lock_run t s) = ls_shards s \<and> length (arena (lock_run t s)) = length (arena s)"
    using False entry_apply_frame
    by (auto simp: lock_run_def set_pc_def set_waitq_def cond_state_def cond_graph_def Let_def
      case_prod_beta split: lock_pc.splits option.splits prod.splits bool.splits)
  then show ?thesis using no no_orphans_cong by blast
qed

lemma init_no_orphans: "no_orphans init_posix_lock_manager"
  by (simp add: no_orphans_def init_posix_lock_manager_def)

lemma lock_do_no_orphans:
  assumes "\<not> is_release e" "sys_ok s" "no_orphans s"
  shows "no_orphans (lock_do e s)"
proof (cases e)
  case (Run t)
  then show ?thesis using lock_run_no_orphans [OF assms(2,3)] by simp
qed (use assms in \<open>auto simp: lock_call_def lock_signal_def lock_return_def set_pc_def
  intro: no_orphans_cong [rotated 2] split: lock_pc.splits sum.splits\<close>)

interpretation quiet_events: event_system lock_do init_posix_lock_manager
  "\<lambda>e. \<not> is_release e" "\<lambda>s. sys_ok s \<and> no_orphans s"
  by unfold_locales (auto simp: init_ok init_no_orphans lock_do_ok lock_do_no_orphans)

lemma quiet_trace_no_orphans: "list_all (\<lambda>e. \<not> is_release e) es \<Longrightarrow> no_orphans (lock_trace es)"
  unfolding lock_trace_def using quiet_events.good_trace by blast

section \<open>Properties of the manager\<close>

subsection \<open>Evaluation of sample interleavings\<close>

definition whole_flock :: "int \<Rightarrow> int \<Rightarrow> int \<Rightarrow> PosixFlock" where
  "whole_flock t start len =
     \<lparr>l_type = t, l_whence = SEEK_SET, l_start = start, l_len = len, l_pid = 0\<rparr>"

definition set_now :: "nat \<Rightarrow> usize \<Rightarrow> int \<Rightarrow> int \<Rightarrow> int \<Rightarrow> lock_event list" where
  "set_now t oid ty start len =
     [Call t sample_lock_file (Posix oid 7) (whole_flock ty start len) False, Run t, Run t, Run t]"

definition set_wait :: "nat \<Rightarrow> usize \<Rightarrow> int \<Rightarrow> int \<Rightarrow> int \<Rightarrow> lock_event list" where
  "set_wait t oid ty start len =
     [Call t sample_lock_file (Posix oid 7) (whole_flock ty start len) True,
      Run t, Run t, Run t, Run t, Run t, Run t, Run t, Run t]"

lemma resolve_set:
  "0 \<le> a \<Longrightarrow> a < 1000 \<Longrightarrow> 0 < n \<Longrightarrow> n < 1000 \<Longrightarrow>
     resolve_range f (whole_flock t a n) = Inr (a, a + n - 1)"
  by (simp add: resolve_range_def range_base_def whole_flock_def SEEK_SET_def i128_checked_add_def
    as_i64_id I64_MAX_def I64_MIN_def)

lemma whole_flock_type: "l_type (whole_flock t a n) = t"
  by (simp add: whole_flock_def)

lemma prepare_sample:
  "0 \<le> a \<Longrightarrow> a < 1000 \<Longrightarrow> 0 < n \<Longrightarrow> n < 1000 \<Longrightarrow> t = F_RDLCK \<or> t = F_WRLCK \<or> t = F_UNLCK \<Longrightarrow>
     prepare_set sample_lock_file (Posix i p) (whole_flock t a n)
     = Inr \<lparr>rq_owner = Posix i p, rq_pid = p, rq_type = t, rq_start = a, rq_end = a + n - 1\<rparr>"
  by (auto simp: prepare_set_def resolve_set whole_flock_type validate_access_def
    sample_lock_file_def)

lemma sample_key: "from_file sample_lock_file = LockKey 2 7"
  by (simp add: from_file_def sample_lock_file_def)

lemmas lock_eval = lock_trace_def init_posix_lock_manager_def set_now_def set_wait_def Let_def
  lock_call_def prepare_sample sample_key lock_run_def set_pc_def get_or_insert_entry_def
  find_entry_def lock_shard_less bt_get_def entry_apply_def set_records_def set_waitq_def
  apply_lock_def lock_type_of_def remove_range_def coalesce_def trim_record_def blocks_def
  lock_conflict_def after_apply_def cond_state_def cond_graph_def leave_wait_def not_ready_def
  query_type_def owner_graph_id_def add_edge_def bt_remove_def lock_return_def lock_signal_def
  flock_consts i64_sat_add_def i64_sat_sub_def I64_MIN_def I64_MAX_def
  release_posix_for_owner_def release_where_def

subsection \<open>Exclusion\<close>

text \<open>
  C8. Locks of one entry are exclusive in every interleaving. Whatever the threads do in whatever
  order (lock, unlock, block, wake, get interrupted, return, and closes that release locks), in
  every entry ever made the records are nonempty ranges of representable offsets in order of
  their start, an owner has one type per byte, and a byte locked for writing by one owner is not
  locked by any other.
\<close>

theorem entries_stay_exclusive:
  assumes "i < length (arena (lock_trace es))"
  shows "records_ok (en_records (arena (lock_trace es) ! i))"
  by (rule sys_okD(4) [OF lock_trace_ok nth_mem [OF assms]])

theorem entries_stay_exclusive_witness:
  "0 < length (arena (lock_trace (set_now 2 2 F_WRLCK 0 10 @ set_now 3 3 F_RDLCK 5 10)))
   \<and> records_ok (en_records (arena (lock_trace (set_now 2 2 F_WRLCK 0 10 @ set_now 3 3 F_RDLCK 5 10)) ! 0))
   \<and> threads (lock_trace (set_now 2 2 F_WRLCK 0 10 @ set_now 3 3 F_RDLCK 5 10)) 3 = PDone (LockErr EAGAIN)"
proof -
  let ?s = "lock_trace (set_now 2 2 F_WRLCK 0 10 @ set_now 3 3 F_RDLCK 5 10)"
  have "length (arena ?s) = 1" and "threads ?s 3 = PDone (LockErr EAGAIN)"
    by (simp_all add: lock_eval)
  then show ?thesis using entries_stay_exclusive [of 0 "set_now 2 2 F_WRLCK 0 10 @ set_now 3 3 F_RDLCK 5 10"]
    by simp
qed


text \<open>
  C33. As long as no close releases locks, a file has one entry: every entry ever made is found
  under exactly one key, so all threads that lock a file, whenever they looked it up, meet in the
  same record list, and the exclusion of one entry is the exclusion of the file.
\<close>

theorem one_entry_per_file:
  assumes "list_all (\<lambda>e. \<not> is_release e) es" and "i < length (arena (lock_trace es))"
  shows "\<exists>!k. find_entry k (lock_trace es) = Some i"
  using quiet_trace_no_orphans [OF assms(1)] assms(2) by (simp add: no_orphans_def)

theorem one_entry_per_file_witness:
  "length (arena (lock_trace (set_now 2 2 F_WRLCK 0 10 @ set_wait 3 3 F_WRLCK 5 10))) = 1
   \<and> (\<exists>!k. find_entry k (lock_trace (set_now 2 2 F_WRLCK 0 10 @ set_wait 3 3 F_WRLCK 5 10)) = Some 0)"
proof -
  let ?es = "set_now 2 2 F_WRLCK 0 10 @ set_wait 3 3 F_WRLCK 5 10"
  have "length (arena (lock_trace ?es)) = 1" by (simp add: lock_eval)
  moreover have "list_all (\<lambda>e. \<not> is_release e) ?es" by (simp add: set_now_def set_wait_def)
  ultimately show ?thesis using one_entry_per_file [of ?es 0] by simp
qed

text \<open>
  An owner holds a write lock, a second one waits for it, the first closes the file, a third one
  asks for the same bytes, and the waiter runs.
\<close>

definition orphan_trace :: "lock_event list" where
  "orphan_trace =
     set_now 2 2 F_WRLCK 0 10 @ set_wait 3 3 F_WRLCK 0 10 @ [ReleasePosix sample_lock_file 2]
     @ set_now 4 4 F_WRLCK 0 10 @ [Run 3, Run 3, Run 3, Run 3, Run 3]"

text \<open>
  C34. A close while a waiter sleeps breaks exclusion. \<open>release_posix_for_owner\<close> removes the
  emptied entry from the shard map although the waiter still refers to it; the next request makes
  a new entry, and the waiter then takes its lock in the old one. Both calls return success and
  two owners hold a write lock on the same byte of the same file.
\<close>

theorem orphaned_entry_breaks_exclusion:
  "threads (lock_trace orphan_trace) 3 = PDone LockOk
   \<and> threads (lock_trace orphan_trace) 4 = PDone LockOk
   \<and> held (en_records (arena (lock_trace orphan_trace) ! 0)) (Posix 3 7) 5 = {LWrite}
   \<and> held (en_records (arena (lock_trace orphan_trace) ! 1)) (Posix 4 7) 5 = {LWrite}
   \<and> find_entry (from_file sample_lock_file) (lock_trace orphan_trace) = Some 1"
proof -
  let ?r = "\<lambda>i. \<lparr>lk_owner = Posix i 7, lk_owner_pid = 7, lock_type = LWrite, lk_start = 0, lk_end = 9\<rparr>"
  have "threads (lock_trace orphan_trace) 3 = PDone LockOk"
    "threads (lock_trace orphan_trace) 4 = PDone LockOk"
    by (simp_all add: orphan_trace_def lock_eval)
  moreover have "arena (lock_trace orphan_trace) =
      [\<lparr>en_records = [?r 3], en_waitq = []\<rparr>, \<lparr>en_records = [?r 4], en_waitq = []\<rparr>]"
    by (simp add: orphan_trace_def lock_eval)
  moreover have "find_entry (from_file sample_lock_file) (lock_trace orphan_trace) = Some 1"
    by (simp add: orphan_trace_def lock_eval)
  ultimately show ?thesis by (simp add: held_Cons)
qed

subsection \<open>Waking\<close>



subsection \<open>Deadlock detection\<close>

text \<open>
  C18. The deadlock search terminates and is exact for the graph it is given: started at the
  blocker, it answers yes if and only if the wait graph has a path from the blocker to the waiter.
\<close>

theorem deadlock_search_iff:
  "deadlock_search wg waiter [] [bid] \<longleftrightarrow> (bid, waiter) \<in> (wait_edges wg)\<^sup>*"
  using deadlock_search_reach [of waiter "[]" wg "[bid]"] by simp



subsection \<open>Queries\<close>

lemma resolve_report:
  assumes "0 \<le> lk_start r" "lk_start r \<le> lk_end r" "lk_end r \<le> I64_MAX"
  shows "resolve_range f (report_conflict r fl) = Inr (lk_start r, lk_end r)"
proof -
  have id: "as_i64 (lk_start r) = lk_start r" "as_i64 (lk_end r) = lk_end r"
    using assms by (auto intro!: as_i64_id simp: I64_MIN_def)
  show ?thesis
    using assms id
    by (auto simp: resolve_range_def range_base_def report_conflict_def i128_checked_add_def
      I64_MAX_def)
qed

text \<open>
  C37. F_GETLK tells the truth. In every reachable state, for a request of a read or write lock that
  resolves to a range of a file with an entry: the answer is F_UNLCK exactly when the same owner
  would be granted the lock; otherwise it describes a record of another owner that conflicts with
  the request, and the reported type, start and length, read back as a request, name the bytes of
  that record (unless the record starts before offset 0).
\<close>

theorem posix_lock_get_correct:
  assumes s: "s = lock_trace es" and i: "find_entry (from_file f) s = Some i"
    and rng: "resolve_range f fl = Inr (b, e)" and lt: "lock_type_of (l_type fl) = Some qt"
  shows "\<exists>fl'. posix_lock_get f owner fl s = Inr fl'
     \<and> (l_type fl' = F_UNLCK \<longleftrightarrow>
          fst (apply_lock (en_records (arena s ! i)) owner pid (l_type fl) b e))
     \<and> (l_type fl' \<noteq> F_UNLCK \<longrightarrow>
          (\<exists>r \<in> set (en_records (arena s ! i)). blocks owner qt b e r \<and> l_pid fl' = lk_owner_pid r
             \<and> lock_type_of (l_type fl') = Some (lock_type r)
             \<and> (0 \<le> lk_start r \<longrightarrow> resolve_range f fl' = Inr (lk_start r, lk_end r))))"
proof -
  let ?rs = "en_records (arena s ! i)"
  have ok: "sys_ok s" using lock_trace_ok s by simp
  have rs: "records_in_range ?rs"
    by (rule records_okD(1) [OF sys_okD(4) [OF ok nth_mem [OF find_entry_less [OF ok i]]]])
  have grant: "fst (apply_lock ?rs owner pid (l_type fl) b e) \<longleftrightarrow> \<not> list_ex (blocks owner qt b e) ?rs"
    using lt by (simp add: apply_lock_def)
  show ?thesis
  proof (cases "List.find (blocks owner qt b e) ?rs")
    case None
    then have "\<not> list_ex (blocks owner qt b e) ?rs" by (auto simp: find_None_iff list_ex_iff)
    then show ?thesis using None i rng lt grant by (simp add: posix_lock_get_def)
  next
    case (Some r)
    then have r: "r \<in> set ?rs" "blocks owner qt b e r" by (auto simp: find_Some_iff)
    then have "list_ex (blocks owner qt b e) ?rs" by (auto simp: list_ex_iff)
    moreover have "posix_lock_get f owner fl s = Inr (report_conflict r fl)"
      using Some i rng lt by (simp add: posix_lock_get_def)
    moreover have "lk_start r \<le> lk_end r" "lk_end r \<le> I64_MAX"
      using rs r(1) by (auto simp: records_in_range_def list_all_iff)
    moreover have "l_type (report_conflict r fl) \<noteq> F_UNLCK" "l_pid (report_conflict r fl) = lk_owner_pid r"
      "lock_type_of (l_type (report_conflict r fl)) = Some (lock_type r)"
      by (cases "lock_type r"; simp add: report_conflict_def flock_consts lock_type_of_def)+
    ultimately show ?thesis using r grant resolve_report by blast
  qed
qed

theorem posix_lock_get_correct_witness:
  "find_entry (from_file sample_lock_file) (lock_trace (set_now 2 2 F_WRLCK 0 10)) = Some 0
   \<and> posix_lock_get sample_lock_file (Posix 3 9) (whole_flock F_RDLCK 5 20)
      (lock_trace (set_now 2 2 F_WRLCK 0 10))
      = Inr \<lparr>l_type = F_WRLCK, l_whence = SEEK_SET, l_start = 0, l_len = 10, l_pid = 7\<rparr>
   \<and> \<not> fst (apply_lock (en_records (arena (lock_trace (set_now 2 2 F_WRLCK 0 10)) ! 0))
        (Posix 3 9) 9 F_RDLCK 5 24)"
proof -
  let ?s = "lock_trace (set_now 2 2 F_WRLCK 0 10)"
  have i: "find_entry (from_file sample_lock_file) ?s = Some 0" by (simp add: lock_eval)
  have rng: "resolve_range sample_lock_file (whole_flock F_RDLCK 5 20) = Inr (5, 24)"
    by (simp add: resolve_set)
  have ty: "lock_type_of (l_type (whole_flock F_RDLCK 5 20)) = Some LRead"
    by (simp add: whole_flock_type lock_type_of_def)
  have rs: "en_records (arena ?s ! 0) = [\<lparr>lk_owner = Posix 2 7, lk_owner_pid = 7,
      lock_type = LWrite, lk_start = 0, lk_end = 9\<rparr>]" by (simp add: lock_eval)
  have get: "posix_lock_get sample_lock_file (Posix 3 9) (whole_flock F_RDLCK 5 20) ?s
      = Inr \<lparr>l_type = F_WRLCK, l_whence = SEEK_SET, l_start = 0, l_len = 10, l_pid = 7\<rparr>"
    unfolding posix_lock_get_def ty i rng rs option.case sum.case prod.case
    by (simp add: blocks_def lock_conflict_def report_conflict_def whole_flock_def I64_MAX_def)
  show ?thesis
    using posix_lock_get_correct [OF refl i rng ty, of "Posix 3 9" 9] i get
    by (simp add: whole_flock_type F_WRLCK_def F_UNLCK_def)
qed

end
