(* ===== verification/PendingSignals.thy ===== *)
theory PendingSignals
  imports MmTypes EventSystem
begin

text \<open>
  Pending signals (\<open>os/src/task/signal/pending.rs\<close>) and the table of signal actions
  (\<open>os/src/task/signal/action.rs\<close>). A set of signals is the 64-bit word of the bitflags type
  \<open>Signals\<close> on RISC-V; a queue is the list of its items, oldest first, with the cached bitmap.
  The lemmas show that the bitmap is exact after any sequence of operations, that standard
  signals and timer events are merged, and what a dequeue returns and leaves.
\<close>

unbundle bit_operations_syntax

section \<open>Signal sets\<close>

type_synonym Signals = u64

definition sig_contains :: "Signals \<Rightarrow> Signals \<Rightarrow> bool" where
  "sig_contains a b = (a AND b = b)"

definition sig_insert :: "Signals \<Rightarrow> Signals \<Rightarrow> Signals" where
  "sig_insert a b = a OR b"

definition sig_remove :: "Signals \<Rightarrow> Signals \<Rightarrow> Signals" where
  "sig_remove a b = a AND NOT b"

definition set_bits_of :: "Signals \<Rightarrow> nat list" where
  "set_bits_of s = filter (bit s) [0..<64]"

definition from_signum :: "usize \<Rightarrow> Signals option" where
  "from_signum n =
     (if n = 0 then Some 0 else if n \<le> 64 then Some (push_bit (n - 1) 1) else None)"

definition to_signum :: "Signals \<Rightarrow> usize option" where
  "to_signum s = (case set_bits_of s of [n] \<Rightarrow> Some (n + 1) | _ \<Rightarrow> None)"

definition SIGKILL :: Signals where "SIGKILL = push_bit 8 1"

section \<open>Pending signals\<close>

record SigInfo =
  si_signo :: u32
  si_errno :: u32
  si_code :: u32
  si_pid :: u32
  si_uid :: u32
  si_value :: usize

definition new_with_sender_value ::
  "usize \<Rightarrow> usize \<Rightarrow> usize \<Rightarrow> usize \<Rightarrow> usize \<Rightarrow> SigInfo" where
  "new_with_sender_value signo err code pid value =
     \<lparr>si_signo = word_of_nat signo, si_errno = word_of_nat err, si_code = word_of_nat code,
      si_pid = word_of_nat pid, si_uid = 0, si_value = value\<rparr>"

record PosixTimerEventId =
  te_timer_id :: usize
  te_instance_seq :: u64

record PendingSignal =
  ps_signal :: Signals
  ps_siginfo :: SigInfo
  ps_timer_event :: "PosixTimerEventId option"

definition pending_new_with_sender ::
  "usize \<Rightarrow> usize \<Rightarrow> usize \<Rightarrow> usize \<Rightarrow> errno + PendingSignal" where
  "pending_new_with_sender signum err code pid =
     (case from_signum signum of
        None \<Rightarrow> Inl EINVAL
      | Some s \<Rightarrow> Inr \<lparr>ps_signal = s, ps_siginfo = new_with_sender_value signum err code pid 0,
                       ps_timer_event = None\<rparr>)"

definition pending_from_signal_with_sender ::
  "Signals \<Rightarrow> usize \<Rightarrow> usize \<Rightarrow> errno + PendingSignal" where
  "pending_from_signal_with_sender s code pid =
     (case to_signum s of
        None \<Rightarrow> Inl EINVAL
      | Some n \<Rightarrow> pending_new_with_sender n 0 code pid)"

definition is_realtime_signal :: "Signals \<Rightarrow> bool" where
  "is_realtime_signal s = (case to_signum s of None \<Rightarrow> False | Some n \<Rightarrow> n \<ge> 32)"

definition MAX_QUEUED_SIGNALS :: usize where "MAX_QUEUED_SIGNALS = 64"

record SignalQueue =
  sq_bitmap :: Signals
  sq_queue :: "PendingSignal list"

definition sq_empty :: SignalQueue where
  "sq_empty = \<lparr>sq_bitmap = 0, sq_queue = []\<rparr>"

definition sq_enqueue :: "PendingSignal \<Rightarrow> SignalQueue \<Rightarrow> (errno + unit) \<times> SignalQueue" where
  "sq_enqueue p q =
     (if ps_signal p = 0 then (Inr (), q)
      else if (case ps_timer_event p of
                 Some ev \<Rightarrow> list_ex (\<lambda>x. ps_timer_event x = Some ev) (sq_queue q)
               | None \<Rightarrow> \<not> is_realtime_signal (ps_signal p) \<and> sig_contains (sq_bitmap q) (ps_signal p))
      then (Inr (), q)
      else if ps_timer_event p = None \<and> length (sq_queue q) \<ge> MAX_QUEUED_SIGNALS
      then (Inl EAGAIN, q)
      else (Inr (), q\<lparr>sq_bitmap := sig_insert (sq_bitmap q) (ps_signal p),
                      sq_queue := sq_queue q @ [p]\<rparr>))"

definition enqueue_signal_with_sender ::
  "Signals \<Rightarrow> usize \<Rightarrow> usize \<Rightarrow> SignalQueue \<Rightarrow> (errno + unit) \<times> SignalQueue" where
  "enqueue_signal_with_sender s code pid q =
     (if s = 0 then (Inr (), q)
      else (case pending_from_signal_with_sender s code pid of
              Inl e \<Rightarrow> (Inl e, q)
            | Inr p \<Rightarrow> sq_enqueue p q))"

definition refresh_bitmap_for :: "Signals \<Rightarrow> SignalQueue \<Rightarrow> SignalQueue" where
  "refresh_bitmap_for s q =
     (if \<not> list_ex (\<lambda>p. ps_signal p = s) (sq_queue q)
      then q\<lparr>sq_bitmap := sig_remove (sq_bitmap q) s\<rparr> else q)"

text \<open>\<open>position\<close> followed by \<open>remove\<close>: the first item that satisfies the test, and the others.\<close>

fun extract_first :: "('a \<Rightarrow> bool) \<Rightarrow> 'a list \<Rightarrow> ('a \<times> 'a list) option" where
  "extract_first P [] = None"
| "extract_first P (x # xs) =
     (if P x then Some (x, xs)
      else (case extract_first P xs of None \<Rightarrow> None | Some (y, ys) \<Rightarrow> Some (y, x # ys)))"

definition dequeue_matching :: "Signals \<Rightarrow> SignalQueue \<Rightarrow> PendingSignal option \<times> SignalQueue" where
  "dequeue_matching wanted q =
     (case extract_first (\<lambda>p. sig_contains wanted (ps_signal p)) (sq_queue q) of
        None \<Rightarrow> (None, q)
      | Some (p, rest) \<Rightarrow> (Some p, refresh_bitmap_for (ps_signal p) (q\<lparr>sq_queue := rest\<rparr>)))"

definition remove_signal :: "Signals \<Rightarrow> SignalQueue \<Rightarrow> bool \<times> SignalQueue" where
  "remove_signal s q =
     (case extract_first (\<lambda>p. ps_signal p = s) (sq_queue q) of
        None \<Rightarrow> (False, q)
      | Some (p, rest) \<Rightarrow> (True, refresh_bitmap_for s (q\<lparr>sq_queue := rest\<rparr>)))"

definition remove_timer_event :: "PosixTimerEventId \<Rightarrow> SignalQueue \<Rightarrow> bool \<times> SignalQueue" where
  "remove_timer_event ev q =
     (case extract_first (\<lambda>p. ps_timer_event p = Some ev) (sq_queue q) of
        None \<Rightarrow> (False, q)
      | Some (p, rest) \<Rightarrow> (True, refresh_bitmap_for (ps_signal p) (q\<lparr>sq_queue := rest\<rparr>)))"

definition rebuild_bitmap :: "SignalQueue \<Rightarrow> SignalQueue" where
  "rebuild_bitmap q = q\<lparr>sq_bitmap := fold (\<lambda>p b. sig_insert b (ps_signal p)) (sq_queue q) 0\<rparr>"

definition remove_signals :: "Signals \<Rightarrow> SignalQueue \<Rightarrow> SignalQueue" where
  "remove_signals s q =
     rebuild_bitmap (q\<lparr>sq_queue := filter (\<lambda>p. \<not> sig_contains s (ps_signal p)) (sq_queue q)\<rparr>)"

section \<open>Signal actions\<close>

record SigAction =
  sa_handler :: usize
  sa_flags :: usize
  sa_restorer :: usize
  sa_mask :: Signals

definition SIG_DFL :: usize where "SIG_DFL = 0"
definition SIG_IGN :: usize where "SIG_IGN = 1"

type_synonym Sighand = "SigAction option list"

definition sighand_get :: "Sighand \<Rightarrow> usize \<Rightarrow> SigAction option" where
  "sighand_get t signum =
     (case checked_sub signum 1 of
        None \<Rightarrow> None
      | Some i \<Rightarrow> (if i < length t then t ! i else None))"

definition sighand_set :: "Sighand \<Rightarrow> usize \<Rightarrow> SigAction option \<Rightarrow> Sighand" where
  "sighand_set t signum a =
     (let i = saturating_sub signum 1;
          t = (if i \<ge> length t then t @ replicate (i + 1 - length t) None else t)
      in t[i := a])"

definition reset_for_exec :: "Sighand \<Rightarrow> Sighand" where
  "reset_for_exec t =
     map (\<lambda>a. case a of
           Some x \<Rightarrow> if sa_handler x \<noteq> SIG_IGN then None else a
         | None \<Rightarrow> None) t"

section \<open>Sets and single signals\<close>

definition single :: "Signals \<Rightarrow> bool" where
  "single s \<longleftrightarrow> (\<exists>n < 64. s = 2 ^ n)"

lemma bit_single: "n < 64 \<Longrightarrow> bit (2 ^ n :: u64) m \<longleftrightarrow> m = n"
  by (auto simp: bit_exp_iff)

lemma single_nonzero: "single s \<Longrightarrow> s \<noteq> 0"
  by (auto simp: single_def)

lemma contains_bits: "sig_contains a b \<longleftrightarrow> (\<forall>m. bit b m \<longrightarrow> bit a m)"
proof
  assume "\<forall>m. bit b m \<longrightarrow> bit a m"
  then show "sig_contains a b"
    unfolding sig_contains_def by (intro bit_word_eqI) (auto simp: bit_and_iff)
qed (metis sig_contains_def bit_and_iff)

lemma contains_single: "n < 64 \<Longrightarrow> sig_contains a (2 ^ n) \<longleftrightarrow> bit a n"
  by (simp add: contains_bits bit_single)

lemma single_eqI: "single s \<Longrightarrow> single t \<Longrightarrow> bit s n \<Longrightarrow> bit t n \<Longrightarrow> s = t"
  unfolding single_def using bit_single by metis

lemma contains_iff_bit: "single s \<Longrightarrow> bit s n \<Longrightarrow> sig_contains a s \<longleftrightarrow> bit a n"
  by (auto simp: single_def bit_single contains_single)

lemma set_bits_single: "n < 64 \<Longrightarrow> set_bits_of (2 ^ n) = [n]"
proof -
  assume n: "n < 64"
  then have f: "set_bits_of (2 ^ n) = filter (\<lambda>m. m = n) [0..<64]"
    unfolding set_bits_of_def by (intro filter_cong refl) (simp add: bit_single)
  have "[0..<64] = [0..<n] @ n # [Suc n..<64]"
    using n upt_add_eq_append [of 0 n "64 - n"] upt_conv_Cons [of n 64] by simp
  then show ?thesis unfolding f by (simp del: upt_rec_numeral)
qed

lemma to_signum_exp: "n < 64 \<Longrightarrow> to_signum (2 ^ n) = Some (n + 1)"
  by (simp add: to_signum_def set_bits_single)

section \<open>The invariant of a queue\<close>

definition std_items :: "PendingSignal list \<Rightarrow> PendingSignal list" where
  "std_items = filter (\<lambda>p. ps_timer_event p = None \<and> \<not> is_realtime_signal (ps_signal p))"

definition timer_items :: "PendingSignal list \<Rightarrow> PendingSignal list" where
  "timer_items = filter (\<lambda>p. ps_timer_event p \<noteq> None)"

text \<open>
  Every item is one signal; the bitmap has exactly the queued signals; a timer has one item; a
  standard signal that no timer sent has one item; at most \<open>MAX_QUEUED_SIGNALS\<close> items do not
  belong to a timer.
\<close>

definition sq_inv :: "SignalQueue \<Rightarrow> bool" where
  "sq_inv q \<longleftrightarrow>
     (\<forall>p \<in> set (sq_queue q). single (ps_signal p))
     \<and> (\<forall>n. bit (sq_bitmap q) n \<longleftrightarrow> (\<exists>p \<in> set (sq_queue q). bit (ps_signal p) n))
     \<and> distinct (map ps_timer_event (timer_items (sq_queue q)))
     \<and> distinct (map ps_signal (std_items (sq_queue q)))
     \<and> length (filter (\<lambda>p. ps_timer_event p = None) (sq_queue q)) \<le> MAX_QUEUED_SIGNALS"

lemma sq_invD:
  assumes "sq_inv q"
  shows "p \<in> set (sq_queue q) \<Longrightarrow> single (ps_signal p)"
    and "bit (sq_bitmap q) n \<longleftrightarrow> (\<exists>p \<in> set (sq_queue q). bit (ps_signal p) n)"
  using assms unfolding sq_inv_def by blast+

lemma extract_first_None: "extract_first P xs = None \<longleftrightarrow> (\<forall>x \<in> set xs. \<not> P x)"
  by (induction xs) (auto split: option.splits)

lemma extract_first_Some:
  "extract_first P xs = Some (y, ys) \<Longrightarrow>
     \<exists>us vs. xs = us @ y # vs \<and> ys = us @ vs \<and> P y \<and> (\<forall>u \<in> set us. \<not> P u)"
proof (induction xs arbitrary: ys)
  case (Cons x xs)
  show ?case
  proof (cases "P x")
    case True
    then show ?thesis by (intro exI [of _ "[]"] exI [of _ xs]) (use Cons.prems in auto)
  next
    case False
    then obtain zs where z: "extract_first P xs = Some (y, zs)" "ys = x # zs"
      using Cons.prems by (auto split: option.splits)
    obtain us vs where "xs = us @ y # vs" "zs = us @ vs" "P y" "\<forall>u \<in> set us. \<not> P u"
      using Cons.IH [OF z(1)] by blast
    then show ?thesis by (intro exI [of _ "x # us"] exI [of _ vs]) (use z(2) False in auto)
  qed
qed simp

lemma sq_inv_remove:
  assumes ok: "sq_inv q" and q: "sq_queue q = us @ p # vs"
  shows "sq_inv (refresh_bitmap_for (ps_signal p) (q\<lparr>sq_queue := us @ vs\<rparr>))"
    and "sq_queue (refresh_bitmap_for (ps_signal p) (q\<lparr>sq_queue := us @ vs\<rparr>)) = us @ vs"
proof -
  let ?q = "refresh_bitmap_for (ps_signal p) (q\<lparr>sq_queue := us @ vs\<rparr>)"
  show que: "sq_queue ?q = us @ vs" by (simp add: refresh_bitmap_for_def)
  have one: "single (ps_signal x)" if "x \<in> set (us @ p # vs)" for x using sq_invD(1) [OF ok] q that by simp
  have bits: "bit (sq_bitmap ?q) n \<longleftrightarrow> (\<exists>x \<in> set (us @ vs). bit (ps_signal x) n)" for n
  proof (cases "\<exists>x \<in> set (us @ vs). ps_signal x = ps_signal p")
    case True
    then have "sq_bitmap ?q = sq_bitmap q" by (auto simp: refresh_bitmap_for_def list_ex_iff)
    moreover have "bit (ps_signal p) n \<longrightarrow> (\<exists>x \<in> set (us @ vs). bit (ps_signal x) n)" using True by metis
    ultimately show ?thesis using sq_invD(2) [OF ok, of n] q by auto
  next
    case False
    then have "sq_bitmap ?q = sig_remove (sq_bitmap q) (ps_signal p)"
      by (auto simp: refresh_bitmap_for_def list_ex_iff)
    moreover have "\<not> bit (ps_signal p) n" if "x \<in> set (us @ vs)" "bit (ps_signal x) n" for x
      using that False single_eqI [OF one [of x] one [of p]] by auto
    ultimately show ?thesis using sq_invD(2) [OF ok, of n] q
      by (auto simp: sig_remove_def bit_and_iff bit_not_iff)
        (auto simp: bit_imp_possible_bit dest: bit_imp_possible_bit)
  qed
  have tm: "distinct (map ps_timer_event (timer_items (us @ vs)))"
    and st: "distinct (map ps_signal (std_items (us @ vs)))"
    and ln: "length (filter (\<lambda>p. ps_timer_event p = None) (us @ vs)) \<le> MAX_QUEUED_SIGNALS"
    using ok q unfolding sq_inv_def timer_items_def std_items_def
    by (auto split: if_splits)
  show "sq_inv ?q" unfolding sq_inv_def que using one bits tm st ln by auto
qed

lemma is_realtime_exp: "n < 64 \<Longrightarrow> is_realtime_signal (2 ^ n) \<longleftrightarrow> 31 \<le> n"
  by (simp add: is_realtime_signal_def to_signum_exp)

lemma sq_inv_enqueue:
  assumes ok: "sq_inv q" and p: "ps_signal p = 0 \<or> single (ps_signal p)"
  shows "sq_inv (snd (sq_enqueue p q))"
proof (cases "snd (sq_enqueue p q) = q")
  case False
  let ?q = "q\<lparr>sq_bitmap := sig_insert (sq_bitmap q) (ps_signal p), sq_queue := sq_queue q @ [p]\<rparr>"
  have q: "snd (sq_enqueue p q) = ?q" and nz: "ps_signal p \<noteq> 0"
    and new: "\<not> (case ps_timer_event p of
                 Some ev \<Rightarrow> list_ex (\<lambda>x. ps_timer_event x = Some ev) (sq_queue q)
               | None \<Rightarrow> \<not> is_realtime_signal (ps_signal p) \<and> sig_contains (sq_bitmap q) (ps_signal p))"
    and room: "ps_timer_event p = None \<Longrightarrow> length (sq_queue q) < MAX_QUEUED_SIGNALS"
    using False unfolding sq_enqueue_def by (auto split: if_splits)
  have one: "single (ps_signal p)" using p nz by blast
  have tm: "ps_timer_event p \<notin> ps_timer_event ` set (timer_items (sq_queue q))" if "ps_timer_event p \<noteq> None"
    using new that by (auto simp: list_ex_iff timer_items_def)
  have st: "ps_signal p \<notin> ps_signal ` set (std_items (sq_queue q))"
    if std: "ps_timer_event p = None" "\<not> is_realtime_signal (ps_signal p)"
  proof -
    obtain n where "ps_signal p = 2 ^ n" "n < 64" using one by (auto simp: single_def)
    then have "bit (ps_signal p) n" "\<not> bit (sq_bitmap q) n"
      using new std by (simp_all add: bit_single contains_single)
    then show ?thesis using sq_invD(2) [OF ok, of n] by (auto simp: std_items_def)
  qed
  have "length (filter (\<lambda>p. ps_timer_event p = None) (sq_queue ?q)) \<le> MAX_QUEUED_SIGNALS"
    using room ok le_less_trans [OF length_filter_le [of "\<lambda>p. ps_timer_event p = None" "sq_queue q"]]
    by (auto simp: sq_inv_def Suc_le_eq)
  moreover have "distinct (map ps_timer_event (timer_items (sq_queue ?q)))"
    using tm ok by (auto simp: sq_inv_def timer_items_def)
  moreover have "distinct (map ps_signal (std_items (sq_queue ?q)))"
    using st ok by (auto simp: sq_inv_def std_items_def)
  ultimately show ?thesis
    unfolding q using ok one by (auto simp: sq_inv_def sig_insert_def bit_or_iff)
qed (simp add: ok)

lemma bit_fold_insert:
  "bit (fold (\<lambda>p b. sig_insert b (ps_signal p)) ps b0) n \<longleftrightarrow>
     bit b0 n \<or> (\<exists>p \<in> set ps. bit (ps_signal p) n)"
  by (induction ps arbitrary: b0) (auto simp: sig_insert_def bit_or_iff)

lemma sq_inv_remove_signals:
  assumes ok: "sq_inv q"
  shows "sq_inv (remove_signals s q)"
proof -
  let ?xs = "filter (\<lambda>p. \<not> sig_contains s (ps_signal p)) (sq_queue q)"
  have que: "sq_queue (remove_signals s q) = ?xs"
    by (simp add: remove_signals_def rebuild_bitmap_def)
  have "bit (sq_bitmap (remove_signals s q)) n \<longleftrightarrow> (\<exists>p \<in> set ?xs. bit (ps_signal p) n)" for n
    by (simp add: remove_signals_def rebuild_bitmap_def bit_fold_insert)
  moreover have "distinct (map ps_timer_event (timer_items ?xs))"
    using ok distinct_map_filter [of ps_timer_event "timer_items (sq_queue q)"]
    by (simp add: sq_inv_def timer_items_def filter_filter conj_commute)
  moreover have "distinct (map ps_signal (std_items ?xs))"
    using ok distinct_map_filter [of ps_signal "std_items (sq_queue q)" "\<lambda>p. \<not> sig_contains s (ps_signal p)"]
    by (simp add: sq_inv_def std_items_def filter_filter conj_ac)
  moreover have "length (filter (\<lambda>p. ps_timer_event p = None) ?xs) \<le> MAX_QUEUED_SIGNALS"
  proof -
    have "filter (\<lambda>p. ps_timer_event p = None) ?xs =
        filter (\<lambda>p. \<not> sig_contains s (ps_signal p)) (filter (\<lambda>p. ps_timer_event p = None) (sq_queue q))"
      by (simp add: filter_filter conj_commute)
    then show ?thesis using ok length_filter_le order_trans unfolding sq_inv_def by metis
  qed
  ultimately show ?thesis using ok unfolding sq_inv_def que by auto
qed

lemma sq_inv_dequeue: "sq_inv q \<Longrightarrow> sq_inv (snd (dequeue_matching wanted q))"
  using sq_inv_remove(1)
  by (auto simp: dequeue_matching_def split: option.splits dest!: extract_first_Some)

lemma sq_inv_remove_signal: "sq_inv q \<Longrightarrow> sq_inv (snd (remove_signal s q))"
  using sq_inv_remove(1)
  by (auto simp: remove_signal_def split: option.splits dest!: extract_first_Some)

lemma sq_inv_remove_timer: "sq_inv q \<Longrightarrow> sq_inv (snd (remove_timer_event ev q))"
  using sq_inv_remove(1)
  by (auto simp: remove_timer_event_def split: option.splits dest!: extract_first_Some)

datatype sq_event =
    Enqueue PendingSignal
  | Dequeue Signals
  | RemoveSignal Signals
  | RemoveTimer PosixTimerEventId
  | RemoveSignals Signals

fun sq_do :: "sq_event \<Rightarrow> SignalQueue \<Rightarrow> SignalQueue" where
  "sq_do (Enqueue p) q = snd (sq_enqueue p q)"
| "sq_do (Dequeue wanted) q = snd (dequeue_matching wanted q)"
| "sq_do (RemoveSignal s) q = snd (remove_signal s q)"
| "sq_do (RemoveTimer ev) q = snd (remove_timer_event ev q)"
| "sq_do (RemoveSignals s) q = remove_signals s q"

text \<open>The callers enqueue one signal at a time.\<close>

fun sq_allowed :: "sq_event \<Rightarrow> bool" where
  "sq_allowed (Enqueue p) = (ps_signal p = 0 \<or> to_signum (ps_signal p) \<noteq> None)"
| "sq_allowed e = True"

lemma to_signum_single: "to_signum s \<noteq> None \<longleftrightarrow> single s"
proof
  assume "to_signum s \<noteq> None"
  then obtain n where n: "set_bits_of s = [n]" by (auto simp: to_signum_def split: list.splits)
  have "bit s m \<longleftrightarrow> m = n" if "m < 64" for m
  proof -
    have "m \<in> set (set_bits_of s) \<longleftrightarrow> bit s m" using that by (simp add: set_bits_of_def del: upt_rec_numeral)
    then show ?thesis using n by simp
  qed
  moreover have "n \<in> set (set_bits_of s)" using n by simp
  then have "n < 64" by (simp add: set_bits_of_def del: upt_rec_numeral)
  ultimately have "s = 2 ^ n" by (intro bit_word_eqI) (auto simp: bit_single)
  then show "single s" using \<open>n < 64\<close> by (auto simp: single_def)
qed (auto simp: single_def to_signum_exp)

interpretation signal_events: event_system sq_do sq_empty sq_allowed sq_inv
proof
  show "sq_inv sq_empty"
    by (simp add: sq_inv_def sq_empty_def timer_items_def std_items_def)
next
  fix e q assume a: "sq_allowed e" and ok: "sq_inv q"
  show "sq_inv (sq_do e q)"
  proof (cases e)
    case (Enqueue p)
    then show ?thesis using a ok by (simp only: sq_do.simps sq_allowed.simps to_signum_single sq_inv_enqueue)
  qed (use ok in \<open>simp_all add: sq_inv_dequeue sq_inv_remove_signal sq_inv_remove_timer
      sq_inv_remove_signals\<close>)
qed

section \<open>Properties\<close>

text \<open>
  C16. The queue is consistent after any sequence of enqueues of single signals, dequeues and
  removals: every item is one signal, the cached bitmap has exactly the signals of the items, a
  POSIX timer has at most one item, a standard signal that no timer sent is queued at most once,
  and at most 64 items do not belong to a timer.
\<close>

theorem signal_queue_consistent:
  assumes "list_all sq_allowed es"
  shows "sq_inv (fold sq_do es sq_empty)"
  using assms by (rule signal_events.good_trace)

definition plain_signal :: "nat \<Rightarrow> PendingSignal" where
  "plain_signal n =
     \<lparr>ps_signal = 2 ^ n, ps_siginfo = new_with_sender_value (n + 1) 0 0 7 0, ps_timer_event = None\<rparr>"

theorem signal_queue_consistent_witness:
  "list_all sq_allowed [Enqueue (plain_signal 9), Enqueue (plain_signal 9), Enqueue (plain_signal 40),
     Enqueue (plain_signal 40), Dequeue (2 ^ 40)]
   \<and> sq_inv (fold sq_do [Enqueue (plain_signal 9), Enqueue (plain_signal 9), Enqueue (plain_signal 40),
     Enqueue (plain_signal 40), Dequeue (2 ^ 40)] sq_empty)"
proof -
  let ?es = "[Enqueue (plain_signal 9), Enqueue (plain_signal 9), Enqueue (plain_signal 40),
    Enqueue (plain_signal 40), Dequeue (2 ^ 40)]"
  have all: "list_all sq_allowed ?es"
    using to_signum_exp [of 9] to_signum_exp [of 40] by (simp add: plain_signal_def)
  show ?thesis using all signal_queue_consistent [OF all] by (rule conjI)
qed

text \<open>
  C38. A dequeue takes the oldest matching signal and loses no other. On a consistent queue it
  returns nothing exactly when no signal of the requested set is pending in the bitmap, and then
  changes nothing; otherwise it returns the first item in queue order that belongs to the set and
  leaves all others in order, and the bitmap has exactly the signals that are left.
\<close>

theorem dequeue_takes_oldest:
  assumes ok: "sq_inv q"
  shows "case dequeue_matching wanted q of
      (None, q') \<Rightarrow> q' = q \<and> sq_bitmap q AND wanted = 0
    | (Some p, q') \<Rightarrow> sq_bitmap q AND wanted \<noteq> 0
        \<and> (\<exists>us vs. sq_queue q = us @ p # vs \<and> sq_queue q' = us @ vs
             \<and> sig_contains wanted (ps_signal p)
             \<and> (\<forall>u \<in> set us. \<not> sig_contains wanted (ps_signal u)))
        \<and> (\<forall>n. bit (sq_bitmap q') n \<longleftrightarrow> (\<exists>x \<in> set (sq_queue q'). bit (ps_signal x) n))"
proof (cases "extract_first (\<lambda>p. sig_contains wanted (ps_signal p)) (sq_queue q)")
  case None
  have "\<not> bit (sq_bitmap q AND wanted) n" for n
  proof
    assume "bit (sq_bitmap q AND wanted) n"
    then obtain p where p: "p \<in> set (sq_queue q)" "bit (ps_signal p) n" "bit wanted n"
      using sq_invD(2) [OF ok, of n] by (auto simp: bit_and_iff)
    have "sig_contains wanted (ps_signal p)"
      using contains_iff_bit [OF sq_invD(1) [OF ok p(1)] p(2)] p(3) by simp
    then show False using None p(1) by (auto simp: extract_first_None)
  qed
  then have "sq_bitmap q AND wanted = 0" by (intro bit_word_eqI) simp
  then show ?thesis using None by (simp add: dequeue_matching_def)
next
  case (Some pr)
  obtain p rest where pr: "pr = (p, rest)" by (rule prod.exhaust)
  obtain us vs where uv: "sq_queue q = us @ p # vs" "rest = us @ vs"
    "sig_contains wanted (ps_signal p)" "\<forall>u \<in> set us. \<not> sig_contains wanted (ps_signal u)"
    using extract_first_Some [OF Some [unfolded pr]] by blast
  define q' where "q' = refresh_bitmap_for (ps_signal p) (q\<lparr>sq_queue := us @ vs\<rparr>)"
  have deq: "dequeue_matching wanted q = (Some p, q')"
    using Some uv(2) by (simp add: dequeue_matching_def pr q'_def)
  have p: "p \<in> set (sq_queue q)" using uv(1) by simp
  then obtain n where n: "n < 64" "ps_signal p = 2 ^ n"
    using sq_invD(1) [OF ok] by (auto simp: single_def)
  then have "bit (ps_signal p) n" "bit wanted n" using uv(3) by (simp_all add: bit_single contains_single)
  then have "bit (sq_bitmap q AND wanted) n"
    using sq_invD(2) [OF ok, of n] p by (auto simp: bit_and_iff)
  then have "sq_bitmap q AND wanted \<noteq> 0" by auto
  then show ?thesis
    unfolding deq prod.case option.case
    using uv sq_inv_remove(2) [OF ok uv(1)] sq_invD(2) [OF sq_inv_remove(1) [OF ok uv(1)]]
    unfolding q'_def by blast
qed

definition two_signals :: SignalQueue where
  "two_signals = fold sq_do [Enqueue (plain_signal 9), Enqueue (plain_signal 40)] sq_empty"

lemma two_signals_inv: "sq_inv two_signals"
  unfolding two_signals_def by (rule signal_events.good_trace)
    (use to_signum_exp [of 9] to_signum_exp [of 40] in \<open>simp add: plain_signal_def\<close>)

theorem dequeue_takes_oldest_witness:
  "sq_inv two_signals \<and> sq_bitmap two_signals AND 2 ^ 40 \<noteq> 0
   \<and> fst (dequeue_matching (2 ^ 40) two_signals) = Some (plain_signal 40)"
proof -
  have "fst (dequeue_matching (2 ^ 40) two_signals) = Some (plain_signal 40)" by code_simp
  then show ?thesis using dequeue_takes_oldest [OF two_signals_inv, of "2 ^ 40"] two_signals_inv
    by (cases "dequeue_matching (2 ^ 40) two_signals") simp
qed

lemma flood_queue:
  assumes "n \<le> 64"
  shows "fold sq_do (replicate n (Enqueue (plain_signal 40))) sq_empty =
    \<lparr>sq_bitmap = (if n = 0 then 0 else 2 ^ 40), sq_queue = replicate n (plain_signal 40)\<rparr>"
  using assms
proof (induction n)
  case (Suc n)
  have rt: "is_realtime_signal (2 ^ 40)" by (rule iffD2 [OF is_realtime_exp]) simp_all
  show ?case
    unfolding replicate_append_same [symmetric] replicate_Suc fold_append
    using Suc rt by (simp add: sq_enqueue_def plain_signal_def MAX_QUEUED_SIGNALS_def sig_insert_def)
qed (simp add: sq_empty_def)

text \<open>
  C39. A queue full of real-time signals refuses SIGKILL. After 64 real-time signals have been
  queued, which any process may send itself while it blocks them, the limit for queued signals
  also rejects the standard signal SIGKILL that is not pending yet: the call fails with EAGAIN
  and the queue is unchanged.
\<close>

theorem full_queue_refuses_sigkill:
  "sq_enqueue (plain_signal 8) (fold sq_do (replicate 64 (Enqueue (plain_signal 40))) sq_empty)
     = (Inl EAGAIN, fold sq_do (replicate 64 (Enqueue (plain_signal 40))) sq_empty)
   \<and> ps_signal (plain_signal 8) = SIGKILL
   \<and> \<not> is_realtime_signal SIGKILL"
proof -
  have k: "ps_signal (plain_signal 8) = SIGKILL" by (simp add: plain_signal_def SIGKILL_def)
  have std: "\<not> is_realtime_signal (2 ^ 8)" using is_realtime_exp [of 8] by simp
  have "\<not> sig_contains (2 ^ 40) (2 ^ 8)" by (subst contains_single) (simp_all add: bit_single)
  then show ?thesis
    using k std unfolding flood_queue [OF order_refl]
    by (simp add: sq_enqueue_def MAX_QUEUED_SIGNALS_def plain_signal_def SIGKILL_def)
qed

text \<open>
  C40. The action table is a function of the signal number. Setting the action of a signal changes
  that signal only and is what a later query returns; an exec resets every handler and keeps
  exactly the signals that are explicitly ignored.
\<close>

theorem sighand_table:
  assumes "1 \<le> n"
  shows "sighand_get (sighand_set t n a) m = (if m = n then a else sighand_get t m)
     \<and> (sighand_get (reset_for_exec t) m = Some x \<longleftrightarrow>
          sighand_get t m = Some x \<and> sa_handler x = SIG_IGN)"
proof
  show "sighand_get (sighand_set t n a) m = (if m = n then a else sighand_get t m)"
    using assms
    by (auto simp: sighand_get_def sighand_set_def Let_def saturating_sub_def checked_sub_def
      nth_list_update nth_append)
  show "sighand_get (reset_for_exec t) m = Some x \<longleftrightarrow>
       sighand_get t m = Some x \<and> sa_handler x = SIG_IGN"
    by (auto simp: sighand_get_def reset_for_exec_def checked_sub_def split: option.splits)
qed

definition sample_action :: SigAction where
  "sample_action = \<lparr>sa_handler = SIG_IGN, sa_flags = 0, sa_restorer = 0, sa_mask = 0\<rparr>"

theorem sighand_table_witness:
  "(1::nat) \<le> 17 \<and> sighand_get (sighand_set [] 17 (Some sample_action)) 17 = Some sample_action
   \<and> sighand_get (reset_for_exec (sighand_set [] 17 (Some sample_action))) 17 = Some sample_action"
  using sighand_table [of 17 "[]" "Some sample_action" 17 sample_action]
    sighand_table [of 17 "sighand_set [] 17 (Some sample_action)" None 17 sample_action]
  by (simp add: sample_action_def)

end
