(* ===== verification/Spec2Isabelle.thy ===== *)
theory Spec2Isabelle
  imports TidAlloc Timer UserMemory FatFile LockManager PendingSignals
begin

text \<open>
  MangoCore is a monolithic Unix-like kernel in Rust for RISC-V and LoongArch. This library models
  parts of the kernel under \<open>src/os/src\<close> and proves what they promise. The parts are the virtual
  memory of a process, from the page table to the memory system calls; the page cache of a file
  on a FAT32 backend; POSIX record locks; pending signals and signal actions; thread ids; and
  clock arithmetic.

  \<^bold>\<open>Conventions.\<close> Every definition translates the Rust function of the same name unless its theory
  says otherwise. A struct is a record, an enum a datatype, a bitflags type or a fixed-width
  integer with bit operations a machine word, \<open>usize\<close> a natural number with the checked,
  saturating and wrapping operations written out, \<open>i64\<close> and \<open>isize\<close> an integer. A \<open>BTreeMap\<close> is the
  list of its entries in key order. An operation takes the state and returns the new one;
  \<open>Result\<close> is a sum with the error on the left; where a panic is possible the result is an option
  and \<open>None\<close> is the panic. Loops are recursive functions with a termination proof; a loop that is
  not obviously finite is a \<open>partial_function (option)\<close>, for which \<open>None\<close> also stands for running
  forever, and the theorems about it state that it returns \<open>Some\<close>. No model uses fuel.

  \<^bold>\<open>Shared vocabulary.\<close> \<open>Prelude\<close>: machine integers, ordered maps, page intervals. \<open>MmTypes\<close>:
  addresses, page numbers, permissions, mapping flags and error numbers (\<open>mm/address.rs\<close>,
  \<open>hal/arch/riscv/config.rs\<close>, \<open>syscall/errno.rs\<close>). \<open>EventSystem\<close>: invariants of systems driven by
  sequences of events.

  \<^bold>\<open>Virtual memory.\<close> The layers of the code, bottom up:
  \<^item> \<open>Sv39\<close> (\<open>hal/arch/riscv/sv39.rs\<close>): entries and the three-level walk over the memory of table
    frames. \<open>Sv39Props\<close> shows what a client sees: mapping, translating and unmapping a page, the
    frame condition for other pages and when a map can fail.
  \<^item> \<open>MmuGather\<close> (\<open>mm/mmu_gather.rs\<close>, \<open>mm/tlb.rs\<close>): recording changed pages and retiring frames
    until the flush is done.
  \<^item> \<open>UserMapper\<close> (\<open>mm/page_table.rs\<close>, \<open>mm/user_mapper.rs\<close>): the trait \<open>PageTable\<close> as a record of
    operations, and its contract as the locale \<open>page_table\<close>. The upper layers are proved over that
    locale; \<open>AddressSpace\<close> interprets it (\<open>sv39\<close>) with the operations of \<open>Sv39\<close>.
  \<^item> \<open>FrameStore\<close> (\<open>mm/frame_store.rs\<close>) and \<open>Vma\<close> (\<open>mm/vma.rs\<close>): the page states of one area and the
    operations on one area.
  \<^item> \<open>VmaSet\<close>, \<open>VmaSetOps\<close> (\<open>mm/vma_set.rs\<close>): the ordered areas, the table of free mmap ranges and the
    range operations behind munmap, mprotect, madvise, mincore and mlock. \<open>HoleTable\<close> proves the
    free table against the locale \<open>page_pool\<close>; \<open>AreaSet\<close> and \<open>VmaSetInv\<close> give the invariant \<open>vs_inv\<close>
    and the abstraction \<open>page_view\<close>, the attributes of every page of the address space.
  \<^item> \<open>Unmap\<close>, \<open>Protect\<close>, \<open>Advise\<close>: the loops over areas return, keep the invariants and have exactly
    the page-wise effect of the call. \<open>MmapSearch\<close>: the search for a free range is complete.
  \<^item> \<open>MmapOps\<close> (\<open>mm/address_space.rs\<close>, \<open>mm/mmap.rs\<close>, \<open>mm/sysctl.rs\<close>, \<open>syscall/process/mm.rs\<close>): the
    system calls on \<open>AddressSpaceInner\<close>. \<open>MmapSpace\<close> and \<open>Brk\<close> prove mmap, munmap and brk over any
    page table; \<open>AddressSpace\<close> and \<open>UserMemory\<close> state the results for Sv39.

  What may fail or is chosen outside these files (free frames, zram, swap, reference counts, other
  processors' flushes) is answered by the record \<open>mm_env\<close>. The theorems that need it assume that
  the reservation of memory for bookkeeping succeeds (\<open>env_reserve\<close>); the witnesses instantiate the
  environment.

  \<^bold>\<open>Page cache.\<close> \<open>PageEntry\<close>, \<open>PageCache\<close> and \<open>PageCacheOps\<close> translate \<open>fs/page_cache.rs\<close>: the flag word of
  a page with the protocol of writers, faults and the writeback worker, then the cache of one
  inode. \<open>PageEntry\<close> treats interleavings: the steps of any number of actors on one page are an
  inductive relation, and unsaved bytes never become unreachable. The other theories run one
  operation at a time: \<open>PageCacheInv\<close> has the invariant and the abstraction (the bytes of the file,
  from the cache where there is a page and from the backend elsewhere), \<open>PageCacheRead\<close>,
  \<open>PageCacheFetch\<close>, \<open>PageCacheWrite\<close>, \<open>PageCacheSync\<close>, \<open>PageCacheFlush\<close> and \<open>PageCacheEvict\<close> the effect of
  each operation on it, \<open>FileData\<close> the whole write as a client calls it. The backend is the locale
  \<open>page_backend\<close>; \<open>FatBackend\<close> interprets it (\<open>fat\<close>) with the sector arithmetic of the FAT32 backend on
  a device that works. \<open>FatFile\<close> states the results and three ways in which bytes are lost.

  \<^bold>\<open>Record locks.\<close> \<open>PosixLock\<close> translates the range operations of \<open>fs/vfs/posix_lock.rs\<close> and proves
  them to be the pointwise update of a table of locks per owner and byte. \<open>LockManager\<close> has the
  shard maps, the wait graph and \<open>posix_lock_set\<close> as a machine with one step per critical section,
  for any number of threads; a sequence of events (calls, steps, signals, closes) is an
  interleaving. Exclusion holds within an entry for every sequence and within a file as long as
  nothing is closed; three sequences show how a close, a downgrade and a stale edge of the wait
  graph break the promise. The deadlock search decides reachability in the wait graph.

  \<^bold>\<open>Signals, ids and time.\<close> \<open>PendingSignals\<close> (\<open>task/signal/pending.rs\<close>, \<open>action.rs\<close>): the queue with its
  cached bitmap and the action table. \<open>TidAlloc\<close> (\<open>task/pid.rs\<close>): the allocator of ids against the
  locale \<open>id_allocator\<close>, interpreted for slot ids and thread ids. \<open>Timer\<close> (\<open>timer.rs\<close>): fixed-point
  conversion between ticks and nanoseconds, and time arithmetic.

  \<^bold>\<open>Not modelled.\<close> The page fault handler and file mappings (\<open>mm/page_fault.rs\<close>, \<open>mm/filemap.rs\<close>), which
  join the two large parts; the frame, slab and heap allocators; processes, futexes and the
  scheduler; signal delivery; the virtual file system, the file systems apart from the page
  backend of FAT32; networking, drivers, boot code, the LoongArch page table and the entry points
  of the system calls. Much of this code is access to hardware and raw memory, references between
  shared objects, or glue around external crates. Atomic orderings are not modelled: a critical
  section or an atomic operation is one step. Memory of the kernel heap is unbounded except where
  the code itself handles a failed reservation.
\<close>

end
